(* ===== verification/Prelude.thy ===== *)
theory Prelude
  imports Main "HOL-Library.Word"
begin

text \<open>
  Generic material shared by every component: the fact collections, lemmas about lists, the
  record of the type names of the model, and the two interfaces several components implement,
  a growing array (\<open>grow_array\<close>) and an event loop over a sequence of inputs
  (\<open>event_loop\<close>).
\<close>

section \<open>Fact collections and type names\<close>

named_theorems cstr_simps \<open>evaluation rules of the C string functions\<close>

type_synonym environ = "string \<Rightarrow> string option"

section \<open>Lists\<close>

definition strip_last :: "'a \<Rightarrow> 'a list \<Rightarrow> 'a list" where
  "strip_last d xs = (if xs \<noteq> [] \<and> last xs = d then butlast xs else xs)"

fun join :: "'a \<Rightarrow> 'a list list \<Rightarrow> 'a list" where
  "join d [] = []"
| "join d [x] = x"
| "join d (x # y # zs) = x @ d # join d (y # zs)"

lemma join_Cons: "xs \<noteq> [] \<Longrightarrow> join d (x # xs) = x @ d # join d xs"
  by (cases xs) auto

lemma concat_join_snoc: "concat (map (\<lambda>t. t @ [d]) ts) @ acc = join d (ts @ [acc])"
proof (induction ts)
  case Nil
  show ?case by simp
next
  case (Cons t ts)
  then show ?case by (simp add: join_Cons)
qed

lemma concat_join: "ts \<noteq> [] \<Longrightarrow> concat (map (\<lambda>t. t @ [d]) ts) = join d ts @ [d]"
proof (induction ts)
  case Nil
  then show ?case by simp
next
  case (Cons t ts)
  then show ?case by (cases "ts = []") (auto simp: join_Cons)
qed

lemma strip_last_snoc [simp]: "strip_last d (xs @ [d]) = xs"
  by (simp add: strip_last_def)

lemma strip_last_Nil [simp]: "strip_last d [] = []"
  by (simp add: strip_last_def)

lemma length_strip_last: "length (strip_last d xs) \<le> length xs"
  by (simp add: strip_last_def)

lemma join_eq_Nil: "[] \<notin> set xs \<Longrightarrow> join d xs = [] \<longleftrightarrow> xs = []"
  by (cases "(d, xs)" rule: join.cases) auto

lemma foldl_invariant:
  assumes "P a" and "\<And>a x. P a \<Longrightarrow> x \<in> set xs \<Longrightarrow> P (f a x)"
  shows "P (foldl f a xs)"
  using assms by (induction xs arbitrary: a) auto

lemma dropWhile_decreases: "length (dropWhile P xs) \<le> length xs"
  by (induction xs) auto

lemma length_takeWhile_less: "x \<in> set xs \<Longrightarrow> \<not> P x \<Longrightarrow> length (takeWhile P xs) < length xs"
  by (induction xs) auto

section \<open>Growing arrays\<close>

text \<open>
  A growing array holds a list of elements in a block of memory of a known capacity. The client
  pushes elements; the provider promises that after a push the capacity still exceeds the number
  of elements, so that the terminator the C code writes behind the last element is in bounds too.
\<close>

locale grow_array =
  fixes items :: "'v \<Rightarrow> 'a list"
    and cap :: "'v \<Rightarrow> nat"
    and push :: "'a \<Rightarrow> 'v \<Rightarrow> 'v"
  assumes items_push: "items (push x v) = items v @ [x]"
    and room_push: "length (items v) < cap v \<Longrightarrow> length (items (push x v)) < cap (push x v)"
begin

lemma items_push_all: "items (foldl (\<lambda>v x. push x v) v xs) = items v @ xs"
  by (induction xs arbitrary: v) (auto simp: items_push)

lemma room_push_all:
  "length (items v) < cap v \<Longrightarrow>
     length (items (foldl (\<lambda>v x. push x v) v xs)) < cap (foldl (\<lambda>v x. push x v) v xs)"
  by (induction xs arbitrary: v) (auto intro: room_push)

end

section \<open>Event loops\<close>

text \<open>
  The main loop of an interactive program reads one input at a time and either goes on with a new
  state (\<open>Inl\<close>) or ends with a result (\<open>Inr\<close>). \<open>run_loop\<close> runs it over a sequence of
  inputs; \<open>Inl\<close> of a state means that the loop is waiting for more input.
\<close>

fun run_loop :: "('k \<Rightarrow> 's \<Rightarrow> 's + 'r) \<Rightarrow> 's \<Rightarrow> 'k list \<Rightarrow> 's + 'r" where
  "run_loop step s [] = Inl s"
| "run_loop step s (k # ks) =
     (case step k s of Inl s' \<Rightarrow> run_loop step s' ks | Inr r \<Rightarrow> Inr r)"

lemma run_loop_append:
  "run_loop step s (ks @ ks') =
     (case run_loop step s ks of Inl s' \<Rightarrow> run_loop step s' ks' | Inr r \<Rightarrow> Inr r)"
  by (induction ks arbitrary: s) (auto split: sum.splits)

locale event_loop =
  fixes step :: "'k \<Rightarrow> 's \<Rightarrow> 's + 'r"
    and inv :: "'s \<Rightarrow> bool"
    and post :: "'r \<Rightarrow> bool"
  assumes step_inv: "inv s \<Longrightarrow> step k s = Inl s' \<Longrightarrow> inv s'"
    and step_post: "inv s \<Longrightarrow> step k s = Inr r \<Longrightarrow> post r"
begin

lemma run_inv: "inv s \<Longrightarrow> run_loop step s ks = Inl s' \<Longrightarrow> inv s'"
  by (induction ks arbitrary: s) (auto split: sum.splits intro: step_inv)

lemma run_post: "inv s \<Longrightarrow> run_loop step s ks = Inr r \<Longrightarrow> post r"
  by (induction ks arbitrary: s) (auto split: sum.splits intro: step_inv step_post)

end

lemma run_loop_InrE:
  assumes "run_loop step s ks = Inr r"
  obtains ks1 k ks2 s' where "ks = ks1 @ k # ks2" "run_loop step s ks1 = Inl s'" "step k s' = Inr r"
  using assms
proof (induction ks arbitrary: s thesis)
  case Nil
  then show ?case by simp
next
  case (Cons k ks)
  show ?case
  proof (cases "step k s")
    case (Inl s1)
    with Cons.prems(2) have "run_loop step s1 ks = Inr r" by simp
    then obtain ks1 k' ks2 s' where "ks = ks1 @ k' # ks2" "run_loop step s1 ks1 = Inl s'" "step k' s' = Inr r"
      by (rule Cons.IH [rotated])
    with Inl show ?thesis by (intro Cons.prems(1) [of "k # ks1" k' ks2 s']) simp_all
  next
    case (Inr r')
    with Cons.prems(2) show ?thesis by (intro Cons.prems(1) [of "[]" k ks s]) simp_all
  qed
qed

text \<open>
  A loop that refines an abstract one: every step that stays in the loop is, seen through an
  abstraction function, a step of a transition relation, and so a run is a trace of it.
\<close>

inductive trace :: "('k \<Rightarrow> 'a \<Rightarrow> 'a \<Rightarrow> bool) \<Rightarrow> 'a \<Rightarrow> 'k list \<Rightarrow> 'a \<Rightarrow> bool"
  for spec :: "'k \<Rightarrow> 'a \<Rightarrow> 'a \<Rightarrow> bool" where
  trace_Nil: "trace spec a [] a"
| trace_Cons: "spec k a b \<Longrightarrow> trace spec b ks c \<Longrightarrow> trace spec a (k # ks) c"

inductive_simps trace_simps [simp]: "trace spec a [] b" "trace spec a (k # ks) c"

lemma trace_det:
  assumes "\<And>k a b. spec k a b \<longleftrightarrow> b = f k a"
  shows "trace spec a ks b \<longleftrightarrow> b = foldl (\<lambda>a k. f k a) a ks"
  by (induction ks arbitrary: a) (auto simp: assms)

text \<open>Runs of a loop whose states are related to abstract ones by a simulation.\<close>

locale loop_simulation =
  fixes step :: "'k \<Rightarrow> 's \<Rightarrow> 's + 'r"
    and rel :: "'s \<Rightarrow> 'a \<Rightarrow> bool"
    and spec :: "'k \<Rightarrow> 'a \<Rightarrow> 'a \<Rightarrow> bool"
    and post :: "'r \<Rightarrow> bool"
  assumes sim: "rel s a \<Longrightarrow> step k s = Inl s' \<Longrightarrow> \<exists>b. spec k a b \<and> rel s' b"
    and sim_post: "rel s a \<Longrightarrow> step k s = Inr r \<Longrightarrow> post r"
begin

lemma run_sim: "rel s a \<Longrightarrow> run_loop step s ks = Inl s' \<Longrightarrow> \<exists>b. trace spec a ks b \<and> rel s' b"
proof (induction ks arbitrary: s a)
  case Nil
  then show ?case by simp
next
  case (Cons k ks)
  from Cons.prems(2) obtain s1 where s1: "step k s = Inl s1" "run_loop step s1 ks = Inl s'"
    by (auto split: sum.splits)
  from sim [OF Cons.prems(1) s1(1)] obtain b where b: "spec k a b" "rel s1 b" by blast
  from Cons.IH [OF b(2) s1(2)] b(1) show ?case by auto
qed

lemma run_sim_post: "rel s a \<Longrightarrow> run_loop step s ks = Inr r \<Longrightarrow> post r"
  using run_sim sim_post by (blast elim: run_loop_InrE)

end

locale loop_refinement = event_loop step inv post
  for step :: "'k \<Rightarrow> 's \<Rightarrow> 's + 'r" and inv :: "'s \<Rightarrow> bool" and post :: "'r \<Rightarrow> bool" +
  fixes abst :: "'s \<Rightarrow> 'a"
    and spec :: "'k \<Rightarrow> 'a \<Rightarrow> 'a \<Rightarrow> bool"
  assumes step_abs: "inv s \<Longrightarrow> step k s = Inl s' \<Longrightarrow> spec k (abst s) (abst s')"

sublocale loop_refinement \<subseteq> abs: loop_simulation step "\<lambda>s a. inv s \<and> a = abst s" spec post
  by unfold_locales (auto intro: step_inv step_post step_abs)

context loop_refinement
begin

lemma run_trace:
  "inv s \<Longrightarrow> run_loop step s ks = Inl s' \<Longrightarrow> trace spec (abst s) ks (abst s')"
  using abs.run_sim by blast

end

section \<open>Streams\<close>

text \<open>
  An accumulator that is fed a sequence in pieces. The provider promises that after every piece it
  stands for the sequence so far; how the sequence was cut then does not matter.
\<close>

locale streaming =
  fixes update :: "'c \<Rightarrow> 'a list \<Rightarrow> 'c"
    and stands_for :: "'c \<Rightarrow> 'a list \<Rightarrow> bool"
    and piece :: "'a list \<Rightarrow> bool"
  assumes update_stands: "stands_for c m \<Longrightarrow> piece xs \<Longrightarrow> stands_for (update c xs) (m @ xs)"
begin

lemma run_stands:
  "stands_for c m \<Longrightarrow> (\<And>xs. xs \<in> set xss \<Longrightarrow> piece xs) \<Longrightarrow> stands_for (foldl update c xss) (m @ concat xss)"
proof (induction xss arbitrary: c m)
  case Nil
  then show ?case by simp
next
  case (Cons xs xss)
  have "stands_for (update c xs) (m @ xs)" by (rule update_stands) (use Cons.prems in auto)
  from Cons.IH [OF this] Cons.prems show ?case by simp
qed

end

end
