(* ===== verification/CLib.thy ===== *)
theory CLib
  imports Prelude
begin

text \<open>
  The functions of the C standard library that the modelled programs use, on C strings as lists
  of characters without the terminating NUL: \<open>strtok\<close> with one delimiter (\<open>tokens\<close>),
  \<open>strstr\<close>, \<open>strncmp\<close>, \<open>atoi\<close>, \<open>basename\<close>, \<open>fgets\<close> and the
  conversions of \<open>sscanf\<close> that occur (\<open>%d\<close>, \<open>%s\<close>, \<open>%[^c]\<close>, blanks and
  literal characters). Integers are unbounded here: the C standard leaves the conversion of a
  number that does not fit undefined.
\<close>

section \<open>Characters\<close>

definition nul :: char where
  "nul = CHR 0x00"

definition newline :: char where
  "newline = CHR 0x0A"

definition c_isspace :: "char \<Rightarrow> bool" where
  "c_isspace c \<longleftrightarrow> c \<in> {CHR '' '', CHR 0x09, CHR 0x0A, CHR 0x0B, CHR 0x0C, CHR 0x0D}"

definition code :: "char \<Rightarrow> nat" where
  "code c = of_char c"

definition c_isdigit :: "char \<Rightarrow> bool" where
  "c_isdigit c \<longleftrightarrow> 48 \<le> code c \<and> code c \<le> 57"

definition c_isupper :: "char \<Rightarrow> bool" where
  "c_isupper c \<longleftrightarrow> 65 \<le> code c \<and> code c \<le> 90"

definition c_islower :: "char \<Rightarrow> bool" where
  "c_islower c \<longleftrightarrow> 97 \<le> code c \<and> code c \<le> 122"

definition c_isalpha :: "char \<Rightarrow> bool" where
  "c_isalpha c \<longleftrightarrow> c_isupper c \<or> c_islower c"

definition c_tolower :: "char \<Rightarrow> char" where
  "c_tolower c = (if c_isupper c then char_of (code c + 32) else c)"

definition c_toupper :: "char \<Rightarrow> char" where
  "c_toupper c = (if c_islower c then char_of (code c - 32) else c)"

definition c_digit :: "char \<Rightarrow> int" where
  "c_digit c = int (code c) - 48"

definition cstr :: "string \<Rightarrow> string" where
  "cstr bs = takeWhile (\<lambda>c. c \<noteq> nul) bs"

section \<open>Tokens\<close>

text \<open>
  \<open>tokens d s\<close> is the sequence of strings that \<open>strtok(s, d)\<close>,
  \<open>strtok(NULL, d)\<close>, \dots return: the maximal runs of characters other than \<open>d\<close>.
\<close>

fun tokens_acc :: "char \<Rightarrow> string \<Rightarrow> string \<Rightarrow> string list" where
  "tokens_acc d acc [] = (if acc = [] then [] else [acc])"
| "tokens_acc d acc (c # cs) =
     (if c = d then (if acc = [] then tokens_acc d [] cs else acc # tokens_acc d [] cs)
      else tokens_acc d (acc @ [c]) cs)"

definition tokens :: "char \<Rightarrow> string \<Rightarrow> string list" where
  "tokens d s = tokens_acc d [] s"

lemma tokens_acc_not_Nil: "[] \<notin> set (tokens_acc d acc s)"
  by (induction d acc s rule: tokens_acc.induct) auto

lemma tokens_not_Nil [simp]: "[] \<notin> set (tokens d s)"
  by (simp add: tokens_def tokens_acc_not_Nil)

lemma tokens_acc_delim:
  "d \<notin> set acc \<Longrightarrow> t \<in> set (tokens_acc d acc s) \<Longrightarrow> d \<notin> set t"
  by (induction d acc s arbitrary: t rule: tokens_acc.induct) (auto split: if_splits)

lemma tokens_delim: "t \<in> set (tokens d s) \<Longrightarrow> d \<notin> set t"
  unfolding tokens_def by (rule tokens_acc_delim [of d "[]"]) simp_all

lemma tokens_acc_append:
  "d \<notin> set t \<Longrightarrow> tokens_acc d acc (t @ s) = tokens_acc d (acc @ t) s"
  by (induction t arbitrary: acc) auto

lemma tokens_Nil [simp]: "tokens d [] = []"
  by (simp add: tokens_def)

lemma tokens_token:
  "d \<notin> set t \<Longrightarrow> t \<noteq> [] \<Longrightarrow> tokens d (t @ d # s) = t # tokens d s"
  by (simp add: tokens_def tokens_acc_append)

lemma tokens_last_token: "d \<notin> set t \<Longrightarrow> t \<noteq> [] \<Longrightarrow> tokens d t = [t]"
  using tokens_acc_append [of d t "[]" "[]"] by (simp add: tokens_def)

lemma tokens_join:
  "\<forall>t \<in> set ts. t \<noteq> [] \<and> d \<notin> set t \<Longrightarrow> tokens d (join d ts) = ts"
proof (induction ts)
  case Nil
  then show ?case by simp
next
  case (Cons t ts)
  then show ?case
    by (cases "ts = []") (auto simp: join_Cons tokens_token tokens_last_token)
qed

section \<open>Searching and comparing\<close>

text \<open>\<open>strstr\<close> returns the first position at which the second string occurs.\<close>

fun prefix_of :: "string \<Rightarrow> string \<Rightarrow> bool" where
  "prefix_of [] s = True"
| "prefix_of (c # p) [] = False"
| "prefix_of (c # p) (d # s) = (c = d \<and> prefix_of p s)"

fun strstr :: "string \<Rightarrow> string \<Rightarrow> nat option" where
  "strstr [] p = (if p = [] then Some 0 else None)"
| "strstr (c # s) p = (if prefix_of p (c # s) then Some 0 else map_option Suc (strstr s p))"

lemma prefix_of_iff: "prefix_of p s \<longleftrightarrow> (\<exists>r. s = p @ r)"
  by (induction p s rule: prefix_of.induct) auto

lemma prefix_of_append [simp]: "prefix_of p (p @ r)"
  by (auto simp: prefix_of_iff)

lemma strstr_0: "strstr s p = Some 0 \<longleftrightarrow> prefix_of p s"
  by (cases s; cases p) (auto split: if_splits)

text \<open>\<open>strncmp(a, s, strlen(a)) == 0\<close> is \<open>prefix_of a s\<close>.\<close>

definition basename :: "string \<Rightarrow> string" where
  "basename s =
     (if s = [] then ''.''
      else let t = rev (dropWhile (\<lambda>c. c = CHR ''/'') (rev s))
           in if t = [] then ''/'' else rev (takeWhile (\<lambda>c. c \<noteq> CHR ''/'') (rev t)))"

lemma basename_no_slash: "s \<noteq> [] \<Longrightarrow> CHR ''/'' \<notin> set s \<Longrightarrow> basename s = s"
proof -
  assume s: "s \<noteq> []" "CHR ''/'' \<notin> set s"
  then have "dropWhile (\<lambda>c. c = CHR ''/'') (rev s) = rev s"
    by (cases s rule: rev_cases) auto
  moreover from s have "rev (takeWhile (\<lambda>c. c \<noteq> CHR ''/'') (rev s)) = s"
    by (subst takeWhile_eq_all_conv [THEN iffD2]) auto
  ultimately show ?thesis using s by (simp add: basename_def)
qed

section \<open>Numbers\<close>

fun digits_value :: "int \<Rightarrow> string \<Rightarrow> int" where
  "digits_value n [] = n"
| "digits_value n (c # cs) = digits_value (10 * n + c_digit c) cs"

text \<open>The longest number at the start of a string, as \<open>strtol\<close> reads it in base 10.\<close>

definition read_int :: "string \<Rightarrow> (int \<times> string) option" where
  "read_int s =
     (let s1 = dropWhile c_isspace s;
          neg = (s1 \<noteq> [] \<and> hd s1 = CHR ''-'');
          s2 = (if s1 \<noteq> [] \<and> (hd s1 = CHR ''-'' \<or> hd s1 = CHR ''+'') then tl s1 else s1);
          ds = takeWhile c_isdigit s2
      in if ds = [] then None
         else Some ((if neg then - 1 else 1) * digits_value 0 ds, dropWhile c_isdigit s2))"

definition atoi :: "string \<Rightarrow> int" where
  "atoi s = (case read_int s of None \<Rightarrow> 0 | Some (n, _) \<Rightarrow> n)"

text \<open>\<open>%d\<close> of \<open>printf\<close>.\<close>

fun nat_digits :: "nat \<Rightarrow> string" where
  "nat_digits n =
     (if n < 10 then [char_of (48 + n)] else nat_digits (n div 10) @ [char_of (48 + n mod 10)])"

declare nat_digits.simps [simp del]

definition itoa :: "int \<Rightarrow> string" where
  "itoa n = (if n < 0 then CHR ''-'' # nat_digits (nat (- n)) else nat_digits (nat n))"

lemma digits_value_append: "digits_value n (xs @ ys) = digits_value (digits_value n xs) ys"
  by (induction n xs rule: digits_value.induct) auto

lemma digit_char:
  "d < 10 \<Longrightarrow> c_isdigit (char_of (48 + d)) \<and> c_digit (char_of (48 + d)) = int d"
  by (auto simp: c_isdigit_def c_digit_def code_def of_char_of)

lemma nat_digits_value: "digits_value 0 (nat_digits n) = int n"
proof (induction n rule: nat_digits.induct)
  case (1 n)
  show ?case
  proof (cases "n < 10")
    case True
    then show ?thesis by (simp add: nat_digits.simps [of n] digit_char)
  next
    case False
    have "int n = 10 * int (n div 10) + int (n mod 10)"
      by (metis mult_div_mod_eq of_nat_add of_nat_mult of_nat_numeral)
    with False "1" show ?thesis
      by (simp add: nat_digits.simps [of n] digits_value_append digit_char)
  qed
qed

lemma nat_digits_digits: "\<forall>c \<in> set (nat_digits n). c_isdigit c"
proof (induction n rule: nat_digits.induct)
  case (1 n)
  then show ?case by (subst nat_digits.simps) (auto simp: digit_char)
qed

lemma nat_digits_not_Nil [simp]: "nat_digits n \<noteq> []"
  by (subst nat_digits.simps) simp

lemma isdigit_facts: "c_isdigit c \<Longrightarrow> \<not> c_isspace c \<and> c \<noteq> CHR ''-'' \<and> c \<noteq> CHR ''+''"
  by (auto simp: c_isdigit_def c_isspace_def code_def)

lemma hd_nat_digits:
  "\<not> c_isspace (hd (nat_digits n))" "hd (nat_digits n) \<noteq> CHR ''-''" "hd (nat_digits n) \<noteq> CHR ''+''"
  using isdigit_facts nat_digits_digits [of n] by (metis hd_in_set nat_digits_not_Nil)+

lemma dropWhile_hd: "xs \<noteq> [] \<Longrightarrow> \<not> P (hd xs) \<Longrightarrow> dropWhile P (xs @ ys) = xs @ ys"
  by (cases xs) auto

lemma read_digits:
  assumes "s = [] \<or> \<not> c_isdigit (hd s)"
  shows "takeWhile c_isdigit (nat_digits n @ s) = nat_digits n"
    and "dropWhile c_isdigit (nat_digits n @ s) = s"
proof -
  have "takeWhile c_isdigit s = []" "dropWhile c_isdigit s = s" using assms by (cases s; simp)+
  with nat_digits_digits [of n]
  show "takeWhile c_isdigit (nat_digits n @ s) = nat_digits n"
    "dropWhile c_isdigit (nat_digits n @ s) = s"
    by (simp_all add: takeWhile_append2 dropWhile_append2)
qed

text \<open>Reading a printed number gives the number back.\<close>

lemma read_int_itoa:
  assumes "s = [] \<or> \<not> c_isdigit (hd s)"
  shows "read_int (itoa n @ s) = Some (n, s)"
proof (cases "n < 0")
  case True
  have m: "\<not> c_isspace CHR ''-''" by (simp add: c_isspace_def)
  show ?thesis
    using True by (simp add: itoa_def read_int_def m read_digits [OF assms] nat_digits_value)
next
  case False
  have d: "dropWhile c_isspace (nat_digits (nat n) @ s) = nat_digits (nat n) @ s"
    by (intro dropWhile_hd hd_nat_digits nat_digits_not_Nil)
  show ?thesis
    using False hd_nat_digits [of "nat n"]
    by (simp add: itoa_def read_int_def d read_digits [OF assms] nat_digits_value)
qed

lemma hd_itoa: "\<not> c_isspace (hd (itoa n))" "itoa n \<noteq> []"
  using hd_nat_digits by (auto simp: itoa_def c_isspace_def)

section \<open>Formatted input\<close>

datatype directive = Blank | Literal char | ConvD | ConvS | ConvNot char

datatype conv = CInt int | CStr string

fun parse_format :: "string \<Rightarrow> directive list" where
  "parse_format [] = []"
| "parse_format [c] = [if c_isspace c then Blank else Literal c]"
| "parse_format (c # d # s) =
     (if c = CHR ''%'' \<and> d = CHR ''d'' then ConvD # parse_format s
      else if c = CHR ''%'' \<and> d = CHR ''s'' then ConvS # parse_format s
      else if c = CHR ''%'' \<and> d = CHR ''['' \<and> length s \<ge> 3 \<and> s ! 0 = CHR ''^'' \<and> s ! 2 = CHR '']''
        then ConvNot (s ! 1) # parse_format (drop 3 s)
      else (if c_isspace c then Blank else Literal c) # parse_format (d # s))"

fun scan :: "directive list \<Rightarrow> string \<Rightarrow> conv list" where
  "scan [] s = []"
| "scan (Blank # ds) s = scan ds (dropWhile c_isspace s)"
| "scan (Literal c # ds) s =
     (case s of [] \<Rightarrow> [] | x # s' \<Rightarrow> if x = c then scan ds s' else [])"
| "scan (ConvD # ds) s =
     (case read_int s of None \<Rightarrow> [] | Some (n, s') \<Rightarrow> CInt n # scan ds s')"
| "scan (ConvS # ds) s =
     (let s1 = dropWhile c_isspace s; w = takeWhile (\<lambda>c. \<not> c_isspace c) s1
      in if w = [] then [] else CStr w # scan ds (drop (length w) s1))"
| "scan (ConvNot c # ds) s =
     (let w = takeWhile (\<lambda>x. x \<noteq> c) s
      in if w = [] then [] else CStr w # scan ds (drop (length w) s))"

definition sscanf :: "string \<Rightarrow> string \<Rightarrow> conv list" where
  "sscanf s fmt = scan (parse_format fmt) s"

lemma scan_ConvD:
  "s = [] \<or> \<not> c_isdigit (hd s) \<Longrightarrow> scan (ConvD # ds) (itoa n @ s) = CInt n # scan ds s"
  by (simp add: read_int_itoa)

text \<open>Every string a conversion stores is no longer than the scanned line.\<close>

lemma read_int_rest: "read_int s = Some (n, r) \<Longrightarrow> length r \<le> length s"
proof -
  assume *: "read_int s = Some (n, r)"
  define s1 where "s1 = dropWhile c_isspace s"
  define s2 where "s2 = (if s1 \<noteq> [] \<and> (hd s1 = CHR ''-'' \<or> hd s1 = CHR ''+'') then tl s1 else s1)"
  from * have "r = dropWhile c_isdigit s2"
    by (auto simp: read_int_def Let_def s1_def s2_def split: if_splits)
  then have "length r \<le> length s2" by (simp add: dropWhile_decreases)
  also have "\<dots> \<le> length s1" by (simp add: s2_def)
  also have "\<dots> \<le> length s" by (simp add: s1_def dropWhile_decreases)
  finally show ?thesis .
qed

lemma scan_length: "CStr w \<in> set (scan ds s) \<Longrightarrow> length w \<le> length s"
proof (induction ds s rule: scan.induct)
  case (1 s)
  then show ?case by simp
next
  case (2 ds s)
  then show ?case using dropWhile_decreases [of c_isspace s] by fastforce
next
  case (3 c ds s)
  then show ?case by (fastforce split: list.splits if_splits)
next
  case (4 ds s)
  then obtain n r where r: "read_int s = Some (n, r)" and w: "CStr w \<in> set (scan ds r)"
    by (cases "read_int s") auto
  have "length w \<le> length r" using "4.IH" [OF r refl w] .
  then show ?case using read_int_rest [OF r] by simp
next
  case (5 ds s)
  let ?s1 = "dropWhile c_isspace s"
  let ?w = "takeWhile (\<lambda>c. \<not> c_isspace c) ?s1"
  have le: "length ?w \<le> length s"
    using length_takeWhile_le [of _ ?s1] dropWhile_decreases [of c_isspace s] le_trans by blast
  have "w = ?w \<or> length w \<le> length (drop (length ?w) ?s1)"
    using "5" by (auto simp: Let_def split: if_splits)
  then show ?case
    using le dropWhile_decreases [of c_isspace s] by auto
next
  case (6 c ds s)
  let ?w = "takeWhile (\<lambda>x. x \<noteq> c) s"
  have "w = ?w \<or> length w \<le> length (drop (length ?w) s)"
    using "6" by (auto simp: Let_def split: if_splits)
  then show ?case using length_takeWhile_le [of _ s] by auto
qed

section \<open>Line input\<close>

text \<open>
  \<open>fgets(buf, n, f)\<close> stores at most \<open>n - 1\<close> bytes and stops after a newline;
  \<open>None\<close> is the NULL returned at the end of the input.
\<close>

definition line_end :: "nat \<Rightarrow> string \<Rightarrow> nat" where
  "line_end n inp = min (n - 1) (Suc (length (takeWhile (\<lambda>c. c \<noteq> newline) inp)))"

definition fgets :: "nat \<Rightarrow> string \<Rightarrow> (string \<times> string) option" where
  "fgets n inp =
     (if inp = [] then None else Some (take (line_end n inp) inp, drop (line_end n inp) inp))"

lemma fgets_shrinks: "1 < n \<Longrightarrow> fgets n inp = Some (l, r) \<Longrightarrow> length r < length inp"
  by (cases inp) (auto simp: fgets_def line_end_def split: if_splits)

lemma fgets_bound: "0 < n \<Longrightarrow> fgets n inp = Some (l, r) \<Longrightarrow> length l < n"
  by (auto simp: fgets_def line_end_def split: if_splits)

function fgets_all :: "nat \<Rightarrow> string \<Rightarrow> string list" where
  "fgets_all n inp =
     (if n \<le> 1 then []
      else (case fgets n inp of None \<Rightarrow> [] | Some (l, r) \<Rightarrow> l # fgets_all n r))"
  by pat_completeness auto
termination
  by (relation "measure (\<lambda>(n, inp). length inp)") (auto intro: fgets_shrinks [rotated])

declare fgets_all.simps [simp del]

lemma fgets_all_bound: "l \<in> set (fgets_all n inp) \<Longrightarrow> length l < n"
proof (induction n inp rule: fgets_all.induct)
  case (1 n inp)
  from "1.prems" obtain a r where r: "1 < n" "fgets n inp = Some (a, r)"
    and l: "l = a \<or> l \<in> set (fgets_all n r)"
    unfolding fgets_all.simps [of n inp]
    by (cases "fgets n inp") (auto split: if_splits)
  have "length a < n" using r by (intro fgets_bound) auto
  moreover have "l \<in> set (fgets_all n r) \<Longrightarrow> length l < n"
    using "1.IH" [of "(a, r)" a r] r by simp
  ultimately show ?case using l by blast
qed

text \<open>The lines that \<open>fgets\<close> returns are the input, cut into pieces.\<close>

lemma concat_fgets_all: "1 < n \<Longrightarrow> concat (fgets_all n inp) = inp"
proof (induction n inp rule: fgets_all.induct)
  case (1 n inp)
  then show ?case
    by (subst fgets_all.simps) (auto simp: fgets_def split: if_splits)
qed

text \<open>A file of complete lines that fit into the buffer is read line by line.\<close>

lemma line_end_line: "newline \<notin> set s \<Longrightarrow> Suc (length s) < n \<Longrightarrow> line_end n (s @ newline # r) = Suc (length s)"
proof -
  assume s: "newline \<notin> set s" "Suc (length s) < n"
  then have "takeWhile (\<lambda>c. c \<noteq> newline) (s @ newline # r) = s" by (subst takeWhile_append2) auto
  with s(2) show ?thesis by (simp add: line_end_def)
qed

lemma fgets_all_lines:
  "\<forall>s \<in> set ss. newline \<notin> set s \<and> Suc (length s) < n \<Longrightarrow>
     fgets_all n (concat (map (\<lambda>s. s @ [newline]) ss)) = map (\<lambda>s. s @ [newline]) ss"
proof (induction ss)
  case Nil
  show ?case by (subst fgets_all.simps) (simp add: fgets_def)
next
  case (Cons s ss)
  then have "1 < n" "newline \<notin> set s" "Suc (length s) < n" by auto
  then show ?case using Cons
    by (subst fgets_all.simps) (simp add: fgets_def line_end_line)
qed

lemmas [cstr_simps] = tokens_def basename_def sscanf_def read_int_def Let_def c_isspace_def
  c_isdigit_def code_def c_digit_def nul_def newline_def cstr_def atoi_def

end
