(* ===== verification/FlStparse.thy ===== *)
theory FlStparse
  imports CLib
begin

text \<open>
  The parser of system call traces, \<^verbatim>\<open>misc/tools-source/fl_stparse.c\<close>: it follows the working
  directory of every traced process in a table of 512 slots and writes the names of the files
  read and written. The table is a list of slots as the array \<open>procs\<close> is; \<open>exit(1)\<close> is
  \<open>None\<close>. A line of a log file is the pair of the process id and the path it prints. The
  working directory that \<open>chdir\<close> leads to is decided by the kernel: \<open>k_chdir d p\<close> is the
  directory after \<open>chdir(p)\<close> in directory \<open>d\<close>. Option parsing is left out, and so are a working directory that \<open>getcwd\<close> cannot tell (the code would store
  a null pointer) and lines with a NUL byte, at which \<open>sscanf\<close> would stop.
\<close>

section \<open>The process table\<close>

record procs_t =
  pid :: int
  cwd :: "string option"

definition maxprocs :: nat where
  "maxprocs = 512"

definition empty_procs :: "procs_t list" where
  "empty_procs = replicate maxprocs \<lparr>pid = 0, cwd = None\<rparr>"

fun newproc :: "int \<Rightarrow> string \<Rightarrow> procs_t list \<Rightarrow> procs_t list option" where
  "newproc p d [] = None"
| "newproc p d (q # procs) =
     (if pid q = 0 then Some (q\<lparr>pid := p, cwd := Some d\<rparr> # procs)
      else map_option (\<lambda>qs. q # qs) (newproc p d procs))"

fun getproc :: "int \<Rightarrow> procs_t list \<Rightarrow> procs_t option" where
  "getproc p [] = None"
| "getproc p (q # procs) = (if pid q = p then Some q else getproc p procs)"

fun setproc :: "int \<Rightarrow> string \<Rightarrow> procs_t list \<Rightarrow> procs_t list option" where
  "setproc p d [] = None"
| "setproc p d (q # procs) =
     (if pid q = p then Some (q\<lparr>cwd := Some d\<rparr> # procs)
      else map_option (\<lambda>qs. q # qs) (setproc p d procs))"

fun freeproc :: "int \<Rightarrow> procs_t list \<Rightarrow> procs_t list option" where
  "freeproc p [] = None"
| "freeproc p (q # procs) =
     (if pid q = p then Some (q\<lparr>pid := 0, cwd := None\<rparr> # procs)
      else map_option (\<lambda>qs. q # qs) (freeproc p procs))"

text \<open>The working directory the table records for a process; slots with pid 0 are free.\<close>

definition cwd_of :: "procs_t list \<Rightarrow> int \<Rightarrow> string option" where
  "cwd_of procs p = (if p = 0 then None else Option.bind (getproc p procs) cwd)"

definition pids :: "procs_t list \<Rightarrow> int list" where
  "pids procs = filter (\<lambda>p. p \<noteq> 0) (map pid procs)"

definition wf_procs :: "procs_t list \<Rightarrow> bool" where
  "wf_procs procs \<longleftrightarrow>
     length procs = maxprocs \<and> distinct (pids procs) \<and>
     (\<forall>q \<in> set procs. pid q \<noteq> 0 \<longrightarrow> cwd q \<noteq> None)"

text \<open>
  What a client of the table relies on: the table is a finite map from processes to directories;
  creating an entry succeeds as long as the table is not full.
\<close>

locale proc_table =
  fixes ok :: "'t \<Rightarrow> bool"
    and look :: "'t \<Rightarrow> int \<Rightarrow> string option"
    and new :: "int \<Rightarrow> string \<Rightarrow> 't \<Rightarrow> 't option"
    and upd :: "int \<Rightarrow> string \<Rightarrow> 't \<Rightarrow> 't option"
    and del :: "int \<Rightarrow> 't \<Rightarrow> 't option"
  assumes new_ok: "ok t \<Longrightarrow> p \<noteq> 0 \<Longrightarrow> look t p = None \<Longrightarrow> new p d t = Some t' \<Longrightarrow>
      ok t' \<and> look t' = (look t)(p := Some d)"
    and upd_ok: "ok t \<Longrightarrow> p \<noteq> 0 \<Longrightarrow> upd p d t = Some t' \<Longrightarrow> ok t' \<and> look t' = (look t)(p := Some d)"
    and del_ok: "ok t \<Longrightarrow> p \<noteq> 0 \<Longrightarrow> del p t = Some t' \<Longrightarrow> ok t' \<and> look t' = (look t)(p := None)"
    and upd_defined: "ok t \<Longrightarrow> p \<noteq> 0 \<Longrightarrow> (upd p d t = None) = (look t p = None)"
    and del_defined: "ok t \<Longrightarrow> p \<noteq> 0 \<Longrightarrow> (del p t = None) = (look t p = None)"
begin

text \<open>A process that is created and ends leaves the table as it was.\<close>

lemma new_del:
  assumes "ok t" "p \<noteq> 0" "look t p = None" "new p d t = Some t'"
  shows "\<exists>t''. del p t' = Some t'' \<and> ok t'' \<and> look t'' = look t"
proof -
  have t': "ok t'" "look t' = (look t)(p := Some d)" using new_ok [OF assms] by auto
  then obtain t'' where d: "del p t' = Some t''"
    using del_defined [of t' p] assms(2) by (cases "del p t'") auto
  have "look t'' = (look t')(p := None)" "ok t''" using del_ok [OF t'(1) assms(2) d] by auto
  then show ?thesis using d t'(2) assms(3) by (auto simp: fun_upd_idem_iff)
qed

text \<open>Changing the directory of one process does not change that of another.\<close>

lemma upd_frame:
  "ok t \<Longrightarrow> p \<noteq> 0 \<Longrightarrow> upd p d t = Some t' \<Longrightarrow> q \<noteq> p \<Longrightarrow> look t' q = look t q"
  using upd_ok by fastforce

end

section \<open>The table implements the map\<close>

lemma getproc_pid: "getproc p ps = Some q \<Longrightarrow> pid q = p \<and> q \<in> set ps"
  by (induction ps) (auto split: if_splits)

lemma getproc_None: "getproc p ps = None \<longleftrightarrow> p \<notin> set (map pid ps)"
  by (induction ps) auto

lemma pids_set: "p \<noteq> 0 \<Longrightarrow> p \<in> set (pids ps) \<longleftrightarrow> p \<in> set (map pid ps)"
  by (auto simp: pids_def)

lemma cwd_of_None:
  "\<forall>q \<in> set ps. pid q \<noteq> 0 \<longrightarrow> cwd q \<noteq> None \<Longrightarrow> p \<noteq> 0 \<Longrightarrow> cwd_of ps p = None \<longleftrightarrow> p \<notin> set (pids ps)"
proof (cases "getproc p ps")
  case None
  assume "p \<noteq> 0"
  moreover from None have "p \<notin> set (map pid ps)" by (simp only: getproc_None not_False_eq_True)
  ultimately show ?thesis using None pids_set [of p ps] by (simp add: cwd_of_def)
next
  case (Some q)
  assume "\<forall>q \<in> set ps. pid q \<noteq> 0 \<longrightarrow> cwd q \<noteq> None" "p \<noteq> 0"
  with getproc_pid [OF Some] Some show ?thesis by (auto simp: cwd_of_def pids_set)
qed

lemma newproc_length: "newproc p d ps = Some ps' \<Longrightarrow> length ps' = length ps"
  by (induction ps arbitrary: ps') (auto split: if_splits)

lemma pids_Cons: "pids (q # ps) = (if pid q = 0 then pids ps else pid q # pids ps)"
  by (simp add: pids_def)

lemma newproc_pids:
  "p \<noteq> 0 \<Longrightarrow> newproc p d ps = Some ps' \<Longrightarrow> \<exists>xs ys. pids ps = xs @ ys \<and> pids ps' = xs @ p # ys"
proof (induction ps arbitrary: ps')
  case Nil
  then show ?case by simp
next
  case (Cons q ps)
  show ?case
  proof (cases "pid q = 0")
    case True
    with Cons.prems have "pids (q # ps) = [] @ pids ps \<and> pids ps' = [] @ p # pids ps"
      by (auto simp: pids_Cons)
    then show ?thesis by blast
  next
    case False
    with Cons.prems obtain z where z: "newproc p d ps = Some z" "ps' = q # z" by auto
    with Cons.IH [of z] Cons.prems(1) obtain xs ys
      where "pids ps = xs @ ys" "pids z = xs @ p # ys" by blast
    with False z have "pids (q # ps) = (pid q # xs) @ ys \<and> pids ps' = (pid q # xs) @ p # ys"
      by (simp add: pids_Cons)
    then show ?thesis by blast
  qed
qed

lemma newproc_cwd: "newproc p d ps = Some ps' \<Longrightarrow>
    \<forall>q \<in> set ps. pid q \<noteq> 0 \<longrightarrow> cwd q \<noteq> None \<Longrightarrow> \<forall>q \<in> set ps'. pid q \<noteq> 0 \<longrightarrow> cwd q \<noteq> None"
  by (induction ps arbitrary: ps') (fastforce split: if_splits)+

lemma newproc_getproc: "p \<noteq> 0 \<Longrightarrow> p \<notin> set (map pid ps) \<Longrightarrow> newproc p d ps = Some ps' \<Longrightarrow> q \<noteq> 0 \<Longrightarrow>
    Option.bind (getproc q ps') cwd = (if q = p then Some d else Option.bind (getproc q ps) cwd)"
  by (induction ps arbitrary: ps') (auto split: if_splits)

lemma newproc_None: "newproc p d ps = None \<longleftrightarrow> (\<forall>q \<in> set ps. pid q \<noteq> 0)"
  by (induction ps) auto

lemma setproc_pids: "setproc p d ps = Some ps' \<Longrightarrow> map pid ps' = map pid ps"
  by (induction ps arbitrary: ps') (auto split: if_splits)

lemma setproc_cwd: "setproc p d ps = Some ps' \<Longrightarrow>
    \<forall>q \<in> set ps. pid q \<noteq> 0 \<longrightarrow> cwd q \<noteq> None \<Longrightarrow> \<forall>q \<in> set ps'. pid q \<noteq> 0 \<longrightarrow> cwd q \<noteq> None"
  by (induction ps arbitrary: ps') (fastforce split: if_splits)+

lemma setproc_getproc: "setproc p d ps = Some ps' \<Longrightarrow>
    Option.bind (getproc q ps') cwd = (if q = p then Some d else Option.bind (getproc q ps) cwd)"
  by (induction ps arbitrary: ps') (auto split: if_splits)

lemma setproc_None: "setproc p d ps = None \<longleftrightarrow> getproc p ps = None"
  by (induction ps) auto

lemma freeproc_length: "freeproc p ps = Some ps' \<Longrightarrow> length ps' = length ps"
  by (induction ps arbitrary: ps') (auto split: if_splits)

lemma freeproc_pids: "p \<noteq> 0 \<Longrightarrow> freeproc p ps = Some ps' \<Longrightarrow> pids ps' = remove1 p (pids ps)"
  by (induction ps arbitrary: ps') (auto simp: pids_def split: if_splits)

lemma freeproc_cwd: "freeproc p ps = Some ps' \<Longrightarrow>
    \<forall>q \<in> set ps. pid q \<noteq> 0 \<longrightarrow> cwd q \<noteq> None \<Longrightarrow> \<forall>q \<in> set ps'. pid q \<noteq> 0 \<longrightarrow> cwd q \<noteq> None"
  by (induction ps arbitrary: ps') (fastforce split: if_splits)+

lemma freeproc_getproc_other: "freeproc p ps = Some ps' \<Longrightarrow> q \<noteq> p \<Longrightarrow> q \<noteq> 0 \<Longrightarrow> getproc q ps' = getproc q ps"
  by (induction ps arbitrary: ps') (auto split: if_splits)

lemma freeproc_None: "freeproc p ps = None \<longleftrightarrow> getproc p ps = None"
  by (induction ps) auto


lemma newproc_wf:
  assumes "wf_procs t" "p \<noteq> 0" "cwd_of t p = None" "newproc p d t = Some t'"
  shows "wf_procs t' \<and> cwd_of t' = (cwd_of t)(p := Some d)"
proof
  have fresh: "p \<notin> set (pids t)"
    using assms(1-3) cwd_of_None [of t p] by (auto simp: wf_procs_def)
  then have fresh': "p \<notin> set (map pid t)" using assms(2) pids_set by blast
  have "distinct (pids t')"
    using newproc_pids [OF assms(2,4)] fresh assms(1) by (auto simp: wf_procs_def)
  then show "wf_procs t'"
    using assms(1) newproc_length [OF assms(4)] newproc_cwd [OF assms(4)]
    by (simp add: wf_procs_def)
  show "cwd_of t' = (cwd_of t)(p := Some d)"
    using newproc_getproc [OF assms(2) fresh' assms(4)] assms(2) by (auto simp: cwd_of_def)
qed

lemma setproc_wf:
  assumes "wf_procs t" "p \<noteq> 0" "setproc p d t = Some t'"
  shows "wf_procs t' \<and> cwd_of t' = (cwd_of t)(p := Some d)"
proof
  show "wf_procs t'"
    using assms setproc_pids [OF assms(3)] setproc_cwd [OF assms(3)]
    by (simp add: wf_procs_def pids_def) (metis length_map)
  show "cwd_of t' = (cwd_of t)(p := Some d)"
    using setproc_getproc [OF assms(3)] assms(2) by (auto simp: cwd_of_def)
qed

lemma freeproc_wf:
  assumes "wf_procs t" "p \<noteq> 0" "freeproc p t = Some t'"
  shows "wf_procs t' \<and> cwd_of t' = (cwd_of t)(p := None)"
proof
  have pp: "pids t' = remove1 p (pids t)" by (rule freeproc_pids) fact+
  show wf: "wf_procs t'"
    using assms(1) pp freeproc_length [OF assms(3)] freeproc_cwd [OF assms(3)]
    by (simp add: wf_procs_def distinct_remove1)
  have "p \<notin> set (pids t')" using assms(1) pp by (simp add: wf_procs_def)
  then have "cwd_of t' p = None" using wf assms(2) cwd_of_None [of t' p] by (simp add: wf_procs_def)
  moreover have "cwd_of t' q = cwd_of t q" if "q \<noteq> p" for q
    using that freeproc_getproc_other [OF assms(3)] by (simp add: cwd_of_def)
  ultimately show "cwd_of t' = (cwd_of t)(p := None)" by auto
qed

lemma getproc_cwd_of: "wf_procs t \<Longrightarrow> p \<noteq> 0 \<Longrightarrow> getproc p t = None \<longleftrightarrow> cwd_of t p = None"
  using cwd_of_None [of t p] by (simp add: wf_procs_def getproc_None pids_set)

interpretation pt: proc_table wf_procs cwd_of newproc setproc freeproc
proof (unfold_locales, goal_cases)
  case 1
  then show ?case by (rule newproc_wf)
next
  case 2
  then show ?case by (rule setproc_wf)
next
  case 3
  then show ?case by (rule freeproc_wf)
next
  case 4
  then show ?case unfolding setproc_None by (rule getproc_cwd_of)
next
  case 5
  then show ?case unfolding freeproc_None by (rule getproc_cwd_of)
qed

lemma getproc_replicate [simp]: "p \<noteq> 0 \<Longrightarrow> getproc p (replicate n \<lparr>pid = 0, cwd = None\<rparr>) = None"
  by (induction n) auto

lemma wf_empty_procs: "wf_procs empty_procs" "cwd_of empty_procs = Map.empty"
proof -
  show "wf_procs empty_procs" by (simp add: wf_procs_def empty_procs_def pids_def)
  show "cwd_of empty_procs = Map.empty" by (rule ext) (simp add: cwd_of_def empty_procs_def)
qed

section \<open>Classifying a line of the trace\<close>

text \<open>
  The tests of the main loop in their order. \<open>Open\<close> carries whether the flags contain
  \<open>O_RDONLY\<close> and \<open>O_DIRECTORY\<close>; \<open>Change\<close> is any call that creates or modifies its
  path (for \<open>link\<close>, \<open>symlink\<close> and \<open>rename\<close> the second one).
\<close>

datatype call =
    Fork int int
  | Exit int
  | Chdir int string
  | Open int string bool bool
  | Change int string
  | Other

definition scan_ints :: "string \<Rightarrow> string \<Rightarrow> (int \<times> int) option" where
  "scan_ints line fmt =
     (case sscanf line fmt of [CInt a, CInt b] \<Rightarrow> Some (a, b) | _ \<Rightarrow> None)"

definition scan_path :: "string \<Rightarrow> string \<Rightarrow> (int \<times> string) option" where
  "scan_path line fmt =
     (case sscanf line fmt of [CInt a, CStr s] \<Rightarrow> Some (a, s) | _ \<Rightarrow> None)"

definition scan_two_paths :: "string \<Rightarrow> string \<Rightarrow> (int \<times> string) option" where
  "scan_two_paths line fmt =
     (case sscanf line fmt of [CInt a, CStr _, CStr s] \<Rightarrow> Some (a, s) | _ \<Rightarrow> None)"

fun first_some :: "'a option list \<Rightarrow> 'a option" where
  "first_some [] = None"
| "first_some (None # xs) = first_some xs"
| "first_some (Some x # xs) = Some x"

definition is_fork :: "string \<Rightarrow> (int \<times> int) option" where
  "is_fork line = first_some (map (scan_ints line)
     [''%d fork() = %d'', ''%d vfork() = %d'',
      ''%d <... fork resumed> ) = %d'', ''%d <... vfork resumed> ) = %d''])"

definition is_exit :: "string \<Rightarrow> (int \<times> int) option" where
  "is_exit line = first_some (map (scan_ints line) [''%d _exit(%d'', ''%d exit_group(%d''])"

definition is_open :: "string \<Rightarrow> (int \<times> string \<times> string) option" where
  "is_open line =
     (case sscanf line ''%d open(\"%[^\"]\", %s'' of
        [CInt a, CStr buf1, CStr buf2] \<Rightarrow> Some (a, buf1, buf2) | _ \<Rightarrow> None)"

definition is_change :: "string \<Rightarrow> (int \<times> string) option" where
  "is_change line = first_some
     [scan_path line ''%d mkdir(\"%[^\"]\", '', scan_path line ''%d utime(\"%[^\"]\", '',
      scan_two_paths line ''%d link(\"%[^\"]\", \"%[^\"]\"'',
      scan_two_paths line ''%d symlink(\"%[^\"]\", \"%[^\"]\"'',
      scan_two_paths line ''%d rename(\"%[^\"]\", \"%[^\"]\"'']"

definition classify :: "string \<Rightarrow> call" where
  "classify line =
     (case is_fork line of Some (p, q) \<Rightarrow> Fork p q
      | None \<Rightarrow> (case is_exit line of Some (p, _) \<Rightarrow> Exit p
      | None \<Rightarrow> (case scan_path line ''%d chdir(\"%[^\"]'' of Some (p, d) \<Rightarrow> Chdir p d
      | None \<Rightarrow> (case is_open line of
            Some (p, f, flags) \<Rightarrow> Open p f (strstr flags ''O_RDONLY'' \<noteq> None) (strstr flags ''O_DIRECTORY'' \<noteq> None)
      | None \<Rightarrow> (case is_change line of Some (p, f) \<Rightarrow> Change p f
      | None \<Rightarrow> Other)))))"

section \<open>The main loop\<close>

record st_state =
  procs :: "procs_t list"
  wlog :: "(int \<times> string) list"
  rlog :: "(int \<times> string) list"

text \<open>The path as it is logged: relative names below the directory of the process.\<close>

definition log_path :: "int \<Rightarrow> string \<Rightarrow> procs_t list \<Rightarrow> (int \<times> string) option" where
  "log_path p f ps =
     (if f \<noteq> [] \<and> hd f = CHR ''/'' then Some (p, f)
      else (case getproc p ps of
              None \<Rightarrow> None
            | Some q \<Rightarrow>
                (let sp1 = (case cwd q of Some d \<Rightarrow> d | None \<Rightarrow> []);
                     sp1 = (if sp1 = ''/'' then [] else sp1)
                 in Some (p, sp1 @ ''/'' @ f))))"

fun do_call :: "(string \<Rightarrow> string \<Rightarrow> string) \<Rightarrow> call \<Rightarrow> st_state \<Rightarrow> st_state option" where
  "do_call k_chdir (Fork p q) s =
     (case getproc p (procs s) of
        None \<Rightarrow> None
      | Some e \<Rightarrow>
          map_option (\<lambda>ps. s\<lparr>procs := ps\<rparr>)
            (newproc q (case cwd e of Some d \<Rightarrow> d | None \<Rightarrow> []) (procs s)))"
| "do_call k_chdir (Exit p) s = map_option (\<lambda>ps. s\<lparr>procs := ps\<rparr>) (freeproc p (procs s))"
| "do_call k_chdir (Chdir p f) s =
     (case getproc p (procs s) of
        None \<Rightarrow> None
      | Some e \<Rightarrow>
          map_option (\<lambda>ps. s\<lparr>procs := ps\<rparr>)
            (setproc p (k_chdir (case cwd e of Some d \<Rightarrow> d | None \<Rightarrow> []) f) (procs s)))"
| "do_call k_chdir (Open p f rdonly directory) s =
     (if directory then Some s
      else (case log_path p f (procs s) of
              None \<Rightarrow> None
            | Some l \<Rightarrow> Some (if rdonly then s\<lparr>rlog := rlog s @ [l]\<rparr> else s\<lparr>wlog := wlog s @ [l]\<rparr>)))"
| "do_call k_chdir (Change p f) s =
     (case log_path p f (procs s) of
        None \<Rightarrow> None
      | Some l \<Rightarrow> Some (s\<lparr>wlog := wlog s @ [l]\<rparr>))"
| "do_call k_chdir Other s = Some s"

fun st_loop :: "(string \<Rightarrow> string \<Rightarrow> string) \<Rightarrow> string list \<Rightarrow> st_state \<Rightarrow> st_state option" where
  "st_loop k_chdir [] s = Some s"
| "st_loop k_chdir (line # lines) s =
     (case do_call k_chdir (classify line) s of
        None \<Rightarrow> None
      | Some s' \<Rightarrow> st_loop k_chdir lines s')"

definition st_main :: "(string \<Rightarrow> string \<Rightarrow> string) \<Rightarrow> string \<Rightarrow> string \<Rightarrow> st_state option" where
  "st_main k_chdir getcwd inp =
     (case fgets_all 1024 inp of
        [] \<Rightarrow> None
      | line # lines \<Rightarrow>
          (case sscanf line ''%d'' of
             [CInt p] \<Rightarrow>
               (case newproc p getcwd empty_procs of
                  None \<Rightarrow> None
                | Some ps \<Rightarrow> st_loop k_chdir (line # lines) \<lparr>procs = ps, wlog = [], rlog = []\<rparr>)
           | _ \<Rightarrow> None))"

text \<open>A log as it is written to its file.\<close>

definition log_lines :: "(int \<times> string) list \<Rightarrow> string" where
  "log_lines l = concat (map (\<lambda>(p, f). itoa p @ '': '' @ f @ [newline]) l)"

section \<open>The specification and the refinement\<close>

text \<open>
  Abstractly the parser keeps a finite map from processes to working directories. A call of an
  unknown process is an error.
\<close>

record spec_state =
  dirs :: "int \<Rightarrow> string option"
  written :: "(int \<times> string) list"
  read_only :: "(int \<times> string) list"

definition abs_st :: "st_state \<Rightarrow> spec_state" where
  "abs_st s = \<lparr>dirs = cwd_of (procs s), written = wlog s, read_only = rlog s\<rparr>"

definition full_path :: "string \<Rightarrow> string \<Rightarrow> string" where
  "full_path d f = (if d = ''/'' then ''/'' @ f else d @ ''/'' @ f)"

definition spec_path :: "spec_state \<Rightarrow> int \<Rightarrow> string \<Rightarrow> string option" where
  "spec_path s p f = (if f \<noteq> [] \<and> hd f = CHR ''/'' then Some f else map_option (\<lambda>d. full_path d f) (dirs s p))"

fun spec_call :: "(string \<Rightarrow> string \<Rightarrow> string) \<Rightarrow> call \<Rightarrow> spec_state \<Rightarrow> spec_state option" where
  "spec_call k (Fork p q) s = map_option (\<lambda>d. s\<lparr>dirs := (dirs s)(q := Some d)\<rparr>) (dirs s p)"
| "spec_call k (Exit p) s = map_option (\<lambda>_. s\<lparr>dirs := (dirs s)(p := None)\<rparr>) (dirs s p)"
| "spec_call k (Chdir p f) s = map_option (\<lambda>d. s\<lparr>dirs := (dirs s)(p := Some (k d f))\<rparr>) (dirs s p)"
| "spec_call k (Open p f rdonly directory) s =
     (if directory then Some s
      else map_option (\<lambda>g. if rdonly then s\<lparr>read_only := read_only s @ [(p, g)]\<rparr>
                           else s\<lparr>written := written s @ [(p, g)]\<rparr>) (spec_path s p f))"
| "spec_call k (Change p f) s = map_option (\<lambda>g. s\<lparr>written := written s @ [(p, g)]\<rparr>) (spec_path s p f)"
| "spec_call k Other s = Some s"

text \<open>
  The calls a kernel's trace contains: process ids are positive, and \<open>fork\<close> returns the id
  of no live process.
\<close>

fun call_ok :: "st_state \<Rightarrow> call \<Rightarrow> bool" where
  "call_ok s (Fork p q) \<longleftrightarrow> p \<noteq> 0 \<and> q \<noteq> 0 \<and> cwd_of (procs s) q = None \<and> (\<exists>e \<in> set (procs s). pid e = 0)"
| "call_ok s (Exit p) \<longleftrightarrow> p \<noteq> 0"
| "call_ok s (Chdir p f) \<longleftrightarrow> p \<noteq> 0"
| "call_ok s (Open p f r d) \<longleftrightarrow> p \<noteq> 0"
| "call_ok s (Change p f) \<longleftrightarrow> p \<noteq> 0"
| "call_ok s Other \<longleftrightarrow> True"

lemma getproc_cwd:
  assumes "wf_procs ps" "p \<noteq> 0"
  shows "(getproc p ps = None \<and> cwd_of ps p = None) \<or>
         (\<exists>e d. getproc p ps = Some e \<and> cwd e = Some d \<and> cwd_of ps p = Some d)"
  using assms getproc_cwd_of [OF assms] by (cases "getproc p ps") (auto simp: cwd_of_def)

lemma log_path_spec:
  assumes "wf_procs (procs s)" "p \<noteq> 0"
  shows "log_path p f (procs s) = map_option (\<lambda>g. (p, g)) (spec_path (abs_st s) p f)"
  using getproc_cwd [OF assms]
  by (auto simp: log_path_def spec_path_def abs_st_def full_path_def Let_def)

lemma do_call_refines:
  assumes wf: "wf_procs (procs s)" and ok: "call_ok s c"
  shows "map_option abs_st (do_call k c s) = spec_call k c (abs_st s) \<and>
         (\<forall>s'. do_call k c s = Some s' \<longrightarrow> wf_procs (procs s'))"
proof (cases c)
  case (Fork p q)
  with ok have pq: "p \<noteq> 0" "q \<noteq> 0" "cwd_of (procs s) q = None" by auto
  have "newproc q d (procs s) \<noteq> None" for d using Fork ok by (auto simp: newproc_None)
  then show ?thesis
    using Fork getproc_cwd [OF wf pq(1)] pt.new_ok [OF wf pq(2,3)]
    by (fastforce simp: abs_st_def)
next
  case (Exit p)
  with ok have p: "p \<noteq> 0" by simp
  show ?thesis
    using Exit getproc_cwd [OF wf p] pt.del_ok [OF wf p] pt.del_defined [OF wf p]
    by (cases "freeproc p (procs s)") (fastforce simp: abs_st_def)+
next
  case (Chdir p f)
  with ok have p: "p \<noteq> 0" by simp
  from getproc_cwd [OF wf p] show ?thesis
  proof (elim disjE exE conjE)
    fix e d assume e: "getproc p (procs s) = Some e" "cwd e = Some d" "cwd_of (procs s) p = Some d"
    then obtain t where "setproc p (k d f) (procs s) = Some t"
      using pt.upd_defined [OF wf p, of "k d f"] by (cases "setproc p (k d f) (procs s)") auto
    then show ?thesis using Chdir e pt.upd_ok [OF wf p, of "k d f" t] by (simp add: abs_st_def)
  qed (simp add: Chdir abs_st_def)
next
  case (Open p f r d)
  with ok log_path_spec [OF wf, of p f] show ?thesis
    using wf by (cases "spec_path (abs_st s) p f") (simp_all add: abs_st_def)
next
  case (Change p f)
  with ok log_path_spec [OF wf, of p f] show ?thesis
    using wf by (cases "spec_path (abs_st s) p f") (simp_all add: abs_st_def)
next
  case Other
  with wf show ?thesis by simp
qed

text \<open>The specification over a whole trace, and the calls of a trace along the run.\<close>

fun spec_loop :: "(string \<Rightarrow> string \<Rightarrow> string) \<Rightarrow> call list \<Rightarrow> spec_state \<Rightarrow> spec_state option" where
  "spec_loop k [] s = Some s"
| "spec_loop k (c # cs) s = (case spec_call k c s of None \<Rightarrow> None | Some s' \<Rightarrow> spec_loop k cs s')"

fun trace_ok :: "(string \<Rightarrow> string \<Rightarrow> string) \<Rightarrow> string list \<Rightarrow> st_state \<Rightarrow> bool" where
  "trace_ok k [] s \<longleftrightarrow> True"
| "trace_ok k (l # ls) s \<longleftrightarrow>
     call_ok s (classify l) \<and>
     (case do_call k (classify l) s of None \<Rightarrow> True | Some s' \<Rightarrow> trace_ok k ls s')"

lemma st_loop_refines:
  "wf_procs (procs s) \<Longrightarrow> trace_ok k ls s \<Longrightarrow>
     map_option abs_st (st_loop k ls s) = spec_loop k (map classify ls) (abs_st s)"
proof (induction ls arbitrary: s)
  case Nil
  then show ?case by simp
next
  case (Cons l ls)
  from Cons.prems have r: "map_option abs_st (do_call k (classify l) s) = spec_call k (classify l) (abs_st s)"
      "\<And>s'. do_call k (classify l) s = Some s' \<Longrightarrow> wf_procs (procs s')"
    using do_call_refines [of s "classify l" k] by auto
  show ?case
  proof (cases "do_call k (classify l) s")
    case None
    with r(1) show ?thesis by simp
  next
    case (Some s')
    with r(2) Cons.prems Cons.IH [of s'] show ?thesis by (simp add: r(1) [symmetric])
  qed
qed

section \<open>Recognising printed lines\<close>

lemma scan_ConvNot:
  "f \<noteq> [] \<Longrightarrow> c \<notin> set f \<Longrightarrow> scan (ConvNot c # ds) (f @ c # s) = CStr f # scan ds (c # s)"
proof -
  assume f: "f \<noteq> []" "c \<notin> set f"
  then have "takeWhile (\<lambda>x. x \<noteq> c) (f @ c # s) = f" by (subst takeWhile_append2) auto
  with f show ?thesis by (simp add: Let_def)
qed

lemma blank_space: "c_isspace CHR '' ''"
  by (simp add: c_isspace_def)

lemma scan_Blank: "scan (Blank # ds) (CHR '' '' # s) = scan (Blank # ds) s"
  by (simp add: blank_space)

lemma dropWhile_itoa [simp]: "dropWhile c_isspace (itoa n @ s) = itoa n @ s"
  by (intro dropWhile_hd hd_itoa)

lemma read_int_blank [simp]: "read_int (itoa n @ CHR '' '' # s) = Some (n, CHR '' '' # s)"
  by (rule read_int_itoa) (simp add: c_isdigit_def code_def)

text \<open>
  Every test of the classification starts with a process id, a blank and the name of a call; a
  line with another name fails it after the id.
\<close>

lemmas classify_defs = classify_def is_fork_def is_exit_def is_open_def is_change_def
  scan_ints_def scan_path_def scan_two_paths_def

lemma classify_fork:
  assumes "s = [] \<or> \<not> c_isdigit (hd s)"
  shows "classify (itoa p @ '' fork() = '' @ itoa q @ s) = Fork p q"
proof -
  have "scan_ints (itoa p @ '' fork() = '' @ itoa q @ s) ''%d fork() = %d'' = Some (p, q)"
    by (simp add: scan_ints_def sscanf_def read_int_itoa [OF assms] c_isspace_def)
  then show ?thesis by (simp add: classify_def is_fork_def)
qed

lemma classify_open:
  assumes "f \<noteq> []" "CHR ''\"'' \<notin> set f" "flags \<noteq> []" "\<forall>c \<in> set flags. \<not> c_isspace c"
  shows "classify (itoa p @ '' open(\"'' @ f @ ''\", '' @ flags @ [CHR '' '']) =
           Open p f (strstr flags ''O_RDONLY'' \<noteq> None) (strstr flags ''O_DIRECTORY'' \<noteq> None)"
proof -
  let ?l = "itoa p @ '' open(\"'' @ f @ ''\", '' @ flags @ [CHR '' '']"
  have t: "takeWhile (\<lambda>x. x \<noteq> CHR ''\"'') (f @ CHR ''\"'' # s) = f" for s
    using assms(2) by (subst takeWhile_append2) auto
  have d: "dropWhile c_isspace (flags @ [CHR '' '']) = flags @ [CHR '' '']"
    using assms(3,4) by (cases flags) auto
  have w: "takeWhile (\<lambda>c. \<not> c_isspace c) (flags @ [CHR '' '']) = flags"
    using assms(4) by (subst takeWhile_append2) (auto simp: blank_space)
  have "is_open ?l = Some (p, f, flags)"
    using assms by (simp add: is_open_def sscanf_def t d w blank_space Let_def c_isspace_def [of "CHR ''(''"]
       c_isspace_def)
  moreover have "is_fork ?l = None" "is_exit ?l = None"
    "scan_path ?l ''%d chdir(\"%[^\"]'' = None"
    by (simp_all add: is_fork_def is_exit_def scan_ints_def scan_path_def sscanf_def c_isspace_def)
  ultimately show ?thesis by (simp add: classify_def)
qed

lemma newproc_empty:
  "newproc p d empty_procs =
     Some (\<lparr>pid = p, cwd = Some d\<rparr> # replicate 511 \<lparr>pid = 0, cwd = None\<rparr>)"
proof -
  have "empty_procs = \<lparr>pid = 0, cwd = None\<rparr> # replicate 511 \<lparr>pid = 0, cwd = None\<rparr>"
    unfolding empty_procs_def maxprocs_def by (subst replicate_Suc [symmetric]) simp
  then show ?thesis by (rule ssubst) simp
qed

section \<open>Properties\<close>

lemma st_main_refines:
  assumes "fgets_all 1024 inp = line # lines" "sscanf line ''%d'' = [CInt p]" "p \<noteq> 0"
    and "newproc p d empty_procs = Some ps"
    and "trace_ok k (line # lines) \<lparr>procs = ps, wlog = [], rlog = []\<rparr>"
  shows "map_option abs_st (st_main k d inp) =
           spec_loop k (map classify (line # lines))
             \<lparr>dirs = [p \<mapsto> d], written = [], read_only = []\<rparr>"
proof -
  let ?s = "\<lparr>procs = ps, wlog = [], rlog = []\<rparr>"
  have ps: "wf_procs ps" "cwd_of ps = [p \<mapsto> d]"
    using pt.new_ok [OF wf_empty_procs(1) assms(3) _ assms(4)] by (simp_all add: wf_empty_procs(2))
  then have "map_option abs_st (st_loop k (line # lines) ?s) =
      spec_loop k (map classify (line # lines)) (abs_st ?s)"
    using assms(5) by (intro st_loop_refines) simp_all
  then show ?thesis using assms(1,2,4) ps(2) by (simp add: st_main_def abs_st_def)
qed

text \<open>
  C5. The whole parser refines its specification: on every trace whose process ids are those of
  a kernel (non-zero, and fresh at a fork) and for which the table has room, it ends with the
  same directory of every process and the same two logs as the specification with a finite map,
  and it fails exactly when the specification fails, on a call of an unknown process.
\<close>

theorem trace_refinement:
  assumes "fgets_all 1024 inp = line # lines" "sscanf line ''%d'' = [CInt p]" "p \<noteq> 0"
    and "newproc p d empty_procs = Some ps"
    and "trace_ok k (line # lines) \<lparr>procs = ps, wlog = [], rlog = []\<rparr>"
  shows "map_option abs_st (st_main k d inp) =
           spec_loop k (map classify (line # lines))
             \<lparr>dirs = [p \<mapsto> d], written = [], read_only = []\<rparr>"
  using assms by (rule st_main_refines)

lemma trace_refinement_witness:
  "map_option abs_st (st_main (\<lambda>d p. p) ''/src'' ''7 fork() = 8'') =
     Some \<lparr>dirs = [7 \<mapsto> ''/src'', 8 \<mapsto> ''/src''], written = [], read_only = []\<rparr>"
proof -
  have l: "fgets_all 1024 ''7 fork() = 8'' = [''7 fork() = 8'']"
    by (simp add: fgets_all.simps [of 1024 "''7 fork() = 8''"] fgets_all.simps [of 1024 "[]"]
        fgets_def line_end_def newline_def)
  have p: "sscanf ''7 fork() = 8'' ''%d'' = [CInt 7]"
    by (simp add: cstr_simps)
  have c: "classify ''7 fork() = 8'' = Fork 7 8"
    by (simp add: classify_def is_fork_def scan_ints_def cstr_simps)
  have "trace_ok (\<lambda>d p. p) [''7 fork() = 8'']
      \<lparr>procs = \<lparr>pid = 7, cwd = Some ''/src''\<rparr> # replicate 511 \<lparr>pid = 0, cwd = None\<rparr>, wlog = [], rlog = []\<rparr>"
    by (simp add: c cwd_of_def split: option.split)
  from trace_refinement [OF l p _ newproc_empty this] show ?thesis
    by (simp add: c)
qed

text \<open>
  A printed \<open>open\<close> line is recognised: for every process id, every file name without a
  quote and every word of flags, the line of that call is read back as this call, is logged as
  a read exactly when the flags contain O\_RDONLY, and a directory is not logged.
\<close>

theorem open_line_recognised:
  assumes "f \<noteq> []" "CHR ''\"'' \<notin> set f" "flags \<noteq> []" "\<forall>c \<in> set flags. \<not> c_isspace c"
    and "wf_procs (procs s)" "p \<noteq> 0" "dirs (abs_st s) p = Some d"
  shows "map_option abs_st
           (do_call k (classify (itoa p @ '' open(\"'' @ f @ ''\", '' @ flags @ [CHR '' ''])) s) =
         Some (if strstr flags ''O_DIRECTORY'' \<noteq> None then abs_st s
               else let g = (if hd f = CHR ''/'' then f else full_path d f)
                    in if strstr flags ''O_RDONLY'' \<noteq> None
                       then (abs_st s)\<lparr>read_only := read_only (abs_st s) @ [(p, g)]\<rparr>
                       else (abs_st s)\<lparr>written := written (abs_st s) @ [(p, g)]\<rparr>)"
  unfolding classify_open [OF assms(1-4)]
  using assms by (simp add: log_path_spec spec_path_def Let_def abs_st_def)

lemma open_line_recognised_witness:
  "let s = \<lparr>procs = \<lparr>pid = 7, cwd = Some ''/src''\<rparr> # replicate 511 \<lparr>pid = 0, cwd = None\<rparr>, wlog = [], rlog = []\<rparr>
   in map_option abs_st (do_call (\<lambda>d p. p) (classify (itoa 7 @ '' open(\"a.c\", O_RDONLY) '')) s) =
        Some ((abs_st s)\<lparr>read_only := [(7, ''/src/a.c'')]\<rparr>)"
proof -
  let ?ps = "\<lparr>pid = 7, cwd = Some ''/src''\<rparr> # replicate 511 \<lparr>pid = 0, cwd = None\<rparr>"
  let ?s = "\<lparr>procs = ?ps, wlog = [], rlog = []\<rparr>"
  have wf: "wf_procs ?ps"
    using pt.new_ok [OF wf_empty_procs(1) _ _ newproc_empty [of 7 "''/src''"]]
    by (simp add: wf_empty_procs(2))
  have "dirs (abs_st ?s) 7 = Some ''/src''" by (simp add: abs_st_def cwd_of_def)
  from open_line_recognised [OF _ _ _ _ _ _ this, of "''a.c''" "''O_RDONLY)''" "\<lambda>d p. p"] wf
  show ?thesis
    by (simp add: Let_def full_path_def c_isspace_def abs_st_def)
qed

text \<open>
  The table is exhausted exactly when 512 processes are live: in a well-formed table a new
  process is refused (the parser exits) if and only if all slots are in use.
\<close>

theorem table_full:
  assumes "wf_procs ps"
  shows "newproc p d ps = None \<longleftrightarrow> length (pids ps) = 512"
proof -
  have "length (pids ps) = length ps \<longleftrightarrow> (\<forall>q \<in> set ps. pid q \<noteq> 0)"
  proof (induction ps)
    case Nil
    then show ?case by (simp add: pids_def)
  next
    case (Cons q ps)
    have "length (pids ps) \<le> length (map pid ps)" unfolding pids_def by (rule length_filter_le)
    with Cons show ?case by (auto simp: pids_Cons)
  qed
  then show ?thesis using assms by (simp add: newproc_None wf_procs_def maxprocs_def)
qed

lemma table_full_witness: "newproc 5 ''/'' empty_procs \<noteq> None"
  using table_full [OF wf_empty_procs(1), of 5 "''/''"] by (simp add: pids_def empty_procs_def)

end
