(* ===== verification/FlWrparse.thy ===== *)
theory FlWrparse
  imports CLib
begin

text \<open>
  The reader of the logs that the flist wrapper library writes (\<^verbatim>\<open>misc/tools-source/fl_wrparse.c\<close>): it
  turns the names of the log into real names below a root directory and drops files that do not exist,
  empty directories and names outside the root. The file system is a parameter. The two small tools that
  read file lists the same way (\<^verbatim>\<open>getfiles.c\<close>, \<^verbatim>\<open>getdu.c\<close>) are here too.
\<close>

section \<open>The file system\<close>

datatype file_type = Regular nat | Directory | Other

text \<open>
  What the program asks of it, from the current directory: the directory that \<open>chdir\<close> leads to, by its
  absolute name; the type of a file, with the size of a regular one; the entries of a directory. A working
  directory is the string that \<open>getcwd\<close> returns.
\<close>

record file_system =
  chdir :: "string \<Rightarrow> string \<Rightarrow> string option"
  lstat :: "string \<Rightarrow> string \<Rightarrow> file_type option"
  scandir :: "string \<Rightarrow> string \<Rightarrow> string list option"

definition go_to :: "file_system \<Rightarrow> string \<Rightarrow> string \<Rightarrow> string" where
  "go_to fs cwd p = (case chdir fs cwd p of Some d \<Rightarrow> d | None \<Rightarrow> cwd)"

section \<open>Real names\<close>

text \<open>The position of the last slash splits a name.\<close>

definition split_name :: "string \<Rightarrow> string \<times> string" where
  "split_name name =
     (if CHR ''/'' \<in> set name
      then let r = rev name; file = takeWhile (\<lambda>c. c \<noteq> CHR ''/'') r
           in (rev (drop (length file + 1) r), rev file)
      else (''.'', name))"

text \<open>The real name, and the working directory afterwards: the function goes to the directory and back.\<close>

definition get_realname :: "file_system \<Rightarrow> string \<Rightarrow> string \<Rightarrow> string \<times> string" where
  "get_realname fs cwd name =
     (if name = ''/'' then (''/'', cwd)
      else let (dir, last_part) = split_name name; d = go_to fs cwd dir
           in ((if d \<noteq> ''/'' then d @ ''/'' else d) @ last_part, go_to fs d cwd))"

text \<open>A directory that cannot be read makes the loop run over memory before the list: \<open>None\<close>.\<close>

definition dir_empty :: "file_system \<Rightarrow> string \<Rightarrow> string \<Rightarrow> bool option" where
  "dir_empty fs cwd name = map_option (list_all (\<lambda>e. e = ''.'' \<or> e = ''..'')) (scandir fs cwd name)"

section \<open>The options\<close>

record config =
  nodircheck :: bool
  stripinfo :: bool
  package :: "string option"
  rootdir :: "string option"

text \<open>The options that \<open>getopt\<close> finds with their arguments; any other character is an error.\<close>

fun options :: "file_system \<Rightarrow> (char \<times> string) list \<Rightarrow> config \<times> string \<Rightarrow> (config \<times> string) option" where
  "options fs [] cs = Some cs"
| "options fs ((opt, optarg) # opts) (c, cwd) =
     (if opt = CHR ''d'' then options fs opts (c, cwd)
      else if opt = CHR ''D'' then options fs opts (c\<lparr>nodircheck := True\<rparr>, cwd)
      else if opt = CHR ''s'' then options fs opts (c\<lparr>stripinfo := True\<rparr>, cwd)
      else if opt = CHR ''p'' then options fs opts (c\<lparr>package := Some optarg\<rparr>, cwd)
      else if opt = CHR ''r'' then (let (r, cwd') = get_realname fs cwd optarg in options fs opts (c\<lparr>rootdir := Some r\<rparr>, cwd'))
      else None)"

section \<open>The lines\<close>

text \<open>The name on a line: behind the first blank or tab if there is a column of information.\<close>

definition name_of :: "config \<Rightarrow> string \<Rightarrow> string option" where
  "name_of c line =
     (let fn = (if stripinfo c
                then (case dropWhile (\<lambda>x. x \<noteq> CHR 0x09 \<and> x \<noteq> CHR '' '') line of [] \<Rightarrow> None | _ # r \<Rightarrow> Some r)
                else Some line)
      in case fn of
           None \<Rightarrow> None
         | Some f \<Rightarrow> let g = takeWhile (\<lambda>x. x \<noteq> newline) f in if g = [] then None else Some g)"

datatype verdict = Skip | Broken | Print string

text \<open>What becomes of a name: it must exist, must not be an empty directory, and must be below the root.\<close>

definition judge :: "file_system \<Rightarrow> config \<Rightarrow> string \<Rightarrow> string \<Rightarrow> verdict" where
  "judge fs c cwd fn =
     (case lstat fs cwd fn of
        None \<Rightarrow> Skip
      | Some t \<Rightarrow>
          (let accept =
             (let real = fst (get_realname fs cwd fn)
              in case rootdir c of
                   None \<Rightarrow> Print real
                 | Some r \<Rightarrow> if prefix_of r real then Print (drop (length r) real) else Skip)
           in if t = Directory \<and> \<not> nodircheck c
              then (case dir_empty fs cwd fn of None \<Rightarrow> Broken | Some e \<Rightarrow> if e then Skip else accept)
              else accept))"

text \<open>The working directory after a name was looked at.\<close>

definition cwd_after :: "file_system \<Rightarrow> config \<Rightarrow> string \<Rightarrow> string \<Rightarrow> string" where
  "cwd_after fs c cwd fn =
     (if lstat fs cwd fn = None \<or> (lstat fs cwd fn = Some Directory \<and> \<not> nodircheck c \<and> dir_empty fs cwd fn = Some True)
      then cwd else snd (get_realname fs cwd fn))"

definition out_line :: "config \<Rightarrow> string \<Rightarrow> string" where
  "out_line c fn = (case package c of None \<Rightarrow> fn | Some p \<Rightarrow> p @ '': '' @ fn) @ [newline]"

text \<open>The loop over the lines: what is printed, and whether the program reached the end.\<close>

fun parse_lines :: "file_system \<Rightarrow> config \<Rightarrow> string \<Rightarrow> string list \<Rightarrow> string \<times> bool" where
  "parse_lines fs c cwd [] = ([], True)"
| "parse_lines fs c cwd (line # ls) =
     (case name_of c (cstr line) of
        None \<Rightarrow> parse_lines fs c cwd ls
      | Some fn \<Rightarrow>
          (case judge fs c cwd fn of
             Broken \<Rightarrow> ([], False)
           | Skip \<Rightarrow> parse_lines fs c (cwd_after fs c cwd fn) ls
           | Print s \<Rightarrow> (let (out, ok) = parse_lines fs c (cwd_after fs c cwd fn) ls in (out_line c s @ out, ok))))"

definition FILENAME_MAX :: nat where "FILENAME_MAX = 4096"

text \<open>The function \<open>main\<close>: the exit status (none for a crash) and the output.\<close>

definition wr_main :: "file_system \<Rightarrow> string \<Rightarrow> (char \<times> string) list \<Rightarrow> string \<Rightarrow> int option \<times> string" where
  "wr_main fs cwd opts input =
     (case options fs opts (\<lparr>nodircheck = False, stripinfo = False, package = None, rootdir = None\<rparr>, cwd) of
        None \<Rightarrow> (Some 1, [])
      | Some (c, cwd1) \<Rightarrow>
          (let cwd2 = (case rootdir c of None \<Rightarrow> cwd1 | Some r \<Rightarrow> go_to fs cwd1 r);
               (out, ok) = parse_lines fs c cwd2 (fgets_all FILENAME_MAX input)
           in (if ok then Some 0 else None, out)))"

section \<open>The small tools\<close>

text \<open>
  \<^verbatim>\<open>getfiles\<close> prints the names behind the first blank that are regular files and stops at the first line
  without a blank.
\<close>

fun gf_loop :: "file_system \<Rightarrow> string \<Rightarrow> string list \<Rightarrow> string" where
  "gf_loop fs cwd [] = []"
| "gf_loop fs cwd (line # ls) =
     (case dropWhile (\<lambda>x. x \<noteq> CHR '' '') (cstr line) of
        [] \<Rightarrow> []
      | _ # f \<Rightarrow>
          (let fn = takeWhile (\<lambda>x. x \<noteq> newline) f
           in (case lstat fs cwd fn of Some (Regular n) \<Rightarrow> fn @ [newline] | _ \<Rightarrow> []) @ gf_loop fs cwd ls))"

definition gf_main :: "file_system \<Rightarrow> string \<Rightarrow> string list \<Rightarrow> string \<Rightarrow> string" where
  "gf_main fs cwd argv input =
     gf_loop fs (case argv of [] \<Rightarrow> cwd | d # _ \<Rightarrow> go_to fs cwd d) (fgets_all 512 input)"

text \<open>
  \<^verbatim>\<open>getdu\<close> reads pairs of words and adds up the sizes of the files named by the second ones, in an \<open>int\<close>
  of 32 bits; printing the number of megabytes is left out.
\<close>

fun words :: "string \<Rightarrow> string \<Rightarrow> string list" where
  "words acc [] = (if acc = [] then [] else [acc])"
| "words acc (c # s) =
     (if c_isspace c then (if acc = [] then words [] s else acc # words [] s) else words (acc @ [c]) s)"

fun du_loop :: "file_system \<Rightarrow> string \<Rightarrow> int \<Rightarrow> string list \<Rightarrow> int" where
  "du_loop fs cwd sz (_ # fn # ws) =
     du_loop fs cwd
       (case lstat fs cwd fn of
          None \<Rightarrow> sz
        | Some (Regular n) \<Rightarrow> signed_take_bit 31 (signed_take_bit 31 (sz + int n) + 512)
        | Some _ \<Rightarrow> signed_take_bit 31 (sz + 512)) ws"
| "du_loop fs cwd sz _ = sz"

definition du_size :: "file_system \<Rightarrow> string \<Rightarrow> string list \<Rightarrow> string \<Rightarrow> int" where
  "du_size fs cwd argv input =
     du_loop fs (case argv of [] \<Rightarrow> cwd | d # _ \<Rightarrow> go_to fs cwd d) 0 (words [] input)"

section \<open>What is listed\<close>

text \<open>An absolute name of a directory leads there from everywhere.\<close>

definition absolute :: "file_system \<Rightarrow> string \<Rightarrow> string \<Rightarrow> bool" where
  "absolute fs p d \<longleftrightarrow> (\<forall>cwd. chdir fs cwd p = Some d)"

text \<open>An entry of the log: what is known of it, the directory and the last part of the name.\<close>

type_synonym entry = "string \<times> string \<times> string"

definition entry_name :: "entry \<Rightarrow> string" where
  "entry_name e = (case e of (info, dir, base) \<Rightarrow> dir @ CHR ''/'' # base)"

definition entry_line :: "entry \<Rightarrow> string" where
  "entry_line e = fst e @ CHR 0x09 # entry_name e"

definition valid_entry :: "entry \<Rightarrow> bool" where
  "valid_entry e = (case e of (info, dir, base) \<Rightarrow>
     CHR 0x09 \<notin> set info \<and> CHR '' '' \<notin> set info \<and> dir \<noteq> [] \<and> CHR ''/'' \<notin> set base \<and>
     newline \<notin> set (entry_line e) \<and> nul \<notin> set (entry_line e) \<and> Suc (length (entry_line e)) < FILENAME_MAX)"

text \<open>The name of an entry below the root, if the file exists and is there.\<close>

definition real_name :: "file_system \<Rightarrow> string \<Rightarrow> entry \<Rightarrow> string" where
  "real_name fs root e =
     (case e of (info, dir, base) \<Rightarrow>
        let d = go_to fs root dir in (if d = ''/'' then [] else d) @ CHR ''/'' # base)"

definition listed :: "file_system \<Rightarrow> string \<Rightarrow> entry \<Rightarrow> string list" where
  "listed fs root e =
     (if lstat fs root (entry_name e) \<noteq> None \<and> prefix_of (root @ ''/'') (real_name fs root e)
      then [drop (length root + 1) (real_name fs root e)] else [])"

lemma split_name_slash: "CHR ''/'' \<notin> set base \<Longrightarrow> split_name (dir @ CHR ''/'' # base) = (dir, base)"
proof -
  assume b: "CHR ''/'' \<notin> set base"
  then have "takeWhile (\<lambda>c. c \<noteq> CHR ''/'') (rev base @ CHR ''/'' # rev dir) = rev base"
    by (subst takeWhile_append2) auto
  then show ?thesis by (simp add: split_name_def Let_def)
qed

lemma realname_entry:
  assumes "dir \<noteq> []" "CHR ''/'' \<notin> set base"
  shows "get_realname fs cwd (dir @ CHR ''/'' # base) =
           (let d = go_to fs cwd dir in ((if d = ''/'' then [] else d) @ CHR ''/'' # base, go_to fs d cwd))"
proof -
  have "dir @ CHR ''/'' # base \<noteq> ''/''" using assms(1) by (cases dir) auto
  then show ?thesis by (simp add: get_realname_def split_name_slash [OF assms(2)] Let_def)
qed

text \<open>A name directly under the file system root is taken for one in the working directory.\<close>

lemma root_file_misplaced:
  assumes "chdir fs cwd [] = None" "base \<noteq> []" "CHR ''/'' \<notin> set base" "cwd \<noteq> ''/''"
  shows "fst (get_realname fs cwd (CHR ''/'' # base)) = cwd @ CHR ''/'' # base"
  using assms split_name_slash [of base "[]"] by (simp add: get_realname_def go_to_def Let_def)

text \<open>The name behind a column of information, which a blank or a tab ends.\<close>

lemma name_behind:
  assumes "CHR 0x09 \<notin> set info" "CHR '' '' \<notin> set info" "x = CHR 0x09 \<or> x = CHR '' ''"
    and "newline \<notin> set nm" "nul \<notin> set (info @ nm)" "nm \<noteq> []" "stripinfo c"
  shows "name_of c (cstr (info @ x # nm @ [newline])) = Some nm"
proof -
  let ?sep = "\<lambda>x. x \<noteq> CHR 0x09 \<and> x \<noteq> CHR '' ''"
  have "nul \<noteq> newline" "x \<noteq> nul" using assms(3) by (auto simp: nul_def newline_def)
  then have c: "cstr (info @ x # nm @ [newline]) = info @ x # nm @ [newline]"
    using assms(5) by (auto simp: cstr_def takeWhile_eq_all_conv)
  have "dropWhile ?sep (info @ x # nm @ [newline]) = x # nm @ [newline]"
    using assms(1-3) by (subst dropWhile_append2) auto
  moreover have "takeWhile (\<lambda>x. x \<noteq> newline) (nm @ [newline]) = nm"
    using assms(4) by (subst takeWhile_append2) auto
  ultimately show ?thesis using assms(6,7) by (simp add: name_of_def c)
qed

text \<open>A line of a log and the entry it stands for.\<close>

definition names_entry :: "config \<Rightarrow> string \<Rightarrow> entry \<Rightarrow> bool" where
  "names_entry c line e \<longleftrightarrow>
     name_of c (cstr line) = Some (entry_name e) \<and> fst (snd e) \<noteq> [] \<and> CHR ''/'' \<notin> set (snd (snd e))"

lemma entry_line_names:
  assumes "valid_entry e" "stripinfo c"
  shows "names_entry c (entry_line e @ [newline]) e"
proof -
  obtain info dir base where e: "e = (info, dir, base)" by (cases e)
  have v: "CHR 0x09 \<notin> set info" "CHR '' '' \<notin> set info" "newline \<notin> set (entry_name e)" "nul \<notin> set (info @ entry_name e)"
    "dir \<noteq> []" "CHR ''/'' \<notin> set base"
    using assms(1) by (auto simp: valid_entry_def e entry_line_def)
  have "entry_name e \<noteq> []" by (simp add: e entry_name_def)
  from name_behind [OF v(1,2) _ v(3,4) this assms(2), of "CHR 0x09"] v(5,6) show ?thesis
    by (simp add: names_entry_def entry_line_def e)
qed

lemma parse_named:
  assumes c: "c = \<lparr>nodircheck = True, stripinfo = True, package = None, rootdir = Some (root @ ''/'')\<rparr>"
    and root: "absolute fs root root" and es: "list_all (\<lambda>(l, e). names_entry c l e) les"
  shows "parse_lines fs c root (map fst les) =
           (concat (map (\<lambda>n. n @ [newline]) (concat (map (listed fs root) (map snd les)))), True)"
  using es
proof (induction les)
  case Nil
  show ?case by simp
next
  case (Cons le les)
  obtain l info dir base where le: "le = (l, info, dir, base)" by (cases le)
  let ?e = "(info, dir, base)"
  from Cons.prems have v: "name_of c (cstr l) = Some (entry_name ?e)" "dir \<noteq> []" "CHR ''/'' \<notin> set base"
    by (auto simp: names_entry_def le)
  have n: "entry_name ?e = dir @ CHR ''/'' # base" by (simp add: entry_name_def)
  have home: "go_to fs d root = root" for d using root by (simp add: absolute_def go_to_def)
  have real: "get_realname fs root (entry_name ?e) = (real_name fs root ?e, root)"
    unfolding n realname_entry [OF v(2,3)] real_name_def by (simp add: Let_def home)
  have "cwd_after fs c root (entry_name ?e) = root" by (simp add: cwd_after_def real)
  moreover have "judge fs c root (entry_name ?e) =
      (case listed fs root ?e of [] \<Rightarrow> Skip | s # _ \<Rightarrow> Print s)"
    by (cases "lstat fs root (entry_name ?e)") (auto simp: judge_def real listed_def c Let_def)
  moreover have "listed fs root ?e = [] \<or> (\<exists>s. listed fs root ?e = [s])" by (simp add: listed_def)
  ultimately show ?case using Cons v(1) by (auto simp: le c out_line_def)
qed

text \<open>The whole program with the options of the build scripts, on lines that stand for entries.\<close>

lemma wr_main_named:
  assumes "rdir \<noteq> []" "absolute fs rdir root" "absolute fs root root" "absolute fs (root @ ''/'') root" "root \<noteq> ''/''"
    and "c = \<lparr>nodircheck = True, stripinfo = True, package = None, rootdir = Some (root @ ''/'')\<rparr>"
    and "list_all (\<lambda>(l, e). names_entry c (l @ [newline]) e \<and> newline \<notin> set l \<and> Suc (length l) < FILENAME_MAX) les"
  shows "wr_main fs cwd [(CHR ''D'', []), (CHR ''s'', []), (CHR ''r'', rdir @ ''/'')]
      (concat (map (\<lambda>(l, e). l @ [newline]) les)) =
    (Some 0, concat (map (\<lambda>n. n @ [newline]) (concat (map (listed fs root) (map snd les)))))"
proof -
  have go: "go_to fs x rdir = root" "go_to fs x root = root" "go_to fs x (root @ ''/'') = root" for x
    using assms(2-4) by (simp_all add: absolute_def go_to_def)
  have "get_realname fs cwd (rdir @ ''/'') = (root @ ''/'', go_to fs root cwd)"
    using realname_entry [OF assms(1), of "[]"] assms(5) by (simp add: go Let_def)
  then have opts: "options fs [(CHR ''D'', []), (CHR ''s'', []), (CHR ''r'', rdir @ ''/'')]
      (\<lparr>nodircheck = False, stripinfo = False, package = None, rootdir = None\<rparr>, cwd) = Some (c, go_to fs root cwd)"
    by (simp add: assms(6))
  have "\<forall>s \<in> set (map fst les). newline \<notin> set s \<and> Suc (length s) < FILENAME_MAX"
    using assms(7) by (auto simp: list_all_iff)
  note whole = fgets_all_lines [OF this]
  have "(\<lambda>(l, e). l @ [newline]) = (\<lambda>x :: string \<times> entry. fst x @ [newline])" by (simp add: case_prod_unfold)
  with whole have lines: "fgets_all FILENAME_MAX (concat (map (\<lambda>(l, e). l @ [newline]) les)) =
      map fst (map (\<lambda>(l, e). (l @ [newline], e)) les)"
    by (simp add: comp_def case_prod_unfold)
  have "list_all (\<lambda>(l, e). names_entry c l e) (map (\<lambda>(l, e). (l @ [newline], e)) les)"
    using assms(7) by (auto simp: list_all_iff)
  from parse_named [OF assms(6,3) this] show ?thesis
    unfolding wr_main_def opts lines by (simp add: go assms(6) comp_def case_prod_beta)
qed

text \<open>
  C23. Called the way the build scripts do, with a log of files that have a directory part, the program
  prints exactly the names below the root, in the order of the log: of every entry that exists, the real
  name of its directory with the root cut off, followed by the last part of its name.
\<close>

theorem wrparse_lists:
  assumes "rdir \<noteq> []" "absolute fs rdir root" "absolute fs root root" "absolute fs (root @ ''/'') root" "root \<noteq> ''/''"
    and "list_all valid_entry es"
  shows "wr_main fs cwd [(CHR ''D'', []), (CHR ''s'', []), (CHR ''r'', rdir @ ''/'')]
      (concat (map (\<lambda>e. entry_line e @ [newline]) es)) =
    (Some 0, concat (map (\<lambda>n. n @ [newline]) (concat (map (listed fs root) es))))"
proof -
  let ?les = "map (\<lambda>e. (entry_line e, e)) es"
  have "list_all (\<lambda>(l, e). names_entry c (l @ [newline]) e \<and> newline \<notin> set l \<and> Suc (length l) < FILENAME_MAX) ?les"
    if "stripinfo c" for c
    using assms(6) entry_line_names [OF _ that] by (auto simp: list_all_iff valid_entry_def)
  from wr_main_named [OF assms(1-5) refl this, of cwd] show ?thesis by (simp add: comp_def)
qed

text \<open>A file system with two directories.\<close>

definition demo_fs :: file_system where
  "demo_fs = \<lparr>chdir = (\<lambda>cwd p. if p \<in> {''/build'', ''/build/'', ''build''} then Some ''/build''
                   else if p \<in> {''usr'', ''/build/usr''} then Some ''/build/usr'' else Some ''/other''),
     lstat = (\<lambda>cwd p. if p = ''usr/missing'' then None else Some (Regular 100)),
     scandir = (\<lambda>cwd p. None)\<rparr>"

definition demo_entries :: "entry list" where
  "demo_entries = [(''1234.tar:'', ''usr'', ''bin''), (''1234.tar:'', ''usr'', ''missing''), (''1235.ld:'', ''/tmp'', ''x'')]"

theorem wrparse_lists_witness:
  "wr_main demo_fs ''/root'' [(CHR ''D'', []), (CHR ''s'', []), (CHR ''r'', ''build/'')]
     (concat (map (\<lambda>e. entry_line e @ [newline]) demo_entries)) = (Some 0, ''usr/bin'' @ [newline])"
proof -
  have "list_all valid_entry demo_entries"
    by (simp add: demo_entries_def valid_entry_def entry_line_def entry_name_def newline_def nul_def FILENAME_MAX_def)
  from wrparse_lists [OF _ _ _ _ _ this, of "''build''" demo_fs "''/build''" "''/root''"]
  show ?thesis
    by (simp add: demo_fs_def absolute_def listed_def real_name_def go_to_def demo_entries_def entry_name_def Let_def)
qed

end
