(* ===== verification/BashProfiler.thy ===== *)
theory BashProfiler
  imports CLib
begin

text \<open>
  The profiler for bash (\<^verbatim>\<open>misc/tools-source/bash_profiler.c\<close>): a builtin that keeps a list of named stop
  watches. The words of the command and the time of day are arguments; the times are in milliseconds.
\<close>

section \<open>The builtin\<close>

record bprofent =
  ident :: string
  times :: int
  tv_sum :: int
  tv_start :: int

text \<open>Seconds and microseconds, as \<open>gettimeofday\<close> gives them; the division rounds towards zero.\<close>

definition mytime :: "int \<times> int \<Rightarrow> int" where
  "mytime tv = fst tv * 1000 + snd tv div 1000"

text \<open>What one line of the printed table is made of; the average of the sum is computed from it.\<close>

type_synonym row = "int \<times> int \<times> string"

definition row_of :: "bprofent \<Rightarrow> row" where
  "row_of e = (times e, tv_sum e, ident e)"

text \<open>The entry with a name is looked for, and put in front of the list if there is none.\<close>

fun find_entry :: "string \<Rightarrow> bprofent list \<Rightarrow> bprofent option" where
  "find_entry name [] = None"
| "find_entry name (e # es) = (if ident e = name then Some e else find_entry name es)"

definition new_entry :: "string \<Rightarrow> bprofent" where
  "new_entry name = \<lparr>ident = name, times = 0, tv_sum = 0, tv_start = 0\<rparr>"

definition ensure :: "string \<Rightarrow> bprofent list \<Rightarrow> bprofent list" where
  "ensure name es = (if find_entry name es = None then new_entry name # es else es)"

fun modify :: "string \<Rightarrow> (bprofent \<Rightarrow> bprofent) \<Rightarrow> bprofent list \<Rightarrow> bprofent list" where
  "modify name f [] = []"
| "modify name f (e # es) = (if ident e = name then f e # es else e # modify name f es)"

definition apply_mode :: "int \<times> int \<Rightarrow> string \<Rightarrow> bprofent \<Rightarrow> bprofent" where
  "apply_mode now mode e =
     (if mode = ''start'' then e\<lparr>tv_start := mytime now\<rparr>
      else if mode = ''stop'' then e\<lparr>tv_sum := tv_sum e + (mytime now - tv_start e), times := times e + 1\<rparr>
      else e)"

text \<open>The status, the rows that are printed, and the list afterwards.\<close>

definition bprof_builtin :: "int \<times> int \<Rightarrow> string list \<Rightarrow> bprofent list \<Rightarrow> int \<times> row list \<times> bprofent list" where
  "bprof_builtin now words es =
     (case words of
        name # mode # _ \<Rightarrow>
          (if mode = ''print'' \<and> name = ''all'' then (0, map row_of es, es)
           else let es' = modify name (apply_mode now mode) (ensure name es)
                in (0, if mode = ''print'' then map row_of (filter (\<lambda>e. ident e = name) es') else [], es'))
      | _ \<Rightarrow> (1, [], es))"

type_synonym call = "(int \<times> int) \<times> string list"

definition run_calls :: "call list \<Rightarrow> bprofent list" where
  "run_calls cs = foldl (\<lambda>es (now, words). snd (snd (bprof_builtin now words es))) [] cs"

section \<open>The list is a table\<close>

lemma find_entry_ident: "find_entry n es = Some e \<Longrightarrow> ident e = n"
  by (induction es) (auto split: if_splits)

lemma find_entry_None: "find_entry n es = None \<longleftrightarrow> n \<notin> ident ` set es"
  by (induction es) auto

lemma ident_apply_mode [simp]: "ident (apply_mode now mode e) = ident e"
  by (simp add: apply_mode_def)

lemma ident_modify: "(\<And>e. ident (f e) = ident e) \<Longrightarrow> map ident (modify n f es) = map ident es"
  by (induction es) auto

lemma find_modify:
  "(\<And>e. ident (f e) = ident e) \<Longrightarrow>
     find_entry m (modify n f es) = (if m = n then map_option f (find_entry n es) else find_entry m es)"
  by (induction es) auto

lemma find_ensure: "find_entry m (ensure n es) =
    (if m = n \<and> find_entry n es = None then Some (new_entry n) else find_entry m es)"
  by (auto simp: ensure_def new_entry_def)

lemma distinct_ensure: "distinct (map ident es) \<Longrightarrow> distinct (map ident (ensure n es))"
  by (auto simp: ensure_def find_entry_None new_entry_def)

text \<open>What a call does to the stop watch with the name \<open>n\<close>.\<close>

definition concerns :: "string \<Rightarrow> call \<Rightarrow> bool" where
  "concerns n c = (case snd c of name # mode # _ \<Rightarrow> name = n \<and> \<not> (mode = ''print'' \<and> name = ''all'') | _ \<Rightarrow> False)"

definition tally :: "string \<Rightarrow> bprofent option \<Rightarrow> call \<Rightarrow> bprofent option" where
  "tally n w c =
     (if concerns n c
      then Some (apply_mode (fst c) (snd c ! 1) (case w of None \<Rightarrow> new_entry n | Some e \<Rightarrow> e)) else w)"

lemma bprof_tally:
  "find_entry n (snd (snd (bprof_builtin now words es))) = tally n (find_entry n es) (now, words)"
  by (auto simp: bprof_builtin_def tally_def concerns_def Let_def find_modify find_ensure
      split: list.splits option.splits)

lemma bprof_distinct:
  "distinct (map ident es) \<Longrightarrow> distinct (map ident (snd (snd (bprof_builtin now words es))))"
  by (auto simp: bprof_builtin_def Let_def ident_modify distinct_ensure split: list.splits)

lemma run_tally: "find_entry n (run_calls cs) = foldl (tally n) None cs"
proof (induction cs rule: rev_induct)
  case (snoc c cs)
  then show ?case by (cases c) (simp add: run_calls_def bprof_tally)
qed (simp add: run_calls_def)

lemma tally_filter: "foldl (tally n) w cs = foldl (tally n) w (filter (concerns n) cs)"
  by (induction cs arbitrary: w) (auto simp: tally_def)

text \<open>
  Whatever is called, the list has one entry for each name, and the entry of a name is what the calls
  for this name alone make of it.
\<close>

theorem bprof_entries:
  "distinct (map ident (run_calls cs)) \<and> find_entry n (run_calls cs) = foldl (tally n) None (filter (concerns n) cs)"
proof
  show "distinct (map ident (run_calls cs))"
  proof (induction cs rule: rev_induct)
    case (snoc c cs)
    then show ?case by (cases c) (simp add: run_calls_def bprof_distinct)
  qed (simp add: run_calls_def)
  show "find_entry n (run_calls cs) = foldl (tally n) None (filter (concerns n) cs)"
    by (simp only: run_tally tally_filter [of n None cs])
qed

section \<open>Measuring\<close>

definition interval :: "string \<Rightarrow> (int \<times> int) \<times> (int \<times> int) \<Rightarrow> call list" where
  "interval n p = [(fst p, [n, ''start'']), (snd p, [n, ''stop''])]"

definition lasted :: "(int \<times> int) \<times> (int \<times> int) \<Rightarrow> int" where
  "lasted p = mytime (snd p) - mytime (fst p)"

lemma tally_interval:
  "foldl (tally n) (Some e) (interval n p) =
     Some (e\<lparr>tv_start := mytime (fst p), tv_sum := tv_sum e + lasted p, times := times e + 1\<rparr>)"
  by (simp add: interval_def tally_def concerns_def apply_mode_def lasted_def)

lemma tally_intervals:
  "\<exists>w. foldl (tally n) (Some e) (concat (map (interval n) ps)) = Some w \<and>
       times w = times e + int (length ps) \<and> tv_sum w = tv_sum e + sum_list (map lasted ps)"
proof (induction ps arbitrary: e)
  case Nil
  then show ?case by simp
next
  case (Cons p ps)
  from Cons [of "e\<lparr>tv_start := mytime (fst p), tv_sum := tv_sum e + lasted p, times := times e + 1\<rparr>"]
  show ?case by (auto simp: tally_interval)
qed

text \<open>
  If the calls for a name start and stop its watch alternately, then, whatever is called for other names
  in between, the entry counts these intervals and holds the sum of their lengths.
\<close>

theorem bprof_measures:
  assumes "filter (concerns n) cs = concat (map (interval n) ps)" "ps \<noteq> []"
  shows "\<exists>w. find_entry n (run_calls cs) = Some w \<and> times w = int (length ps) \<and> tv_sum w = sum_list (map lasted ps)"
proof -
  have new: "tally n None c = tally n (Some (new_entry n)) c" if "concerns n c" for c
    using that by (simp add: tally_def)
  obtain p qs where ps: "ps = p # qs" using assms(2) by (cases ps) auto
  have "concerns n (fst p, [n, ''start''])" by (simp add: concerns_def)
  then have "foldl (tally n) None (concat (map (interval n) ps)) =
      foldl (tally n) (Some (new_entry n)) (concat (map (interval n) ps))"
    by (simp add: ps interval_def new)
  then have "find_entry n (run_calls cs) = foldl (tally n) (Some (new_entry n)) (concat (map (interval n) ps))"
    by (simp only: run_tally tally_filter [of n None cs] assms(1))
  with tally_intervals [of n "new_entry n" ps] show ?thesis by (simp add: new_entry_def)
qed

theorem bprof_measures_witness:
  "\<exists>w. find_entry ''a'' (run_calls [((1, 0), [''a'', ''start'']), ((1, 500000), [''b'', ''start'']), ((3, 0), [''a'', ''stop''])]) = Some w \<and>
     times w = 1 \<and> tv_sum w = 2000"
proof -
  have "filter (concerns ''a'') [((1, 0), [''a'', ''start'']), ((1, 500000), [''b'', ''start'']), ((3, 0), [''a'', ''stop''])] =
      concat (map (interval ''a'') [((1, 0), (3, 0))])"
    by (simp add: concerns_def interval_def)
  from bprof_measures [OF this] show ?thesis by (simp add: lasted_def mytime_def)
qed

end
