(* ===== verification/Dialog.thy ===== *)
theory Dialog
  imports CLib
begin

text \<open>
  The common part of the dialog program, \<^verbatim>\<open>misc/confdialog/util.c\<close> and \<^verbatim>\<open>misc/confdialog/dialog.h\<close>: screen
  attributes, the drawing of boxes and buttons, the wrapping of a prompt, and the search for the
  hot key of an item. What the code draws is the sequence of curses calls it makes; \<open>curses\<close>
  states what of the documented behaviour of these calls the proofs rely on, and \<open>screen\<close> is
  a plain grid of cells that has this behaviour. The grid has no margins and gives every character one cell: it is what a
  window shows as long as the code writes printable characters inside of it. The theory \<open>DialogRows\<close> has the window
  with its margins and the proof that both agree on such sequences of calls.
\<close>

section \<open>Keys\<close>

text \<open>Key codes are the integers of \<open>wgetch\<close>; the function keys have their curses codes.\<close>

definition ESC :: int where "ESC = 27"
definition TAB :: int where "TAB = 9"
definition NL :: int where "NL = 10"
definition KEY_DOWN :: int where "KEY_DOWN = 258"
definition KEY_UP :: int where "KEY_UP = 259"
definition KEY_LEFT :: int where "KEY_LEFT = 260"
definition KEY_RIGHT :: int where "KEY_RIGHT = 261"
definition KEY_HOME :: int where "KEY_HOME = 262"
definition KEY_BACKSPACE :: int where "KEY_BACKSPACE = 263"
definition KEY_NPAGE :: int where "KEY_NPAGE = 338"
definition KEY_PPAGE :: int where "KEY_PPAGE = 339"
definition KEY_END :: int where "KEY_END = 360"

lemmas key_defs = ESC_def TAB_def NL_def KEY_DOWN_def KEY_UP_def KEY_LEFT_def KEY_RIGHT_def
  KEY_HOME_def KEY_BACKSPACE_def KEY_NPAGE_def KEY_PPAGE_def KEY_END_def

definition chr :: "char \<Rightarrow> int" where
  "chr c = int (code c)"

text \<open>A character read from a C string is a signed byte; behind the last one is the NUL.\<close>

definition schar_at :: "string \<Rightarrow> nat \<Rightarrow> int" where
  "schar_at s i =
     (if i < length s then (if code (s ! i) < 128 then int (code (s ! i)) else int (code (s ! i)) - 256)
      else 0)"

definition int_isalpha :: "int \<Rightarrow> bool" where
  "int_isalpha c \<longleftrightarrow> (65 \<le> c \<and> c \<le> 90) \<or> (97 \<le> c \<and> c \<le> 122)"

definition int_tolower :: "int \<Rightarrow> int" where
  "int_tolower c = (if 65 \<le> c \<and> c \<le> 90 then c + 32 else c)"

definition int_toupper :: "int \<Rightarrow> int" where
  "int_toupper c = (if 97 \<le> c \<and> c \<le> 122 then c - 32 else c)"

text \<open>\<open>strchr(s, key)\<close> converts the key to a character, and finds the final NUL too.\<close>

definition key_in :: "string \<Rightarrow> int \<Rightarrow> bool" where
  "key_in s key \<longleftrightarrow> key mod 256 = 0 \<or> key mod 256 \<in> chr ` set s"

section \<open>Attributes\<close>

datatype attr =
    Screen_attr | Shadow_attr | Dialog_attr | Title_attr | Border_attr
  | Button_active_attr | Button_inactive_attr | Button_key_active_attr | Button_key_inactive_attr
  | Button_label_active_attr | Button_label_inactive_attr | Inputbox_attr | Inputbox_border_attr
  | Searchbox_attr | Searchbox_title_attr | Searchbox_border_attr | Position_indicator_attr
  | Menubox_attr | Menubox_border_attr | Item_attr | Item_selected_attr | Tag_attr
  | Tag_selected_attr | Tag_key_attr | Tag_key_selected_attr | Check_attr | Check_selected_attr
  | Uarrow_attr | Darrow_attr

fun attr_index :: "attr \<Rightarrow> nat" where
  "attr_index Screen_attr = 0" | "attr_index Shadow_attr = 1" | "attr_index Dialog_attr = 2"
| "attr_index Title_attr = 3" | "attr_index Border_attr = 4" | "attr_index Button_active_attr = 5"
| "attr_index Button_inactive_attr = 6" | "attr_index Button_key_active_attr = 7"
| "attr_index Button_key_inactive_attr = 8" | "attr_index Button_label_active_attr = 9"
| "attr_index Button_label_inactive_attr = 10" | "attr_index Inputbox_attr = 11"
| "attr_index Inputbox_border_attr = 12" | "attr_index Searchbox_attr = 13"
| "attr_index Searchbox_title_attr = 14" | "attr_index Searchbox_border_attr = 15"
| "attr_index Position_indicator_attr = 16" | "attr_index Menubox_attr = 17"
| "attr_index Menubox_border_attr = 18" | "attr_index Item_attr = 19"
| "attr_index Item_selected_attr = 20" | "attr_index Tag_attr = 21"
| "attr_index Tag_selected_attr = 22" | "attr_index Tag_key_attr = 23"
| "attr_index Tag_key_selected_attr = 24" | "attr_index Check_attr = 25"
| "attr_index Check_selected_attr = 26" | "attr_index Uarrow_attr = 27"
| "attr_index Darrow_attr = 28"

lemma attr_index_inj: "attr_index a = attr_index b \<Longrightarrow> a = b"
  by (cases a; cases b; simp)

text \<open>Attributes are ordered by their position in the table \<open>attributes[]\<close>.\<close>

instantiation attr :: linorder
begin

definition less_eq_attr :: "attr \<Rightarrow> attr \<Rightarrow> bool" where
  "less_eq_attr a b \<longleftrightarrow> attr_index a \<le> attr_index b"

definition less_attr :: "attr \<Rightarrow> attr \<Rightarrow> bool" where
  "less_attr a b \<longleftrightarrow> attr_index a < attr_index b"

instance
  by standard (auto simp: less_eq_attr_def less_attr_def intro: attr_index_inj)

end

section \<open>Curses calls\<close>

datatype glyph =
    Ch char | ULCorner | LLCorner | URCorner | LRCorner | HLine | VLine | LTee | RTee | UArrow | DArrow

datatype wcall =
    Wattrset "attr option"
  | Wmove int int
  | Waddch "attr option" glyph
  | Wclrtoeol
  | Scrollok bool
  | Wscrl int
  | Refresh
  | Touchwin

definition waddstr :: "string \<Rightarrow> wcall list" where
  "waddstr s = map (\<lambda>c. Waddch None (Ch c)) s"

definition attr_clear :: "int \<Rightarrow> int \<Rightarrow> attr \<Rightarrow> wcall list" where
  "attr_clear height width a =
     Wattrset (Some a) #
     concat (map (\<lambda>i. Wmove i 0 # map (\<lambda>j. Waddch None (Ch CHR '' '')) [0..width - 1]) [0..height - 1]) @
     [Touchwin]"

definition dialog_clear :: "int \<Rightarrow> int \<Rightarrow> string option \<Rightarrow> wcall list" where
  "dialog_clear lines cols backtitle =
     attr_clear lines cols Screen_attr @
     (case backtitle of None \<Rightarrow> []
      | Some t \<Rightarrow> Wattrset (Some Screen_attr) # Wmove 0 1 # waddstr t @
          Wmove 1 1 # map (\<lambda>i. Waddch None HLine) [1..cols - 2]) @
     [Refresh]"

text \<open>The glyph of one cell of a box, and the attribute it is drawn with.\<close>

definition box_cell :: "int \<Rightarrow> int \<Rightarrow> attr \<Rightarrow> attr \<Rightarrow> int \<Rightarrow> int \<Rightarrow> attr \<times> glyph" where
  "box_cell height width box border i j =
     (if i = 0 \<and> j = 0 then (border, ULCorner)
      else if i = height - 1 \<and> j = 0 then (border, LLCorner)
      else if i = 0 \<and> j = width - 1 then (box, URCorner)
      else if i = height - 1 \<and> j = width - 1 then (box, LRCorner)
      else if i = 0 then (border, HLine)
      else if i = height - 1 then (box, HLine)
      else if j = 0 then (border, VLine)
      else if j = width - 1 then (box, VLine)
      else (box, Ch CHR '' ''))"

definition draw_box :: "int \<Rightarrow> int \<Rightarrow> int \<Rightarrow> int \<Rightarrow> attr \<Rightarrow> attr \<Rightarrow> wcall list" where
  "draw_box y x height width box border =
     Wattrset None #
     concat (map (\<lambda>i. Wmove (y + i) x #
       map (\<lambda>j. case box_cell height width box border i j of (a, g) \<Rightarrow> Waddch (Some a) g) [0..width - 1])
       [0..height - 1])"

definition print_button :: "string \<Rightarrow> int \<Rightarrow> int \<Rightarrow> bool \<Rightarrow> wcall list" where
  "print_button label y x selected =
     (let temp = length (takeWhile (\<lambda>c. c = CHR '' '') label);
          rest = drop temp label;
          label_attr = Wattrset (Some (if selected then Button_label_active_attr else Button_label_inactive_attr));
          button_attr = Wattrset (Some (if selected then Button_active_attr else Button_inactive_attr))
      in [Wmove y x, button_attr] @ waddstr ''<'' @ [label_attr] @
         replicate temp (Waddch None (Ch CHR '' '')) @
         [Wattrset (Some (if selected then Button_key_active_attr else Button_key_inactive_attr)),
          Waddch None (Ch (case rest of [] \<Rightarrow> nul | c # _ \<Rightarrow> c))] @
         [label_attr] @ waddstr (tl rest) @ [button_attr] @ waddstr ''>'' @
         [Wmove y (x + int temp + 1)])"

text \<open>
  The parts every dialog draws in its frame: the line above the buttons, and the title, which is
  cut to two columns less than the box.
\<close>

definition separator :: "int \<Rightarrow> int \<Rightarrow> wcall list" where
  "separator height width =
     [Wattrset (Some Border_attr), Wmove (height - 3) 0, Waddch None LTee] @
     replicate (nat (width - 2)) (Waddch None HLine) @
     [Wattrset (Some Dialog_attr), Waddch None RTee]"

definition cut_title :: "int \<Rightarrow> string \<Rightarrow> string" where
  "cut_title width title =
     (if 2 \<le> width \<and> int (length title) \<ge> width - 2 then take (nat (width - 2)) title else title)"

definition title_bar :: "int \<Rightarrow> string option \<Rightarrow> wcall list" where
  "title_bar width title =
     (case title of None \<Rightarrow> []
      | Some t \<Rightarrow>
          (let t = cut_title width t
           in [Wattrset (Some Title_attr), Wmove 0 ((width - int (length t)) div 2 - 1),
               Waddch None (Ch CHR '' '')] @ waddstr t @ [Waddch None (Ch CHR '' '')]))"

section \<open>What is relied on of curses\<close>

text \<open>
  A window has a cursor, a current attribute and cells. \<open>Wmove\<close> sets the cursor, \<open>Wattrset\<close>
  the attribute. \<open>Waddch\<close> writes the cell under the cursor, with the attribute it carries or
  else the current one (the code never combines the two: it clears the current attribute before
  it writes characters that carry one), and moves the cursor one column to the right unless it
  was in the last column. \<open>Wclrtoeol\<close> blanks the row from the cursor on, with the background of the
  window.
\<close>

type_synonym cell = "attr option \<times> glyph"

definition blank :: cell where
  "blank = (None, Ch CHR '' '')"

definition put_str :: "attr option \<Rightarrow> int \<Rightarrow> int \<Rightarrow> string \<Rightarrow> (int \<times> int \<Rightarrow> cell option) \<Rightarrow> int \<times> int \<Rightarrow> cell option" where
  "put_str a y x s m = (\<lambda>(r, c).
     if r = y \<and> x \<le> c \<and> c < x + int (length s) then Some (a, Ch (s ! nat (c - x))) else m (r, c))"

lemma put_str_Cons:
  "put_str a y (x + 1) s (m((y, x) := Some (a, Ch ch))) = put_str a y x (ch # s) m"
proof -
  have "nat (c - x) = Suc (nat (c - (x + 1)))" if "x < c" for c using that by simp
  then show ?thesis by (auto simp: put_str_def fun_eq_iff)
qed

locale curses =
  fixes exec :: "wcall \<Rightarrow> 'w \<Rightarrow> 'w"
    and cursor :: "'w \<Rightarrow> int \<times> int"
    and cattr :: "'w \<Rightarrow> attr option"
    and cell :: "'w \<Rightarrow> int \<times> int \<Rightarrow> cell option"
    and maxx :: int
  assumes cursor_move: "cursor (exec (Wmove y x) w) = (y, x)"
    and cell_move: "cell (exec (Wmove y x) w) = cell w"
    and cattr_move: "cattr (exec (Wmove y x) w) = cattr w"
    and cell_addch: "cell (exec (Waddch a g) w) =
      (cell w)(cursor w := Some (case a of None \<Rightarrow> cattr w | Some b \<Rightarrow> Some b, g))"
    and cursor_addch: "cursor w = (y, x) \<Longrightarrow> x + 1 < maxx \<Longrightarrow> cursor (exec (Waddch a g) w) = (y, x + 1)"
    and cattr_addch: "cattr (exec (Waddch a g) w) = cattr w"
    and cell_attr: "cell (exec (Wattrset b) w) = cell w"
    and cursor_attr: "cursor (exec (Wattrset b) w) = cursor w"
    and cattr_attr: "cattr (exec (Wattrset b) w) = b"
    and cell_clrtoeol: "cursor w = (y, x) \<Longrightarrow> cell (exec Wclrtoeol w) (r, c) =
      (if r = y \<and> x \<le> c then Some blank else cell w (r, c))"
    and cattr_clrtoeol: "cattr (exec Wclrtoeol w) = cattr w"
    and cell_refresh: "cell (exec Refresh w) = cell w"
begin

definition run :: "wcall list \<Rightarrow> 'w \<Rightarrow> 'w" where
  "run cs w = foldl (\<lambda>w c. exec c w) w cs"

lemma run_simps [simp]:
  "run [] w = w" "run (c # cs) w = run cs (exec c w)" "run (cs @ ds) w = run ds (run cs w)"
  by (simp_all add: run_def)

lemmas laws = cursor_move cell_move cattr_move cell_attr cursor_attr cattr_attr cattr_addch
  cattr_clrtoeol cell_refresh

text \<open>A string written under the current attribute.\<close>

lemma run_str:
  assumes "cursor w = (y, x)" "x + int (length s) \<le> maxx"
  shows "cell (run (waddstr s) w) = put_str (cattr w) y x s (cell w)"
    and "cattr (run (waddstr s) w) = cattr w"
    and "x + int (length s) < maxx \<Longrightarrow> cursor (run (waddstr s) w) = (y, x + int (length s))"
proof -
  have "cell (run (waddstr s) w) = put_str (cattr w) y x s (cell w) \<and>
      cattr (run (waddstr s) w) = cattr w \<and>
      (x + int (length s) < maxx \<longrightarrow> cursor (run (waddstr s) w) = (y, x + int (length s)))"
    using assms
  proof (induction s arbitrary: w x)
    case Nil
    then show ?case by (auto simp: waddstr_def put_str_def fun_eq_iff)
  next
    case (Cons a s)
    let ?w = "exec (Waddch None (Ch a)) w"
    have c: "cell ?w = (cell w)((y, x) := Some (cattr w, Ch a))" "cattr ?w = cattr w"
      using Cons.prems(1) by (simp_all add: cell_addch cattr_addch)
    show ?case
    proof (cases "s = []")
      case True
      then show ?thesis using c Cons.prems cursor_addch [OF Cons.prems(1)]
        by (auto simp: waddstr_def put_str_def fun_eq_iff)
    next
      case False
      then have "x + 1 < maxx" using Cons.prems(2) by (cases s) auto
      then have "cursor ?w = (y, x + 1)" by (rule cursor_addch [OF Cons.prems(1)])
      from Cons.IH [OF this] Cons.prems(2) c(2) have IH:
        "cell (run (waddstr s) ?w) = put_str (cattr w) y (x + 1) s (cell ?w)"
        "cattr (run (waddstr s) ?w) = cattr w"
        "x + 1 + int (length s) < maxx \<longrightarrow> cursor (run (waddstr s) ?w) = (y, x + 1 + int (length s))"
        by (simp_all add: add.assoc add.commute)
      have "put_str (cattr w) y (x + 1) s (cell ?w) = put_str (cattr w) y x (a # s) (cell w)"
        unfolding c(1) by (rule put_str_Cons)
      with IH show ?thesis by (simp add: waddstr_def algebra_simps)
    qed
  qed
  then show "cell (run (waddstr s) w) = put_str (cattr w) y x s (cell w)"
    and "cattr (run (waddstr s) w) = cattr w"
    and "x + int (length s) < maxx \<Longrightarrow> cursor (run (waddstr s) w) = (y, x + int (length s))"
    by auto
qed

lemma put_at:
  assumes "x + int (length s) \<le> maxx"
  shows "cell (run (Wmove y x # waddstr s) w) = put_str (cattr w) y x s (cell w)"
    and "cattr (run (Wmove y x # waddstr s) w) = cattr w"
  using run_str [of "exec (Wmove y x) w" y x s] assms by (simp_all add: laws)

text \<open>A row of characters that carry their attributes, from column \<open>x + j\<close> on.\<close>

lemma run_row:
  assumes "cursor w = (y, x + j)" "x + n \<le> maxx" "j \<le> n" and f: "\<And>k. fst (f k) \<noteq> None"
  shows "cell (run (map (\<lambda>k. Waddch (fst (f k)) (snd (f k))) [j..n - 1]) w) =
     (\<lambda>(r, c). if r = y \<and> x + j \<le> c \<and> c < x + n then Some (f (c - x)) else cell w (r, c))"
  using assms(1-3)
proof (induction "nat (n - j)" arbitrary: j w)
  case 0
  then show ?case by (auto simp: fun_eq_iff)
next
  case (Suc m)
  then have j: "j < n" by simp
  let ?w = "exec (Waddch (fst (f j)) (snd (f j))) w"
  have split: "[j..n - 1] = j # [j + 1..n - 1]" using j by (simp add: upto.simps [of j])
  have c: "cell ?w = (cell w)((y, x + j) := Some (f j))"
    using Suc.prems(1) f [of j] by (cases "f j") (auto simp: cell_addch)
  show ?case
  proof (cases "j + 1 = n")
    case True
    then show ?thesis by (simp add: split c fun_eq_iff) (auto simp: True [symmetric])
  next
    case False
    then have "cursor ?w = (y, x + (j + 1))"
      using cursor_addch [OF Suc.prems(1)] j Suc.prems(2) by (simp add: add.assoc)
    with Suc.hyps(1) [of "j + 1" ?w] Suc.hyps(2) Suc.prems(2) j
    have "cell (run (map (\<lambda>k. Waddch (fst (f k)) (snd (f k))) [j + 1..n - 1]) ?w) =
      (\<lambda>(r, c). if r = y \<and> x + (j + 1) \<le> c \<and> c < x + n then Some (f (c - x)) else cell ?w (r, c))"
      by simp
    then show ?thesis by (simp add: split c fun_eq_iff) (auto simp: j)
  qed
qed

lemma run_rows:
  assumes "x + width \<le> maxx" "0 \<le> width" "i \<le> n" and f: "\<And>i k. fst (f i k) \<noteq> None"
  shows "cell (run (concat (map (\<lambda>i. Wmove (y + i) x #
             map (\<lambda>j. Waddch (fst (f i j)) (snd (f i j))) [0..width - 1]) [i..n - 1])) w) =
     (\<lambda>(r, c). if y + i \<le> r \<and> r < y + n \<and> x \<le> c \<and> c < x + width
              then Some (f (r - y) (c - x)) else cell w (r, c))"
  using assms(3)
proof (induction "nat (n - i)" arbitrary: i w)
  case 0
  then show ?case by (auto simp: fun_eq_iff)
next
  case (Suc m)
  then have i: "i < n" by simp
  have split: "[i..n - 1] = i # [i + 1..n - 1]" using i by (simp add: upto.simps [of i])
  let ?w = "run (map (\<lambda>j. Waddch (fst (f i j)) (snd (f i j))) [0..width - 1]) (exec (Wmove (y + i) x) w)"
  have row: "cell ?w = (\<lambda>(r, c). if r = y + i \<and> x + 0 \<le> c \<and> c < x + width then Some (f i (c - x)) else cell w (r, c))"
    using run_row [of "exec (Wmove (y + i) x) w" "y + i" x 0 width "f i"] assms(1,2) f
    by (simp add: cursor_move cell_move fun_eq_iff)
  let ?rows = "\<lambda>i. concat (map (\<lambda>i. Wmove (y + i) x #
    map (\<lambda>j. Waddch (fst (f i j)) (snd (f i j))) [0..width - 1]) [i..n - 1])"
  show ?case
  proof (rule ext, clarify)
    fix r c
    have "cell (run (?rows (i + 1)) ?w) (r, c) =
      (if y + (i + 1) \<le> r \<and> r < y + n \<and> x \<le> c \<and> c < x + width
       then Some (f (r - y) (c - x)) else cell ?w (r, c))"
      using fun_cong [OF Suc.hyps(1) [of "i + 1" ?w], of "(r, c)"] Suc.hyps(2) i by simp
    moreover have "cell ?w (r, c) =
      (if r = y + i \<and> x \<le> c \<and> c < x + width then Some (f i (c - x)) else cell w (r, c))"
      using fun_cong [OF row, of "(r, c)"] by simp
    ultimately have "cell (run (?rows (i + 1)) ?w) (r, c) =
      (if y + i \<le> r \<and> r < y + n \<and> x \<le> c \<and> c < x + width
       then Some (f (r - y) (c - x)) else cell w (r, c))"
      using i by auto
    then show "cell (run (?rows i) w) (r, c) =
      (if y + i \<le> r \<and> r < y + n \<and> x \<le> c \<and> c < x + width
       then Some (f (r - y) (c - x)) else cell w (r, c))"
      by (simp add: split)
  qed
qed

lemma draw_box_cells:
  assumes "x + width \<le> maxx" "0 \<le> width" "0 \<le> height"
  shows "cell (run (draw_box y x height width box border) w) =
     (\<lambda>(r, c). if y \<le> r \<and> r < y + height \<and> x \<le> c \<and> c < x + width
        then Some (case box_cell height width box border (r - y) (c - x) of (a, g) \<Rightarrow> (Some a, g))
        else cell w (r, c))"
proof -
  let ?f = "\<lambda>i j. case box_cell height width box border i j of (a, g) \<Rightarrow> (Some a, g)"
  have e: "(\<lambda>j. case box_cell height width box border i j of (a, g) \<Rightarrow> Waddch (Some a) g) =
      (\<lambda>j. Waddch (fst (?f i j)) (snd (?f i j)))" for i
    by (auto simp: fun_eq_iff split: prod.split)
  show ?thesis
    using run_rows [OF assms(1,2), of 0 height ?f y "exec (Wattrset None) w"] assms(3)
    by (simp add: draw_box_def e cell_attr fun_eq_iff case_prod_beta)
qed

end

text \<open>
  A grid of cells with these laws: the model on which concrete runs are evaluated. It goes on in all directions, so moves outside of
  the window and characters behind its right margin are not as in curses; what cannot be printed is not either.
\<close>

record screen =
  scr_cursor :: "int \<times> int"
  scr_attr :: "attr option"
  scr_scrollok :: bool
  scr_cells :: "int \<times> int \<Rightarrow> cell option"

definition empty_screen :: screen where
  "empty_screen = \<lparr>scr_cursor = (0, 0), scr_attr = None, scr_scrollok = False, scr_cells = \<lambda>_. None\<rparr>"

fun scr_exec :: "wcall \<Rightarrow> screen \<Rightarrow> screen" where
  "scr_exec (Wmove y x) w = w\<lparr>scr_cursor := (y, x)\<rparr>"
| "scr_exec (Waddch a g) w =
     w\<lparr>scr_cells := (scr_cells w)(scr_cursor w := Some (case a of None \<Rightarrow> scr_attr w | Some b \<Rightarrow> Some b, g)),
       scr_cursor := (fst (scr_cursor w), snd (scr_cursor w) + 1)\<rparr>"
| "scr_exec (Wattrset a) w = w\<lparr>scr_attr := a\<rparr>"
| "scr_exec Wclrtoeol w =
     w\<lparr>scr_cells := (\<lambda>(r, c). if r = fst (scr_cursor w) \<and> snd (scr_cursor w) \<le> c then Some blank
                              else scr_cells w (r, c))\<rparr>"
| "scr_exec (Scrollok b) w = w\<lparr>scr_scrollok := b\<rparr>"
| "scr_exec (Wscrl n) w =
     (if scr_scrollok w then w\<lparr>scr_cells := (\<lambda>(r, c). scr_cells w (r + n, c))\<rparr> else w)"
| "scr_exec _ w = w"

interpretation scr: curses scr_exec scr_cursor scr_attr scr_cells maxx
  by unfold_locales (auto simp: fun_eq_iff)

definition scr_run :: "wcall list \<Rightarrow> screen \<Rightarrow> screen" where
  "scr_run cs w = foldl (\<lambda>w c. scr_exec c w) w cs"

section \<open>Wrapping a prompt\<close>

definition MAX_LEN :: nat where
  "MAX_LEN = 2048"

text \<open>
  \<open>print_autowrap\<close> as the list of the words it writes with their positions. \<open>adv\<close> is the
  cursor that \<open>getyx\<close> reports after a string was written at a position. The prompt is copied to
  a buffer of \<open>MAX_LEN + 1\<close> bytes; \<open>None\<close> is the overrun by a longer one.
\<close>

type_synonym placed = "int \<times> int \<times> string"

definition split_word :: "string \<Rightarrow> string \<times> string option" where
  "split_word word =
     (takeWhile (\<lambda>c. c \<noteq> CHR '' '') word,
      case dropWhile (\<lambda>c. c \<noteq> CHR '' '') word of [] \<Rightarrow> None | _ # r \<Rightarrow> Some r)"

definition wraps :: "int \<Rightarrow> bool \<Rightarrow> string \<Rightarrow> string option \<Rightarrow> bool" where
  "wraps room newl w sp \<longleftrightarrow>
     (let wlen = int (length w)
      in wlen > room \<or>
         (newl \<and> wlen < 4 \<and>
          (case sp of None \<Rightarrow> False
           | Some s \<Rightarrow> wlen + 1 + int (length s) > room \<and>
               (CHR '' '' \<notin> set s \<or> wlen + 1 + int (length (takeWhile (\<lambda>c. c \<noteq> CHR '' '') s)) > room))))"

lemma split_word_shrinks: "split_word word = (w, Some s) \<Longrightarrow> length s < length word"
  using dropWhile_decreases [of "\<lambda>c. c \<noteq> CHR '' ''" word]
  by (auto simp: split_word_def split: list.splits)

function aw_loop :: "(int \<times> int \<Rightarrow> string \<Rightarrow> int \<times> int) \<Rightarrow> int \<Rightarrow> int \<Rightarrow>
    string \<Rightarrow> int \<Rightarrow> int \<Rightarrow> bool \<Rightarrow> placed list" where
  "aw_loop adv width x word cur_y cur_x newl =
     (if word = [] then []
      else (case split_word word of
        (w, sp) \<Rightarrow>
          (case (if wraps (width - cur_x) newl w sp then (cur_y + 1, x) else (cur_y, cur_x)) of
            (py, px) \<Rightarrow>
              (py, px, w) #
              (case sp of
                 None \<Rightarrow> []
               | Some s \<Rightarrow>
                   if s \<noteq> [] \<and> hd s = CHR '' ''
                   then aw_loop adv width x (dropWhile (\<lambda>c. c = CHR '' '') s)
                          (fst (adv (py, px) w)) (snd (adv (py, px) w) + 1 + 1) True
                   else aw_loop adv width x s
                          (fst (adv (py, px) w)) (snd (adv (py, px) w) + 1) False))))"
  by pat_completeness auto
termination
proof (relation "measure (\<lambda>(adv, width, x, word, cur_y, cur_x, newl). length word)", goal_cases)
  case 1
  show ?case by simp
next
  case (2 adv width x word cur_y cur_x newl w sp py px s)
  then have "length s < length word" using split_word_shrinks [of word w s] by simp
  then show ?case using dropWhile_decreases [of "\<lambda>c. c = CHR '' ''" s] by simp
next
  case (3 adv width x word cur_y cur_x newl w sp py px s)
  then show ?case using split_word_shrinks [of word w s] by simp
qed

declare aw_loop.simps [simp del]

definition print_autowrap ::
  "(int \<times> int \<Rightarrow> string \<Rightarrow> int \<times> int) \<Rightarrow> string \<Rightarrow> int \<Rightarrow> int \<Rightarrow> int \<Rightarrow> placed list option" where
  "print_autowrap adv prompt width y x =
     (if length prompt > MAX_LEN then None
      else (let tempstr = map (\<lambda>c. if c = newline then CHR '' '' else c) prompt;
                prompt_len = int (length tempstr)
            in Some (if prompt_len \<le> width - x * 2
                     then [(y, (width - prompt_len) div 2, tempstr)]
                     else aw_loop adv width x tempstr y x True)))"

definition place_words :: "placed list \<Rightarrow> wcall list" where
  "place_words ps = concat (map (\<lambda>(y, x, w). Wmove y x # waddstr w) ps)"

text \<open>Words of the placed strings, and the layout of two consecutive ones.\<close>

definition words_of :: "placed list \<Rightarrow> string list" where
  "words_of ps = filter (\<lambda>w. w \<noteq> []) (map (\<lambda>(y, x, w). w) ps)"

definition fits :: "int \<Rightarrow> placed \<Rightarrow> bool" where
  "fits width p = (case p of (y, x, w) \<Rightarrow> x + int (length w) \<le> width)"

definition follows :: "int \<Rightarrow> placed \<Rightarrow> placed \<Rightarrow> bool" where
  "follows x p q =
     (case p of (y1, x1, w1) \<Rightarrow> case q of (y2, x2, w2) \<Rightarrow>
        (y2 = y1 + 1 \<and> x2 = x) \<or> (y2 = y1 \<and> x1 + int (length w1) < x2))"

lemma tokens_delim_skip: "tokens d (d # s) = tokens d s"
  by (simp add: tokens_def)

lemma tokens_dropWhile: "tokens d (dropWhile (\<lambda>c. c = d) s) = tokens d s"
  by (induction s) (auto simp: tokens_delim_skip)

lemma split_word_tokens:
  "split_word word = (w, sp) \<Longrightarrow>
     tokens CHR '' '' word = (if w = [] then [] else [w]) @ (case sp of None \<Rightarrow> [] | Some s \<Rightarrow> tokens CHR '' '' s)"
proof -
  assume s: "split_word word = (w, sp)"
  have w: "CHR '' '' \<notin> set w" using s by (auto simp: split_word_def dest: set_takeWhileD)
  have app: "word = w @ dropWhile (\<lambda>c. c \<noteq> CHR '' '') word"
    using s by (simp add: split_word_def) (metis takeWhile_dropWhile_id)
  show ?thesis
  proof (cases "dropWhile (\<lambda>c. c \<noteq> CHR '' '') word")
    case Nil
    with s have "sp = None" by (simp add: split_word_def)
    moreover from Nil app have "word = w" by (metis append_Nil2)
    ultimately show ?thesis using w by (simp add: tokens_last_token)
  next
    case (Cons c r)
    then have "c = CHR '' ''" using hd_dropWhile [of "\<lambda>c. c \<noteq> CHR '' ''" word] by simp
    moreover from Cons s have "sp = Some r" by (auto simp: split_word_def)
    moreover from Cons app have "word = w @ c # r" by simp
    ultimately show ?thesis using w by (simp add: tokens_token tokens_delim_skip)
  qed
qed

lemma words_of_Cons: "words_of ((y, x, w) # ps) = (if w = [] then [] else [w]) @ words_of ps"
  by (simp add: words_of_def)

lemma words_of_Nil [simp]: "words_of [] = []"
  by (simp add: words_of_def)

lemma words_of_mem: "snd (snd p) \<noteq> [] \<Longrightarrow> p \<in> set ps \<Longrightarrow> snd (snd p) \<in> set (words_of ps)"
  by (force simp: words_of_def case_prod_beta)

lemma aw_loop_words: "words_of (aw_loop adv width x word cur_y cur_x newl) = tokens CHR '' '' word"
proof (induction adv width x word cur_y cur_x newl rule: aw_loop.induct)
  case (1 adv width x word cur_y cur_x newl)
  show ?case
  proof (cases "word = []")
    case True
    then show ?thesis by (simp add: aw_loop.simps)
  next
    case False
    obtain w sp where ws: "split_word word = (w, sp)" by fastforce
    obtain py px where p: "(if wraps (width - cur_x) newl w sp then (cur_y + 1, x) else (cur_y, cur_x)) = (py, px)"
      by fastforce
    note IH = "1.IH" [OF False ws [symmetric] p [symmetric]]
    note t = split_word_tokens [OF ws]
    show ?thesis
    proof (cases sp)
      case None
      with False ws p t show ?thesis by (simp add: aw_loop.simps [of adv width x word] words_of_Cons)
    next
      case (Some s)
      with False ws p t IH [OF Some] show ?thesis
        by (simp add: aw_loop.simps [of adv width x word] words_of_Cons tokens_dropWhile)
    qed
  qed
qed

text \<open>The recursion with its case distinctions resolved.\<close>

lemma aw_loop_step:
  assumes "word \<noteq> []"
  obtains w sp py px rest where "split_word word = (w, sp)"
    and "(py, px) = (if wraps (width - cur_x) newl w sp then (cur_y + 1, x) else (cur_y, cur_x))"
    and "aw_loop adv width x word cur_y cur_x newl = (py, px, w) # rest"
    and "sp = None \<and> rest = [] \<or>
         (\<exists>s k n. length s < length word \<and> (k = 1 \<or> k = 2) \<and>
            rest = aw_loop adv width x s (fst (adv (py, px) w)) (snd (adv (py, px) w) + k) n)"
proof -
  obtain w sp where ws: "split_word word = (w, sp)" by fastforce
  obtain py px where p: "(py, px) = (if wraps (width - cur_x) newl w sp then (cur_y + 1, x) else (cur_y, cur_x))"
    by (metis surj_pair)
  let ?y = "fst (adv (py, px) w)" and ?x = "snd (adv (py, px) w)"
  define rest where "rest = (case sp of None \<Rightarrow> [] | Some s \<Rightarrow>
    if s \<noteq> [] \<and> hd s = CHR '' ''
    then aw_loop adv width x (dropWhile (\<lambda>c. c = CHR '' '') s) ?y (?x + 2) True
    else aw_loop adv width x s ?y (?x + 1) False)"
  have l: "aw_loop adv width x word cur_y cur_x newl = (py, px, w) # rest"
    using assms ws p [symmetric]
    by (subst aw_loop.simps) (simp add: rest_def add.assoc split: option.split)
  have "sp = None \<and> rest = [] \<or>
         (\<exists>s k n. length s < length word \<and> (k = 1 \<or> k = 2) \<and> rest = aw_loop adv width x s ?y (?x + k) n)"
  proof (cases sp)
    case None
    then show ?thesis by (simp add: rest_def)
  next
    case (Some s)
    with ws have s: "length s < length word" by (simp add: split_word_shrinks)
    show ?thesis
    proof (cases "s \<noteq> [] \<and> hd s = CHR '' ''")
      case True
      have "length (dropWhile (\<lambda>c. c = CHR '' '') s) < length word"
        using s dropWhile_decreases [of "\<lambda>c. c = CHR '' ''" s] by simp
      moreover from True Some have
        "rest = aw_loop adv width x (dropWhile (\<lambda>c. c = CHR '' '') s) ?y (?x + 2) True"
        by (simp add: rest_def)
      ultimately show ?thesis by blast
    next
      case False
      with Some have "rest = aw_loop adv width x s ?y (?x + 1) False" by (simp only: rest_def option.case if_False)
      with s show ?thesis by blast
    qed
  qed
  with ws p l show ?thesis by (rule that)
qed

definition len3 :: "placed \<Rightarrow> int" where
  "len3 p = int (length (snd (snd p)))"

lemma aw_loop_layout:
  assumes adv: "\<And>y c w. c + int (length w) \<le> width \<Longrightarrow> adv (y, c) w = (y, c + int (length w))"
  shows "let L = aw_loop adv width x word cur_y cur_x newl
     in (\<forall>p \<in> set L. len3 p \<le> width - x \<longrightarrow> fits width p) \<and>
        ((\<forall>p \<in> set L. len3 p \<le> width - x) \<longrightarrow> successively (follows x) L) \<and>
        (L \<noteq> [] \<longrightarrow> (fst (hd L), fst (snd (hd L))) \<in> {(cur_y, cur_x), (cur_y + 1, x)})"
proof (induction "length word" arbitrary: word cur_y cur_x newl rule: less_induct)
  case less
  show ?case
  proof (cases "word = []")
    case True
    then show ?thesis by (simp add: aw_loop.simps)
  next
    case False
    then obtain w sp py px rest where
      p: "(py, px) = (if wraps (width - cur_x) newl w sp then (cur_y + 1, x) else (cur_y, cur_x))" and
      L: "aw_loop adv width x word cur_y cur_x newl = (py, px, w) # rest" and
      r: "sp = None \<and> rest = [] \<or> (\<exists>s k n. length s < length word \<and> (k = 1 \<or> k = 2) \<and>
            rest = aw_loop adv width x s (fst (adv (py, px) w)) (snd (adv (py, px) w) + k) n)"
      by (rule aw_loop_step)
    have f: "len3 (py, px, w) \<le> width - x \<longrightarrow> fits width (py, px, w)"
      using p by (auto simp: fits_def len3_def wraps_def Let_def split: if_splits)
    from r consider (last) "rest = []" | (more) s k n where "length s < length word" "k = 1 \<or> k = 2"
        "rest = aw_loop adv width x s (fst (adv (py, px) w)) (snd (adv (py, px) w) + k) n"
      by blast
    then show ?thesis
    proof cases
      case last
      with L p f show ?thesis by (auto split: if_splits)
    next
      case s: (more s k n)
      note rest = s(3)
      note IH = less [OF s(1), of "fst (adv (py, px) w)" "snd (adv (py, px) w) + k" n,
          folded rest, unfolded Let_def]
      have "follows x (py, px, w) (hd rest)" if "rest \<noteq> []" "len3 (py, px, w) \<le> width - x"
      proof -
        have "adv (py, px) w = (py, px + int (length w))" using adv f that(2) by (simp add: fits_def)
        then show ?thesis using IH that(1) s(2) by (cases "hd rest") (auto simp: follows_def)
      qed
      then show ?thesis using IH f L p
        by (auto simp: Let_def successively_Cons split: if_splits)
    qed
  qed
qed

section \<open>Hot keys\<close>

text \<open>
  \<open>first_alpha\<close>: the first letter outside brackets that is not exempt, as an index from \<open>i\<close>
  on; 0 if there is none.
\<close>

fun first_alpha_from :: "string \<Rightarrow> nat \<Rightarrow> int \<Rightarrow> string \<Rightarrow> nat" where
  "first_alpha_from exempt i in_paren [] = 0"
| "first_alpha_from exempt i in_paren (ch # cs) =
     (let c = c_tolower ch;
          p1 = (if c \<in> set ''<[('' then in_paren + 1 else in_paren);
          p2 = (if c \<in> set ''>])'' then p1 - 1 else p1)
      in if p2 = 0 \<and> c_isalpha c \<and> c \<notin> set exempt then i
         else first_alpha_from exempt (Suc i) p2 cs)"

definition first_alpha :: "string \<Rightarrow> string \<Rightarrow> nat" where
  "first_alpha s exempt = first_alpha_from exempt 0 0 s"

lemma if_either: "\<exists>q. (if P then a else f p) = a \<or> (if P then a else f p) = f q"
  by auto

lemma first_alpha_from_bound:
  "first_alpha_from exempt i p cs = 0 \<or> (i \<le> first_alpha_from exempt i p cs \<and> first_alpha_from exempt i p cs < i + length cs)"
proof (induction cs arbitrary: i p)
  case Nil
  then show ?case by simp
next
  case (Cons ch cs)
  have "\<exists>p2. first_alpha_from exempt i p (ch # cs) = i \<or>
      first_alpha_from exempt i p (ch # cs) = first_alpha_from exempt (Suc i) p2 cs"
    unfolding first_alpha_from.simps Let_def by (rule if_either)
  then obtain p2 where "first_alpha_from exempt i p (ch # cs) = i \<or>
      first_alpha_from exempt i p (ch # cs) = first_alpha_from exempt (Suc i) p2 cs" by blast
  with Cons [of "Suc i" p2] show ?case by auto
qed

lemma first_alpha_bound: "s \<noteq> [] \<Longrightarrow> first_alpha s exempt < length s"
  using first_alpha_from_bound [of exempt 0 0 s] by (auto simp: first_alpha_def)

section \<open>Properties\<close>

text \<open>
  Drawing a box: on a screen with room for it, exactly the cells of the box change; the
  four corners get the corner glyphs, the edges lines, the inside blanks, with the light colour
  on the left and upper edges and the dark one on the others.
\<close>

theorem draw_box_screen:
  assumes "0 \<le> width" "0 \<le> height"
  shows "scr_cells (scr_run (draw_box y x height width box border) w) (r, c) =
    (if y \<le> r \<and> r < y + height \<and> x \<le> c \<and> c < x + width
     then Some (case box_cell height width box border (r - y) (c - x) of (a, g) \<Rightarrow> (Some a, g))
     else scr_cells w (r, c))"
  using scr.draw_box_cells [of x width "x + width" height y box border w] assms
  by (simp add: scr_run_def scr.run_def)

lemma draw_box_screen_witness:
  "scr_cells (scr_run (draw_box 0 0 3 4 Dialog_attr Border_attr) empty_screen) (2, 3)
     = Some (Some Dialog_attr, LRCorner)"
  using draw_box_screen [of 4 3 0 0 Dialog_attr Border_attr empty_screen 2 3]
  by (simp add: box_cell_def)

text \<open>
  Wrapping a prompt: a short prompt is one centred line; of a longer one every word is
  written, in order and unbroken, none crosses the right margin, and each word starts either one
  line below its predecessor at the left margin, or on the same line behind it with at least one
  blank between. This holds whenever no single word is longer than a line.
\<close>

theorem prompt_layout:
  assumes adv: "\<And>r c w. c + int (length w) \<le> width \<Longrightarrow> adv (r, c) w = (r, c + int (length w))"
    and "length prompt \<le> MAX_LEN" "0 \<le> x"
    and words: "\<And>t. t \<in> set (tokens CHR '' '' (map (\<lambda>c. if c = newline then CHR '' '' else c) prompt)) \<Longrightarrow>
       int (length t) \<le> width - x"
    and "0 \<le> width - x"
  shows "\<exists>ps. print_autowrap adv prompt width y x = Some ps \<and>
     (if int (length prompt) \<le> width - x * 2
      then \<exists>c. 0 \<le> c \<and> ps = [(y, c, map (\<lambda>c. if c = newline then CHR '' '' else c) prompt)] \<and>
           fits width (hd ps) \<and> (width - int (length prompt)) - 2 * c \<in> {0, 1}
      else words_of ps = tokens CHR '' '' (map (\<lambda>c. if c = newline then CHR '' '' else c) prompt) \<and>
           (\<forall>p \<in> set ps. fits width p) \<and> successively (follows x) ps)"
proof -
  let ?t = "map (\<lambda>c. if c = newline then CHR '' '' else c) prompt"
  let ?L = "aw_loop adv width x ?t y x True"
  have w: "words_of ?L = tokens CHR '' '' ?t" by (rule aw_loop_words)
  have "len3 p \<le> width - x" if "p \<in> set ?L" for p
  proof (cases "snd (snd p) = []")
    case True
    then show ?thesis using assms(5) by (simp add: len3_def)
  next
    case False
    with that have "snd (snd p) \<in> set (words_of ?L)" by (rule words_of_mem [rotated])
    then show ?thesis using words unfolding w by (simp add: len3_def)
  qed
  then have "(\<forall>p \<in> set ?L. fits width p) \<and> successively (follows x) ?L"
    using aw_loop_layout [OF adv, of width x ?t y x True] by (simp add: Let_def)
  moreover have "\<exists>c. 0 \<le> c \<and> (width - int (length prompt)) div 2 = c \<and>
       c + int (length prompt) \<le> width \<and> (width - int (length prompt)) - 2 * c \<in> {0, 1}"
    if "int (length prompt) \<le> width - x * 2"
    using that assms(3) by (intro exI [of _ "(width - int (length prompt)) div 2"]) auto
  ultimately show ?thesis
    using assms(2) w by (auto simp: print_autowrap_def Let_def fits_def)
qed

lemma prompt_layout_witness:
  "print_autowrap (\<lambda>(r, c) w. (r, c + int (length w))) ''hello big  world'' 9 0 1 =
     Some [(0, 1, ''hello''), (1, 1, ''big''), (2, 1, ''world'')] \<and>
   successively (follows 1) [(0, 1, ''hello''), (1, 1, ''big''), (2, 1, ''world'')]"
proof -
  have e: "print_autowrap (\<lambda>(r, c) w. (r, c + int (length w))) ''hello big  world'' 9 0 1 =
     Some [(0, 1, ''hello''), (1, 1, ''big''), (2, 1, ''world'')]"
    by (simp add: print_autowrap_def MAX_LEN_def newline_def aw_loop.simps split_word_def wraps_def)
  have w: "\<And>t. t \<in> set (tokens CHR '' '' (map (\<lambda>c. if c = newline then CHR '' '' else c) ''hello big  world'')) \<Longrightarrow>
       int (length t) \<le> 9 - 1"
    by (auto simp: newline_def tokens_def)
  have "\<exists>ps. print_autowrap (\<lambda>(r, c) w. (r, c + int (length w))) ''hello big  world'' 9 0 1 = Some ps \<and>
      successively (follows 1) ps"
    using prompt_layout [where adv = "\<lambda>(r, c) w. (r, c + int (length w))" and y = 0 and x = 1
        and width = 9 and prompt = "''hello big  world''", OF _ _ _ w]
    by (auto simp: MAX_LEN_def)
  with e show ?thesis by simp
qed

end
