(* ===== verification/DialogRows.thy ===== *)
theory DialogRows
  imports Dialog
begin

text \<open>
  Scrolling lists of items. The menu and the check list show a section of their items in a
  subwindow, one item per row, and scroll the subwindow instead of drawing it again. \<open>item_rows\<close>
  is the interface of such a subwindow; what its clients do with it keeps every visible row showing
  the item that belongs there, and exactly one row highlighted.
\<close>

section \<open>Scroll indicators\<close>

definition arrow_line :: "bool \<Rightarrow> attr \<Rightarrow> glyph \<Rightarrow> string \<Rightarrow> attr \<Rightarrow> wcall list" where
  "arrow_line has_more arrow g s plain =
     (if has_more then [Wattrset (Some arrow), Waddch None g] @ waddstr s
      else Wattrset (Some plain) # replicate 4 (Waddch None HLine))"

text \<open>C division of an integer by 2 truncates towards zero.\<close>

definition half :: "int \<Rightarrow> int" where
  "half a = (if 0 \<le> a then a div 2 else - ((- a) div 2))"

lemma find_upto:
  "find P [a..b] = Some i \<Longrightarrow> a \<le> i \<and> i \<le> b \<and> P i"
  by (auto simp: find_Some_iff)

section \<open>The interface\<close>

text \<open>
  \<open>put r i sel\<close> draws item \<open>i\<close> in row \<open>r\<close>, highlighted or not; \<open>scrl n\<close> scrolls the window
  by \<open>n\<close> rows, up for positive \<open>n\<close>, which works only while scrolling is enabled (\<open>ok\<close>,
  switched by \<open>set_ok\<close>). \<open>image i sel\<close> is how a row looks that shows item \<open>i\<close>.
\<close>

locale item_rows =
  fixes put :: "int \<Rightarrow> int \<Rightarrow> bool \<Rightarrow> 'w \<Rightarrow> 'w"
    and scrl :: "int \<Rightarrow> 'w \<Rightarrow> 'w"
    and row :: "'w \<Rightarrow> int \<Rightarrow> 'r"
    and image :: "int \<Rightarrow> bool \<Rightarrow> 'r"
    and valid :: "int \<Rightarrow> bool"
    and ok :: "'w \<Rightarrow> bool"
    and set_ok :: "bool \<Rightarrow> 'w \<Rightarrow> 'w"
  assumes row_put: "valid i \<Longrightarrow> row (put r i sel w) = (row w)(r := image i sel)"
    and row_scrl: "ok w \<Longrightarrow> row (scrl n w) r = row w (r + n)"
    and row_set_ok: "row (set_ok b w) = row w"
    and ok_put: "ok (put r i sel w) = ok w"
    and ok_scrl: "ok (scrl n w) = ok w"
    and ok_set_ok: "ok (set_ok b w) = b"
begin

text \<open>The window shows the \<open>h\<close> items from \<open>s\<close> on; the row \<open>ch\<close> is highlighted, none if it is -1.\<close>

definition shows_items :: "int \<Rightarrow> 'w \<Rightarrow> int \<Rightarrow> int \<Rightarrow> bool" where
  "shows_items h w s ch \<longleftrightarrow> (\<forall>r. 0 \<le> r \<and> r < h \<longrightarrow> row w r = image (s + r) (r = ch))"

lemma shows_set_ok [simp]: "shows_items h (set_ok b w) s ch = shows_items h w s ch"
  by (simp add: shows_items_def row_set_ok)

lemma shows_put_set_ok:
  "valid i \<Longrightarrow> shows_items h (put r i sel (set_ok b w)) s ch = shows_items h (put r i sel w) s ch"
  by (simp add: shows_items_def row_put row_set_ok)

lemma shows_put:
  "shows_items h w s (-1) \<Longrightarrow> valid (s + r) \<Longrightarrow> 0 \<le> r \<Longrightarrow> shows_items h (put r (s + r) False w) s (-1)"
  by (auto simp: shows_items_def row_put)

lemma shows_unmark:
  "shows_items h w s r \<Longrightarrow> valid (s + r) \<Longrightarrow> 0 \<le> r \<Longrightarrow> shows_items h (put r (s + r) False w) s (-1)"
  by (auto simp: shows_items_def row_put)

lemma shows_mark:
  "shows_items h w s (-1) \<Longrightarrow> valid (s + r) \<Longrightarrow> 0 \<le> r \<Longrightarrow> shows_items h (put r (s + r) True w) s r"
  by (auto simp: shows_items_def row_put)

lemma shows_up:
  assumes "shows_items h w s (-1)" "valid (s + h)" "ok w"
  shows "shows_items h (put (h - 1) (s + 1 + (h - 1)) False (scrl 1 w)) (s + 1) (-1)"
proof -
  have "row (scrl 1 w) r = image (s + 1 + r) False" if "0 \<le> r" "r < h - 1" for r
  proof -
    have "row w (r + 1) = image (s + (r + 1)) (r + 1 = -1)"
      using assms(1) that by (simp add: shows_items_def)
    then show ?thesis using that assms(3) by (simp add: row_scrl algebra_simps)
  qed
  with assms(2) show ?thesis by (auto simp: shows_items_def row_put)
qed

lemma shows_down:
  assumes "shows_items h w s (-1)" "valid (s - 1)" "ok w"
  shows "shows_items h (put 0 (s - 1) False (scrl (-1) w)) (s - 1) (-1)"
proof -
  have "row (scrl (-1) w) r = image (s - 1 + r) False" if "0 < r" "r < h" for r
  proof -
    have "row w (r - 1) = image (s + (r - 1)) (r - 1 = -1)"
      using assms(1) that by (simp add: shows_items_def)
    then show ?thesis using that assms(3) by (simp add: row_scrl algebra_simps)
  qed
  with assms(2) show ?thesis by (auto simp: shows_items_def row_put)
qed

text \<open>Drawing all the rows.\<close>

lemma shows_fill:
  assumes "\<And>r. 0 \<le> r \<Longrightarrow> r < n \<Longrightarrow> valid (s + r)"
  shows "shows_items n (foldl (\<lambda>w r. put r (s + r) (r = ch) w) w [0..n - 1]) s ch"
proof -
  have "row (foldl (\<lambda>w r. put r (s + r) (r = ch) w) w [k..n - 1]) r =
      (if k \<le> r \<and> r < n then image (s + r) (r = ch) else row w r)" if "0 \<le> k" for k r
    using that
  proof (induction "nat (n - k)" arbitrary: k w)
    case 0
    then show ?case by auto
  next
    case (Suc m)
    then have k: "k < n" by simp
    have split: "[k..n - 1] = k # [k + 1..n - 1]" using k by (simp add: upto.simps [of k])
    from Suc.hyps(1) [of "k + 1"] Suc.hyps(2) Suc.prems k assms [of k]
    show ?case by (auto simp: split row_put)
  qed
  from this [of 0] show ?thesis by (simp add: shows_items_def)
qed

end

section \<open>Rows of the grid\<close>

lemma scr_run_eq: "scr_run cs w = scr.run cs w"
  by (simp add: scr_run_def scr.run_def)

lemma scr_run_append [simp]: "scr_run (a @ b) w = scr_run b (scr_run a w)"
  by (simp add: scr_run_def)

lemma scr_run_Nil [simp]: "scr_run [] w = w"
  by (simp add: scr_run_def)

lemma scr_run_Cons [simp]: "scr_run (c # cs) w = scr_run cs (scr_exec c w)"
  by (simp add: scr_run_def)

lemma scr_run_concat: "scr_run (concat (map f xs)) w = foldl (\<lambda>w x. scr_run (f x) w) w xs"
  by (induction xs arbitrary: w) auto

lemma scr_run_scrollok:
  "(\<And>b. Scrollok b \<notin> set cs) \<Longrightarrow> scr_scrollok (scr_run cs w) = scr_scrollok w"
proof (induction cs arbitrary: w)
  case Nil
  then show ?case by simp
next
  case (Cons c cs)
  then have "scr_scrollok (scr_exec c w) = scr_scrollok w" by (cases c) auto
  with Cons show ?case by simp
qed

definition row_cells :: "int \<Rightarrow> screen \<Rightarrow> int \<Rightarrow> cell option list" where
  "row_cells width w r = map (\<lambda>c. scr_cells w (r, c)) [0..width - 1]"

lemma row_cells_eq:
  "(\<And>c. 0 \<le> c \<Longrightarrow> c < width \<Longrightarrow> scr_cells w (r, c) = scr_cells w' (r', c)) \<Longrightarrow>
     row_cells width w r = row_cells width w' r'"
  by (auto simp: row_cells_def)

text \<open>The characters of the grid, without their attributes.\<close>

definition glyph_at :: "screen \<Rightarrow> int \<Rightarrow> int \<Rightarrow> glyph option" where
  "glyph_at w r c = map_option snd (scr_cells w (r, c))"

lemma glyph_at_simps [simp]:
  "glyph_at (scr_exec (Wmove y x) w) = glyph_at w"
  "glyph_at (scr_exec (Wattrset a) w) = glyph_at w"
  "glyph_at (scr_exec Refresh w) = glyph_at w"
  "scr_cursor (scr_exec (Wmove y x) w) = (y, x)"
  "scr_cursor (scr_exec (Wattrset a) w) = scr_cursor w"
  "scr_cursor (scr_exec Refresh w) = scr_cursor w"
  by (simp_all add: glyph_at_def fun_eq_iff)

lemma glyph_at_addch:
  "scr_cursor w = (y, x) \<Longrightarrow>
     glyph_at (scr_exec (Waddch a g) w) r c = (if r = y \<and> c = x then Some g else glyph_at w r c)"
  by (simp add: glyph_at_def)

lemma glyph_at_str:
  "scr_cursor w = (y, x) \<Longrightarrow>
     glyph_at (scr_run (waddstr s) w) r c =
       (if r = y \<and> x \<le> c \<and> c < x + int (length s) then Some (Ch (s ! nat (c - x))) else glyph_at w r c)"
  using scr.run_str(1) [of w y x s "x + int (length s)"]
  by (simp add: glyph_at_def scr_run_eq put_str_def)

lemma waddstr_map: "waddstr (map f is) = map (\<lambda>i. Waddch None (Ch (f i))) is"
  by (simp add: waddstr_def)

text \<open>Calls that stay in one row leave the other rows alone.\<close>

fun call_in_row :: "int \<Rightarrow> wcall \<Rightarrow> bool" where
  "call_in_row y (Wmove r x) = (r = y)"
| "call_in_row y (Wscrl n) = False"
| "call_in_row y (Scrollok b) = False"
| "call_in_row y _ = True"

lemma run_in_row:
  "list_all (call_in_row y) cs \<Longrightarrow> fst (scr_cursor w) = y \<Longrightarrow> r \<noteq> y \<Longrightarrow>
     glyph_at (scr_run cs w) r c = glyph_at w r c"
proof (induction cs arbitrary: w)
  case Nil
  then show ?case by simp
next
  case (Cons a cs)
  then have "fst (scr_cursor (scr_exec a w)) = y \<and> glyph_at (scr_exec a w) r c = glyph_at w r c"
    by (cases a; cases "scr_cursor w") (auto simp: glyph_at_def)
  with Cons show ?case by simp
qed

declare scr_exec.simps [simp del]

lemma waddstr_in_row [simp]: "list_all (call_in_row y) (waddstr s)"
  by (simp add: waddstr_def list_all_iff)

lemma print_button_in_row [simp]: "list_all (call_in_row y) (print_button l y x b)"
  by (auto simp: print_button_def Let_def list_all_iff waddstr_def)

lemma glyph_at_button: "r \<noteq> y \<Longrightarrow> glyph_at (scr_run (print_button l y x b) w) r c = glyph_at w r c"
proof -
  assume r: "r \<noteq> y"
  obtain cs where cs: "print_button l y x b = Wmove y x # cs" by (simp add: print_button_def Let_def)
  have "list_all (call_in_row y) cs" using print_button_in_row [of y l x b] by (simp add: cs)
  with r show ?thesis using run_in_row [of y cs "scr_exec (Wmove y x) w" r c]
    by (simp add: cs)
qed

lemma glyph_at_box:
  assumes "0 \<le> width" "0 \<le> height"
  shows "glyph_at (scr_run (draw_box y x height width box border) w) r c =
    (if y \<le> r \<and> r < y + height \<and> x \<le> c \<and> c < x + width
     then Some (snd (box_cell height width box border (r - y) (c - x))) else glyph_at w r c)"
  using scr.draw_box_cells [of x width "x + width" height y box border w] assms
  by (simp add: glyph_at_def scr_run_eq case_prod_beta)

section \<open>Calls that stay inside of a window\<close>

text \<open>
  A window has margins that the grid lacks: a character behind the right one goes to the next row, a move beyond them fails,
  and a character that cannot be printed takes more than one cell or moves the cursor. \<open>stays\_inside\<close> says that a
  sequence of calls does none of this in a window of \<open>h\<close> rows and \<open>w\<close> columns; \<open>p\<close> is the cursor, if it is known. Such
  sequences do the same in the window as on the grid (\<open>window\_agrees\<close>).
\<close>

definition printable :: "glyph \<Rightarrow> bool" where
  "printable g = (case g of Ch c \<Rightarrow> 32 \<le> code c \<and> code c < 127 | _ \<Rightarrow> True)"

fun stays_inside :: "int \<Rightarrow> int \<Rightarrow> (int \<times> int) option \<Rightarrow> wcall list \<Rightarrow> bool" where
  "stays_inside h w p [] = True"
| "stays_inside h w p (Wmove y x # cs) = (0 \<le> y \<and> y < h \<and> 0 \<le> x \<and> x < w \<and> stays_inside h w (Some (y, x)) cs)"
| "stays_inside h w p (Waddch a g # cs) =
     (case p of None \<Rightarrow> False | Some (y, x) \<Rightarrow> x < w \<and> printable g \<and> stays_inside h w (Some (y, x + 1)) cs)"
| "stays_inside h w p (Wclrtoeol # cs) =
     (case p of None \<Rightarrow> False | Some (y, x) \<Rightarrow> x < w \<and> stays_inside h w (Some (y, x)) cs)"
| "stays_inside h w p (c # cs) = stays_inside h w p cs"

text \<open>The window with its margins, for characters that can be printed.\<close>

fun win_exec :: "int \<Rightarrow> int \<Rightarrow> wcall \<Rightarrow> screen \<Rightarrow> screen" where
  "win_exec h w (Wmove y x) s = (if 0 \<le> y \<and> y < h \<and> 0 \<le> x \<and> x < w then s\<lparr>scr_cursor := (y, x)\<rparr> else s)"
| "win_exec h w (Waddch a g) s =
     (let (y, x) = scr_cursor s;
          s1 = s\<lparr>scr_cells := (scr_cells s)((y, x) := Some (case a of None \<Rightarrow> scr_attr s | Some b \<Rightarrow> Some b, g))\<rparr>
      in if x + 1 < w then s1\<lparr>scr_cursor := (y, x + 1)\<rparr>
         else if y + 1 < h then s1\<lparr>scr_cursor := (y + 1, 0)\<rparr>
         else if scr_scrollok s then (scr_exec (Wscrl 1) s1)\<lparr>scr_cursor := (y, 0)\<rparr>
         else s1)"
| "win_exec h w c s = scr_exec c s"

definition win_run :: "int \<Rightarrow> int \<Rightarrow> wcall list \<Rightarrow> screen \<Rightarrow> screen" where
  "win_run h w cs s = foldl (\<lambda>s c. win_exec h w c s) s cs"

fun no_scroll :: "wcall \<Rightarrow> bool" where
  "no_scroll (Wscrl n) = False"
| "no_scroll (Scrollok b) = False"
| "no_scroll c = True"

lemma window_agrees:
  assumes "stays_inside h w p cs" "list_all no_scroll cs" "\<not> scr_scrollok s'"
    and "scr_cells s' = scr_cells s" "scr_attr s' = scr_attr s"
    and "\<And>y x. p = Some (y, x) \<Longrightarrow> scr_cursor s = (y, x) \<and> (x < w \<longrightarrow> scr_cursor s' = (y, x))"
  shows "scr_cells (win_run h w cs s') = scr_cells (scr_run cs s)"
  using assms
proof (induction h w p cs arbitrary: s s' rule: stays_inside.induct)
  case (2 h w p y x cs)
  have "scr_cells (win_run h w cs (s'\<lparr>scr_cursor := (y, x)\<rparr>)) = scr_cells (scr_run cs (s\<lparr>scr_cursor := (y, x)\<rparr>))"
    using "2.prems" by (intro "2.IH") auto
  then show ?case using "2.prems"(1) by (simp add: win_run_def scr_exec.simps)
next
  case (3 h w p a g cs)
  then obtain y x where p: "p = Some (y, x)" "x < w" by (auto split: option.splits)
  with "3.prems" have c: "scr_cursor s = (y, x)" "scr_cursor s' = (y, x)" by auto
  have "scr_cells (win_run h w cs (win_exec h w (Waddch a g) s')) = scr_cells (scr_run cs (scr_exec (Waddch a g) s))"
    using "3.prems" p c by (intro "3.IH" [OF p(1) refl]) (auto simp: Let_def scr_exec.simps fun_eq_iff split: option.split)
  then show ?case by (simp add: win_run_def)
next
  case (4 h w p cs)
  then obtain y x where p: "p = Some (y, x)" "x < w" by (auto split: option.splits)
  with "4.prems" have c: "scr_cursor s = (y, x)" "scr_cursor s' = (y, x)" by auto
  have "scr_cells (win_run h w cs (scr_exec Wclrtoeol s')) = scr_cells (scr_run cs (scr_exec Wclrtoeol s))"
    using "4.prems" p c by (intro "4.IH" [OF p(1) refl]) (auto simp: scr_exec.simps)
  then show ?case by (simp add: win_run_def)
qed (auto simp: win_run_def scr_exec.simps)

lemma stays_inside_weaken: "stays_inside h w None cs \<Longrightarrow> stays_inside h w p cs"
  by (induction h w "None :: (int \<times> int) option" cs arbitrary: p rule: stays_inside.induct) auto

lemma stays_inside_append:
  "stays_inside h w p cs \<Longrightarrow> stays_inside h w None ds \<Longrightarrow> stays_inside h w p (cs @ ds)"
  by (induction h w p cs rule: stays_inside.induct) (auto intro: stays_inside_weaken split: option.splits)

lemma stays_inside_str:
  "x + int (length t) \<le> w \<Longrightarrow> list_all (\<lambda>c. printable (Ch c)) t \<Longrightarrow> stays_inside h w (Some (y, x + int (length t))) cs \<Longrightarrow>
     stays_inside h w (Some (y, x)) (waddstr t @ cs)"
  by (induction t arbitrary: x) (auto simp: waddstr_def algebra_simps)

end
