(* ===== verification/DialogColors.thy ===== *)
theory DialogColors
  imports Dialog
begin

text \<open>
  Colours and shadows of the dialog program: the attribute and colour tables of
  \<^verbatim>\<open>misc/confdialog/util.c\<close> and \<^verbatim>\<open>misc/confdialog/colors.h\<close>, \<open>color\_setup\<close>, \<open>init\_dialog\<close> and \<open>draw\_shadow\<close>.
\<close>

section \<open>The tables\<close>

datatype color = Black | Red | Green | Yellow | Blue | Magenta | Cyan | White

text \<open>A curses attribute: the video bits the code uses and the number of a colour pair.\<close>

record chtype =
  a_bold :: bool
  a_dim :: bool
  a_reverse :: bool
  a_pair :: nat

definition A_NORMAL :: chtype where "A_NORMAL = \<lparr>a_bold = False, a_dim = False, a_reverse = False, a_pair = 0\<rparr>"
definition A_BOLD :: chtype where "A_BOLD = A_NORMAL\<lparr>a_bold := True\<rparr>"
definition A_DIM :: chtype where "A_DIM = A_NORMAL\<lparr>a_dim := True\<rparr>"
definition A_REVERSE :: chtype where "A_REVERSE = A_NORMAL\<lparr>a_reverse := True\<rparr>"

definition C_ATTR :: "bool \<Rightarrow> nat \<Rightarrow> chtype" where
  "C_ATTR x y = (if x then A_BOLD else A_NORMAL)\<lparr>a_pair := y\<rparr>"

definition attributes :: "chtype list" where
  "attributes =
     [A_NORMAL, A_NORMAL, A_NORMAL, A_BOLD, A_NORMAL,
      A_REVERSE, A_DIM, A_REVERSE, A_BOLD, A_REVERSE, A_NORMAL,
      A_NORMAL, A_NORMAL, A_NORMAL, A_BOLD, A_NORMAL, A_BOLD,
      A_NORMAL, A_NORMAL, A_NORMAL, A_REVERSE, A_BOLD, A_REVERSE, A_BOLD, A_REVERSE,
      A_BOLD, A_REVERSE, A_BOLD, A_BOLD]"

text \<open>The default colours: foreground, background and highlight.\<close>

fun default_color :: "attr \<Rightarrow> color \<times> color \<times> bool" where
  "default_color Screen_attr = (Cyan, Blue, True)"
| "default_color Shadow_attr = (Black, Black, True)"
| "default_color Dialog_attr = (Black, White, False)"
| "default_color Title_attr = (Yellow, White, True)"
| "default_color Border_attr = (White, White, True)"
| "default_color Button_active_attr = (White, Blue, True)"
| "default_color Button_inactive_attr = (Black, White, False)"
| "default_color Button_key_active_attr = (White, Blue, True)"
| "default_color Button_key_inactive_attr = (Red, White, False)"
| "default_color Button_label_active_attr = (Yellow, Blue, True)"
| "default_color Button_label_inactive_attr = (Black, White, True)"
| "default_color Inputbox_attr = (Black, White, False)"
| "default_color Inputbox_border_attr = (Black, White, False)"
| "default_color Searchbox_attr = (Black, White, False)"
| "default_color Searchbox_title_attr = (Yellow, White, True)"
| "default_color Searchbox_border_attr = (White, White, True)"
| "default_color Position_indicator_attr = (Yellow, White, True)"
| "default_color Menubox_attr = (Black, White, False)"
| "default_color Menubox_border_attr = (White, White, True)"
| "default_color Item_attr = (Black, White, False)"
| "default_color Item_selected_attr = (White, Blue, True)"
| "default_color Tag_attr = (Yellow, White, True)"
| "default_color Tag_selected_attr = (Yellow, Blue, True)"
| "default_color Tag_key_attr = (Yellow, White, True)"
| "default_color Tag_key_selected_attr = (Yellow, Blue, True)"
| "default_color Check_attr = (Black, White, False)"
| "default_color Check_selected_attr = (White, Blue, True)"
| "default_color Uarrow_attr = (Green, White, True)"
| "default_color Darrow_attr = (Green, White, True)"

definition color_table :: "(color \<times> color \<times> bool) list" where
  "color_table = map default_color
     [Screen_attr, Shadow_attr, Dialog_attr, Title_attr, Border_attr, Button_active_attr,
      Button_inactive_attr, Button_key_active_attr, Button_key_inactive_attr,
      Button_label_active_attr, Button_label_inactive_attr, Inputbox_attr,
      Inputbox_border_attr, Searchbox_attr, Searchbox_title_attr, Searchbox_border_attr,
      Position_indicator_attr, Menubox_attr, Menubox_border_attr, Item_attr,
      Item_selected_attr, Tag_attr, Tag_selected_attr, Tag_key_attr, Tag_key_selected_attr,
      Check_attr, Check_selected_attr, Uarrow_attr, Darrow_attr]"

definition ATTRIBUTE_COUNT :: nat where
  "ATTRIBUTE_COUNT = 29"

section \<open>Setting up\<close>

text \<open>What the set-up changes: the colour pairs of the terminal and the table of attributes.\<close>

record display =
  started :: bool
  pairs :: "nat \<Rightarrow> (color \<times> color) option"
  attrs :: "chtype list"
  drawn :: "wcall list"

definition init_pair :: "nat \<Rightarrow> color \<Rightarrow> color \<Rightarrow> display \<Rightarrow> display" where
  "init_pair n f b d = d\<lparr>pairs := (pairs d)(n \<mapsto> (f, b))\<rparr>"

definition color_setup :: "bool \<Rightarrow> display \<Rightarrow> display" where
  "color_setup has_colors d =
     (if has_colors
      then (let d1 = d\<lparr>started := True\<rparr>;
                d2 = foldl (\<lambda>d i. init_pair (i + 1) (fst (color_table ! i)) (fst (snd (color_table ! i))) d)
                       d1 [0..<ATTRIBUTE_COUNT]
            in foldl (\<lambda>d i. d\<lparr>attrs := (attrs d)[i := C_ATTR (snd (snd (color_table ! i))) (i + 1)]\<rparr>)
                 d2 [0..<ATTRIBUTE_COUNT])
      else d)"

text \<open>\<open>initscr\<close> starts without colours; the table has its values for a mono display.\<close>

definition initscr :: display where
  "initscr = \<lparr>started = False, pairs = (\<lambda>_. None), attrs = attributes, drawn = []\<rparr>"

definition init_dialog :: "bool \<Rightarrow> bool \<Rightarrow> int \<Rightarrow> int \<Rightarrow> string option \<Rightarrow> display" where
  "init_dialog use_colors has_colors lines cols backtitle =
     (let d = (if use_colors then color_setup has_colors initscr else initscr)
      in d\<lparr>drawn := drawn d @ dialog_clear lines cols backtitle\<rparr>)"

text \<open>How an attribute of the program looks: foreground, background and highlight.\<close>

definition looks :: "display \<Rightarrow> attr \<Rightarrow> (color \<times> color \<times> bool) option" where
  "looks d a =
     (let c = attrs d ! attr_index a
      in map_option (\<lambda>(f, b). (f, b, a_bold c)) (pairs d (a_pair c)))"

section \<open>Shadows\<close>

text \<open>
  The shadow is drawn with the characters that are on the screen. \<open>chartext\<close> is the character of
  a glyph without its attributes: for a line glyph it depends on the terminal.
\<close>

definition winch_text :: "(glyph \<Rightarrow> char) \<Rightarrow> cell option \<Rightarrow> char" where
  "winch_text chartext c = (case c of None \<Rightarrow> CHR '' '' | Some (_, g) \<Rightarrow> chartext g)"

definition shadow_char :: "(glyph \<Rightarrow> char) \<Rightarrow> screen \<Rightarrow> screen" where
  "shadow_char chartext w =
     scr_exec (Waddch None (Ch (winch_text chartext (scr_cells w (scr_cursor w))))) w"

definition draw_shadow :: "bool \<Rightarrow> (glyph \<Rightarrow> char) \<Rightarrow> int \<Rightarrow> int \<Rightarrow> int \<Rightarrow> int \<Rightarrow> screen \<Rightarrow> screen" where
  "draw_shadow has_colors chartext y x height width w =
     (if has_colors
      then (let w1 = scr_exec (Wmove (y + height) (x + 2)) (scr_exec (Wattrset (Some Shadow_attr)) w);
                w2 = foldl (\<lambda>w i. shadow_char chartext w) w1 [0..width - 1];
                w3 = foldl (\<lambda>w i. shadow_char chartext (shadow_char chartext (scr_exec (Wmove i (x + width)) w)))
                       w2 [y + 1..y + height]
            in scr_exec Refresh w3)
      else w)"

section \<open>Lemmas\<close>

lemma length_tables [simp]:
  "length color_table = ATTRIBUTE_COUNT" "length attributes = ATTRIBUTE_COUNT"
  by (simp_all add: color_table_def attributes_def ATTRIBUTE_COUNT_def)

lemma attr_index_less [simp]: "attr_index a < ATTRIBUTE_COUNT"
  by (cases a) (simp_all add: ATTRIBUTE_COUNT_def)

text \<open>The two loops of the set-up, up to entry \<open>n\<close>.\<close>

lemma init_pairs:
  "foldl (\<lambda>d i. init_pair (i + 1) (f i) (b i) d) d [0..<n] =
     d\<lparr>pairs := (\<lambda>k. if 1 \<le> k \<and> k \<le> n then Some (f (k - 1), b (k - 1)) else pairs d k)\<rparr>"
proof (induction n)
  case 0
  have "(\<lambda>k. if 1 \<le> k \<and> k \<le> 0 then Some (f (k - 1), b (k - 1)) else pairs d k) = pairs d" by auto
  then show ?case by simp
next
  case (Suc n)
  have "(\<lambda>k. if 1 \<le> k \<and> k \<le> n then Some (f (k - 1), b (k - 1)) else pairs d k)(Suc n \<mapsto> (f n, b n)) =
      (\<lambda>k. if 1 \<le> k \<and> k \<le> Suc n then Some (f (k - 1), b (k - 1)) else pairs d k)"
    by (auto simp: fun_eq_iff le_Suc_eq)
  with Suc show ?case by (simp add: init_pair_def)
qed

lemma set_attrs:
  "n \<le> length (attrs d) \<Longrightarrow>
     foldl (\<lambda>d i. d\<lparr>attrs := (attrs d)[i := f i]\<rparr>) d [0..<n] = d\<lparr>attrs := map f [0..<n] @ drop n (attrs d)\<rparr>"
  by (induction n) (simp_all add: list_update_append Cons_nth_drop_Suc [symmetric])

lemma color_table_entry: "color_table ! attr_index a = default_color a"
  by (cases a) (simp_all add: color_table_def)

lemma color_setup_table:
  "length (attrs d) = ATTRIBUTE_COUNT \<Longrightarrow> looks (color_setup True d) a = Some (color_table ! attr_index a)"
  using init_pairs [of "\<lambda>i. fst (color_table ! i)" "\<lambda>i. fst (snd (color_table ! i))"]
  by (simp add: looks_def color_setup_def Let_def set_attrs C_ATTR_def A_BOLD_def A_NORMAL_def Suc_le_eq prod_eq_iff)

text \<open>The cells of a region redrawn as shadow.\<close>

definition shadowed :: "(glyph \<Rightarrow> char) \<Rightarrow> (int \<times> int) set \<Rightarrow> (int \<times> int \<Rightarrow> cell option) \<Rightarrow> int \<times> int \<Rightarrow> cell option" where
  "shadowed chartext P m p =
     (if p \<in> P then Some (Some Shadow_attr, Ch (winch_text chartext (m p))) else m p)"

lemma shadowed_empty: "shadowed chartext {} m = m"
  by (simp add: shadowed_def fun_eq_iff)

lemma shadowed_Un:
  assumes "\<And>c. chartext (Ch c) = c"
  shows "shadowed chartext P (shadowed chartext Q m) = shadowed chartext (Q \<union> P) m"
  using assms by (auto simp: shadowed_def winch_text_def fun_eq_iff)

lemma shadow_char:
  assumes "scr_attr w = Some Shadow_attr" "scr_cursor w = (r, c)"
  shows "scr_cells (shadow_char chartext w) = shadowed chartext {(r, c)} (scr_cells w)"
    "scr_attr (shadow_char chartext w) = Some Shadow_attr"
    "scr_cursor (shadow_char chartext w) = (r, c + 1)"
  using assms by (auto simp: shadow_char_def shadowed_def fun_eq_iff)

lemma shadow_row:
  assumes "\<And>c. chartext (Ch c) = c" "scr_attr w = Some Shadow_attr" "scr_cursor w = (r, c)"
  shows "scr_cells (foldl (\<lambda>w i. shadow_char chartext w) w xs) =
      shadowed chartext ({r} \<times> {c..<c + int (length xs)}) (scr_cells w) \<and>
    scr_attr (foldl (\<lambda>w i. shadow_char chartext w) w xs) = Some Shadow_attr"
  using assms(2,3)
proof (induction xs arbitrary: w c)
  case Nil
  then show ?case by (simp add: shadowed_empty)
next
  case (Cons x xs)
  note s = shadow_char [OF Cons.prems]
  have "{(r, c)} \<union> {r} \<times> {c + 1..<c + 1 + int (length xs)} = {r} \<times> {c..<c + int (length (x # xs))}"
    by auto
  with Cons.IH [OF s(2,3)] show ?case by (simp add: s(1) shadowed_Un [OF assms(1)])
qed

lemma shadow_column:
  assumes "\<And>c. chartext (Ch c) = c" "scr_attr w = Some Shadow_attr"
  shows "scr_cells (foldl (\<lambda>w i. shadow_char chartext (shadow_char chartext (scr_exec (Wmove i x) w))) w rs) =
      shadowed chartext (set rs \<times> {x, x + 1}) (scr_cells w)"
  using assms(2)
proof (induction rs arbitrary: w)
  case Nil
  then show ?case by (simp add: shadowed_empty)
next
  case (Cons r rs)
  let ?w1 = "scr_exec (Wmove r x) w"
  have a: "scr_attr ?w1 = Some Shadow_attr" "scr_cursor ?w1 = (r, x)" using Cons.prems by simp_all
  note s1 = shadow_char [OF a, of chartext]
  note s2 = shadow_char [OF s1(2,3), of chartext]
  have "{(r, x)} \<union> {(r, x + 1)} \<union> set rs \<times> {x, x + 1} = set (r # rs) \<times> {x, x + 1}" by auto
  with Cons.IH [OF s2(2)] show ?case
    by (simp add: s1(1) s2(1) shadowed_Un [OF assms(1)] del: scr_exec.simps) simp
qed

section \<open>Properties\<close>

text \<open>
  Colours: on a terminal with colours every attribute of the program looks as the table of
  colours says, and exactly the shadow and the three light borders are drawn in the colour of
  their background; without colours the attributes keep their values for a mono display.
\<close>

theorem colors_as_in_table:
  "looks (init_dialog True True lines cols backtitle) a = Some (default_color a) \<and>
   (fst (default_color a) = fst (snd (default_color a)) \<longleftrightarrow>
      a \<in> {Shadow_attr, Border_attr, Searchbox_border_attr, Menubox_border_attr}) \<and>
   attrs (init_dialog True False lines cols backtitle) = attributes \<and>
   drawn (init_dialog use_colors has_colors lines cols backtitle) = dialog_clear lines cols backtitle"
proof -
  have "looks (init_dialog True True lines cols backtitle) a = looks (color_setup True initscr) a"
    by (simp add: init_dialog_def looks_def Let_def)
  then have "looks (init_dialog True True lines cols backtitle) a = Some (default_color a)"
    by (simp add: color_setup_table initscr_def color_table_entry)
  moreover have "fst (default_color a) = fst (snd (default_color a)) \<longleftrightarrow>
      a \<in> {Shadow_attr, Border_attr, Searchbox_border_attr, Menubox_border_attr}"
    by (cases a) simp_all
  moreover have "attrs (init_dialog True False lines cols backtitle) = attributes"
    by (simp add: init_dialog_def color_setup_def initscr_def)
  moreover have "drawn (color_setup has_colors initscr) = []"
    using init_pairs [of "\<lambda>i. fst (color_table ! i)" "\<lambda>i. fst (snd (color_table ! i))"]
    by (simp add: color_setup_def initscr_def Let_def set_attrs)
  then have "drawn (init_dialog use_colors has_colors lines cols backtitle) = dialog_clear lines cols backtitle"
    by (simp add: init_dialog_def initscr_def Let_def)
  ultimately show ?thesis by blast
qed

text \<open>
  Shadows: the shadow of a box covers two columns to its right and the row below it, both
  moved down and to the right by the depth of the shadow; the characters there stay, in the
  attribute of the shadow, and every other cell is left as it was.
\<close>

theorem shadow_cells:
  assumes "\<And>c. chartext (Ch c) = c" "0 \<le> width" "0 \<le> height"
  shows "scr_cells (draw_shadow True chartext y x height width w) (r, c) =
    (if r = y + height \<and> x + 2 \<le> c \<and> c < x + width + 2 \<or> y < r \<and> r \<le> y + height \<and> (c = x + width \<or> c = x + width + 1)
     then Some (Some Shadow_attr, Ch (winch_text chartext (scr_cells w (r, c)))) else scr_cells w (r, c))"
proof -
  define w1 where "w1 = scr_exec (Wmove (y + height) (x + 2)) (scr_exec (Wattrset (Some Shadow_attr)) w)"
  have a: "scr_attr w1 = Some Shadow_attr" "scr_cursor w1 = (y + height, x + 2)" "scr_cells w1 = scr_cells w"
    by (simp_all add: w1_def)
  define w2 where "w2 = foldl (\<lambda>w i. shadow_char chartext w) w1 [0..width - 1]"
  have w2: "scr_cells w2 = shadowed chartext ({y + height} \<times> {x + 2..<x + 2 + int (length [0..width - 1])}) (scr_cells w)"
      "scr_attr w2 = Some Shadow_attr"
    using shadow_row [OF assms(1) a(1,2), of "[0..width - 1]"] unfolding w2_def a(3) by blast+
  have "scr_cells (draw_shadow True chartext y x height width w) =
      scr_cells (foldl (\<lambda>w i. shadow_char chartext (shadow_char chartext (scr_exec (Wmove i (x + width)) w))) w2 [y + 1..y + height])"
    by (simp add: draw_shadow_def Let_def w2_def w1_def)
  also have "\<dots> = shadowed chartext ({y + height} \<times> {x + 2..<x + 2 + int (length [0..width - 1])} \<union> set [y + 1..y + height] \<times> {x + width, x + width + 1})
        (scr_cells w)"
    unfolding shadow_column [OF assms(1) w2(2)] w2(1) shadowed_Un [OF assms(1)] by (rule refl)
  finally show ?thesis using assms(2,3) by (auto simp: shadowed_def)
qed

lemma shadow_cells_witness:
  "scr_cells (draw_shadow True (\<lambda>g. case g of Ch c \<Rightarrow> c | _ \<Rightarrow> CHR ''q'') 0 0 2 3
      (scr_run [Wmove 2 4, Waddch None HLine] empty_screen)) (2, 4) = Some (Some Shadow_attr, Ch CHR ''q'')"
  using shadow_cells [of "\<lambda>g. case g of Ch c \<Rightarrow> c | _ \<Rightarrow> CHR ''q''" 3 2 0 0
      "scr_run [Wmove 2 4, Waddch None HLine] empty_screen" 2 4]
  by (simp add: scr_run_def winch_text_def)

end
