(* ===== verification/DialogMenu.thy ===== *)
theory DialogMenu
  imports DialogRows
begin

text \<open>
  The menu of the dialog program (\<^verbatim>\<open>misc/confdialog/menubox.c\<close>): its item rows, the choice of the first
  visible item, the key loop with scrolling, paging, hot keys and buttons, and the scroll file.
\<close>

section \<open>The menu and its geometry\<close>

text \<open>
  A menu has items, each a tag and a text, and the sizes of its box. \<open>mn\_getyx\<close> is the cursor
  position of the dialog window after a sequence of calls, \<open>mn\_adv\<close> the one after a word of
  the prompt, as curses reports them.
\<close>

record menu =
  mn_items :: "(string \<times> string) list"
  mn_height :: int
  mn_width :: int
  mn_menu_height :: int
  mn_getyx :: "wcall list \<Rightarrow> int \<times> int"
  mn_adv :: "int \<times> int \<Rightarrow> string \<Rightarrow> int \<times> int"

definition item_no :: "menu \<Rightarrow> int" where
  "item_no m = int (length (mn_items m))"

definition max_choice :: "menu \<Rightarrow> int" where
  "max_choice m = (if mn_menu_height m < item_no m then mn_menu_height m else item_no m)"

definition menu_width :: "menu \<Rightarrow> int" where
  "menu_width m = mn_width m - 6"

definition tag :: "menu \<Rightarrow> int \<Rightarrow> string" where
  "tag m i = fst (mn_items m ! nat i)"

definition txt_of :: "menu \<Rightarrow> int \<Rightarrow> string" where
  "txt_of m i = snd (mn_items m ! nat i)"

definition longest_item :: "menu \<Rightarrow> int" where
  "longest_item m =
     foldl (\<lambda>x it. let l = (if menu_width m < int (length (snd it)) + 2 then menu_width m
                           else int (length (snd it)) + 2)
                   in if x > l then x else l) 0 (mn_items m)"

definition item_x :: "menu \<Rightarrow> int" where
  "item_x m = (menu_width m - longest_item m) div 2"

definition box_y :: "menu \<Rightarrow> int" where
  "box_y m = mn_height m - mn_menu_height m - 5"

definition box_x :: "menu \<Rightarrow> int" where
  "box_x m = (mn_width m - menu_width m) div 2 - 1"

section \<open>What is drawn\<close>

definition hotkey_item :: "menu \<Rightarrow> int \<Rightarrow> bool" where
  "hotkey_item m i \<longleftrightarrow> (case tag m i of [] \<Rightarrow> True | c # _ \<Rightarrow> c \<noteq> CHR '':'')"

definition print_item :: "menu \<Rightarrow> int \<Rightarrow> int \<Rightarrow> bool \<Rightarrow> wcall list" where
  "print_item m r i selected =
     (let menu_item = take (nat (menu_width m)) (txt_of m i);
          j = first_alpha menu_item ''YyNnMm''
      in [Wattrset (Some Menubox_attr), Wmove r 0, Wclrtoeol,
          Wattrset (Some (if selected then Item_selected_attr else Item_attr)), Wmove r (item_x m)] @
         waddstr menu_item @
         (if hotkey_item m i
          then [Wattrset (Some (if selected then Tag_key_selected_attr else Tag_key_attr)),
                Wmove r (item_x m + int j),
                Waddch None (Ch (if j < length menu_item then menu_item ! j else nul))]
          else []) @
         (if selected then [Wmove r (item_x m + 1), Refresh] else []))"

definition print_arrows :: "menu \<Rightarrow> int \<Rightarrow> int \<times> int \<Rightarrow> wcall list" where
  "print_arrows m scroll cur =
     (let y = box_y m; x = box_x m + item_x m + 1; y2 = y + mn_menu_height m + 1
      in [Wmove y x] @ arrow_line (scroll > 0) Uarrow_attr UArrow ''(-)'' Menubox_attr @
         [Wmove y2 x] @
         arrow_line (mn_menu_height m < item_no m \<and> scroll + mn_menu_height m < item_no m)
           Darrow_attr DArrow ''(+)'' Menubox_border_attr @
         [Wmove (fst cur) (snd cur)])"

definition print_buttons :: "menu \<Rightarrow> int \<Rightarrow> wcall list" where
  "print_buttons m selected =
     (let x = mn_width m div 2 - 16; y = mn_height m - 2
      in print_button ''Select'' y x (selected = 0) @
         print_button '' Exit '' y (x + 12) (selected = 1) @
         print_button '' Help '' y (x + 24) (selected = 2) @
         [Wmove y (x + 1 + 12 * selected), Refresh])"

definition menu_frame :: "menu \<Rightarrow> string option \<Rightarrow> placed list \<Rightarrow> wcall list" where
  "menu_frame m title prompt =
     draw_box 0 0 (mn_height m) (mn_width m) Dialog_attr Border_attr @
     separator (mn_height m) (mn_width m) @
     title_bar (mn_width m) title @
     [Wattrset (Some Dialog_attr)] @ place_words prompt @
     draw_box (box_y m) (box_x m) (mn_menu_height m + 2) (menu_width m + 2)
       Menubox_border_attr Menubox_attr"

section \<open>The key loop\<close>

record menu_state =
  choice :: int
  scroll :: int
  button :: int
  menu_out :: "wcall list"
  dialog_out :: "wcall list"
  scrltmp :: "int option option"

record menu_result =
  mr_return :: int
  mr_stderr :: string
  mr_scrltmp :: "int option option"

definition emit :: "wcall list \<Rightarrow> menu_state \<Rightarrow> menu_state" where
  "emit cs s = s\<lparr>menu_out := menu_out s @ cs\<rparr>"

text \<open>Printing item \<open>i\<close> in row \<open>r\<close> of the menu.\<close>

definition put_item :: "menu \<Rightarrow> int \<Rightarrow> int \<Rightarrow> bool \<Rightarrow> menu_state \<Rightarrow> menu_state" where
  "put_item m r i selected = emit (print_item m r i selected)"

definition hot_char :: "menu \<Rightarrow> int \<Rightarrow> int" where
  "hot_char m i = int_tolower (schar_at (txt_of m i) (first_alpha (txt_of m i) ''YyNnMm''))"

text \<open>
  The row a key selects: the next one below the current choice whose hot key it is, or else the
  first one; \<open>max_choice\<close> if there is none.
\<close>

definition hot_row :: "menu \<Rightarrow> int \<Rightarrow> menu_state \<Rightarrow> int" where
  "hot_row m key s =
     (if key_in [CHR ''?'', CHR '' '', newline] key then max_choice m
      else (case find (\<lambda>i. key = hot_char m (scroll s + i)) [choice s + 1..max_choice m - 1] of
              Some i \<Rightarrow> i
            | None \<Rightarrow>
                (case find (\<lambda>i. key = hot_char m (scroll s + i)) [0..max_choice m - 1] of
                   Some i \<Rightarrow> i
                 | None \<Rightarrow> max_choice m)))"

definition key_up :: "menu \<Rightarrow> menu_state \<Rightarrow> menu_state" where
  "key_up m s =
     (if choice s < 2 \<and> scroll s \<noteq> 0
      then (let s1 = emit [Scrollok True, Wscrl (-1), Scrollok False] s;
                s2 = s1\<lparr>scroll := scroll s1 - 1\<rparr>
            in put_item m 0 (scroll s2) False s2)
      else s\<lparr>choice := (if choice s - 1 > 0 then choice s - 1 else 0)\<rparr>)"

definition key_down :: "menu \<Rightarrow> menu_state \<Rightarrow> menu_state" where
  "key_down m s0 =
     (let s = put_item m (choice s0) (scroll s0 + choice s0) False s0
      in if choice s > max_choice m - 3 \<and> scroll s + max_choice m < item_no m
         then (let s1 = emit [Scrollok True, Wscrl 1, Scrollok False] s;
                   s2 = s1\<lparr>scroll := scroll s1 + 1\<rparr>
               in put_item m (max_choice m - 1) (scroll s2 + max_choice m - 1) False s2)
         else s\<lparr>choice := (if choice s + 1 < max_choice m - 1 then choice s + 1 else max_choice m - 1)\<rparr>)"

definition ppage_body :: "menu \<Rightarrow> menu_state \<Rightarrow> menu_state" where
  "ppage_body m s =
     (if scroll s > 0
      then (let s1 = emit [Wscrl (-1)] s; s2 = s1\<lparr>scroll := scroll s1 - 1\<rparr>
            in put_item m 0 (scroll s2) False s2)
      else if choice s > 0 then s\<lparr>choice := choice s - 1\<rparr> else s)"

definition key_ppage :: "menu \<Rightarrow> menu_state \<Rightarrow> menu_state" where
  "key_ppage m s =
     emit [Scrollok False] ((ppage_body m ^^ nat (max_choice m)) (emit [Scrollok True] s))"

definition npage_body :: "menu \<Rightarrow> menu_state \<Rightarrow> menu_state" where
  "npage_body m s =
     (if scroll s + max_choice m < item_no m
      then (let s1 = emit [Scrollok True, Wscrl 1, Scrollok False] s;
                s2 = s1\<lparr>scroll := scroll s1 + 1\<rparr>
            in put_item m (max_choice m - 1) (scroll s2 + max_choice m - 1) False s2)
      else if choice s + 1 < max_choice m then s\<lparr>choice := choice s + 1\<rparr> else s)"

definition key_npage :: "menu \<Rightarrow> menu_state \<Rightarrow> menu_state" where
  "key_npage m s = (npage_body m ^^ nat (max_choice m)) s"

definition menu_move :: "menu \<Rightarrow> int \<Rightarrow> int \<Rightarrow> menu_state \<Rightarrow> menu_state" where
  "menu_move m key i s =
     (let s0 = put_item m (choice s) (scroll s + choice s) False s;
          s1 = (if key = KEY_UP \<or> key = chr CHR ''-'' then key_up m s0
                else if key = KEY_DOWN \<or> key = chr CHR ''+'' then key_down m s0
                else if key = KEY_PPAGE then key_ppage m s0
                else if key = KEY_NPAGE then key_npage m s0
                else s0\<lparr>choice := i\<rparr>);
          s2 = put_item m (choice s1) (scroll s1 + choice s1) True s1
      in s2\<lparr>dialog_out := dialog_out s2 @ print_arrows m (scroll s2) (mn_getyx m (dialog_out s2))\<rparr>)"

definition next_button :: "int \<Rightarrow> int \<Rightarrow> int" where
  "next_button key b =
     (let b1 = (if key = KEY_LEFT then b - 1 else b + 1)
      in if b1 < 0 then 2 else if b1 > 2 then 0 else b1)"

text \<open>
  Leaving the menu: the scroll position is written to the scroll file, the tag of the chosen item
  (and its text for the help button) to stderr, and the file is removed again.
\<close>

definition menu_finish :: "menu \<Rightarrow> int \<Rightarrow> menu_state \<Rightarrow> menu_result" where
  "menu_finish m b s =
     (let s1 = s\<lparr>scrltmp := Some (Some (scroll s))\<rparr>;
          i = scroll s1 + choice s1;
          out = (if b = 2
                 then tag m i @ '' '' @ [CHR 0x22] @ drop (first_alpha (txt_of m i) '''') (txt_of m i) @
                      [CHR 0x22, newline]
                 else tag m i @ [newline]);
          s2 = s1\<lparr>scrltmp := None\<rparr>
      in \<lparr>mr_return = b, mr_stderr = out, mr_scrltmp = scrltmp s2\<rparr>)"

definition menu_escape :: "menu_state \<Rightarrow> menu_result" where
  "menu_escape s = \<lparr>mr_return = -1, mr_stderr = [], mr_scrltmp = None\<rparr>"

definition fold_key :: "int \<Rightarrow> int" where
  "fold_key key = (if key < 256 \<and> int_isalpha key then int_tolower key else key)"

definition nav_keys :: "int set" where
  "nav_keys = {KEY_UP, KEY_DOWN, chr CHR ''-'', chr CHR ''+'', KEY_PPAGE, KEY_NPAGE}"

definition menu_key :: "menu \<Rightarrow> int \<Rightarrow> menu_state \<Rightarrow> menu_state + menu_result" where
  "menu_key m k s =
     (let key = fold_key k; i = hot_row m key s
      in if i < max_choice m \<or> key \<in> nav_keys
         then (let s' = menu_move m key i s in if key = ESC then Inr (menu_escape s') else Inl s')
         else if key = KEY_LEFT \<or> key = TAB \<or> key = KEY_RIGHT
         then (let b = next_button key (button s)
               in Inl (s\<lparr>button := b, dialog_out := dialog_out s @ print_buttons m b\<rparr>))
         else if key = chr CHR ''?'' then Inr (menu_finish m 2 s)
         else if key = chr CHR '' '' then Inr (menu_finish m 0 s)
         else if key = NL then Inr (menu_finish m (button s) s)
         else if key = ESC then Inr (menu_escape s)
         else Inl s)"

section \<open>The start of the menu\<close>

definition default_choice :: "menu \<Rightarrow> string \<Rightarrow> int" where
  "default_choice m current =
     foldl (\<lambda>c i. if current = tag m i then i else c) 0 [0..item_no m - 1]"

text \<open>
  The first scroll position and choice. \<open>None\<close> is a missing scroll file, \<open>Some None\<close> one
  without a number in it.
\<close>

definition read_scrltmp :: "menu \<Rightarrow> int option option \<Rightarrow> int \<Rightarrow> bool \<times> int" where
  "read_scrltmp m f cur =
     (case f of
        None \<Rightarrow> (False, 0)
      | Some None \<Rightarrow> (False, 0)
      | Some (Some n) \<Rightarrow>
          if n \<le> cur \<and> n + max_choice m > cur \<and> n \<ge> 0 \<and> n + max_choice m \<le> item_no m
          then (True, n) else (False, 0))"

definition first_view :: "menu \<Rightarrow> string \<Rightarrow> int option option \<Rightarrow> int \<times> int" where
  "first_view m current f =
     (let c0 = default_choice m current;
          (used, scr) = read_scrltmp m f c0;
          c1 = (if used then c0 - scr else c0)
      in if c1 \<ge> max_choice m \<or> (\<not> used \<and> c1 \<ge> max_choice m div 2)
         then (if c1 \<ge> item_no m - max_choice m div 2
               then (item_no m - max_choice m, c1 - (item_no m - max_choice m))
               else (c1 - max_choice m div 2, max_choice m div 2))
         else (scr, c1))"

definition menu_init ::
  "menu \<Rightarrow> string option \<Rightarrow> placed list \<Rightarrow> string \<Rightarrow> int option option \<Rightarrow> menu_state" where
  "menu_init m title prompt current f =
     (let (scr, ch) = first_view m current f;
          rows = concat (map (\<lambda>i. print_item m i (scr + i) (i = ch)) [0..max_choice m - 1]);
          frame = menu_frame m title prompt
      in \<lparr>choice = ch, scroll = scr, button = 0,
          menu_out = rows @ [Wmove ch (item_x m + 1), Refresh],
          dialog_out = frame @ print_arrows m scr (mn_getyx m frame) @ print_buttons m 0,
          scrltmp = (if fst (read_scrltmp m f (default_choice m current)) then f else None)\<rparr>)"

text \<open>The whole dialog, over the keys that are typed; \<open>Inl\<close> while it waits for more.\<close>

definition dialog_menu ::
  "menu \<Rightarrow> string option \<Rightarrow> string \<Rightarrow> string \<Rightarrow> int option option \<Rightarrow> int list \<Rightarrow>
     (menu_state + menu_result) option" where
  "dialog_menu m title prompt current f keys =
     map_option (\<lambda>ps. run_loop (menu_key m) (menu_init m title ps current f) keys)
       (print_autowrap (mn_adv m) prompt (mn_width m - 2) 1 3)"

section \<open>What an item row looks like\<close>

definition menu_row :: "menu \<Rightarrow> int \<Rightarrow> bool \<Rightarrow> cell option list" where
  "menu_row m i selected =
     (let item = take (nat (menu_width m)) (txt_of m i);
          x = item_x m;
          j = first_alpha item ''YyNnMm''
      in map (\<lambda>c. Some (
           if hotkey_item m i \<and> c = x + int j
           then (Some (if selected then Tag_key_selected_attr else Tag_key_attr),
                 Ch (if j < length item then item ! j else nul))
           else if x \<le> c \<and> c < x + int (length item)
           then (Some (if selected then Item_selected_attr else Item_attr), Ch (item ! nat (c - x)))
           else blank)) [0..menu_width m - 1])"

context curses
begin

lemma print_item_cells:
  fixes m :: menu and i :: int
  defines "item \<equiv> take (nat (menu_width m)) (txt_of m i)"
  defines "j \<equiv> first_alpha item ''YyNnMm''"
  assumes fit: "item_x m + int (length item) \<le> maxx"
  shows "cell (run (print_item m r i selected) w) (r', c) =
    (if r' = r \<and> hotkey_item m i \<and> c = item_x m + int j
     then Some (Some (if selected then Tag_key_selected_attr else Tag_key_attr),
                Ch (if j < length item then item ! j else nul))
     else put_str (Some (if selected then Item_selected_attr else Item_attr)) r (item_x m) item
            (\<lambda>(r', c). if r' = r \<and> 0 \<le> c then Some blank else cell w (r', c)) (r', c))"
proof -
  let ?a = "Some (if selected then Item_selected_attr else Item_attr)"
  define w1 where "w1 = exec (Wmove r (item_x m)) (exec (Wattrset ?a)
    (exec Wclrtoeol (exec (Wmove r 0) (exec (Wattrset (Some Menubox_attr)) w))))"
  have w1: "cursor w1 = (r, item_x m)" "cattr w1 = ?a"
    "cell w1 = (\<lambda>(r', c). if r' = r \<and> 0 \<le> c then Some blank else cell w (r', c))"
    by (auto simp: w1_def laws cell_clrtoeol [where y = r and x = 0] fun_eq_iff)
  define w2 where "w2 = run (waddstr item) w1"
  have w2: "cell w2 = put_str ?a r (item_x m) item (cell w1)"
    using run_str(1) [OF w1(1) fit] by (simp add: w2_def w1(2))
  define w3 where "w3 = (if hotkey_item m i
    then exec (Waddch None (Ch (if j < length item then item ! j else nul))) (exec (Wmove r (item_x m + int j))
           (exec (Wattrset (Some (if selected then Tag_key_selected_attr else Tag_key_attr))) w2))
    else w2)"
  have w3: "cell w3 (r', c) = (if r' = r \<and> hotkey_item m i \<and> c = item_x m + int j
     then Some (Some (if selected then Tag_key_selected_attr else Tag_key_attr),
                Ch (if j < length item then item ! j else nul)) else cell w2 (r', c))"
    by (auto simp: w3_def laws cell_addch)
  have "run (print_item m r i selected) w =
    (if selected then exec Refresh (exec (Wmove r (item_x m + 1)) w3) else w3)"
    by (simp add: print_item_def Let_def w3_def w2_def w1_def item_def [symmetric] j_def [symmetric])
  then have "cell (run (print_item m r i selected) w) = cell w3" by (simp add: laws)
  with w3 show ?thesis by (simp add: w2 w1(3))
qed

end

lemma menu_row_put:
  "row_cells (menu_width m) (scr_run (print_item m r i sel) w) =
     (row_cells (menu_width m) w)(r := menu_row m i sel)"
proof
  fix r'
  note p = scr.print_item_cells [OF order.refl, of m r i sel w, folded scr_run_eq]
  show "row_cells (menu_width m) (scr_run (print_item m r i sel) w) r' =
      ((row_cells (menu_width m) w)(r := menu_row m i sel)) r'"
    by (cases "r' = r") (auto simp: row_cells_def menu_row_def Let_def p put_str_def)
qed

interpretation menu_rows: item_rows "\<lambda>r i sel. scr_run (print_item m r i sel)" "\<lambda>n. scr_exec (Wscrl n)"
    "row_cells (menu_width m)" "menu_row m" "\<lambda>i. 0 \<le> i \<and> i < item_no m" scr_scrollok "\<lambda>b. scr_exec (Scrollok b)"
  for m
proof
  show "scr_scrollok (scr_run (print_item m r i sel) w) = scr_scrollok w" for r i sel w
    by (rule scr_run_scrollok) (auto simp: print_item_def Let_def waddstr_def split: if_splits)
qed (auto simp: menu_row_put row_cells_def scr_exec.simps)

section \<open>Steps of the key loop\<close>


lemmas rows_ok = menu_rows.ok_put menu_rows.ok_scrl menu_rows.ok_set_ok menu_rows.shows_set_ok
  menu_rows.shows_put_set_ok

definition position :: "menu_state \<Rightarrow> int" where
  "position s = scroll s + choice s"

definition in_view :: "menu \<Rightarrow> menu_state \<Rightarrow> bool" where
  "in_view m s \<longleftrightarrow> 0 < max_choice m \<and> 0 \<le> choice s \<and> choice s < max_choice m \<and>
     0 \<le> scroll s \<and> scroll s + max_choice m \<le> item_no m"

definition menu_win :: "menu_state \<Rightarrow> screen" where
  "menu_win s = scr_run (menu_out s) empty_screen"

definition view :: "menu \<Rightarrow> menu_state \<Rightarrow> int \<Rightarrow> bool" where
  "view m s ch \<longleftrightarrow>
     (\<forall>r. 0 \<le> r \<and> r < max_choice m \<longrightarrow>
        row_cells (menu_width m) (menu_win s) r = menu_row m (scroll s + r) (r = ch))"

lemma view_shows: "view m s ch = menu_rows.shows_items m (max_choice m) (menu_win s) (scroll s) ch"
  by (simp add: view_def menu_rows.shows_items_def)

lemma put_item_simps [simp]:
  "choice (put_item m r i b s) = choice s" "scroll (put_item m r i b s) = scroll s"
  "button (put_item m r i b s) = button s" "scrltmp (put_item m r i b s) = scrltmp s"
  "dialog_out (put_item m r i b s) = dialog_out s"
  "menu_win (put_item m r i b s) = scr_run (print_item m r i b) (menu_win s)"
  by (simp_all add: put_item_def emit_def menu_win_def)

lemma emit_simps [simp]:
  "choice (emit cs s) = choice s" "scroll (emit cs s) = scroll s" "button (emit cs s) = button s"
  "scrltmp (emit cs s) = scrltmp s" "dialog_out (emit cs s) = dialog_out s"
  "menu_win (emit cs s) = scr_run cs (menu_win s)"
  by (simp_all add: emit_def menu_win_def)

lemma menu_win_upd [simp]:
  "menu_win (s\<lparr>choice := c\<rparr>) = menu_win s" "menu_win (s\<lparr>scroll := c\<rparr>) = menu_win s"
  "menu_win (s\<lparr>dialog_out := d\<rparr>) = menu_win s" "menu_win (s\<lparr>button := c\<rparr>) = menu_win s"
  by (simp_all add: menu_win_def)

text \<open>
  One move: the view stays a section of the items, the position changes as told, and the rows
  without a highlight still show their items.
\<close>

definition moves :: "menu \<Rightarrow> menu_state \<Rightarrow> menu_state \<Rightarrow> int \<Rightarrow> bool" where
  "moves m s s' p \<longleftrightarrow> in_view m s' \<and> view m s' (-1) \<and> position s' = p \<and>
     scr_scrollok (menu_win s) = scr_scrollok (menu_win s')"

lemma key_up_moves:
  assumes "in_view m s" "view m s (-1)" "\<not> scr_scrollok (menu_win s)"
  shows "moves m s (key_up m s) (max (position s - 1) 0)"
proof (cases "choice s < 2 \<and> scroll s \<noteq> 0")
  case True
  have "menu_rows.shows_items m (max_choice m)
      (scr_run (print_item m 0 (scroll s - 1) False) (scr_exec (Wscrl (-1)) (scr_exec (Scrollok True) (menu_win s))))
      (scroll s - 1) (-1)"
    using assms(1,2) True by (intro menu_rows.shows_down) (auto simp: view_shows in_view_def rows_ok)
  then show ?thesis
    using assms True
    by (auto simp: moves_def key_up_def Let_def view_shows in_view_def position_def rows_ok)
qed (use assms in \<open>auto simp: moves_def key_up_def view_shows in_view_def position_def\<close>)

lemma view_unmark:
  assumes "in_view m s" "view m s (choice s) \<or> view m s (-1)"
  shows "view m (put_item m (choice s) (scroll s + choice s) False s) (-1)"
proof -
  have "0 \<le> choice s" "0 \<le> scroll s + choice s \<and> scroll s + choice s < item_no m"
    using assms(1) by (auto simp: in_view_def)
  then show ?thesis
    using assms(2) menu_rows.shows_unmark menu_rows.shows_put by (auto simp: view_shows)
qed

lemma scroll_up_moves:
  assumes "in_view m s" "view m s (-1)" "scroll s + max_choice m < item_no m" "\<not> scr_scrollok (menu_win s)"
    and s': "s' = put_item m (max_choice m - 1) (scroll s + 1 + max_choice m - 1) False
      ((emit [Scrollok True, Wscrl 1, Scrollok False] s)\<lparr>scroll := scroll s + 1\<rparr>)"
  shows "moves m s s' (position s + 1)"
proof -
  have "menu_rows.shows_items m (max_choice m)
      (scr_run (print_item m (max_choice m - 1) (scroll s + 1 + (max_choice m - 1)) False)
        (scr_exec (Wscrl 1) (scr_exec (Scrollok True) (menu_win s)))) (scroll s + 1) (-1)"
    using assms(1-3) by (intro menu_rows.shows_up) (auto simp: view_shows in_view_def rows_ok)
  then show ?thesis
    using assms by (auto simp: moves_def view_shows in_view_def position_def rows_ok algebra_simps)
qed

lemma key_down_moves:
  assumes v: "in_view m s0" "view m s0 (-1)" "\<not> scr_scrollok (menu_win s0)"
  shows "moves m s0 (key_down m s0) (min (position s0 + 1) (item_no m - 1))"
proof -
  define s where "s = put_item m (choice s0) (scroll s0 + choice s0) False s0"
  have s: "in_view m s" "view m s (-1)" "scr_scrollok (menu_win s) = scr_scrollok (menu_win s0)"
      "position s = position s0"
    using v view_unmark [of m s0] by (auto simp: s_def in_view_def position_def rows_ok)
  note kd = key_down_def [of m s0, folded s_def, unfolded Let_def]
  show ?thesis
  proof (cases "choice s > max_choice m - 3 \<and> scroll s + max_choice m < item_no m")
    case True
    then have "moves m s (key_down m s0) (position s + 1)"
      using s v(3) by (intro scroll_up_moves) (simp_all add: kd)
    with s True show ?thesis by (auto simp: moves_def in_view_def position_def)
  next
    case False
    with s show ?thesis by (auto simp: moves_def kd view_shows in_view_def position_def)
  qed
qed

lemma ppage_body_moves:
  assumes "in_view m s" "view m s (-1)" "scr_scrollok (menu_win s)"
  shows "moves m s (ppage_body m s) (max (position s - 1) 0)"
proof (cases "scroll s > 0")
  case True
  have "menu_rows.shows_items m (max_choice m)
      (scr_run (print_item m 0 (scroll s - 1) False) (scr_exec (Wscrl (-1)) (menu_win s))) (scroll s - 1) (-1)"
    using assms True by (intro menu_rows.shows_down) (auto simp: view_shows in_view_def)
  then show ?thesis
    using assms True
    by (auto simp: moves_def ppage_body_def Let_def view_shows in_view_def position_def rows_ok)
qed (use assms in \<open>auto simp: moves_def ppage_body_def view_shows in_view_def position_def\<close>)

lemma npage_body_moves:
  assumes "in_view m s" "view m s (-1)" "\<not> scr_scrollok (menu_win s)"
  shows "moves m s (npage_body m s) (min (position s + 1) (item_no m - 1))"
proof (cases "scroll s + max_choice m < item_no m")
  case True
  then have "moves m s (npage_body m s) (position s + 1)"
    using assms by (intro scroll_up_moves) (simp_all add: npage_body_def Let_def)
  with assms True show ?thesis by (auto simp: moves_def in_view_def position_def)
qed (use assms in \<open>auto simp: moves_def npage_body_def view_shows in_view_def position_def\<close>)

lemma moves_funpow:
  assumes "in_view m s" "view m s (-1)" "scr_scrollok (menu_win s) = b"
    and step: "\<And>s. in_view m s \<Longrightarrow> view m s (-1) \<Longrightarrow> scr_scrollok (menu_win s) = b \<Longrightarrow> moves m s (f s) (g (position s))"
  shows "moves m s ((f ^^ n) s) ((g ^^ n) (position s))"
proof (induction n)
  case 0
  with assms show ?case by (simp add: moves_def)
next
  case (Suc n)
  with assms have "moves m ((f ^^ n) s) (f ((f ^^ n) s)) (g ((g ^^ n) (position s)))"
    using step [of "(f ^^ n) s"] by (auto simp: moves_def)
  with Suc show ?case by (simp add: moves_def)
qed

lemma funpow_dec: "0 \<le> p \<Longrightarrow> ((\<lambda>p. max (p - 1) 0) ^^ n) p = max (p - int n) (0::int)"
  by (induction n) auto

lemma funpow_inc: "p \<le> q \<Longrightarrow> ((\<lambda>p. min (p + 1) q) ^^ n) p = min (p + int n) (q::int)"
  by (induction n) auto

lemma key_ppage_moves:
  assumes "in_view m s" "view m s (-1)" "\<not> scr_scrollok (menu_win s)"
  shows "moves m s (key_ppage m s) (max (position s - max_choice m) 0)"
proof -
  let ?s = "emit [Scrollok True] s"
  have s: "in_view m ?s" "view m ?s (-1)" "scr_scrollok (menu_win ?s) = True" "position ?s = position s"
    using assms by (auto simp: in_view_def view_shows rows_ok position_def)
  have "moves m ?s ((ppage_body m ^^ nat (max_choice m)) ?s)
      (((\<lambda>p. max (p - 1) 0) ^^ nat (max_choice m)) (position ?s))"
    using s(1-3) by (rule moves_funpow) (simp add: ppage_body_moves)
  moreover have "0 \<le> position s" "0 < max_choice m" using assms(1) by (auto simp: in_view_def position_def)
  ultimately have "moves m ?s ((ppage_body m ^^ nat (max_choice m)) ?s) (max (position s - max_choice m) 0)"
    using s(4) by (simp add: funpow_dec)
  with assms(3) show ?thesis
    by (auto simp: moves_def key_ppage_def in_view_def view_shows rows_ok position_def)
qed

lemma key_npage_moves:
  assumes "in_view m s" "view m s (-1)" "\<not> scr_scrollok (menu_win s)"
  shows "moves m s (key_npage m s) (min (position s + max_choice m) (item_no m - 1))"
proof -
  have "moves m s ((npage_body m ^^ nat (max_choice m)) s)
      (((\<lambda>p. min (p + 1) (item_no m - 1)) ^^ nat (max_choice m)) (position s))"
    using assms(1,2) by (rule moves_funpow [where b = False]) (use assms(3) in \<open>auto simp: npage_body_moves\<close>)
  moreover have "position s \<le> item_no m - 1" "0 < max_choice m"
    using assms(1) by (auto simp: in_view_def position_def)
  ultimately show ?thesis by (simp add: funpow_inc key_npage_def)
qed

section \<open>The specification of the menu\<close>

text \<open>
  Abstractly the menu is at one item. The cursor keys move by one item, the page keys by the
  height of the view, all clamped to the list; any other key stays or goes to an item nearby
  whose hot key it is.
\<close>

definition menu_spec :: "menu \<Rightarrow> int \<Rightarrow> int \<Rightarrow> int \<Rightarrow> bool" where
  "menu_spec m k p q \<longleftrightarrow>
     (let key = fold_key k
      in if key = KEY_UP \<or> key = chr CHR ''-'' then q = max (p - 1) 0
         else if key = KEY_DOWN \<or> key = chr CHR ''+'' then q = min (p + 1) (item_no m - 1)
         else if key = KEY_PPAGE then q = max (p - max_choice m) 0
         else if key = KEY_NPAGE then q = min (p + max_choice m) (item_no m - 1)
         else q = p \<or> (key = hot_char m q \<and> 0 \<le> q \<and> q < item_no m \<and> \<bar>q - p\<bar> < max_choice m))"

definition menu_inv :: "menu \<Rightarrow> menu_state \<Rightarrow> bool" where
  "menu_inv m s \<longleftrightarrow> in_view m s \<and> view m s (choice s) \<and> \<not> scr_scrollok (menu_win s) \<and>
     0 \<le> button s \<and> button s \<le> 2"

definition menu_post :: "menu \<Rightarrow> menu_result \<Rightarrow> bool" where
  "menu_post m r \<longleftrightarrow> mr_scrltmp r = None \<and> -1 \<le> mr_return r \<and> mr_return r \<le> 2"

lemma key_up_frame [simp]: "button (key_up m s) = button s"
  by (simp add: key_up_def Let_def)

lemma key_down_frame [simp]: "button (key_down m s) = button s"
  by (simp add: key_down_def Let_def)

lemma funpow_frame: "(\<And>s. g (f s) = g s) \<Longrightarrow> g ((f ^^ n) s) = g s"
  by (induction n) auto

lemma key_ppage_frame [simp]: "button (key_ppage m s) = button s"
  by (simp add: key_ppage_def ppage_body_def Let_def funpow_frame [where g = button])

lemma key_npage_frame [simp]: "button (key_npage m s) = button s"
  by (simp add: key_npage_def npage_body_def Let_def funpow_frame [where g = button])

lemma hot_row_hit:
  assumes "in_view m s" "hot_row m key s < max_choice m"
  shows "0 \<le> hot_row m key s \<and> key = hot_char m (scroll s + hot_row m key s)"
proof -
  from assms(2) have h: "hot_row m key s =
     (case find (\<lambda>i. key = hot_char m (scroll s + i)) [choice s + 1..max_choice m - 1] of
        Some i \<Rightarrow> i
      | None \<Rightarrow> (case find (\<lambda>i. key = hot_char m (scroll s + i)) [0..max_choice m - 1] of
           Some i \<Rightarrow> i | None \<Rightarrow> max_choice m))"
    by (auto simp: hot_row_def split: if_splits)
  show ?thesis
  proof (cases "find (\<lambda>i. key = hot_char m (scroll s + i)) [choice s + 1..max_choice m - 1]")
    case None
    then show ?thesis using assms h
      by (cases "find (\<lambda>i. key = hot_char m (scroll s + i)) [0..max_choice m - 1]")
        (auto dest!: find_upto)
  next
    case (Some i)
    then show ?thesis using assms(1) h find_upto [OF Some] by (auto simp: in_view_def)
  qed
qed

lemma menu_move_moves:
  assumes inv: "menu_inv m s"
    and hot: "hot_row m (fold_key k) s < max_choice m \<or> fold_key k \<in> nav_keys"
  shows "menu_inv m (menu_move m (fold_key k) (hot_row m (fold_key k) s) s) \<and>
    menu_spec m k (position s) (position (menu_move m (fold_key k) (hot_row m (fold_key k) s) s))"
proof -
  let ?key = "fold_key k" let ?i = "hot_row m ?key s"
  define s0 where "s0 = put_item m (choice s) (scroll s + choice s) False s"
  define s1 where "s1 = (if ?key = KEY_UP \<or> ?key = chr CHR ''-'' then key_up m s0
    else if ?key = KEY_DOWN \<or> ?key = chr CHR ''+'' then key_down m s0
    else if ?key = KEY_PPAGE then key_ppage m s0
    else if ?key = KEY_NPAGE then key_npage m s0 else s0\<lparr>choice := ?i\<rparr>)"
  have s0: "in_view m s0" "view m s0 (-1)" "\<not> scr_scrollok (menu_win s0)" "position s0 = position s"
    using inv view_unmark [of m s] by (auto simp: menu_inv_def s0_def in_view_def position_def rows_ok)
  have hit: "moves m s0 (s0\<lparr>choice := ?i\<rparr>) (scroll s + ?i)" "?key = hot_char m (scroll s + ?i)" "0 \<le> ?i"
    if "?i < max_choice m"
    using that s0 hot_row_hit [of m s ?key] inv
    by (auto simp: moves_def in_view_def view_shows position_def menu_inv_def s0_def)
  have "moves m s0 s1 (position s1) \<and> menu_spec m k (position s) (position s1)"
  proof (cases "?key \<in> nav_keys")
    case True
    then show ?thesis
      using key_up_moves [OF s0(1-3)] key_down_moves [OF s0(1-3)] key_ppage_moves [OF s0(1-3)]
        key_npage_moves [OF s0(1-3)]
      by (auto simp: s1_def menu_spec_def Let_def nav_keys_def s0(4) moves_def)
  next
    case False
    with hot hit show ?thesis
      using inv by (auto simp: s1_def menu_spec_def Let_def nav_keys_def position_def moves_def s0_def
          menu_inv_def in_view_def)
  qed
  then have s1: "in_view m s1" "view m s1 (-1)" "\<not> scr_scrollok (menu_win s1)"
      "menu_spec m k (position s) (position s1)"
    using s0(3) by (auto simp: moves_def)
  have b: "button s1 = button s" by (simp add: s1_def s0_def)
  have "view m (put_item m (choice s1) (scroll s1 + choice s1) True s1) (choice s1)"
    using s1 menu_rows.shows_mark [of m "max_choice m" "menu_win s1" "scroll s1" "choice s1"]
    by (auto simp: view_shows in_view_def)
  then show ?thesis
    using s1 b inv
    by (auto simp: menu_move_def Let_def s0_def [symmetric] s1_def [symmetric] menu_inv_def
        in_view_def view_shows position_def rows_ok)
qed

lemma menu_key_Inl:
  assumes "menu_key m k s = Inl s'" "menu_inv m s"
  shows "menu_inv m s' \<and> menu_spec m k (position s) (position s')"
proof (cases "hot_row m (fold_key k) s < max_choice m \<or> fold_key k \<in> nav_keys")
  case True
  with assms show ?thesis using menu_move_moves [OF assms(2) True]
    by (auto simp: menu_key_def Let_def split: if_splits)
next
  case False
  then have n: "fold_key k \<notin> nav_keys" by simp
  from assms(1) False have "s' = s \<or> (\<exists>b. s' = s\<lparr>button := next_button (fold_key k) (button s),
      dialog_out := dialog_out s @ print_buttons m b\<rparr>)"
    by (auto simp: menu_key_def Let_def split: if_splits)
  moreover have "0 \<le> next_button (fold_key k) (button s) \<and> next_button (fold_key k) (button s) \<le> 2"
    by (auto simp: next_button_def Let_def)
  ultimately show ?thesis
    using assms(2) n
    by (auto simp: menu_inv_def in_view_def view_shows position_def menu_spec_def Let_def nav_keys_def)
qed

lemma menu_key_Inr:
  assumes "menu_key m k s = Inr r" "menu_inv m s"
  shows "menu_post m r"
  using assms by (auto simp: menu_key_def Let_def menu_post_def menu_finish_def menu_escape_def menu_inv_def split: if_splits)

interpretation menu: loop_refinement "menu_key m" "menu_inv m" "menu_post m" position "menu_spec m" for m
  by unfold_locales (auto dest: menu_key_Inl menu_key_Inr)

text \<open>The first view.\<close>

lemma default_choice_bounds: "0 < item_no m \<Longrightarrow> 0 \<le> default_choice m cur \<and> default_choice m cur < item_no m"
  unfolding default_choice_def by (rule foldl_invariant) auto

lemma first_view_in_view:
  assumes "0 < item_no m" "0 < mn_menu_height m" "first_view m cur f = (sc, ch)"
  shows "0 \<le> ch \<and> ch < max_choice m \<and> 0 \<le> sc \<and> sc + max_choice m \<le> item_no m \<and>
    sc + ch = default_choice m cur"
proof -
  have "0 < max_choice m" "max_choice m \<le> item_no m"
    using assms(1,2) by (auto simp: max_choice_def)
  then show ?thesis
    using default_choice_bounds [OF assms(1), of cur] assms(3)
    by (auto simp: first_view_def read_scrltmp_def Let_def split: option.splits if_splits)
qed

lemma menu_init_inv:
  assumes "0 < item_no m" "0 < mn_menu_height m"
  shows "menu_inv m (menu_init m title ps cur f) \<and> position (menu_init m title ps cur f) = default_choice m cur"
proof -
  obtain sc ch where v: "first_view m cur f = (sc, ch)" by fastforce
  note b = first_view_in_view [OF assms v]
  have mc: "0 < max_choice m" using assms by (auto simp: max_choice_def)
  let ?w = "foldl (\<lambda>w i. scr_run (print_item m i (sc + i) (i = ch)) w) empty_screen [0..max_choice m - 1]"
  have sh: "menu_rows.shows_items m (max_choice m) ?w sc ch"
    using b by (intro menu_rows.shows_fill) auto
  have ok: "\<not> scr_scrollok ?w"
    by (rule foldl_invariant) (auto simp: empty_screen_def rows_ok)
  have win: "menu_win (menu_init m title ps cur f) =
      scr_exec Refresh (scr_exec (Wmove ch (item_x m + 1)) ?w)"
    by (simp add: menu_init_def v menu_win_def scr_run_concat Let_def)
  have fields: "choice (menu_init m title ps cur f) = ch" "scroll (menu_init m title ps cur f) = sc"
      "button (menu_init m title ps cur f) = 0"
    by (simp_all add: menu_init_def v Let_def)
  show ?thesis
    using sh ok b mc
    by (simp add: menu_inv_def view_shows win in_view_def position_def fields scr_exec.simps
        menu_rows.shows_items_def row_cells_def)
qed

lemma default_choice_tag:
  "\<exists>i \<in> {0..<item_no m}. tag m i = cur \<Longrightarrow> tag m (default_choice m cur) = cur"
proof -
  have "foldl (\<lambda>c i. if cur = tag m i then i else c) a xs = a \<and> (\<forall>i \<in> set xs. tag m i \<noteq> cur) \<or>
      tag m (foldl (\<lambda>c i. if cur = tag m i then i else c) a xs) = cur" for a xs
    by (induction xs rule: rev_induct) auto
  from this [of 0 "[0..item_no m - 1]"]
  show "\<exists>i \<in> {0..<item_no m}. tag m i = cur \<Longrightarrow> tag m (default_choice m cur) = cur"
    by (auto simp: default_choice_def)
qed

lemma menu_key_ends:
  assumes "menu_key m k s = Inr r"
  shows "mr_scrltmp r = None \<and>
    (mr_return r = -1 \<and> fold_key k = ESC \<and> mr_stderr r = [] \<or>
     mr_return r = 2 \<and> mr_stderr r = tag m (position s) @ '' '' @ [CHR 0x22] @
       drop (first_alpha (txt_of m (position s)) '''') (txt_of m (position s)) @ [CHR 0x22, newline] \<or>
     mr_return r \<noteq> 2 \<and> (mr_return r = 0 \<or> mr_return r = button s) \<and> mr_stderr r = tag m (position s) @ [newline])"
  using assms
  by (auto simp: menu_key_def Let_def menu_finish_def menu_escape_def position_def split: if_splits)

section \<open>Properties\<close>

text \<open>
  C8. The menu browses its items as specified: whatever keys are typed and whatever the scroll
  file holds, as long as the menu is open its position is one that the specification reaches from
  the item that was current, and row by row the screen shows the items of the view, the one at
  the position highlighted and no other.
\<close>

theorem menu_browses:
  assumes "0 < item_no m" "0 < mn_menu_height m"
    and "dialog_menu m title prompt current f keys = Some (Inl s)"
  shows "trace (menu_spec m) (default_choice m current) keys (position s) \<and>
    0 \<le> position s \<and> position s < item_no m \<and>
    (\<forall>r. 0 \<le> r \<and> r < max_choice m \<longrightarrow>
       row_cells (menu_width m) (scr_run (menu_out s) empty_screen) r =
       menu_row m (scroll s + r) (scroll s + r = position s))"
proof -
  from assms(3) obtain ps where run: "run_loop (menu_key m) (menu_init m title ps current f) keys = Inl s"
    by (auto simp: dialog_menu_def)
  note i = menu_init_inv [OF assms(1,2), of title ps current f]
  have inv: "menu_inv m s" by (rule menu.run_inv [OF _ run]) (simp add: i)
  have "trace (menu_spec m) (position (menu_init m title ps current f)) keys (position s)"
    by (rule menu.run_trace [OF _ run]) (simp add: i)
  with i inv show ?thesis
    by (auto simp: menu_inv_def in_view_def position_def view_def menu_win_def)
qed

definition demo_menu :: menu where
  "demo_menu = \<lparr>mn_items = [(''a'', ''Alpha''), (''b'', ''Beta''), ('':c'', ''Comment'')], mn_height = 12,
     mn_width = 40, mn_menu_height = 2, mn_getyx = \<lambda>_. (0, 0), mn_adv = \<lambda>(r, c) w. (r, c + int (length w))\<rparr>"

lemma menu_browses_witness:
  "\<exists>s. dialog_menu demo_menu None ''Pick one'' ''b'' None [KEY_DOWN] = Some (Inl s) \<and> position s = 2"
proof -
  have "\<exists>ps. print_autowrap (mn_adv demo_menu) ''Pick one'' (mn_width demo_menu - 2) 1 3 = Some ps"
    by (simp add: demo_menu_def print_autowrap_def MAX_LEN_def)
  then obtain s where s: "dialog_menu demo_menu None ''Pick one'' ''b'' None [KEY_DOWN] = Some (Inl s)"
    by (auto simp: dialog_menu_def menu_key_def Let_def fold_key_def nav_keys_def key_defs)
  have n: "item_no demo_menu = 3" "0 < mn_menu_height demo_menu"
    by (simp_all add: demo_menu_def item_no_def)
  have d: "default_choice demo_menu ''b'' = 1"
    by (simp add: default_choice_def n tag_def) (simp add: demo_menu_def upto.simps)
  have "trace (menu_spec demo_menu) (default_choice demo_menu ''b'') [KEY_DOWN] (position s)"
    using menu_browses [of demo_menu None "''Pick one''" "''b''" None "[KEY_DOWN]" s] s n by simp
  then have "position s = 2"
    by (simp add: d n menu_spec_def fold_key_def key_defs chr_def code_def)
  with s show ?thesis by blast
qed

text \<open>The keys that end the menu, and the button after a sequence of keys, with 0, 1 and 2 in a circle.\<close>

definition ending_keys :: "int set" where
  "ending_keys = {ESC, chr CHR ''?'', chr CHR '' '', NL}"

definition button_after :: "int list \<Rightarrow> int" where
  "button_after ks =
     (int (length (filter (\<lambda>k. k = TAB \<or> k = KEY_RIGHT) ks)) - int (length (filter (\<lambda>k. k = KEY_LEFT) ks))) mod 3"

lemma fold_key_special: "x \<in> ending_keys \<union> {TAB, KEY_LEFT, KEY_RIGHT} \<Longrightarrow> fold_key k = x \<longleftrightarrow> k = x"
  by (auto simp: ending_keys_def fold_key_def key_defs int_isalpha_def int_tolower_def chr_def code_def)

lemma hot_char_small: "hot_char m i < 256"
proof -
  have "schar_at (txt_of m i) n < 128" for n
    using nat_of_char_less_256 [of "txt_of m i ! n"] by (simp add: schar_at_def code_def del: nat_of_char_less_256)
  then have "schar_at (txt_of m i) (first_alpha (txt_of m i) ''YyNnMm'') < 128" .
  then show ?thesis by (simp add: hot_char_def int_tolower_def)
qed

lemma menu_key_goes_on:
  assumes "menu_key m k s = Inl s'" "in_view m s" "0 \<le> button s" "button s \<le> 2"
    and "\<And>i. 0 \<le> i \<Longrightarrow> i < item_no m \<Longrightarrow> hot_char m i \<noteq> TAB"
  shows "k \<notin> ending_keys \<and>
    button s' = (button s + (if k = TAB \<or> k = KEY_RIGHT then 1 else if k = KEY_LEFT then -1 else 0)) mod 3"
proof (cases "hot_row m (fold_key k) s < max_choice m \<or> fold_key k \<in> nav_keys")
  case True
  have s': "s' = menu_move m (fold_key k) (hot_row m (fold_key k) s) s" "fold_key k \<noteq> ESC"
    using assms(1) True by (auto simp: menu_key_def Let_def split: if_splits)
  have "fold_key k \<notin> {chr CHR ''?'', chr CHR '' '', NL, TAB, KEY_LEFT, KEY_RIGHT}"
  proof (cases "fold_key k \<in> nav_keys")
    case True
    then show ?thesis by (auto simp: nav_keys_def key_defs chr_def code_def)
  next
    case False
    then have h: "hot_row m (fold_key k) s < max_choice m" using True by simp
    from hot_row_hit [OF assms(2) h] have i: "0 \<le> hot_row m (fold_key k) s"
      "fold_key k = hot_char m (scroll s + hot_row m (fold_key k) s)" by simp_all
    have "0 \<le> scroll s + hot_row m (fold_key k) s" "scroll s + hot_row m (fold_key k) s < item_no m"
      using assms(2) h i(1) by (auto simp: in_view_def)
    from assms(5) [OF this] have "fold_key k \<noteq> TAB" "fold_key k < 256"
      using i(2) hot_char_small [of m "scroll s + hot_row m (fold_key k) s"] by simp_all
    moreover have "\<not> key_in [CHR ''?'', CHR '' '', newline] (fold_key k)" using h by (auto simp: hot_row_def)
    ultimately show ?thesis by (auto simp: key_in_def key_defs newline_def chr_def code_def)
  qed
  then have "k \<notin> ending_keys" "k \<notin> {TAB, KEY_LEFT, KEY_RIGHT}"
    using s'(2) fold_key_special [of _ k] by (auto simp: ending_keys_def)
  moreover have "button s' = button s" by (simp add: s'(1) menu_move_def Let_def)
  ultimately show ?thesis using assms(3,4) by auto
next
  case False
  from assms(1) False have "fold_key k \<in> {TAB, KEY_LEFT, KEY_RIGHT} \<and> button s' = next_button (fold_key k) (button s) \<or>
      fold_key k \<notin> ending_keys \<union> {TAB, KEY_LEFT, KEY_RIGHT} \<and> s' = s"
    by (auto simp: menu_key_def Let_def ending_keys_def split: if_splits)
  then have "k \<in> {TAB, KEY_LEFT, KEY_RIGHT} \<and> button s' = next_button k (button s) \<or>
      k \<notin> ending_keys \<union> {TAB, KEY_LEFT, KEY_RIGHT} \<and> s' = s"
    using fold_key_special [of _ k] by (metis (no_types, lifting) UnCI insertCI insertE singletonD)
  moreover have "button s = 0 \<or> button s = 1 \<or> button s = 2" using assms(3,4) by linarith
  ultimately show ?thesis
    by (auto simp: next_button_def ending_keys_def key_defs chr_def code_def)
qed

lemma menu_run_buttons:
  assumes "\<And>i. 0 \<le> i \<Longrightarrow> i < item_no m \<Longrightarrow> hot_char m i \<noteq> TAB" "menu_inv m s" "button s = 0"
  shows "run_loop (menu_key m) s ks = Inl s' \<Longrightarrow> set ks \<inter> ending_keys = {} \<and> button s' = button_after ks"
proof (induction ks arbitrary: s' rule: rev_induct)
  case Nil
  then show ?case using assms(3) by (simp add: button_after_def)
next
  case (snoc k ks)
  then obtain s1 where s1: "run_loop (menu_key m) s ks = Inl s1" "menu_key m k s1 = Inl s'"
    by (auto simp: run_loop_append split: sum.splits)
  have inv: "menu_inv m s1" by (rule menu.run_inv [OF assms(2) s1(1)])
  have "k \<notin> ending_keys \<and>
      button s' = (button s1 + (if k = TAB \<or> k = KEY_RIGHT then 1 else if k = KEY_LEFT then -1 else 0)) mod 3"
    by (rule menu_key_goes_on [OF s1(2) _ _ _ assms(1)]) (use inv in \<open>auto simp: menu_inv_def\<close>)
  with snoc.IH [OF s1(1)] show ?case
    by (auto simp: button_after_def mod_simps key_defs algebra_simps)
qed

lemma menu_key_result:
  assumes "menu_key m k s = Inr r" "in_view m s"
  shows "mr_scrltmp r = None \<and> k \<in> ending_keys \<and>
    mr_return r = (if k = ESC then -1 else if k = chr CHR ''?'' then 2 else if k = chr CHR '' '' then 0 else button s) \<and>
    mr_stderr r = (if k = ESC then [] else if mr_return r = 2 then tag m (position s) @ '' '' @ [CHR 0x22] @
      drop (first_alpha (txt_of m (position s)) '''') (txt_of m (position s)) @ [CHR 0x22, newline] else tag m (position s) @ [newline])"
proof -
  have f: "fold_key k = x \<longleftrightarrow> k = x" if "x \<in> ending_keys" for x using that fold_key_special [of x k] by blast
  have "chr CHR ''?'' \<noteq> ESC" "chr CHR '' '' \<noteq> ESC" "NL \<noteq> ESC" "chr CHR '' '' \<noteq> chr CHR ''?''" "NL \<noteq> chr CHR ''?''" "NL \<noteq> chr CHR '' ''"
    by (simp_all add: key_defs chr_def code_def)
  moreover from assms(1) have "fold_key k = ESC \<and> r = menu_escape s \<or> fold_key k = chr CHR ''?'' \<and> r = menu_finish m 2 s \<or>
      fold_key k = chr CHR '' '' \<and> r = menu_finish m 0 s \<or> fold_key k = NL \<and> r = menu_finish m (button s) s"
    by (auto simp: menu_key_def Let_def menu_escape_def split: if_splits)
  ultimately show ?thesis
    by (elim disjE) (auto simp: f ending_keys_def menu_finish_def menu_escape_def position_def Let_def)
qed

text \<open>
  C25. How the menu ends, if no item without a letter starts with a tab. It ends at the first key that is escape, a question mark, a blank or
  return. Escape gives -1 and no output; the question mark gives 2, the blank 0, and return the button, which left,
  right and tab moved in a circle. But for escape the output is the tag of the item at the position that the keys
  before reached, and for 2, the help, behind it the text of the item from its first letter on. The scroll
  file is always gone, so a position that was saved is never found again.
\<close>

theorem menu_outcome:
  assumes "0 < item_no m" "0 < mn_menu_height m" "\<forall>i. 0 \<le> i \<and> i < item_no m \<longrightarrow> hot_char m i \<noteq> TAB"
    and "dialog_menu m title prompt current f keys = Some (Inr r)"
  shows "\<exists>ks k rest p. keys = ks @ k # rest \<and> set ks \<inter> ending_keys = {} \<and> k \<in> ending_keys \<and>
    trace (menu_spec m) (default_choice m current) ks p \<and> 0 \<le> p \<and> p < item_no m \<and> mr_scrltmp r = None \<and>
    mr_return r = (if k = ESC then -1 else if k = chr CHR ''?'' then 2 else if k = chr CHR '' '' then 0 else button_after ks) \<and>
    mr_stderr r = (if k = ESC then []
      else if mr_return r = 2 then tag m p @ '' '' @ [CHR 0x22] @ drop (first_alpha (txt_of m p) '''') (txt_of m p) @ [CHR 0x22, newline]
      else tag m p @ [newline])"
proof -
  from assms(4) obtain ps where run: "run_loop (menu_key m) (menu_init m title ps current f) keys = Inr r"
    by (auto simp: dialog_menu_def)
  then obtain ks k rest s where k: "keys = ks @ k # rest"
    and s: "run_loop (menu_key m) (menu_init m title ps current f) ks = Inl s" "menu_key m k s = Inr r"
    by (rule run_loop_InrE)
  note i = menu_init_inv [OF assms(1,2), of title ps current f]
  have inv: "menu_inv m s" by (rule menu.run_inv [OF _ s(1)]) (simp add: i)
  then have view: "in_view m s" by (simp add: menu_inv_def)
  have "trace (menu_spec m) (position (menu_init m title ps current f)) ks (position s)"
    by (rule menu.run_trace [OF _ s(1)]) (simp add: i)
  moreover have "set ks \<inter> ending_keys = {} \<and> button s = button_after ks"
    using menu_run_buttons [OF _ _ _ s(1)] assms(3) i by (auto simp: menu_init_def case_prod_beta Let_def)
  ultimately show ?thesis
    using k i view menu_key_result [OF s(2) view]
    by (intro exI [of _ ks] exI [of _ k] exI [of _ rest] exI [of _ "position s"])
      (simp add: in_view_def position_def)
qed

lemma menu_outcome_witness:
  "\<exists>r. dialog_menu demo_menu None ''Pick one'' ''b'' None [TAB, NL] = Some (Inr r) \<and>
     mr_return r = 1 \<and> mr_stderr r = ''b'' @ [newline] \<and> mr_scrltmp r = None"
proof -
  have ex: "\<exists>ps. print_autowrap (mn_adv demo_menu) ''Pick one'' (mn_width demo_menu - 2) 1 3 = Some ps"
    by (simp add: demo_menu_def print_autowrap_def MAX_LEN_def)
  have n: "item_no demo_menu = 3" "0 < mn_menu_height demo_menu"
    by (simp_all add: demo_menu_def item_no_def)
  have d: "default_choice demo_menu ''b'' = 1" "tag demo_menu 1 = ''b''"
    by (simp add: default_choice_def n tag_def, simp add: demo_menu_def upto.simps)
      (simp add: demo_menu_def tag_def)
  have t: "\<forall>i. 0 \<le> i \<and> i < item_no demo_menu \<longrightarrow> hot_char demo_menu i \<noteq> TAB"
  proof (intro allI impI)
    fix i assume "0 \<le> i \<and> i < item_no demo_menu"
    then have "i = 0 \<or> i = 1 \<or> i = 2" using n by linarith
    moreover have "hot_char demo_menu 0 \<noteq> TAB" "hot_char demo_menu 1 \<noteq> TAB" "hot_char demo_menu 2 \<noteq> TAB" by code_simp+
    ultimately show "hot_char demo_menu i \<noteq> TAB" by blast
  qed
  obtain ps where ps: "print_autowrap (mn_adv demo_menu) ''Pick one'' (mn_width demo_menu - 2) 1 3 = Some ps"
    using ex ..
  let ?i = "menu_init demo_menu None ps ''b'' None"
  have "\<exists>r. run_loop (menu_key demo_menu) ?i [TAB, NL] = Inr r"
  proof (cases "menu_key demo_menu TAB ?i")
    case (Inl s)
    have "menu_key demo_menu NL s = Inr (menu_finish demo_menu (button s) s)"
      by (simp add: menu_key_def Let_def fold_key_def nav_keys_def key_defs chr_def code_def hot_row_def key_in_def newline_def int_isalpha_def)
    with Inl show ?thesis by simp
  qed simp
  then obtain r where r: "dialog_menu demo_menu None ''Pick one'' ''b'' None [TAB, NL] = Some (Inr r)"
    by (auto simp: dialog_menu_def ps)
  from menu_outcome [OF _ n(2) t r] n obtain ks k rest p where
    k: "[TAB, NL] = ks @ k # rest" "set ks \<inter> ending_keys = {}" "k \<in> ending_keys" "trace (menu_spec demo_menu) 1 ks p"
      "mr_scrltmp r = None"
      "mr_return r = (if k = ESC then -1 else if k = chr CHR ''?'' then 2 else if k = chr CHR '' '' then 0 else button_after ks)"
      "mr_stderr r = (if k = ESC then [] else if mr_return r = 2 then tag demo_menu p @ '' '' @ [CHR 0x22] @
         drop (first_alpha (txt_of demo_menu p) '''') (txt_of demo_menu p) @ [CHR 0x22, newline] else tag demo_menu p @ [newline])"
    by (auto simp: d(1))
  have "TAB \<notin> ending_keys" by (simp add: ending_keys_def key_defs chr_def code_def)
  with k(1,3) have ks: "ks = [TAB]" "k = NL" by (auto simp: Cons_eq_append_conv)
  have "p = 1" using k(4) t n by (auto simp: ks menu_spec_def Let_def fold_key_def int_isalpha_def key_defs chr_def code_def)
  with k r ks d(2) show ?thesis by (simp add: button_after_def key_defs chr_def code_def)
qed

text \<open>
  Where the menu starts: whatever the scroll file holds, the first view lies within the items
  and contains the current item, which is the one tagged with the given tag if there is one.
\<close>

theorem menu_start:
  assumes "0 < item_no m" "0 < mn_menu_height m" "first_view m current f = (sc, ch)"
  shows "0 \<le> ch \<and> ch < max_choice m \<and> 0 \<le> sc \<and> sc + max_choice m \<le> item_no m \<and>
    sc + ch = default_choice m current \<and>
    (\<forall>i. 0 \<le> i \<and> i < item_no m \<and> tag m i = current \<longrightarrow> tag m (sc + ch) = current)"
proof -
  have "tag m (default_choice m current) = current" if "0 \<le> i \<and> i < item_no m \<and> tag m i = current" for i
    using that by (intro default_choice_tag) auto
  with first_view_in_view [OF assms] show ?thesis by simp
qed

lemma menu_start_witness:
  "first_view demo_menu '':c'' (Some (Some 7)) = (1, 1) \<and> tag demo_menu (1 + 1) = '':c''"
proof -
  have n: "item_no demo_menu = 3" "0 < mn_menu_height demo_menu" "max_choice demo_menu = 2"
    by (simp_all add: demo_menu_def item_no_def max_choice_def)
  have d: "default_choice demo_menu '':c'' = 2"
    by (simp add: default_choice_def n tag_def) (simp add: demo_menu_def upto.simps)
  have v: "first_view demo_menu '':c'' (Some (Some 7)) = (1, 1)"
    by (simp add: first_view_def read_scrltmp_def d n)
  have "tag demo_menu 2 = '':c''" by (simp add: demo_menu_def tag_def)
  with menu_start [of demo_menu "'':c''" "Some (Some 7)" 1 1] v n show ?thesis by force
qed

end
