(* ===== verification/DialogList.thy ===== *)
theory DialogList
  imports DialogRows
begin

text \<open>
  The check list and radio list of the dialog program (\<^verbatim>\<open>misc/confdialog/checklist.c\<close>): the on/off status of the
  items, the rows, the key loop and the tags it writes.
\<close>

section \<open>The list and its geometry\<close>

record checklist =
  cl_items :: "(string \<times> string \<times> string) list"
  cl_height :: int
  cl_width :: int
  list_height :: int
  flag_check :: bool
  cl_adv :: "int \<times> int \<Rightarrow> string \<Rightarrow> int \<times> int"

definition cl_item_no :: "checklist \<Rightarrow> int" where
  "cl_item_no m = int (length (cl_items m))"

definition cl_max_choice :: "checklist \<Rightarrow> int" where
  "cl_max_choice m = (if list_height m < cl_item_no m then list_height m else cl_item_no m)"

definition list_width :: "checklist \<Rightarrow> int" where
  "list_width m = cl_width m - 6"

definition cl_tag :: "checklist \<Rightarrow> int \<Rightarrow> string" where
  "cl_tag m i = fst (cl_items m ! nat i)"

definition cl_text :: "checklist \<Rightarrow> int \<Rightarrow> string" where
  "cl_text m i = fst (snd (cl_items m ! nat i))"

definition longest_text :: "checklist \<Rightarrow> int" where
  "longest_text m =
     foldl (\<lambda>x it. let l = int (length (fst (snd it))) + 4 in if x > l then x else l) 0 (cl_items m)"

definition check_x :: "checklist \<Rightarrow> int" where
  "check_x m = half (list_width m - longest_text m)"

definition cl_item_x :: "checklist \<Rightarrow> int" where
  "cl_item_x m = check_x m + 4"

definition cl_box_y :: "checklist \<Rightarrow> int" where
  "cl_box_y m = cl_height m - list_height m - 5"

definition cl_box_x :: "checklist \<Rightarrow> int" where
  "cl_box_x m = half (cl_width m - list_width m) - 1"

section \<open>What is drawn\<close>

definition mark :: "checklist \<Rightarrow> bool \<Rightarrow> string" where
  "mark m st = (if flag_check m then [CHR ''['', if st then CHR ''X'' else CHR '' '', CHR '']'']
                else [CHR ''('', if st then CHR ''X'' else CHR '' '', CHR '')''])"

definition cl_print_item :: "checklist \<Rightarrow> bool list \<Rightarrow> int \<Rightarrow> int \<Rightarrow> bool \<Rightarrow> wcall list" where
  "cl_print_item m status r i selected =
     [Wattrset (Some Menubox_attr), Wmove r 0] @
     waddstr (replicate (nat (list_width m)) CHR '' '') @
     [Wmove r (check_x m), Wattrset (Some (if selected then Check_selected_attr else Check_attr))] @
     waddstr (mark m (status ! nat i)) @
     [Wattrset (Some (if selected then Tag_selected_attr else Tag_attr)), Wmove r (cl_item_x m),
      Waddch None (Ch (case cl_text m i of [] \<Rightarrow> nul | c # _ \<Rightarrow> c)),
      Wattrset (Some (if selected then Item_selected_attr else Item_attr))] @
     waddstr (tl (cl_text m i)) @
     (if selected then [Wmove r (check_x m + 1), Refresh] else [])"

definition cl_print_arrows :: "checklist \<Rightarrow> int \<Rightarrow> int \<Rightarrow> wcall list" where
  "cl_print_arrows m cur sc =
     (let y = cl_box_y m; x = cl_box_x m + check_x m + 5; y2 = y + list_height m + 1
      in [Wmove y x] @ arrow_line (sc > 0) Uarrow_attr UArrow ''(-)'' Menubox_attr @
         [Wmove y2 x] @
         arrow_line (list_height m < cl_item_no m \<and> sc + cur < cl_item_no m - 1)
           Darrow_attr DArrow ''(+)'' Menubox_border_attr)"

definition cl_print_buttons :: "checklist \<Rightarrow> wcall list" where
  "cl_print_buttons m =
     (let x = cl_width m div 2 - 5; y = cl_height m - 2
      in print_button ''Select'' y x True @ [Wmove y (x + 1), Refresh])"

definition cl_frame :: "checklist \<Rightarrow> string option \<Rightarrow> placed list \<Rightarrow> wcall list" where
  "cl_frame m title prompt =
     draw_box 0 0 (cl_height m) (cl_width m) Dialog_attr Border_attr @
     separator (cl_height m) (cl_width m) @
     title_bar (cl_width m) title @
     [Wattrset (Some Dialog_attr)] @ place_words prompt @
     draw_box (cl_box_y m) (cl_box_x m) (list_height m + 2) (list_width m + 2)
       Menubox_border_attr Menubox_attr"

section \<open>The key loop\<close>

record cl_state =
  cl_choice :: int
  cl_scroll :: int
  status :: "bool list"
  list_out :: "wcall list"
  frame_out :: "wcall list"

text \<open>The value the dialog returns and what it has written to stderr.\<close>

type_synonym cl_result = "int \<times> string"

definition cl_emit :: "wcall list \<Rightarrow> cl_state \<Rightarrow> cl_state" where
  "cl_emit cs s = s\<lparr>list_out := list_out s @ cs\<rparr>"

definition cl_put :: "checklist \<Rightarrow> int \<Rightarrow> int \<Rightarrow> bool \<Rightarrow> cl_state \<Rightarrow> cl_state" where
  "cl_put m r i selected s = cl_emit (cl_print_item m (status s) r i selected) s"

definition arrows :: "checklist \<Rightarrow> cl_state \<Rightarrow> cl_state" where
  "arrows m s = s\<lparr>frame_out := frame_out s @ cl_print_arrows m (cl_choice s) (cl_scroll s) @ [Refresh]\<rparr>"

definition letter_row :: "checklist \<Rightarrow> int \<Rightarrow> cl_state \<Rightarrow> int" where
  "letter_row m key s =
     (case find (\<lambda>i. int_toupper key = int_toupper (schar_at (cl_text m (cl_scroll s + i)) 0))
             [0..cl_max_choice m - 1] of
        Some i \<Rightarrow> i | None \<Rightarrow> cl_max_choice m)"

definition scroll_down :: "checklist \<Rightarrow> cl_state \<Rightarrow> cl_state" where
  "scroll_down m s0 =
     (let s1 = (if list_height m > 1
                then cl_emit [Scrollok True, Wscrl (-1), Scrollok False] (cl_put m 0 (cl_scroll s0) False s0)
                else s0);
          s2 = s1\<lparr>cl_scroll := cl_scroll s1 - 1\<rparr>
      in arrows m (cl_put m 0 (cl_scroll s2) True s2))"

definition scroll_up :: "checklist \<Rightarrow> cl_state \<Rightarrow> cl_state" where
  "scroll_up m s0 =
     (let l = cl_max_choice m - 1;
          s1 = (if list_height m > 1
                then cl_emit [Scrollok True, Wscrl 1, Scrollok False] (cl_put m l (cl_scroll s0 + cl_max_choice m - 1) False s0)
                else s0);
          s2 = s1\<lparr>cl_scroll := cl_scroll s1 + 1\<rparr>
      in arrows m (cl_put m l (cl_scroll s2 + cl_max_choice m - 1) True s2))"

definition go_to :: "checklist \<Rightarrow> int \<Rightarrow> cl_state \<Rightarrow> cl_state" where
  "go_to m i s =
     (if i \<noteq> cl_choice s
      then (let s1 = cl_put m (cl_choice s) (cl_scroll s + cl_choice s) False s;
                s2 = s1\<lparr>cl_choice := i\<rparr>
            in cl_put m (cl_choice s2) (cl_scroll s2 + cl_choice s2) True s2)
      else s)"

definition cl_move :: "checklist \<Rightarrow> int \<Rightarrow> int \<Rightarrow> cl_state \<Rightarrow> cl_state" where
  "cl_move m key i s =
     (if key = KEY_UP \<or> key = chr CHR ''-''
      then (if cl_choice s = 0 then (if cl_scroll s = 0 then s else scroll_down m s)
            else go_to m (cl_choice s - 1) s)
      else if key = KEY_DOWN \<or> key = chr CHR ''+''
      then (if cl_choice s = cl_max_choice m - 1
            then (if cl_scroll s + cl_choice s \<ge> cl_item_no m - 1 then s else scroll_up m s)
            else go_to m (cl_choice s + 1) s)
      else go_to m i s)"

text \<open>Selecting: the status of the chosen item changes, and the tags of all set items are written.\<close>

definition select_status :: "checklist \<Rightarrow> cl_state \<Rightarrow> bool list" where
  "select_status m s =
     (let p = nat (cl_scroll s + cl_choice s)
      in if flag_check m then (status s)[p := \<not> status s ! p]
         else if \<not> status s ! p then (map (\<lambda>_. False) (status s))[p := True]
         else status s)"

definition write_tags :: "checklist \<Rightarrow> bool list \<Rightarrow> string" where
  "write_tags m st =
     concat (map (\<lambda>(it, on). if on then (if flag_check m then [CHR 0x22] @ fst it @ [CHR 0x22, CHR '' ''] else fst it)
                             else []) (zip (cl_items m) st))"

definition cl_key :: "checklist \<Rightarrow> int \<Rightarrow> cl_state \<Rightarrow> cl_state + cl_result" where
  "cl_key m key s =
     (let i = letter_row m key s
      in if i < cl_max_choice m \<or> key \<in> {KEY_UP, KEY_DOWN, chr CHR ''+'', chr CHR ''-''}
         then (let s' = cl_move m key i s in if key = ESC then Inr (-1, []) else Inl s')
         else if key \<in> {chr CHR ''H'', chr CHR ''h'', chr CHR ''?''} then Inr (1, [])
         else if key \<in> {chr CHR ''S'', chr CHR ''s'', chr CHR '' '', NL}
         then Inr (0, write_tags m (select_status m s))
         else if key \<in> {chr CHR ''X'', chr CHR ''x'', ESC} then Inr (-1, [])
         else Inl s)"

section \<open>The start of the list\<close>

definition init_status :: "checklist \<Rightarrow> bool list" where
  "init_status m = map (\<lambda>(t, x, st). map c_tolower st = ''on'') (cl_items m)"

definition init_choice :: "checklist \<Rightarrow> int" where
  "init_choice m =
     foldl (\<lambda>c i. if c = 0 \<and> init_status m ! nat i then i else c) 0 [0..cl_item_no m - 1]"

definition cl_first_view :: "checklist \<Rightarrow> int \<times> int" where
  "cl_first_view m =
     (let c = init_choice m
      in if c \<ge> list_height m then (c - list_height m + 1, c - (c - list_height m + 1)) else (0, c))"

definition cl_init :: "checklist \<Rightarrow> string option \<Rightarrow> placed list \<Rightarrow> cl_state" where
  "cl_init m title prompt =
     (let (sc, ch) = cl_first_view m; st = init_status m
      in \<lparr>cl_choice = ch, cl_scroll = sc, status = st,
          list_out = concat (map (\<lambda>i. cl_print_item m st i (sc + i) (i = ch)) [0..cl_max_choice m - 1]),
          frame_out = cl_frame m title prompt @ cl_print_arrows m ch sc @ cl_print_buttons m\<rparr>)"

definition dialog_checklist ::
  "checklist \<Rightarrow> string option \<Rightarrow> string \<Rightarrow> int list \<Rightarrow> (cl_state + cl_result) option" where
  "dialog_checklist m title prompt keys =
     map_option (\<lambda>ps. run_loop (cl_key m) (cl_init m title ps) keys)
       (print_autowrap (cl_adv m) prompt (cl_width m - 2) 1 3)"

section \<open>What a row looks like\<close>

definition list_row :: "checklist \<Rightarrow> bool list \<Rightarrow> int \<Rightarrow> bool \<Rightarrow> cell option list" where
  "list_row m st i selected =
     (let t = (case cl_text m i of [] \<Rightarrow> [nul] | c # cs \<Rightarrow> c # cs); x = cl_item_x m
      in map (\<lambda>c. Some (
           if c = x then (Some (if selected then Tag_selected_attr else Tag_attr), Ch (hd t))
           else if x < c \<and> c < x + int (length t)
           then (Some (if selected then Item_selected_attr else Item_attr), Ch (t ! nat (c - x)))
           else if check_x m \<le> c \<and> c < check_x m + 3
           then (Some (if selected then Check_selected_attr else Check_attr), Ch (mark m (st ! nat i) ! nat (c - check_x m)))
           else (Some Menubox_attr, Ch CHR '' ''))) [0..list_width m - 1])"

lemma length_mark [simp]: "length (mark m b) = 3"
  by (simp add: mark_def)

context curses
begin

lemma cl_print_item_cells:
  fixes m :: checklist and i :: int and selected :: bool
  defines "sel \<equiv> \<lambda>a b :: attr. Some (if selected then a else b)"
  assumes "cl_item_x m + 1 + int (length (tl (cl_text m i))) < maxx" "check_x m + 3 < maxx"
    "list_width m < maxx" "0 < maxx" "cl_item_x m + 1 < maxx"
  shows "cell (run (cl_print_item m st r i selected) w) =
    put_str (sel Item_selected_attr Item_attr) r (cl_item_x m + 1) (tl (cl_text m i))
      ((put_str (sel Check_selected_attr Check_attr) r (check_x m) (mark m (st ! nat i))
         (put_str (Some Menubox_attr) r 0 (replicate (nat (list_width m)) CHR '' '') (cell w)))
       ((r, cl_item_x m) := Some (sel Tag_selected_attr Tag_attr,
          Ch (case cl_text m i of [] \<Rightarrow> nul | c # _ \<Rightarrow> c))))"
proof -
  define w1 where "w1 = exec (Wmove r 0) (exec (Wattrset (Some Menubox_attr)) w)"
  define w2 where "w2 = run (waddstr (replicate (nat (list_width m)) CHR '' '')) w1"
  define w3 where "w3 = exec (Wattrset (sel Check_selected_attr Check_attr)) (exec (Wmove r (check_x m)) w2)"
  define w4 where "w4 = run (waddstr (mark m (st ! nat i))) w3"
  define w5 where "w5 = exec (Wattrset (sel Item_selected_attr Item_attr))
    (exec (Waddch None (Ch (case cl_text m i of [] \<Rightarrow> nul | c # _ \<Rightarrow> c)))
      (exec (Wmove r (cl_item_x m)) (exec (Wattrset (sel Tag_selected_attr Tag_attr)) w4)))"
  define w6 where "w6 = run (waddstr (tl (cl_text m i))) w5"
  have w1: "cursor w1 = (r, 0)" "cattr w1 = Some Menubox_attr" "cell w1 = cell w"
    by (simp_all add: w1_def laws)
  have w2: "cell w2 = put_str (Some Menubox_attr) r 0 (replicate (nat (list_width m)) CHR '' '') (cell w)"
    using run_str(1) [OF w1(1), of "replicate (nat (list_width m)) CHR '' ''"] assms(4,5) w1 by (simp add: w2_def)
  have w3: "cursor w3 = (r, check_x m)" "cattr w3 = sel Check_selected_attr Check_attr" "cell w3 = cell w2"
    by (simp_all add: w3_def laws)
  have w4: "cell w4 = put_str (sel Check_selected_attr Check_attr) r (check_x m) (mark m (st ! nat i)) (cell w2)"
    using run_str(1) [OF w3(1), of "mark m (st ! nat i)"] assms(3) w3 by (simp add: w4_def)
  have w5: "cursor w5 = (r, cl_item_x m + 1)" "cattr w5 = sel Item_selected_attr Item_attr"
    "cell w5 = (cell w4)((r, cl_item_x m) := Some (sel Tag_selected_attr Tag_attr,
       Ch (case cl_text m i of [] \<Rightarrow> nul | c # _ \<Rightarrow> c)))"
    using cursor_addch [where y = r and x = "cl_item_x m"] assms(6) by (simp_all add: w5_def laws cell_addch)
  have w6: "cell w6 = put_str (sel Item_selected_attr Item_attr) r (cl_item_x m + 1) (tl (cl_text m i)) (cell w5)"
    using run_str(1) [OF w5(1), of "tl (cl_text m i)"] assms(2) w5(2) by (simp add: w6_def)
  have "run (cl_print_item m st r i selected) w =
      (if selected then exec Refresh (exec (Wmove r (check_x m + 1)) w6) else w6)"
    by (simp add: cl_print_item_def w1_def w2_def w3_def w4_def w5_def w6_def sel_def)
  then have "cell (run (cl_print_item m st r i selected) w) = cell w6" by (simp add: laws)
  then show ?thesis by (simp add: w6 w5(3) w4 w2)
qed

end

lemma list_row_put:
  "row_cells (list_width m) (scr_run (cl_print_item m st r i sel) w) =
     (row_cells (list_width m) w)(r := list_row m st i sel)"
proof
  fix r'
  define mx where "mx = \<bar>cl_item_x m\<bar> + int (length (cl_text m i)) + \<bar>check_x m\<bar> + \<bar>list_width m\<bar> + 10"
  note p = scr.cl_print_item_cells [where m = m and i = i and maxx = mx and st = st and r = r and
      selected = sel and w = w, folded scr_run_eq]
  have c: "scr_cells (scr_run (cl_print_item m st r i sel) w) =
    put_str (Some (if sel then Item_selected_attr else Item_attr)) r (cl_item_x m + 1) (tl (cl_text m i))
      ((put_str (Some (if sel then Check_selected_attr else Check_attr)) r (check_x m) (mark m (st ! nat i))
         (put_str (Some Menubox_attr) r 0 (replicate (nat (list_width m)) CHR '' '') (scr_cells w)))
       ((r, cl_item_x m) := Some (Some (if sel then Tag_selected_attr else Tag_attr),
          Ch (case cl_text m i of [] \<Rightarrow> nul | c # _ \<Rightarrow> c))))"
    by (rule p) (auto simp: mx_def)
  have "nat (a - (b + 4)) - Suc 0 = nat (a - (5 + b))" for a b :: int by simp
  then show "row_cells (list_width m) (scr_run (cl_print_item m st r i sel) w) r' =
      ((row_cells (list_width m) w)(r := list_row m st i sel)) r'"
    by (cases "r' = r"; cases "cl_text m i")
      (auto simp: row_cells_def list_row_def Let_def c put_str_def nth_Cons' cl_item_x_def)
qed

interpretation list_rows: item_rows "\<lambda>r i sel. scr_run (cl_print_item m st r i sel)" "\<lambda>n. scr_exec (Wscrl n)"
    "row_cells (list_width m)" "list_row m st" "\<lambda>i. 0 \<le> i \<and> i < cl_item_no m" scr_scrollok
    "\<lambda>b. scr_exec (Scrollok b)"
  for m st
proof
  show "scr_scrollok (scr_run (cl_print_item m st r i sel) w) = scr_scrollok w" for r i sel w
    by (rule scr_run_scrollok) (auto simp: cl_print_item_def Let_def waddstr_def split: if_splits)
qed (auto simp: list_row_put row_cells_def scr_exec.simps)

section \<open>Steps of the key loop\<close>


lemmas list_ok = list_rows.ok_put list_rows.ok_scrl list_rows.ok_set_ok list_rows.shows_set_ok
  list_rows.shows_put_set_ok

definition cl_position :: "cl_state \<Rightarrow> int" where
  "cl_position s = cl_scroll s + cl_choice s"

definition cl_in_view :: "checklist \<Rightarrow> cl_state \<Rightarrow> bool" where
  "cl_in_view m s \<longleftrightarrow> 0 < cl_max_choice m \<and> 0 \<le> cl_choice s \<and> cl_choice s < cl_max_choice m \<and>
     0 \<le> cl_scroll s \<and> cl_scroll s + cl_max_choice m \<le> cl_item_no m"

definition list_win :: "cl_state \<Rightarrow> screen" where
  "list_win s = scr_run (list_out s) empty_screen"

definition cl_view :: "checklist \<Rightarrow> cl_state \<Rightarrow> int \<Rightarrow> bool" where
  "cl_view m s ch \<longleftrightarrow>
     (\<forall>r. 0 \<le> r \<and> r < cl_max_choice m \<longrightarrow>
        row_cells (list_width m) (list_win s) r = list_row m (status s) (cl_scroll s + r) (r = ch))"

lemma cl_view_shows:
  "cl_view m s ch = list_rows.shows_items m (status s) (cl_max_choice m) (list_win s) (cl_scroll s) ch"
  by (simp add: cl_view_def list_rows.shows_items_def)

lemma cl_put_simps [simp]:
  "cl_choice (cl_put m r i b s) = cl_choice s" "cl_scroll (cl_put m r i b s) = cl_scroll s"
  "status (cl_put m r i b s) = status s"
  "list_win (cl_put m r i b s) = scr_run (cl_print_item m (status s) r i b) (list_win s)"
  by (simp_all add: cl_put_def cl_emit_def list_win_def)

lemma cl_emit_simps [simp]:
  "cl_choice (cl_emit cs s) = cl_choice s" "cl_scroll (cl_emit cs s) = cl_scroll s"
  "status (cl_emit cs s) = status s" "list_win (cl_emit cs s) = scr_run cs (list_win s)"
  by (simp_all add: cl_emit_def list_win_def)

lemma list_win_upd [simp]:
  "list_win (s\<lparr>cl_choice := c\<rparr>) = list_win s" "list_win (s\<lparr>cl_scroll := c\<rparr>) = list_win s"
  "list_win (s\<lparr>frame_out := d\<rparr>) = list_win s"
  by (simp_all add: list_win_def)

lemma arrows_simps [simp]:
  "cl_choice (arrows m s) = cl_choice s" "cl_scroll (arrows m s) = cl_scroll s"
  "status (arrows m s) = status s" "list_win (arrows m s) = list_win s"
  by (simp_all add: arrows_def)

definition cl_inv :: "checklist \<Rightarrow> cl_state \<Rightarrow> bool" where
  "cl_inv m s \<longleftrightarrow> cl_in_view m s \<and> cl_view m s (cl_choice s) \<and> \<not> scr_scrollok (list_win s) \<and>
     status s = init_status m"

text \<open>
  Abstractly the list is at one item: the cursor keys move by one, clamped to the list, and any
  other key stays or goes to an item nearby that starts with it.
\<close>

definition cl_spec :: "checklist \<Rightarrow> int \<Rightarrow> int \<Rightarrow> int \<Rightarrow> bool" where
  "cl_spec m key p q \<longleftrightarrow>
     (if key = KEY_UP \<or> key = chr CHR ''-'' then q = max (p - 1) 0
      else if key = KEY_DOWN \<or> key = chr CHR ''+'' then q = min (p + 1) (cl_item_no m - 1)
      else q = p \<or> (int_toupper key = int_toupper (schar_at (cl_text m q) 0) \<and>
             0 \<le> q \<and> q < cl_item_no m \<and> \<bar>q - p\<bar> < cl_max_choice m))"

lemma cl_unmark:
  assumes "cl_in_view m s" "cl_view m s (cl_choice s)" "i = cl_scroll s + cl_choice s" "r = cl_choice s"
  shows "cl_view m (cl_put m r i False s) (-1)"
proof -
  have "0 \<le> cl_choice s" "0 \<le> cl_scroll s + cl_choice s \<and> cl_scroll s + cl_choice s < cl_item_no m"
    using assms(1) by (auto simp: cl_in_view_def)
  then show ?thesis
    using assms list_rows.shows_unmark by (auto simp: cl_view_shows)
qed

lemma cl_mark:
  assumes "cl_in_view m s" "cl_view m s (-1)" "i = cl_scroll s + r" "0 \<le> r" "r < cl_max_choice m"
  shows "cl_view m (cl_put m r i True s) r"
proof -
  have "0 \<le> cl_scroll s + r \<and> cl_scroll s + r < cl_item_no m"
    using assms by (auto simp: cl_in_view_def)
  then show ?thesis using assms list_rows.shows_mark by (auto simp: cl_view_shows)
qed

lemma go_to_moves:
  assumes "cl_inv m s" "0 \<le> i" "i < cl_max_choice m"
  shows "cl_inv m (go_to m i s) \<and> cl_position (go_to m i s) = cl_scroll s + i"
proof (cases "i = cl_choice s")
  case True
  with assms show ?thesis by (simp add: go_to_def cl_position_def)
next
  case False
  let ?s1 = "cl_put m (cl_choice s) (cl_scroll s + cl_choice s) False s"
  have s1: "cl_view m ?s1 (-1)" "cl_in_view m ?s1"
    using assms cl_unmark [of m s] by (auto simp: cl_inv_def cl_in_view_def)
  let ?s2 = "?s1\<lparr>cl_choice := i\<rparr>"
  have s2: "cl_view m ?s2 (-1)" "cl_in_view m ?s2"
    using s1 assms(2,3) by (auto simp: cl_view_shows cl_in_view_def)
  have "cl_view m (cl_put m i (cl_scroll ?s2 + i) True ?s2) i"
    using s2 assms(2,3) by (intro cl_mark) auto
  with False s2 assms show ?thesis
    by (auto simp: go_to_def Let_def cl_inv_def cl_position_def cl_in_view_def cl_view_shows list_ok)
qed

lemma cl_put_only_row:
  assumes "cl_max_choice m = 1" "0 \<le> cl_scroll s" "cl_scroll s < cl_item_no m"
  shows "cl_view m (cl_put m 0 (cl_scroll s) True s) 0"
proof -
  have "0 \<le> r \<and> r < cl_max_choice m \<longleftrightarrow> r = 0" for r using assms(1) by auto
  then show ?thesis using assms(2,3) by (simp add: cl_view_def list_rows.row_put)
qed

lemma scroll_down_moves:
  assumes inv: "cl_inv m s" and c: "cl_choice s = 0" "cl_scroll s \<noteq> 0"
  shows "cl_inv m (scroll_down m s) \<and> cl_position (scroll_down m s) = cl_scroll s - 1"
proof -
  define s1 where "s1 = (if list_height m > 1
    then cl_emit [Scrollok True, Wscrl (-1), Scrollok False] (cl_put m 0 (cl_scroll s) False s) else s)"
  define s2 where "s2 = s1\<lparr>cl_scroll := cl_scroll s - 1\<rparr>"
  have f: "cl_choice s2 = 0" "cl_scroll s2 = cl_scroll s - 1" "status s2 = status s"
      "\<not> scr_scrollok (list_win s2)" "cl_in_view m s2"
    using inv c by (auto simp: s2_def s1_def cl_inv_def list_ok cl_in_view_def)
  have "cl_view m (cl_put m 0 (cl_scroll s2) True s2) 0"
  proof (cases "list_height m > 1")
    case True
    have "cl_view m (cl_put m 0 (cl_scroll s) False s) (-1)"
      using inv c by (intro cl_unmark) (auto simp: cl_inv_def)
    then have "list_rows.shows_items m (status s) (cl_max_choice m)
        (scr_run (cl_print_item m (status s) 0 (cl_scroll s - 1) False)
          (scr_exec (Wscrl (-1)) (scr_exec (Scrollok True) (list_win (cl_put m 0 (cl_scroll s) False s)))))
        (cl_scroll s - 1) (-1)"
      using f(5) c(2) f(2) by (intro list_rows.shows_down) (auto simp: cl_view_shows cl_in_view_def list_ok)
    then have "list_rows.shows_items m (status s) (cl_max_choice m)
        (scr_run (cl_print_item m (status s) 0 (cl_scroll s - 1 + 0) True)
          (scr_run (cl_print_item m (status s) 0 (cl_scroll s - 1) False)
            (scr_exec (Wscrl (-1)) (scr_exec (Scrollok True) (list_win (cl_put m 0 (cl_scroll s) False s))))))
        (cl_scroll s - 1) 0"
      using f(5,2) by (intro list_rows.shows_mark) (auto simp: cl_in_view_def)
    then show ?thesis
      using f(5,2) True
      by (auto simp: cl_view_shows s2_def s1_def list_rows.shows_items_def list_rows.row_put
          list_rows.row_set_ok cl_in_view_def)
  next
    case False
    then have "cl_max_choice m = 1" using f(5) by (auto simp: cl_in_view_def cl_max_choice_def split: if_splits)
    then show ?thesis using f(5) by (intro cl_put_only_row) (auto simp: cl_in_view_def)
  qed
  moreover have "scroll_down m s = arrows m (cl_put m 0 (cl_scroll s2) True s2)"
    by (simp add: scroll_down_def Let_def s2_def s1_def)
  ultimately show ?thesis
    using f inv by (auto simp: cl_inv_def cl_position_def cl_in_view_def cl_view_shows list_ok)
qed

lemma scroll_up_moves_cl:
  assumes inv: "cl_inv m s" and c: "cl_choice s = cl_max_choice m - 1" "cl_scroll s + cl_choice s < cl_item_no m - 1"
  shows "cl_inv m (scroll_up m s) \<and> cl_position (scroll_up m s) = cl_position s + 1"
proof -
  let ?l = "cl_max_choice m - 1"
  define s0 where "s0 = cl_put m ?l (cl_scroll s + cl_max_choice m - 1) False s"
  define s1 where "s1 = (if list_height m > 1 then cl_emit [Scrollok True, Wscrl 1, Scrollok False] s0 else s)"
  define s2 where "s2 = s1\<lparr>cl_scroll := cl_scroll s + 1\<rparr>"
  have f: "cl_choice s2 = ?l" "cl_scroll s2 = cl_scroll s + 1" "status s2 = status s"
      "\<not> scr_scrollok (list_win s2)" "cl_in_view m s2"
    using inv c by (auto simp: s2_def s1_def s0_def cl_inv_def list_ok cl_in_view_def)
  have "cl_view m (cl_put m ?l (cl_scroll s2 + ?l) True s2) ?l"
  proof (cases "list_height m > 1")
    case True
    have "cl_view m s0 (-1)" unfolding s0_def
      using inv c by (intro cl_unmark) (auto simp: cl_inv_def)
    then have "list_rows.shows_items m (status s) (cl_max_choice m)
        (scr_run (cl_print_item m (status s) ?l (cl_scroll s + 1 + ?l) False)
          (scr_exec (Wscrl 1) (scr_exec (Scrollok True) (list_win s0)))) (cl_scroll s + 1) (-1)"
      using f(5) f(2) by (intro list_rows.shows_up) (auto simp: cl_view_shows cl_in_view_def list_ok s0_def)
    then have "list_rows.shows_items m (status s) (cl_max_choice m)
        (scr_run (cl_print_item m (status s) ?l (cl_scroll s + 1 + ?l) True)
          (scr_run (cl_print_item m (status s) ?l (cl_scroll s + 1 + ?l) False)
            (scr_exec (Wscrl 1) (scr_exec (Scrollok True) (list_win s0))))) (cl_scroll s + 1) ?l"
      using f(5,2) by (intro list_rows.shows_mark) (auto simp: cl_in_view_def)
    then show ?thesis
      using f(5,2,3) True
      by (auto simp: cl_view_shows s2_def s1_def list_rows.shows_items_def list_rows.row_put
          list_rows.row_set_ok cl_in_view_def s0_def)
  next
    case False
    then have "cl_max_choice m = 1" using f(5) by (auto simp: cl_in_view_def cl_max_choice_def split: if_splits)
    then show ?thesis using f(5) cl_put_only_row [of m s2] by (auto simp: cl_in_view_def)
  qed
  moreover have "scroll_up m s = arrows m (cl_put m ?l (cl_scroll s2 + ?l) True s2)"
    by (simp add: scroll_up_def Let_def s2_def s1_def s0_def add.assoc add_diff_eq)
  ultimately show ?thesis
    using f inv c
    by (auto simp: cl_inv_def cl_position_def cl_in_view_def cl_view_shows list_ok)
qed

lemma letter_row_hit:
  "letter_row m key s < cl_max_choice m \<Longrightarrow>
     0 \<le> letter_row m key s \<and>
     int_toupper key = int_toupper (schar_at (cl_text m (cl_scroll s + letter_row m key s)) 0)"
  by (cases "find (\<lambda>i. int_toupper key = int_toupper (schar_at (cl_text m (cl_scroll s + i)) 0))
      [0..cl_max_choice m - 1]") (auto simp: letter_row_def dest: find_upto)

lemma cl_move_moves:
  assumes inv: "cl_inv m s"
    and hit: "letter_row m key s < cl_max_choice m \<or> key \<in> {KEY_UP, KEY_DOWN, chr CHR ''+'', chr CHR ''-''}"
  shows "cl_inv m (cl_move m key (letter_row m key s) s) \<and>
    cl_spec m key (cl_position s) (cl_position (cl_move m key (letter_row m key s) s))"
proof -
  have v: "0 \<le> cl_choice s" "cl_choice s < cl_max_choice m" "0 \<le> cl_scroll s"
      "cl_scroll s + cl_max_choice m \<le> cl_item_no m"
    using inv by (auto simp: cl_inv_def cl_in_view_def)
  show ?thesis
  proof (cases "key = KEY_UP \<or> key = chr CHR ''-''")
    case True
    with inv v show ?thesis
      using scroll_down_moves [OF inv] go_to_moves [OF inv, of "cl_choice s - 1"]
      by (auto simp: cl_move_def cl_spec_def cl_position_def)
  next
    case up: False
    show ?thesis
    proof (cases "key = KEY_DOWN \<or> key = chr CHR ''+''")
      case True
      with inv v up show ?thesis
        using scroll_up_moves_cl [OF inv] go_to_moves [OF inv, of "cl_choice s + 1"]
        by (auto simp: cl_move_def cl_spec_def cl_position_def)
    next
      case False
      with up hit have h: "letter_row m key s < cl_max_choice m" by auto
      with inv v up False show ?thesis
        using letter_row_hit [OF h] go_to_moves [OF inv, of "letter_row m key s"]
        by (auto simp: cl_move_def cl_spec_def cl_position_def)
    qed
  qed
qed

lemma cl_key_Inl:
  assumes "cl_key m k s = Inl s'" "cl_inv m s"
  shows "cl_inv m s' \<and> cl_spec m k (cl_position s) (cl_position s')"
proof (cases "letter_row m k s < cl_max_choice m \<or> k \<in> {KEY_UP, KEY_DOWN, chr CHR ''+'', chr CHR ''-''}")
  case True
  with assms(1) have "s' = cl_move m k (letter_row m k s) s"
    by (auto simp: cl_key_def Let_def split: if_splits)
  with cl_move_moves [OF assms(2) True] show ?thesis by simp
next
  case False
  with assms have "s' = s" by (auto simp: cl_key_def Let_def split: if_splits)
  with assms(2) False show ?thesis by (auto simp: cl_spec_def)
qed

lemma cl_key_Inr:
  assumes "cl_key m k s = Inr r"
  shows "r = (-1, []) \<or> r = (1, []) \<or> r = (0, write_tags m (select_status m s))"
  using assms by (auto simp: cl_key_def Let_def split: if_splits)

interpretation check: loop_refinement "cl_key m" "cl_inv m" "\<lambda>r. fst r \<in> {-1, 0, 1}" cl_position "cl_spec m" for m
  by unfold_locales (auto dest: cl_key_Inl cl_key_Inr)

lemma init_choice_bounds: "0 < cl_item_no m \<Longrightarrow> 0 \<le> init_choice m \<and> init_choice m < cl_item_no m"
  unfolding init_choice_def by (rule foldl_invariant) auto

lemma cl_init_inv:
  assumes "0 < cl_item_no m" "0 < list_height m"
  shows "cl_inv m (cl_init m title ps) \<and> cl_position (cl_init m title ps) = init_choice m"
proof -
  obtain sc ch where v: "cl_first_view m = (sc, ch)" by fastforce
  have b: "0 < cl_max_choice m" "0 \<le> ch" "ch < cl_max_choice m" "0 \<le> sc"
      "sc + cl_max_choice m \<le> cl_item_no m" "sc + ch = init_choice m"
    using v init_choice_bounds [OF assms(1)] assms
    by (auto simp: cl_first_view_def cl_max_choice_def Let_def split: if_splits)
  let ?w = "foldl (\<lambda>w i. scr_run (cl_print_item m (init_status m) i (sc + i) (i = ch)) w)
    empty_screen [0..cl_max_choice m - 1]"
  have sh: "list_rows.shows_items m (init_status m) (cl_max_choice m) ?w sc ch"
    using b by (intro list_rows.shows_fill) auto
  have ok: "\<not> scr_scrollok ?w"
    by (rule foldl_invariant) (auto simp: empty_screen_def list_ok)
  have f: "list_win (cl_init m title ps) = ?w" "cl_choice (cl_init m title ps) = ch"
      "cl_scroll (cl_init m title ps) = sc" "status (cl_init m title ps) = init_status m"
    by (simp_all add: cl_init_def v list_win_def scr_run_concat Let_def)
  show ?thesis
    using sh ok b by (simp add: cl_inv_def cl_view_shows cl_in_view_def cl_position_def f)
qed

text \<open>What a radio list writes: with a single item set, its tag alone.\<close>

lemma concat_none: "concat (map (\<lambda>(x, on). if on then f x else []) (zip xs (map (\<lambda>_. False) bs))) = []"
  by (induction xs bs rule: list_induct2') auto

lemma concat_one:
  "length xs = length bs \<Longrightarrow> i < length xs \<Longrightarrow>
     concat (map (\<lambda>(x, on). if on then f x else []) (zip xs ((map (\<lambda>_. False) bs)[i := True]))) = f (xs ! i)"
  by (induction xs bs arbitrary: i rule: list_induct2) (auto simp: concat_none split: nat.split)

lemma length_init_status [simp]: "length (init_status m) = length (cl_items m)"
  by (simp add: init_status_def)

definition one_set :: "nat \<Rightarrow> bool list \<Rightarrow> bool list" where
  "one_set p bs = (map (\<lambda>_. False) bs)[p := True]"

lemma write_one:
  "\<not> flag_check m \<Longrightarrow> 0 \<le> p \<Longrightarrow> p < cl_item_no m \<Longrightarrow> write_tags m (one_set (nat p) (init_status m)) = cl_tag m p"
  using concat_one [of "cl_items m" "init_status m" "nat p" fst]
  by (simp add: write_tags_def one_set_def cl_tag_def cl_item_no_def cong: if_cong)

lemma one_set_eq:
  assumes "p < length bs" "bs ! p" "\<And>i. i < length bs \<Longrightarrow> bs ! i \<Longrightarrow> i = p"
  shows "bs = one_set p bs"
proof (rule nth_equalityI)
  fix i assume i: "i < length bs"
  show "bs ! i = one_set p bs ! i"
    using assms(2) assms(3) [OF i] i by (cases "i = p") (auto simp: one_set_def)
qed (simp add: one_set_def)

section \<open>Drawing inside of the window\<close>

text \<open>
  The items fit the list window: the longest with its mark is not wider than the window, and the items consist of
  characters that can be printed, at least one each.
\<close>

definition list_fits :: "checklist \<Rightarrow> bool" where
  "list_fits m \<longleftrightarrow> longest_text m \<le> list_width m \<and>
     (\<forall>(t, x, st) \<in> set (cl_items m). x \<noteq> [] \<and> list_all (\<lambda>c. 32 \<le> code c \<and> code c < 127) x)"

lemma longest_text_max: "it \<in> set (cl_items m) \<Longrightarrow> int (length (fst (snd it))) + 4 \<le> longest_text m"
proof -
  have "y \<le> foldl (\<lambda>x it. let l = int (length (fst (snd it))) + 4 in if x > l then x else l) y its \<and>
      (\<forall>it \<in> set its. int (length (fst (snd it))) + 4 \<le>
        foldl (\<lambda>x it. let l = int (length (fst (snd it))) + 4 in if x > l then x else l) y its)" for y its
  proof (induction its arbitrary: y)
    case (Cons it its)
    let ?y = "let l = int (length (fst (snd it))) + 4 in if y > l then y else l"
    have "y \<le> ?y" "int (length (fst (snd it))) + 4 \<le> ?y" by (simp_all add: Let_def)
    with Cons.IH [of ?y] show ?case by (auto intro: order.trans)
  qed simp
  then show "it \<in> set (cl_items m) \<Longrightarrow> int (length (fst (snd it))) + 4 \<le> longest_text m"
    unfolding longest_text_def by blast
qed

lemma list_fits_item:
  assumes "list_fits m" "0 \<le> i" "i < cl_item_no m"
  shows "0 \<le> check_x m" "check_x m + 4 + int (length (cl_text m i)) \<le> list_width m" "cl_text m i \<noteq> []"
    "list_all (\<lambda>c. printable (Ch c)) (cl_text m i)"
proof -
  have it: "cl_items m ! nat i \<in> set (cl_items m)" using assms(2,3) by (simp add: cl_item_no_def)
  with assms(1) show "cl_text m i \<noteq> []" "list_all (\<lambda>c. printable (Ch c)) (cl_text m i)"
    by (force simp: list_fits_def cl_text_def printable_def)+
  have "longest_text m \<le> list_width m" using assms(1) by (simp add: list_fits_def)
  moreover have "int (length (cl_text m i)) + 4 \<le> longest_text m" using longest_text_max [OF it] by (simp add: cl_text_def)
  moreover have "0 \<le> check_x m \<and> 2 * check_x m \<le> list_width m - longest_text m"
    using calculation(1) by (auto simp: check_x_def half_def)
  ultimately show "0 \<le> check_x m" "check_x m + 4 + int (length (cl_text m i)) \<le> list_width m" by auto
qed

lemma stays_inside_start:
  "0 \<le> r \<Longrightarrow> r < h \<Longrightarrow> 0 < w \<Longrightarrow> stays_inside h w (Some (r, 0)) cs \<Longrightarrow> stays_inside h w p ([Wattrset a, Wmove r 0] @ cs)"
  by simp

text \<open>Drawing an item in a row of the window, wherever the cursor was.\<close>

lemma cl_print_item_inside:
  assumes "list_fits m" "0 \<le> i" "i < cl_item_no m" "0 \<le> r" "r < list_height m"
  shows "stays_inside (list_height m) (list_width m) None (cl_print_item m st r i selected)"
proof -
  note f = list_fits_item [OF assms(1-3)]
  have w: "check_x m + 4 < list_width m" using f(2,3) by (cases "cl_text m i") auto
  have p: "printable (Ch CHR '' '')" "list_all (\<lambda>c. printable (Ch c)) (mark m b)" for b
    by (simp_all add: printable_def mark_def code_def)
  obtain c t where t: "cl_text m i = c # t" using f(3) by (cases "cl_text m i") auto
  have sel: "stays_inside (list_height m) (list_width m) q (if selected then [Wmove r (check_x m + 1), Refresh] else [])" for q
    using assms(4,5) f(1) w by simp
  have "stays_inside (list_height m) (list_width m) (Some (r, cl_item_x m + 1))
      (waddstr t @ (if selected then [Wmove r (check_x m + 1), Refresh] else []))"
    using f(2,4) t by (intro stays_inside_str) (auto simp: cl_item_x_def sel)
  then have "stays_inside (list_height m) (list_width m) (Some (r, check_x m + int (length (mark m (st ! nat i)))))
      ([Wattrset (Some (if selected then Tag_selected_attr else Tag_attr)), Wmove r (cl_item_x m),
        Waddch None (Ch (case cl_text m i of [] \<Rightarrow> nul | c # _ \<Rightarrow> c)),
        Wattrset (Some (if selected then Item_selected_attr else Item_attr))] @
       waddstr (tl (cl_text m i)) @ (if selected then [Wmove r (check_x m + 1), Refresh] else []))"
    using assms(4,5) f(1,4) w t by (simp add: cl_item_x_def)
  from stays_inside_str [OF _ p(2) this]
  have "stays_inside (list_height m) (list_width m) q
      ([Wmove r (check_x m), Wattrset (Some (if selected then Check_selected_attr else Check_attr))] @ waddstr (mark m (st ! nat i)) @
       [Wattrset (Some (if selected then Tag_selected_attr else Tag_attr)), Wmove r (cl_item_x m),
        Waddch None (Ch (case cl_text m i of [] \<Rightarrow> nul | c # _ \<Rightarrow> c)),
        Wattrset (Some (if selected then Item_selected_attr else Item_attr))] @
       waddstr (tl (cl_text m i)) @ (if selected then [Wmove r (check_x m + 1), Refresh] else []))" for q
    using assms(4,5) f(1) w by simp
  note spaces = stays_inside_str [OF _ _ this, where t = "replicate (nat (list_width m)) CHR '' ''"]
  show ?thesis unfolding cl_print_item_def
    by (intro stays_inside_start spaces) (use assms(4,5) w f(1) p(1) in \<open>simp_all add: list_all_iff\<close>)
qed

text \<open>An item that fits is drawn in the window as on the grid.\<close>

lemma cl_print_item_window:
  assumes "list_fits m" "0 \<le> i" "i < cl_item_no m" "0 \<le> r" "r < list_height m" "\<not> scr_scrollok w"
  shows "scr_cells (win_run (list_height m) (list_width m) (cl_print_item m st r i sel) w) = scr_cells (scr_run (cl_print_item m st r i sel) w)"
  by (rule window_agrees [OF cl_print_item_inside [OF assms(1-5)]])
    (use assms(6) in \<open>auto simp: cl_print_item_def waddstr_def list_all_iff\<close>)

text \<open>All that was written to the list window so far.\<close>

definition drawn_inside :: "checklist \<Rightarrow> cl_state \<Rightarrow> bool" where
  "drawn_inside m s \<longleftrightarrow> stays_inside (list_height m) (list_width m) None (list_out s)"

lemma drawn_simps [simp]:
  "drawn_inside m (s\<lparr>cl_choice := c\<rparr>) = drawn_inside m s" "drawn_inside m (s\<lparr>cl_scroll := c\<rparr>) = drawn_inside m s"
  "drawn_inside m (arrows m s) = drawn_inside m s"
  by (simp_all add: drawn_inside_def arrows_def)







section \<open>Properties\<close>


definition demo_list :: checklist where
  "demo_list = \<lparr>cl_items = [(''a'', ''Alpha'', ''off''), (''b'', ''Beta'', ''on''), (''c'', ''Gamma'', ''off'')],
     cl_height = 12, cl_width = 40, list_height = 2, flag_check = True,
     cl_adv = \<lambda>(r, c) w. (r, c + int (length w))\<rparr>"

lemma demo_list_simps:
  "cl_item_no demo_list = 3" "list_height demo_list = 2" "init_choice demo_list = 1"
  "init_status demo_list = [False, True, False]" "flag_check demo_list"
proof -
  show n: "cl_item_no demo_list = 3" by (simp add: demo_list_def cl_item_no_def)
  show i: "init_status demo_list = [False, True, False]"
    by (simp add: demo_list_def init_status_def c_tolower_def c_isupper_def code_def)
  show "init_choice demo_list = 1" by (simp add: init_choice_def n i upto.simps)
qed (simp_all add: demo_list_def)



text \<open>The keys that can end the list, and what a check list writes, said by the numbers of the items.\<close>

definition help_keys :: "int set" where "help_keys = {chr CHR ''H'', chr CHR ''h'', chr CHR ''?''}"
definition select_keys :: "int set" where "select_keys = {chr CHR ''S'', chr CHR ''s'', chr CHR '' '', NL}"
definition leave_keys :: "int set" where "leave_keys = {chr CHR ''X'', chr CHR ''x'', ESC}"

lemma end_keys_disjoint:
  "help_keys \<inter> select_keys = {}" "help_keys \<inter> leave_keys = {}" "select_keys \<inter> leave_keys = {}"
  by (auto simp: help_keys_def select_keys_def leave_keys_def key_defs chr_def code_def)

lemma write_tags_numbers:
  assumes "flag_check m" "length st = length (cl_items m)"
  shows "write_tags m st = concat (map (\<lambda>i. [CHR 0x22] @ fst (cl_items m ! i) @ [CHR 0x22, CHR '' ''])
    (filter (\<lambda>i. st ! i) [0..<length (cl_items m)]))"
proof -
  have "concat (map (\<lambda>(it, on). if on then f it else []) (zip its bs)) = concat (map (\<lambda>i. f (its ! i)) (filter (\<lambda>i. bs ! i) [0..<length its]))"
    if "length bs = length its" for f :: "string \<times> string \<times> string \<Rightarrow> string" and bs its
    using that
  proof (induction bs its rule: list_induct2)
    case (Cons b bs it its)
    have "[0..<length (it # its)] = 0 # map Suc [0..<length its]" by (simp add: upt_conv_Cons map_Suc_upt del: upt_Suc)
    with Cons.IH show ?case by (simp add: filter_map comp_def del: upt_Suc)
  qed simp
  from this [OF assms(2), of "\<lambda>it. [CHR 0x22] @ fst it @ [CHR 0x22, CHR '' '']"] assms(1) show ?thesis
    by (simp add: write_tags_def cong: if_cong)
qed

lemma cl_key_goes_on:
  assumes "cl_key m k s = Inl s'" "cl_inv m s"
  shows "k \<noteq> ESC \<and> (k \<in> help_keys \<union> select_keys \<union> leave_keys \<longrightarrow>
    (\<exists>q. 0 \<le> q \<and> q < cl_item_no m \<and> int_toupper k = int_toupper (schar_at (cl_text m q) 0)))"
proof (cases "letter_row m k s < cl_max_choice m")
  case True
  have "0 \<le> cl_scroll s + letter_row m k s" "cl_scroll s + letter_row m k s < cl_item_no m"
    using assms(2) True letter_row_hit [OF True] by (auto simp: cl_inv_def cl_in_view_def)
  with letter_row_hit [OF True] show ?thesis using assms(1) by (auto simp: cl_key_def Let_def True split: if_splits)
next
  case False
  have "k \<notin> help_keys \<union> select_keys \<union> leave_keys" if "k \<in> {KEY_UP, KEY_DOWN, chr CHR ''+'', chr CHR ''-''}"
    using that by (auto simp: help_keys_def select_keys_def leave_keys_def key_defs chr_def code_def)
  with False assms(1) show ?thesis
    by (auto simp: cl_key_def Let_def help_keys_def select_keys_def leave_keys_def split: if_splits)
qed

lemma cl_key_result:
  assumes "cl_key m k s = Inr (ret, out)"
  shows "k \<in> help_keys \<union> select_keys \<union> leave_keys \<and>
    ret = (if k \<in> help_keys then 1 else if k \<in> select_keys then 0 else -1) \<and>
    out = (if k \<in> select_keys then write_tags m (select_status m s) else [])"
proof -
  have k: "k \<in> leave_keys \<and> ret = -1 \<and> out = [] \<or> k \<in> help_keys \<and> ret = 1 \<and> out = [] \<or>
      k \<in> select_keys \<and> ret = 0 \<and> out = write_tags m (select_status m s)"
    using assms by (auto simp: cl_key_def Let_def help_keys_def select_keys_def leave_keys_def split: if_splits)
  with end_keys_disjoint show ?thesis by (elim disjE) auto
qed

lemma cl_run_goes_on:
  assumes "cl_inv m s"
  shows "run_loop (cl_key m) s ks = Inl s' \<Longrightarrow> \<forall>k \<in> set ks. k \<noteq> ESC \<and> (k \<in> help_keys \<union> select_keys \<union> leave_keys \<longrightarrow>
    (\<exists>q. 0 \<le> q \<and> q < cl_item_no m \<and> int_toupper k = int_toupper (schar_at (cl_text m q) 0)))"
proof (induction ks arbitrary: s' rule: rev_induct)
  case (snoc k ks)
  then obtain s1 where s1: "run_loop (cl_key m) s ks = Inl s1" "cl_key m k s1 = Inl s'"
    by (auto simp: run_loop_append split: sum.splits)
  have "cl_inv m s1" by (rule check.run_inv [OF assms s1(1)])
  from cl_key_goes_on [OF s1(2) this] snoc.IH [OF s1(1)] show ?case by simp
qed simp

text \<open>
  C26. How the list ends. The key that ends it is H, h or a question mark (the result is 1, help), S, s, a blank or return
  (the result is 0), or X, x or escape (the result is -1). A key of these before it was the first letter of an item, upper or
  lower case, and only moved to it; escape always ends the list. Help and leaving write nothing. A selection in
  a check list writes the quoted tags of the items that are on when the item at the position, which the keys before
  reached, is toggled; in a radio list the tag of the item at the position alone, provided
  at most one item was on before.
\<close>

theorem checklist_result:
  assumes "0 < cl_item_no m" "0 < list_height m"
    and "dialog_checklist m title prompt keys = Some (Inr (ret, out))"
    and one: "\<And>i j. i < length (init_status m) \<Longrightarrow> j < length (init_status m) \<Longrightarrow>
       \<not> flag_check m \<Longrightarrow> init_status m ! i \<Longrightarrow> init_status m ! j \<Longrightarrow> i = j"
  shows "\<exists>ks k rest p. keys = ks @ k # rest \<and> trace (cl_spec m) (init_choice m) ks p \<and> 0 \<le> p \<and> p < cl_item_no m \<and>
    (\<forall>k' \<in> set ks. k' \<noteq> ESC \<and> (k' \<in> help_keys \<union> select_keys \<union> leave_keys \<longrightarrow>
      (\<exists>q. 0 \<le> q \<and> q < cl_item_no m \<and> int_toupper k' = int_toupper (schar_at (cl_text m q) 0)))) \<and>
    k \<in> help_keys \<union> select_keys \<union> leave_keys \<and>
    ret = (if k \<in> help_keys then 1 else if k \<in> select_keys then 0 else -1) \<and>
    out = (if k \<notin> select_keys then []
      else if flag_check m then concat (map (\<lambda>i. [CHR 0x22] @ fst (cl_items m ! i) @ [CHR 0x22, CHR '' ''])
        (filter (\<lambda>i. init_status m ! i \<noteq> (i = nat p)) [0..<length (cl_items m)]))
      else fst (cl_items m ! nat p))"
proof -
  from assms(3) obtain ps where run: "run_loop (cl_key m) (cl_init m title ps) keys = Inr (ret, out)"
    by (auto simp: dialog_checklist_def)
  then obtain ks k rest s where k: "keys = ks @ k # rest"
    and s: "run_loop (cl_key m) (cl_init m title ps) ks = Inl s" "cl_key m k s = Inr (ret, out)"
    by (rule run_loop_InrE)
  note i = cl_init_inv [OF assms(1,2), of title ps]
  have inv: "cl_inv m s" by (rule check.run_inv [OF _ s(1)]) (simp add: i)
  have tr: "trace (cl_spec m) (init_choice m) ks (cl_position s)"
    using check.run_trace [OF _ s(1)] i by simp
  have p: "0 \<le> cl_position s" "cl_position s < cl_item_no m" and st: "status s = init_status m"
    using inv by (auto simp: cl_inv_def cl_in_view_def cl_position_def)
  have n: "nat (cl_position s) < length (init_status m)"
    using p by (simp add: cl_item_no_def)
  have radio: "write_tags m (select_status m s) = fst (cl_items m ! nat (cl_position s))" if f: "\<not> flag_check m"
  proof (cases "init_status m ! nat (cl_position s)")
    case True
    then have "init_status m = one_set (nat (cl_position s)) (init_status m)"
      using n one f by (intro one_set_eq) auto
    with True f st write_one [OF f p] show ?thesis
      by (simp add: select_status_def Let_def cl_position_def [symmetric] cl_tag_def)
  next
    case False
    with f st write_one [OF f p] show ?thesis
      by (simp add: select_status_def Let_def cl_position_def [symmetric] one_set_def cl_tag_def)
  qed
  have check: "write_tags m (select_status m s) =
      concat (map (\<lambda>i. [CHR 0x22] @ fst (cl_items m ! i) @ [CHR 0x22, CHR '' ''])
        (filter (\<lambda>i. init_status m ! i \<noteq> (i = nat (cl_position s))) [0..<length (cl_items m)]))" if f: "flag_check m"
  proof -
    have "select_status m s = (init_status m)[nat (cl_position s) := \<not> init_status m ! nat (cl_position s)]"
      using f st by (simp add: select_status_def Let_def cl_position_def)
    moreover have "filter (\<lambda>i. ((init_status m)[nat (cl_position s) := \<not> init_status m ! nat (cl_position s)]) ! i) [0..<length (cl_items m)] =
        filter (\<lambda>i. init_status m ! i \<noteq> (i = nat (cl_position s))) [0..<length (cl_items m)]"
      by (rule filter_cong) (auto simp: nth_list_update)
    ultimately show ?thesis using write_tags_numbers [OF f, of "select_status m s"] by simp
  qed
  show ?thesis
  proof (rule exI [of _ ks], rule exI [of _ k], rule exI [of _ rest], rule exI [of _ "cl_position s"], intro conjI)
    show "out = (if k \<notin> select_keys then []
      else if flag_check m then concat (map (\<lambda>i. [CHR 0x22] @ fst (cl_items m ! i) @ [CHR 0x22, CHR '' ''])
        (filter (\<lambda>i. init_status m ! i \<noteq> (i = nat (cl_position s))) [0..<length (cl_items m)]))
      else fst (cl_items m ! nat (cl_position s)))"
    proof (cases "k \<in> select_keys")
      case True
      then have "out = write_tags m (select_status m s)" using cl_key_result [OF s(2)] by (simp only: if_True)
      with True show ?thesis by (cases "flag_check m") (simp_all only: radio check simp_thms if_True if_False)
    next
      case False
      then show ?thesis using cl_key_result [OF s(2)] by (simp only: if_False if_True simp_thms)
    qed
  next
    show "\<forall>k' \<in> set ks. k' \<noteq> ESC \<and> (k' \<in> help_keys \<union> select_keys \<union> leave_keys \<longrightarrow>
        (\<exists>q. 0 \<le> q \<and> q < cl_item_no m \<and> int_toupper k' = int_toupper (schar_at (cl_text m q) 0)))"
      by (rule cl_run_goes_on [OF conjunct1 [OF i] s(1)])
  next
    show "ret = (if k \<in> help_keys then 1 else if k \<in> select_keys then 0 else -1)"
      using cl_key_result [OF s(2)] by (elim conjE)
  next
    show "k \<in> help_keys \<union> select_keys \<union> leave_keys" using cl_key_result [OF s(2)] by (elim conjE)
  qed (rule k tr p)+
qed

lemma checklist_result_witness:
  "dialog_checklist demo_list None ''Pick'' [KEY_DOWN, NL] = Some (Inr (0, [CHR 0x22] @ ''b'' @ [CHR 0x22, CHR '' ''] @ [CHR 0x22] @ ''c'' @ [CHR 0x22, CHR '' '']))"
proof -
  have "\<exists>ps. print_autowrap (cl_adv demo_list) ''Pick'' (cl_width demo_list - 2) 1 3 = Some ps"
    by (simp add: demo_list_def print_autowrap_def MAX_LEN_def)
  then obtain ps where ps: "print_autowrap (cl_adv demo_list) ''Pick'' (cl_width demo_list - 2) 1 3 = Some ps"
    by blast
  obtain s where s: "cl_key demo_list KEY_DOWN (cl_init demo_list None ps) = Inl s"
    by (auto simp: cl_key_def Let_def key_defs)
  have "cl_scroll s \<le> 1" "0 \<le> cl_scroll s"
    using cl_key_Inl [OF s] cl_init_inv [of demo_list None ps]
    by (auto simp: demo_list_simps cl_inv_def cl_in_view_def cl_max_choice_def)
  then have "cl_scroll s = 0 \<or> cl_scroll s = 1" by linarith
  moreover have "cl_text demo_list 0 = ''Alpha''" "cl_text demo_list 1 = ''Beta''" "cl_text demo_list 2 = ''Gamma''"
    by (simp_all add: cl_text_def demo_list_def)
  moreover have m: "cl_max_choice demo_list = 2" by (simp add: cl_max_choice_def demo_list_simps)
  ultimately have "letter_row demo_list NL s = 2"
    by (auto simp: letter_row_def upto.simps schar_at_def code_def int_toupper_def key_defs)
  then have "cl_key demo_list NL s = Inr (0, write_tags demo_list (select_status demo_list s))"
    by (simp add: cl_key_def Let_def key_defs chr_def code_def m)
  with ps s obtain out where r: "dialog_checklist demo_list None ''Pick'' [KEY_DOWN, NL] = Some (Inr (0, out))"
    by (simp add: dialog_checklist_def)
  from checklist_result [OF _ _ r] obtain ks k rest p where
    p: "[KEY_DOWN, NL] = ks @ k # rest" "trace (cl_spec demo_list) 1 ks p" "k \<in> help_keys \<union> select_keys \<union> leave_keys"
      "out = (if k \<notin> select_keys then []
        else concat (map (\<lambda>i. [CHR 0x22] @ fst (cl_items demo_list ! i) @ [CHR 0x22, CHR '' ''])
          (filter (\<lambda>i. init_status demo_list ! i \<noteq> (i = nat p)) [0..<length (cl_items demo_list)])))"
    by (auto simp: demo_list_simps)
  have "KEY_DOWN \<notin> help_keys \<union> select_keys \<union> leave_keys" "NL \<in> select_keys"
    by (auto simp: help_keys_def select_keys_def leave_keys_def key_defs chr_def code_def)
  with p(1,3) have ks: "ks = [KEY_DOWN]" "k = NL" by (auto simp: Cons_eq_append_conv)
  then have "p = 2" using p(2) by (auto simp: demo_list_simps cl_spec_def key_defs chr_def code_def)
  with p(4) \<open>NL \<in> select_keys\<close> have
    "out = [CHR 0x22] @ ''b'' @ [CHR 0x22, CHR '' ''] @ [CHR 0x22] @ ''c'' @ [CHR 0x22, CHR '' '']"
    by (simp add: ks demo_list_simps) (simp add: demo_list_def upt_rec)
  with r show ?thesis by simp
qed

end
