(* ===== verification/DialogInput.thy ===== *)
theory DialogInput
  imports DialogRows
begin

text \<open>
  The input box of the dialog program (\<^verbatim>\<open>misc/confdialog/inputbox.c\<close>): a line editor for the buffer
  \<open>dialog\_input\_result\<close> with a field that scrolls sideways, and the focus on the field or on
  one of two button positions.
\<close>

section \<open>The box\<close>

text \<open>\<open>ib\_getyx\<close> is the cursor position curses reports after a sequence of calls.\<close>

record inputbox =
  ib_height :: int
  ib_width :: int
  ib_getyx :: "wcall list \<Rightarrow> int \<times> int"
  ib_adv :: "int \<times> int \<Rightarrow> string \<Rightarrow> int \<times> int"

definition box_width :: "inputbox \<Rightarrow> int" where
  "box_width m = ib_width m - 6"

definition ib_box_x :: "inputbox \<Rightarrow> int" where
  "ib_box_x m = half (ib_width m - box_width m)"

record ib_state =
  instr :: string
  input_x :: int
  ib_scroll :: int
  ib_button :: int
  box_row :: int
  ib_out :: "wcall list"

definition ib_emit :: "wcall list \<Rightarrow> ib_state \<Rightarrow> ib_state" where
  "ib_emit cs s = s\<lparr>ib_out := ib_out s @ cs\<rparr>"

definition ib_print_buttons :: "inputbox \<Rightarrow> int \<Rightarrow> wcall list" where
  "ib_print_buttons m selected =
     (let x = ib_width m div 2 - 5; y = ib_height m - 2
      in print_button ''  Ok  '' y x (selected = 0) @ [Wmove y (x + 1 + 14 * selected), Refresh])"

text \<open>A character of the buffer; behind the text it holds NULs.\<close>

definition instr_at :: "ib_state \<Rightarrow> int \<Rightarrow> char" where
  "instr_at s i = (if nat i < length (instr s) then instr s ! nat i else nul)"

definition shown_char :: "ib_state \<Rightarrow> int \<Rightarrow> char" where
  "shown_char s i = (let c = instr_at s (ib_scroll s + input_x s + i) in if c \<noteq> nul then c else CHR '' '')"

section \<open>Editing\<close>

definition ib_backspace :: "inputbox \<Rightarrow> ib_state \<Rightarrow> ib_state" where
  "ib_backspace m s0 =
     (if input_x s0 \<noteq> 0 \<or> ib_scroll s0 \<noteq> 0
      then (let s1 = ib_emit [Wattrset (Some Inputbox_attr)] s0;
                s2 = (if input_x s1 = 0
                      then (let sc = (if ib_scroll s1 < box_width m - 1 then 0 else ib_scroll s1 - (box_width m - 1));
                                s = s1\<lparr>ib_scroll := sc\<rparr>;
                                s = ib_emit (Wmove (box_row s) (ib_box_x m) #
                                  map (\<lambda>i. Waddch None (Ch (shown_char s i))) [0..box_width m - 1]) s
                            in s\<lparr>input_x := int (length (instr s)) - sc\<rparr>)
                      else s1\<lparr>input_x := input_x s1 - 1\<rparr>);
                s3 = s2\<lparr>instr := take (nat (ib_scroll s2 + input_x s2)) (instr s2)\<rparr>
            in ib_emit [Wmove (box_row s3) (input_x s3 + ib_box_x m), Waddch None (Ch CHR '' ''),
                        Wmove (box_row s3) (input_x s3 + ib_box_x m), Refresh] s3)
      else s0)"

definition ib_insert :: "inputbox \<Rightarrow> int \<Rightarrow> ib_state \<Rightarrow> ib_state" where
  "ib_insert m key s0 =
     (if ib_scroll s0 + input_x s0 < int MAX_LEN
      then (let c = char_of (nat key);
                s1 = ib_emit [Wattrset (Some Inputbox_attr)] s0;
                s2 = s1\<lparr>instr := take (nat (ib_scroll s1 + input_x s1)) (instr s1) @ [c]\<rparr>;
                s3 = (if input_x s2 = box_width m - 1
                      then (let s = s2\<lparr>ib_scroll := ib_scroll s2 + 1\<rparr>
                            in ib_emit (Wmove (box_row s) (ib_box_x m) #
                                 map (\<lambda>i. Waddch None (Ch (instr_at s (ib_scroll s + i)))) [0..box_width m - 2]) s)
                      else ib_emit [Wmove (box_row s2) (input_x s2 + ib_box_x m), Waddch None (Ch c)]
                             (s2\<lparr>input_x := input_x s2 + 1\<rparr>))
            in ib_emit [Refresh] s3)
      else s0)"

section \<open>The key loop\<close>

text \<open>The cursor of the field is set again when the focus returns to it.\<close>

definition focus_field :: "inputbox \<Rightarrow> ib_state \<Rightarrow> ib_state" where
  "focus_field m s =
     ib_emit (ib_print_buttons m 0 @ [Wmove (box_row s) (ib_box_x m + input_x s), Refresh])
       (s\<lparr>ib_button := -1\<rparr>)"

definition focus_button :: "inputbox \<Rightarrow> int \<Rightarrow> int \<Rightarrow> ib_state \<Rightarrow> ib_state" where
  "focus_button m b drawn s = ib_emit (ib_print_buttons m drawn) (s\<lparr>ib_button := b\<rparr>)"

definition ib_prev :: "inputbox \<Rightarrow> ib_state \<Rightarrow> ib_state" where
  "ib_prev m s =
     (if ib_button s = -1 then focus_button m 1 1 s
      else if ib_button s = 0 then focus_field m s
      else if ib_button s = 1 then focus_button m 0 0 s
      else s)"

definition ib_next :: "inputbox \<Rightarrow> ib_state \<Rightarrow> ib_state" where
  "ib_next m s =
     (if ib_button s = -1 then focus_button m 1 0 s
      else if ib_button s = 0 then focus_button m 1 1 s
      else if ib_button s = 1 then focus_field m s
      else s)"

definition is_print :: "int \<Rightarrow> bool" where
  "is_print key \<longleftrightarrow> 32 \<le> key \<and> key \<le> 126"

type_synonym ib_result = "int \<times> string"

definition ib_switch :: "inputbox \<Rightarrow> int \<Rightarrow> ib_state \<Rightarrow> ib_state + ib_result" where
  "ib_switch m key s =
     (if key \<in> {chr CHR ''O'', chr CHR ''o''} then Inr (0, instr s)
      else if key \<in> {KEY_UP, KEY_LEFT} then Inl (ib_prev m s)
      else if key \<in> {TAB, KEY_DOWN, KEY_RIGHT} then Inl (ib_next m s)
      else if key \<in> {chr CHR '' '', NL} then Inr (if ib_button s = -1 then 0 else ib_button s, instr s)
      else if key \<in> {chr CHR ''X'', chr CHR ''x'', ESC} then Inr (-1, instr s)
      else Inl s)"

definition ib_key :: "inputbox \<Rightarrow> int \<Rightarrow> ib_state \<Rightarrow> ib_state + ib_result" where
  "ib_key m key s =
     (if ib_button s = -1
      then (if key \<in> {TAB, KEY_UP, KEY_DOWN} then ib_switch m key s
            else if key \<in> {KEY_LEFT, KEY_RIGHT} then Inl s
            else if key \<in> {KEY_BACKSPACE, 127} then Inl (ib_backspace m s)
            else if key < 0x100 \<and> is_print key then Inl (ib_insert m key s)
            else ib_switch m key s)
      else ib_switch m key s)"

section \<open>The start\<close>

definition ib_frame :: "inputbox \<Rightarrow> string option \<Rightarrow> placed list \<Rightarrow> wcall list" where
  "ib_frame m title prompt =
     draw_box 0 0 (ib_height m) (ib_width m) Dialog_attr Border_attr @
     separator (ib_height m) (ib_width m) @
     title_bar (ib_width m) title @
     [Wattrset (Some Dialog_attr)] @ place_words prompt"

definition ib_init :: "inputbox \<Rightarrow> string option \<Rightarrow> placed list \<Rightarrow> string \<Rightarrow> ib_state" where
  "ib_init m title prompt init =
     (let frame = ib_frame m title prompt;
          y = fst (ib_getyx m frame);
          out = frame @
            draw_box (y + 1) (ib_box_x m - 1) 3 (box_width m + 2) Border_attr Dialog_attr @
            ib_print_buttons m 0 @
            [Wmove (y + 2) (ib_box_x m), Wattrset (Some Inputbox_attr)];
          n = int (length init)
      in if n \<ge> box_width m
         then (let sc = n - box_width m + 1; x = box_width m - 1
               in \<lparr>instr = init, input_x = x, ib_scroll = sc, ib_button = -1, box_row = y + 2,
                   ib_out = out @ map (\<lambda>i. Waddch None (Ch (init ! nat (sc + i)))) [0..box_width m - 2] @
                     [Wmove (y + 2) (ib_box_x m + x), Refresh]\<rparr>)
         else \<lparr>instr = init, input_x = n, ib_scroll = 0, ib_button = -1, box_row = y + 2,
               ib_out = out @ waddstr init @ [Wmove (y + 2) (ib_box_x m + n), Refresh]\<rparr>)"

text \<open>\<open>None\<close> is an overrun of the prompt buffer or of the input buffer.\<close>

definition dialog_inputbox ::
  "inputbox \<Rightarrow> string option \<Rightarrow> string \<Rightarrow> string option \<Rightarrow> int list \<Rightarrow> (ib_state + ib_result) option" where
  "dialog_inputbox m title prompt init keys =
     (let init = (case init of None \<Rightarrow> [] | Some t \<Rightarrow> t)
      in if length init > MAX_LEN then None
         else map_option (\<lambda>ps. run_loop (ib_key m) (ib_init m title ps init) keys)
                (print_autowrap (ib_adv m) prompt (ib_width m - 2) 1 3))"

section \<open>The specification\<close>

text \<open>
  Abstractly the box holds a text, the first visible column and the focus. Printable characters
  are appended while there is room, backspace removes the last character, and the view follows
  the end of the text. A backspace with the cursor in the first column and text scrolled out on
  the left only scrolls back.
\<close>

definition ib_text :: "inputbox \<Rightarrow> int \<Rightarrow> string \<times> int \<Rightarrow> string \<times> int" where
  "ib_text m key a = (case a of (t, l) \<Rightarrow>
     if key \<in> {KEY_BACKSPACE, 127}
     then (if int (length t) > l then (butlast t, l)
           else (t, max 0 (l - (box_width m - 1))))
     else if is_print key \<and> length t < MAX_LEN
     then (t @ [char_of (nat key)], max l (int (length t) + 1 - (box_width m - 1)))
     else (t, l))"

definition ib_focus :: "int \<Rightarrow> int \<Rightarrow> int" where
  "ib_focus key b =
     (if key \<in> {KEY_UP, KEY_LEFT} then (if b = -1 then 1 else b - 1)
      else if key \<in> {TAB, KEY_DOWN, KEY_RIGHT} then (if b = 1 then -1 else 1)
      else b)"

definition ib_step :: "inputbox \<Rightarrow> int \<Rightarrow> (string \<times> int) \<times> int \<Rightarrow> (string \<times> int) \<times> int" where
  "ib_step m key a = (case a of (t, b) \<Rightarrow>
     if b = -1 \<and> (is_print key \<or> key \<in> {KEY_BACKSPACE, 127, KEY_LEFT, KEY_RIGHT})
     then (ib_text m key t, b) else (t, ib_focus key b))"

definition ib_abs :: "ib_state \<Rightarrow> (string \<times> int) \<times> int" where
  "ib_abs s = ((instr s, ib_scroll s), ib_button s)"

section \<open>The field on the screen\<close>

definition ib_win :: "ib_state \<Rightarrow> screen" where
  "ib_win s = scr_run (ib_out s) empty_screen"

definition field_shows :: "inputbox \<Rightarrow> ib_state \<Rightarrow> bool" where
  "field_shows m s \<longleftrightarrow> (\<forall>i. 0 \<le> i \<and> i < box_width m \<longrightarrow>
     glyph_at (ib_win s) (box_row s) (ib_box_x m + i) =
       Some (Ch (if i < input_x s then instr s ! nat (ib_scroll s + i) else CHR '' '')))"

definition ib_inv :: "inputbox \<Rightarrow> ib_state \<Rightarrow> bool" where
  "ib_inv m s \<longleftrightarrow> 0 \<le> input_x s \<and> input_x s < box_width m \<and> 0 \<le> ib_scroll s \<and>
     ib_scroll s + input_x s = int (length (instr s)) \<and> length (instr s) \<le> MAX_LEN \<and>
     nul \<notin> set (instr s) \<and>
     ib_button s \<in> {-1, 0, 1} \<and> box_row s \<noteq> ib_height m - 2 \<and> field_shows m s"

lemma ib_emit_simps [simp]:
  "instr (ib_emit cs s) = instr s" "input_x (ib_emit cs s) = input_x s"
  "ib_scroll (ib_emit cs s) = ib_scroll s" "ib_button (ib_emit cs s) = ib_button s"
  "box_row (ib_emit cs s) = box_row s" "ib_win (ib_emit cs s) = scr_run cs (ib_win s)"
  by (simp_all add: ib_emit_def ib_win_def)

lemma ib_win_upd [simp]:
  "ib_win (s\<lparr>instr := t\<rparr>) = ib_win s" "ib_win (s\<lparr>input_x := x\<rparr>) = ib_win s"
  "ib_win (s\<lparr>ib_scroll := x\<rparr>) = ib_win s" "ib_win (s\<lparr>ib_button := x\<rparr>) = ib_win s"
  by (simp_all add: ib_win_def)


lemma buttons_elsewhere:
  "r \<noteq> ib_height m - 2 \<Longrightarrow> glyph_at (scr_run (ib_print_buttons m b) w) r c = glyph_at w r c"
  by (simp add: ib_print_buttons_def Let_def glyph_at_button)

lemma focus_button_inv:
  "ib_inv m s \<Longrightarrow> b \<in> {-1, 0, 1} \<Longrightarrow> ib_inv m (focus_button m b d s)"
  by (simp add: ib_inv_def field_shows_def focus_button_def buttons_elsewhere)

lemma focus_field_inv: "ib_inv m s \<Longrightarrow> ib_inv m (focus_field m s)"
  by (simp add: ib_inv_def field_shows_def focus_field_def buttons_elsewhere)

lemma focus_abs [simp]:
  "ib_abs (focus_button m b d s) = (fst (ib_abs s), b)"
  "ib_abs (focus_field m s) = (fst (ib_abs s), -1)"
  by (simp_all add: ib_abs_def focus_button_def focus_field_def)

lemma ib_prev_inv:
  "ib_inv m s \<Longrightarrow> ib_inv m (ib_prev m s) \<and> ib_abs (ib_prev m s) = (fst (ib_abs s), ib_focus KEY_UP (ib_button s))"
proof -
  assume s: "ib_inv m s"
  then consider "ib_button s = -1" | "ib_button s = 0" | "ib_button s = 1" by (auto simp: ib_inv_def)
  then show ?thesis
    by cases (use s in \<open>simp_all add: ib_prev_def focus_button_inv focus_field_inv ib_focus_def\<close>)
qed

lemma ib_next_inv:
  "ib_inv m s \<Longrightarrow> ib_inv m (ib_next m s) \<and> ib_abs (ib_next m s) = (fst (ib_abs s), ib_focus TAB (ib_button s))"
proof -
  assume s: "ib_inv m s"
  then consider "ib_button s = -1" | "ib_button s = 0" | "ib_button s = 1" by (auto simp: ib_inv_def)
  then show ?thesis
    by cases (use s in \<open>simp_all add: ib_next_def focus_button_inv focus_field_inv ib_focus_def key_defs\<close>)
qed

lemma ib_switch_Inl:
  assumes "ib_switch m key s = Inl s'" "ib_inv m s"
  shows "ib_inv m s' \<and> ib_abs s' = (fst (ib_abs s), ib_focus key (ib_button s))"
proof -
  have u: "ib_focus key b = ib_focus KEY_UP b" if "key \<in> {KEY_UP, KEY_LEFT}" for b
    using that by (simp add: ib_focus_def)
  have n: "ib_focus key b = ib_focus TAB b" if "key \<in> {TAB, KEY_DOWN, KEY_RIGHT}" for b
    using that by (auto simp: ib_focus_def key_defs)
  have o: "ib_focus key b = b" if "key \<notin> {KEY_UP, KEY_LEFT, TAB, KEY_DOWN, KEY_RIGHT}" for b
    using that by (auto simp: ib_focus_def)
  show ?thesis
    using assms u n o ib_prev_inv [OF assms(2)] ib_next_inv [OF assms(2)]
    by (auto simp: ib_switch_def ib_abs_def split: if_splits)
qed

lemma glyph_at_text:
  "glyph_at (scr_run (map (\<lambda>i. Waddch None (Ch (f i))) [0..n - 1]) (scr_exec (Wmove y x) w)) r c =
     (if r = y \<and> x \<le> c \<and> c < x + n then Some (Ch (f (c - x))) else glyph_at w r c)"
  using glyph_at_str [of "scr_exec (Wmove y x) w" y x "map f [0..n - 1]" r c]
  by (auto simp: waddstr_map)

lemma shown_char_simps [simp]:
  "shown_char (ib_emit cs s) i = shown_char s i"
  "shown_char (s\<lparr>ib_button := b\<rparr>) i = shown_char s i"
  by (simp_all add: shown_char_def instr_at_def)

lemma shown_char_text:
  assumes "nul \<notin> set (instr s)" "0 \<le> ib_scroll s" "input_x s = 0" "0 \<le> i"
  shows "shown_char s i = (if ib_scroll s + i < int (length (instr s)) then instr s ! nat (ib_scroll s + i) else CHR '' '')"
proof -
  have "instr s ! nat (ib_scroll s + i) \<noteq> nul" if "ib_scroll s + i < int (length (instr s))"
  proof -
    have "instr s ! nat (ib_scroll s + i) \<in> set (instr s)" using that assms(2,4) by (intro nth_mem) simp
    with assms(1) show ?thesis by metis
  qed
  with assms show ?thesis by (auto simp: shown_char_def instr_at_def Let_def)
qed

lemma ib_backspace_inv:
  assumes inv: "ib_inv m s"
  shows "ib_inv m (ib_backspace m s) \<and>
    ib_abs (ib_backspace m s) = (ib_text m KEY_BACKSPACE (instr s, ib_scroll s), ib_button s)"
proof -
  have b: "0 \<le> input_x s" "input_x s < box_width m" "0 \<le> ib_scroll s"
      "ib_scroll s + input_x s = int (length (instr s))" "length (instr s) \<le> MAX_LEN"
    using inv by (auto simp: ib_inv_def)
  consider (nothing) "input_x s = 0" "ib_scroll s = 0" | (rescroll) "input_x s = 0" "ib_scroll s \<noteq> 0"
    | (delete) "input_x s \<noteq> 0" by blast
  then show ?thesis
  proof cases
    case nothing
    with inv b show ?thesis by (simp add: ib_backspace_def ib_abs_def ib_text_def)
  next
    case rescroll
    define sc where "sc = (if ib_scroll s < box_width m - 1 then 0 else ib_scroll s - (box_width m - 1))"
    have sc: "sc = max 0 (ib_scroll s - (box_width m - 1))" by (simp add: sc_def)
    define s1 where "s1 = (ib_emit [Wattrset (Some Inputbox_attr)] s)\<lparr>ib_scroll := sc\<rparr>"
    have "shown_char s1 i = (if sc + i < int (length (instr s)) then instr s ! nat (sc + i) else CHR '' '')"
      if "0 \<le> i" for i
      using shown_char_text [of s1 i] that inv rescroll sc by (auto simp: s1_def ib_inv_def)
    moreover have "ib_backspace m s =
        ib_emit [Wmove (box_row s) (int (length (instr s)) - sc + ib_box_x m), Waddch None (Ch CHR '' ''),
                 Wmove (box_row s) (int (length (instr s)) - sc + ib_box_x m), Refresh]
          ((ib_emit (Wmove (box_row s) (ib_box_x m) # map (\<lambda>i. Waddch None (Ch (shown_char s1 i))) [0..box_width m - 1])
            s1)\<lparr>input_x := int (length (instr s)) - sc\<rparr>\<lparr>instr := take (nat (int (length (instr s)))) (instr s)\<rparr>)"
      using rescroll by (simp add: ib_backspace_def Let_def s1_def sc_def)
    ultimately show ?thesis
      using inv b rescroll sc
      by (auto simp: ib_inv_def ib_abs_def ib_text_def field_shows_def glyph_at_text glyph_at_addch s1_def)
  next
    case delete
    then have "nat (ib_scroll s + (input_x s - 1)) = length (instr s) - 1" using b by simp
    then have l: "take (nat (ib_scroll s + (input_x s - 1))) (instr s) = butlast (instr s)"
      by (simp add: butlast_conv_take)
    have s: "ib_scroll s < int (length (instr s))" using b delete by simp
    have n: "nul \<notin> set (butlast (instr s))" using inv by (auto simp: ib_inv_def dest: in_set_butlastD)
    have "butlast (instr s) ! nat (ib_scroll s + i) = instr s ! nat (ib_scroll s + i)"
      if "0 \<le> i" "i < input_x s - 1" for i
      using that b by (intro nth_butlast) simp
    with delete s n show ?thesis
      using inv b l
      by (auto simp: ib_backspace_def Let_def ib_inv_def ib_abs_def ib_text_def field_shows_def glyph_at_addch)
  qed
qed

lemma char_of_nonnul: "0 < n \<Longrightarrow> n < 256 \<Longrightarrow> char_of (n :: nat) \<noteq> nul"
proof
  assume n: "0 < n" "n < 256" "char_of n = nul"
  have "of_char (char_of n) = n mod 256" by simp
  with n show False by (simp add: nul_def)
qed

lemma ib_insert_inv:
  assumes inv: "ib_inv m s" and key: "is_print key"
  shows "ib_inv m (ib_insert m key s) \<and>
    ib_abs (ib_insert m key s) = (ib_text m key (instr s, ib_scroll s), ib_button s)"
proof -
  have b: "0 \<le> input_x s" "input_x s < box_width m" "0 \<le> ib_scroll s"
      "ib_scroll s + input_x s = int (length (instr s))" "length (instr s) \<le> MAX_LEN"
    using inv by (auto simp: ib_inv_def)
  have k: "key \<notin> {KEY_BACKSPACE, 127}" using key by (auto simp: is_print_def key_defs)
  define c where "c = (char_of (nat key) :: char)"
  have c: "c \<noteq> nul" unfolding c_def using key by (intro char_of_nonnul) (auto simp: is_print_def)
  have nat: "nat (ib_scroll s + input_x s) = length (instr s)" using b(4) by simp
  show ?thesis
  proof (cases "length (instr s) < MAX_LEN")
    case False
    with inv b key k show ?thesis by (simp add: ib_insert_def ib_abs_def ib_text_def)
  next
    case True
    show ?thesis
    proof (cases "input_x s = box_width m - 1")
      case scrolls: True
      define s1 where "s1 = (ib_emit [Wattrset (Some Inputbox_attr)] s)\<lparr>instr := instr s @ [c], ib_scroll := ib_scroll s + 1\<rparr>"
      have i: "ib_insert m key s = ib_emit [Refresh] (ib_emit (Wmove (box_row s1) (ib_box_x m) #
          map (\<lambda>i. Waddch None (Ch (instr_at s1 (ib_scroll s1 + i)))) [0..box_width m - 1 - 1]) s1)"
        using True scrolls b(4) nat by (simp add: ib_insert_def Let_def s1_def c_def)
      have at: "instr_at s1 (ib_scroll s + 1 + j) = (instr s @ [c]) ! nat (ib_scroll s + 1 + j)"
        if "0 \<le> j" "j < box_width m - 1" for j
        using that b scrolls by (simp add: instr_at_def s1_def nat_less_iff)
      have l: "ib_text m key (instr s, ib_scroll s) = (instr s @ [c], ib_scroll s + 1)"
        using True key k b scrolls by (simp add: ib_text_def c_def)
      show ?thesis unfolding i
        using inv b c l scrolls at True
        by (auto simp: ib_inv_def ib_abs_def field_shows_def s1_def
            glyph_at_text [where n = "box_width m - 1", simplified])
    next
      case False
      define s1 where "s1 = (ib_emit [Wattrset (Some Inputbox_attr)] s)\<lparr>instr := instr s @ [c], input_x := input_x s + 1\<rparr>"
      have i: "ib_insert m key s = ib_emit [Refresh]
          (ib_emit [Wmove (box_row s) (input_x s + ib_box_x m), Waddch None (Ch c)] s1)"
        using True False b(4) nat by (simp add: ib_insert_def Let_def s1_def c_def)
      have l: "ib_text m key (instr s, ib_scroll s) = (instr s @ [c], ib_scroll s)"
        using True key k b False by (simp add: ib_text_def c_def)
      have n: "(instr s @ [c]) ! nat (ib_scroll s + j) = (if j = input_x s then c else instr s ! nat (ib_scroll s + j))"
        if "0 \<le> j" "j < 1 + input_x s" for j
        using that b by (auto simp: nth_append nat_less_iff)
      show ?thesis unfolding i
        using inv b c l False True n
        by (auto simp: ib_inv_def ib_abs_def field_shows_def glyph_at_addch s1_def)
    qed
  qed
qed

lemma ib_key_Inl:
  assumes "ib_key m key s = Inl s'" "ib_inv m s"
  shows "ib_inv m s' \<and> ib_abs s' = ib_step m key (ib_abs s)"
proof (cases "ib_button s = -1 \<and> (is_print key \<or> key \<in> {KEY_BACKSPACE, 127, KEY_LEFT, KEY_RIGHT})")
  case True
  have bs: "ib_text m 127 = ib_text m KEY_BACKSPACE" by (simp add: ib_text_def fun_eq_iff)
  have lr: "ib_text m k = (\<lambda>a. a)" if "k \<in> {KEY_LEFT, KEY_RIGHT}" for k
    using that by (auto simp: ib_text_def fun_eq_iff key_defs is_print_def)
  have p: "is_print key \<Longrightarrow> key < 256 \<and> key \<notin> {KEY_BACKSPACE, 127, KEY_LEFT, KEY_RIGHT, TAB, KEY_UP, KEY_DOWN}"
    by (auto simp: is_print_def key_defs)
  have k: "KEY_BACKSPACE \<notin> {TAB, KEY_UP, KEY_DOWN, KEY_LEFT, KEY_RIGHT}" "127 \<notin> {TAB, KEY_UP, KEY_DOWN, KEY_LEFT, KEY_RIGHT}"
      "KEY_LEFT \<notin> {TAB, KEY_UP, KEY_DOWN}" "KEY_RIGHT \<notin> {TAB, KEY_UP, KEY_DOWN}"
    by (simp_all add: key_defs)
  consider "is_print key" | "key \<in> {KEY_BACKSPACE, 127}" | "key \<in> {KEY_LEFT, KEY_RIGHT}" using True by auto
  then show ?thesis
  proof cases
    case 1
    with assms(1) True p have "s' = ib_insert m key s" by (simp add: ib_key_def)
    with ib_insert_inv [OF assms(2) 1] True show ?thesis by (simp add: ib_abs_def ib_step_def)
  next
    case 2
    with assms(1) True k have "s' = ib_backspace m s" by (auto simp: ib_key_def)
    with ib_backspace_inv [OF assms(2)] 2 True bs show ?thesis by (auto simp: ib_abs_def ib_step_def)
  next
    case 3
    with assms(1) True k have "s' = s" by (auto simp: ib_key_def)
    with assms(2) 3 True lr show ?thesis by (auto simp: ib_abs_def ib_step_def)
  qed
next
  case False
  then have "ib_switch m key s = Inl s'" using assms(1) by (auto simp: ib_key_def split: if_splits)
  with False ib_switch_Inl [OF _ assms(2)] show ?thesis by (auto simp: ib_step_def ib_abs_def)
qed

lemma ib_key_Inr:
  "ib_key m key s = Inr r \<Longrightarrow> ib_inv m s \<Longrightarrow> snd r = instr s \<and> fst r \<in> {-1, 0, 1}"
  by (auto simp: ib_key_def ib_switch_def ib_inv_def split: if_splits)

interpretation input: loop_refinement "ib_key m" "ib_inv m" "\<lambda>r. fst r \<in> {-1, 0, 1}" ib_abs
    "\<lambda>k a b. b = ib_step m k a" for m
  by unfold_locales (auto dest: ib_key_Inl ib_key_Inr)

lemma ib_init_inv:
  assumes "0 < box_width m" "nul \<notin> set init" "length init \<le> MAX_LEN"
    and row: "fst (ib_getyx m (ib_frame m title ps)) + 4 \<noteq> ib_height m"
  shows "ib_inv m (ib_init m title ps init) \<and>
    ib_abs (ib_init m title ps init) = ((init, max 0 (int (length init) - (box_width m - 1))), -1)"
proof -
  define y where "y = fst (ib_getyx m (ib_frame m title ps))"
  define w where "w = scr_run (ib_frame m title ps @
      draw_box (y + 1) (ib_box_x m - 1) 3 (box_width m + 2) Border_attr Dialog_attr @
      ib_print_buttons m 0) empty_screen"
  define n where "n = int (length init)"
  have blank: "glyph_at w (y + 2) (ib_box_x m + i) = Some (Ch CHR '' '')" if "0 \<le> i" "i < box_width m" for i
    using that row by (simp add: w_def buttons_elsewhere y_def glyph_at_box box_cell_def)
  show ?thesis
  proof (cases "n \<ge> box_width m")
    case True
    define s where "s = ib_init m title ps init"
    have s: "instr s = init" "input_x s = box_width m - 1" "ib_scroll s = n - box_width m + 1"
        "ib_button s = -1" "box_row s = y + 2"
        "ib_win s = scr_exec Refresh (scr_exec (Wmove (y + 2) (ib_box_x m + (box_width m - 1)))
          (scr_run (map (\<lambda>i. Waddch None (Ch (init ! nat (n - box_width m + 1 + i)))) [0..box_width m - 2])
            (scr_exec (Wattrset (Some Inputbox_attr)) (scr_exec (Wmove (y + 2) (ib_box_x m)) w))))"
      using True by (simp_all add: s_def ib_init_def Let_def n_def y_def w_def ib_win_def)
    have g: "glyph_at (ib_win s) (y + 2) (ib_box_x m + i) =
        (if 0 \<le> i \<and> i < box_width m - 1 then Some (Ch (init ! nat (n - box_width m + 1 + i)))
         else glyph_at w (y + 2) (ib_box_x m + i))" for i
      using glyph_at_str [of "scr_exec (Wattrset (Some Inputbox_attr)) (scr_exec (Wmove (y + 2) (ib_box_x m)) w)"
          "y + 2" "ib_box_x m" "map (\<lambda>i. init ! nat (n - box_width m + 1 + i)) [0..box_width m - 2]"]
      by (auto simp: s waddstr_map)
    show ?thesis
      unfolding s_def [symmetric] using assms(1-3) True row [folded y_def] blank
      by (auto simp: ib_inv_def ib_abs_def field_shows_def s(1-5) g n_def [symmetric])
  next
    case False
    define s where "s = ib_init m title ps init"
    have s: "instr s = init" "input_x s = n" "ib_scroll s = 0" "ib_button s = -1" "box_row s = y + 2"
        "ib_win s = scr_exec Refresh (scr_exec (Wmove (y + 2) (ib_box_x m + n))
          (scr_run (waddstr init)
            (scr_exec (Wattrset (Some Inputbox_attr)) (scr_exec (Wmove (y + 2) (ib_box_x m)) w))))"
      using False by (simp_all add: s_def ib_init_def Let_def n_def y_def w_def ib_win_def)
    have g: "glyph_at (ib_win s) (y + 2) (ib_box_x m + i) =
        (if 0 \<le> i \<and> i < n then Some (Ch (init ! nat i)) else glyph_at w (y + 2) (ib_box_x m + i))" for i
      using glyph_at_str [of "scr_exec (Wattrset (Some Inputbox_attr)) (scr_exec (Wmove (y + 2) (ib_box_x m)) w)"
          "y + 2" "ib_box_x m" init]
      by (auto simp: s n_def)
    have "0 \<le> n" by (simp add: n_def)
    then show ?thesis
      unfolding s_def [symmetric] using assms(1-3) False row [folded y_def] blank
      by (auto simp: ib_inv_def ib_abs_def field_shows_def s(1-5) g n_def [symmetric])
  qed
qed

section \<open>Properties\<close>

text \<open>
  C10. The input box edits its text as specified, whatever keys are typed: the buffer never
  overflows, the position where the next character goes is the end of the text and lies in the
  field, and the field on the screen shows the text from the first visible column on, with blanks
  behind it. The box must be at least one column wide, its field, which is placed below the prompt by the cursor that curses
  reports after the frame with the prompt was drawn, not in the row of the buttons,
  and the text it starts with no longer than the buffer and without NUL.
\<close>

theorem input_edits:
  assumes "0 < box_width m" "nul \<notin> set init" "length init \<le> MAX_LEN"
    and row: "\<And>ps. print_autowrap (ib_adv m) prompt (ib_width m - 2) 1 3 = Some ps \<Longrightarrow>
      fst (ib_getyx m (ib_frame m title ps)) + 4 \<noteq> ib_height m"
    and "dialog_inputbox m title prompt (Some init) keys = Some (Inl s)"
  shows "((instr s, ib_scroll s), ib_button s) =
      foldl (\<lambda>a k. ib_step m k a) ((init, max 0 (int (length init) - (box_width m - 1))), -1) keys \<and>
    length (instr s) \<le> MAX_LEN \<and>
    ib_scroll s + input_x s = int (length (instr s)) \<and> 0 \<le> input_x s \<and> input_x s < box_width m \<and>
    (\<forall>i. 0 \<le> i \<and> i < box_width m \<longrightarrow>
       glyph_at (scr_run (ib_out s) empty_screen) (box_row s) (ib_box_x m + i) =
       Some (Ch (if i < input_x s then instr s ! nat (ib_scroll s + i) else CHR '' '')))"
proof -
  from assms(5) obtain ps where ps: "print_autowrap (ib_adv m) prompt (ib_width m - 2) 1 3 = Some ps"
    and run: "run_loop (ib_key m) (ib_init m title ps init) keys = Inl s"
    by (auto simp: dialog_inputbox_def Let_def split: if_splits)
  note i = ib_init_inv [OF assms(1-3) row [OF ps]]
  have inv: "ib_inv m s" by (rule input.run_inv [OF _ run]) (simp add: i)
  have "trace (\<lambda>k a b. b = ib_step m k a) (ib_abs (ib_init m title ps init)) keys (ib_abs s)"
    by (rule input.run_trace [OF _ run]) (simp add: i)
  then have "ib_abs s = foldl (\<lambda>a k. ib_step m k a) (ib_abs (ib_init m title ps init)) keys"
    using trace_det [where spec = "\<lambda>k a b. b = ib_step m k a" and f = "ib_step m"] by simp
  with i inv show ?thesis
    by (simp add: ib_abs_def ib_inv_def field_shows_def ib_win_def)
qed

text \<open>A box for which \<open>getyx\<close> is the cursor of the grid after the calls so far.\<close>

definition demo_input :: inputbox where
  "demo_input = \<lparr>ib_height = 10, ib_width = 10, ib_getyx = \<lambda>cs. scr_cursor (scr_run cs empty_screen),
     ib_adv = \<lambda>(r, c) w. (r, c + int (length w))\<rparr>"

lemma input_edits_witness:
  "\<exists>s. dialog_inputbox demo_input None ''Name'' (Some ''abc'') [100, 263, 101] = Some (Inl s) \<and>
     instr s = ''abce'' \<and> length (instr s) \<le> MAX_LEN"
proof -
  have "\<exists>ps. print_autowrap (ib_adv demo_input) ''Name'' (ib_width demo_input - 2) 1 3 = Some ps"
    by (simp add: demo_input_def print_autowrap_def MAX_LEN_def)
  moreover have "ib_button (ib_init demo_input None ps ''abc'') = -1" for ps
    by (simp add: ib_init_def Let_def)
  moreover have "ib_button (ib_insert m k s) = ib_button s" "ib_button (ib_backspace m s) = ib_button s" for m k s
    by (simp_all add: ib_insert_def ib_backspace_def Let_def)
  ultimately obtain s where s: "dialog_inputbox demo_input None ''Name'' (Some ''abc'') [100, 263, 101] = Some (Inl s)"
    by (auto simp: dialog_inputbox_def ib_key_def key_defs is_print_def MAX_LEN_def)
  have "print_autowrap (ib_adv demo_input) ''Name'' (ib_width demo_input - 2) 1 3 = Some [(1, 3, ''Name'')]"
    by code_simp
  moreover have "fst (scr_cursor (scr_run (ib_frame demo_input None [(1, 3, ''Name'')]) empty_screen)) = 1"
    by code_simp
  ultimately have row: "fst (ib_getyx demo_input (ib_frame demo_input None ps)) + 4 \<noteq> ib_height demo_input"
    if "print_autowrap (ib_adv demo_input) ''Name'' (ib_width demo_input - 2) 1 3 = Some ps" for ps
    using that by (simp add: demo_input_def)
  have "((instr s, ib_scroll s), ib_button s) =
      foldl (\<lambda>a k. ib_step demo_input k a) ((''abc'', max 0 (3 - 3)), -1) [100, 263, 101] \<and> length (instr s) \<le> MAX_LEN"
    using input_edits [where m = demo_input and init = "''abc''" and title = None and prompt = "''Name''" and keys = "[100, 263, 101]", OF _ _ _ row s]
    by (simp add: demo_input_def box_width_def nul_def MAX_LEN_def)
  then have "instr s = ''abc'' @ [char_of (101::nat)] \<and> length (instr s) \<le> MAX_LEN"
    by (simp add: ib_step_def ib_text_def is_print_def key_defs MAX_LEN_def demo_input_def box_width_def)
  moreover have "char_of (101::nat) = CHR ''e''" using char_of_char [of "CHR ''e''", where 'a = nat] by simp
  ultimately show ?thesis using s by (simp add: MAX_LEN_def)
qed

end
