(* ===== verification/DialogText.thy ===== *)
theory DialogText
  imports DialogRows
begin

text \<open>
  The text box of the dialog program (\<^verbatim>\<open>misc/confdialog/textbox.c\<close>): a pager over a file that is read
  through a buffer of \<open>BUF\_SIZE\<close> bytes. Positions are offsets in the buffer; the theory relates
  them to positions in the file and these to the lines of the file.
\<close>

section \<open>The buffer\<close>

definition BUF_SIZE :: nat where
  "BUF_SIZE = 10 * 1024"

record textbox =
  tb_file :: string
  tb_height :: int
  tb_width :: int

record tb_state =
  fpos :: nat
  buf :: string
  page :: nat
  begin_reached :: bool
  end_reached :: bool
  page_length :: nat
  hscroll :: nat
  text_out :: "wcall list"
  pos_out :: "wcall list"

text \<open>\<open>read\<close> from the file position \<open>p\<close>; the buffer ends with a NUL behind its bytes.\<close>

definition read_at :: "string \<Rightarrow> nat \<Rightarrow> tb_state \<Rightarrow> tb_state" where
  "read_at f p s =
     (let b = take BUF_SIZE (drop p f) in s\<lparr>buf := b, fpos := p + length b\<rparr>)"

definition buf_at :: "tb_state \<Rightarrow> nat \<Rightarrow> char" where
  "buf_at s i = (if i < length (buf s) then buf s ! i else nul)"

section \<open>Reading a line\<close>

lemma BUF_SIZE_pos [simp]: "0 < BUF_SIZE"
  by (simp add: BUF_SIZE_def)

function line_loop :: "string \<Rightarrow> string \<Rightarrow> tb_state \<Rightarrow> string \<times> tb_state" where
  "line_loop f line s =
     (if buf_at s (page s) = newline then (line, s)
      else if buf_at s (page s) = nul
      then (if fpos s < length f then line_loop f line ((read_at f (fpos s) s)\<lparr>page := 0\<rparr>)
            else (line, s\<lparr>end_reached := True\<rparr>))
      else line_loop f (if length line < MAX_LEN then line @ [buf_at s (page s)] else line)
             (s\<lparr>page := page s + 1\<rparr>))"
  by pat_completeness auto
termination
proof (relation "measure (\<lambda>(f, line, s). 2 * (length f - fpos s) + (length (buf s) - page s))", goal_cases)
  case (2 f line s)
  define b where "b = min (length f - fpos s) BUF_SIZE"
  have "0 < b" "b \<le> length f - fpos s" using 2 by (simp_all add: b_def)
  then have "2 * (length f - (fpos s + b)) + b < 2 * (length f - fpos s)" by linarith
  then show ?case by (simp add: read_at_def Let_def b_def)
next
  case (3 f line s)
  then show ?case by (auto simp: buf_at_def split: if_splits)
qed simp

declare line_loop.simps [simp del]

definition get_line :: "string \<Rightarrow> tb_state \<Rightarrow> string \<times> tb_state" where
  "get_line f s0 =
     (let (line, s) = line_loop f [] (s0\<lparr>end_reached := False\<rparr>)
      in (line, if \<not> end_reached s then s\<lparr>page := page s + 1\<rparr> else s))"

section \<open>Going back\<close>

text \<open>
  The previous part of the file is read when the start of the buffer is reached; half a buffer is
  kept free in front if the file allows it.
\<close>

definition read_back :: "string \<Rightarrow> tb_state \<Rightarrow> tb_state" where
  "read_back f s =
     (let start = fpos s - length (buf s)
      in if fpos s < BUF_SIZE div 2 + length (buf s)
         then (read_at f 0 s)\<lparr>page := start\<rparr>
         else (read_at f (fpos s - (BUF_SIZE div 2 + length (buf s))) s)\<lparr>page := BUF_SIZE div 2\<rparr>)"

text \<open>One turn of the outer loop: back to the previous newline, or to the beginning of the file.\<close>

lemma read_back_start:
  "length (buf s) < fpos s \<Longrightarrow>
     fpos (read_back f s) - length (buf (read_back f s)) + page (read_back f s) = fpos s - length (buf s) \<and>
     0 < page (read_back f s)"
  by (auto simp: read_back_def read_at_def Let_def BUF_SIZE_def)

function prev_line :: "string \<Rightarrow> tb_state \<Rightarrow> bool \<times> tb_state" where
  "prev_line f s =
     (if page s = 0 \<and> \<not> length (buf s) < fpos s then (False, s\<lparr>begin_reached := True\<rparr>)
      else (let s1 = (if page s = 0 then read_back f s else s);
                s2 = s1\<lparr>page := page s1 - 1\<rparr>
            in if buf_at s2 (page s2) \<noteq> newline then prev_line f s2 else (True, s2)))"
  by pat_completeness auto
termination
proof (relation "measure (\<lambda>(f, s). fpos s - length (buf s) + page s)", goal_cases)
  case 1
  show ?case by simp
next
  case (2 f s s1 s2)
  then show ?case using read_back_start [of s f] by auto
qed

declare prev_line.simps [simp del]

fun prev_lines :: "string \<Rightarrow> nat \<Rightarrow> tb_state \<Rightarrow> bool \<times> tb_state" where
  "prev_lines f 0 s = (True, s)"
| "prev_lines f (Suc n) s =
     (case prev_line f s of (False, s') \<Rightarrow> (False, s') | (True, s') \<Rightarrow> prev_lines f n s')"

text \<open>\<open>None\<close> is the internal error that ends the program.\<close>

definition back_lines :: "string \<Rightarrow> nat \<Rightarrow> tb_state \<Rightarrow> tb_state option" where
  "back_lines f n s0 =
     (let s = s0\<lparr>begin_reached := False\<rparr>;
          go = (\<lambda>s. case prev_lines f n s of
                      (False, s') \<Rightarrow> Some s'
                    | (True, s') \<Rightarrow> Some (s'\<lparr>page := page s' + 1\<rparr>))
      in if \<not> end_reached s
         then (if page s = 0 \<and> \<not> length (buf s) < fpos s then Some (s\<lparr>begin_reached := True\<rparr>)
               else (let s1 = (if page s = 0 then read_back f s else s);
                         s2 = s1\<lparr>page := page s1 - 1\<rparr>
                     in if buf_at s2 (page s2) \<noteq> newline then None else go s2))
         else go s)"

section \<open>What is drawn\<close>

definition line_calls :: "int \<Rightarrow> int \<Rightarrow> string \<Rightarrow> wcall list" where
  "line_calls width row line =
     [Wmove row 0, Waddch None (Ch CHR '' '')] @
     waddstr (take (nat (if int (length line) < width - 2 then int (length line) else width - 2)) line) @
     [Wclrtoeol]"

definition print_line :: "textbox \<Rightarrow> int \<Rightarrow> tb_state \<Rightarrow> tb_state" where
  "print_line m row s =
     (let (line, s') = get_line (tb_file m) s;
          line' = drop (if length line < hscroll s' then length line else hscroll s') line
      in s'\<lparr>text_out := text_out s' @ line_calls (tb_width m - 2) row line'\<rparr>)"

definition count_line :: "bool \<Rightarrow> tb_state \<Rightarrow> bool \<times> tb_state" where
  "count_line passed s =
     (let s' = (if \<not> passed then s\<lparr>page_length := page_length s + 1\<rparr> else s)
      in (if end_reached s' \<and> \<not> passed then True else passed, s'))"

definition print_page :: "textbox \<Rightarrow> tb_state \<Rightarrow> tb_state" where
  "print_page m s =
     (let s' = snd (foldl (\<lambda>(passed, s) i. count_line passed (print_line m i s))
                      (False, s\<lparr>page_length := 0\<rparr>) [0..tb_height m - 4 - 1])
      in s'\<lparr>text_out := text_out s' @ [Refresh]\<rparr>)"

text \<open>The position in percent, right-aligned in three columns.\<close>

definition percent :: "textbox \<Rightarrow> tb_state \<Rightarrow> int" where
  "percent m s =
     (if length (tb_file m) = 0 then 100
      else (int (fpos s) - int (length (buf s)) + int (page s)) * 100 div int (length (tb_file m)))"

definition pad3 :: "string \<Rightarrow> string" where
  "pad3 t = replicate (3 - length t) CHR '' '' @ t"

definition print_position :: "textbox \<Rightarrow> tb_state \<Rightarrow> tb_state" where
  "print_position m s =
     s\<lparr>pos_out := pos_out s @
       [Wattrset (Some Position_indicator_attr), Wmove (tb_height m - 3) (tb_width m - 9)] @
       waddstr (''('' @ pad3 (itoa (percent m s)) @ ''%)'')\<rparr>"

definition show_page :: "textbox \<Rightarrow> tb_state \<Rightarrow> tb_state" where
  "show_page m s = print_position m (print_page m s)"

section \<open>The key loop\<close>

datatype tb_result = Returned int | Internal_error | Seek_error

definition scroll_text :: "int \<Rightarrow> tb_state \<Rightarrow> tb_state" where
  "scroll_text n s = s\<lparr>text_out := text_out s @ [Scrollok True, Wscrl n, Scrollok False]\<rparr>"

definition go_back :: "textbox \<Rightarrow> nat \<Rightarrow> (tb_state \<Rightarrow> tb_state) \<Rightarrow> tb_state \<Rightarrow> tb_state + tb_result" where
  "go_back m n k s =
     (case back_lines (tb_file m) n s of None \<Rightarrow> Inr Internal_error | Some s' \<Rightarrow> Inl (k s'))"

definition page_rows :: "textbox \<Rightarrow> nat" where
  "page_rows m = nat (tb_height m - 4)"

definition first_page :: "textbox \<Rightarrow> tb_state \<Rightarrow> tb_state" where
  "first_page m s =
     (if \<not> begin_reached s
      then (let s1 = s\<lparr>begin_reached := True\<rparr>;
                s2 = (if length (buf s1) < fpos s1 then read_at (tb_file m) 0 s1 else s1)
            in show_page m (s2\<lparr>page := 0\<rparr>))
      else s)"

definition last_page :: "textbox \<Rightarrow> tb_state \<Rightarrow> tb_state + tb_result" where
  "last_page m s =
     (let s1 = s\<lparr>end_reached := True\<rparr>
      in if fpos s1 < length (tb_file m) \<and> length (tb_file m) < BUF_SIZE then Inr Seek_error
         else (let s2 = (if fpos s1 < length (tb_file m)
                         then read_at (tb_file m) (length (tb_file m) - BUF_SIZE) s1 else s1)
               in go_back m (page_rows m) (show_page m) (s2\<lparr>page := length (buf s2)\<rparr>)))"

definition line_up :: "textbox \<Rightarrow> tb_state \<Rightarrow> tb_state" where
  "line_up m s =
     (let s1 = (scroll_text (-1) s)\<lparr>page_length := 0\<rparr>
      in print_position m (snd (foldl
           (\<lambda>(passed, s) i. count_line passed
              (if i = 0 then print_line m 0 s else snd (get_line (tb_file m) s)))
           (False, s1) [0..tb_height m - 4 - 1])))"

definition line_down :: "textbox \<Rightarrow> tb_state \<Rightarrow> tb_state" where
  "line_down m s =
     (if \<not> end_reached s
      then print_position m (print_line m (tb_height m - 5) (scroll_text 1 (s\<lparr>begin_reached := False\<rparr>)))
      else s)"

definition next_page :: "textbox \<Rightarrow> tb_state \<Rightarrow> tb_state" where
  "next_page m s = (if end_reached s then s else show_page m (s\<lparr>begin_reached := False\<rparr>))"

definition tb_key :: "textbox \<Rightarrow> int \<Rightarrow> tb_state \<Rightarrow> tb_state + tb_result" where
  "tb_key m key s =
     (if key \<in> {chr CHR ''E'', chr CHR ''e'', chr CHR ''X'', chr CHR ''x''} then Inr (Returned 0)
      else if key \<in> {chr CHR ''g'', KEY_HOME} then Inl (first_page m s)
      else if key \<in> {chr CHR ''G'', KEY_END} then last_page m s
      else if key \<in> {chr CHR ''K'', chr CHR ''k'', KEY_UP}
      then (if \<not> begin_reached s then go_back m (page_length s + 1) (line_up m) s else Inl s)
      else if key \<in> {chr CHR ''B'', chr CHR ''b'', KEY_PPAGE}
      then (if begin_reached s then Inl s else go_back m (page_length s + page_rows m) (show_page m) s)
      else if key \<in> {chr CHR ''J'', chr CHR ''j'', KEY_DOWN} then Inl (line_down m s)
      else if key \<in> {KEY_NPAGE, chr CHR '' ''} then Inl (next_page m s)
      else if key \<in> {chr CHR ''0'', chr CHR ''H'', chr CHR ''h'', KEY_LEFT}
      then (if hscroll s \<le> 0 then Inl s
            else go_back m (page_length s) (print_page m)
                   (s\<lparr>hscroll := (if key = chr CHR ''0'' then 0 else hscroll s - 1)\<rparr>))
      else if key \<in> {chr CHR ''L'', chr CHR ''l'', KEY_RIGHT}
      then (if hscroll s \<ge> MAX_LEN then Inl s
            else go_back m (page_length s) (print_page m) (s\<lparr>hscroll := hscroll s + 1\<rparr>))
      else if key \<in> {ESC, NL} then Inr (Returned (-1))
      else Inl s)"

definition tb_frame :: "textbox \<Rightarrow> string option \<Rightarrow> wcall list" where
  "tb_frame m title =
     draw_box 0 0 (tb_height m) (tb_width m) Dialog_attr Border_attr @
     separator (tb_height m) (tb_width m) @ title_bar (tb_width m) title @
     print_button '' Exit '' (tb_height m - 2) (tb_width m div 2 - 4) True"

definition tb_init :: "textbox \<Rightarrow> string option \<Rightarrow> tb_state" where
  "tb_init m title =
     show_page m (read_at (tb_file m) 0
       \<lparr>fpos = 0, buf = [], page = 0, begin_reached = True, end_reached = False, page_length = 0,
        hscroll = 0, text_out = attr_clear (tb_height m - 4) (tb_width m - 2) Dialog_attr, pos_out = tb_frame m title\<rparr>)"

definition dialog_textbox :: "textbox \<Rightarrow> string option \<Rightarrow> int list \<Rightarrow> tb_state + tb_result" where
  "dialog_textbox m title keys = run_loop (tb_key m) (tb_init m title) keys"

section \<open>Lines of a file\<close>

fun split_lines :: "string \<Rightarrow> string list" where
  "split_lines [] = [[]]"
| "split_lines (c # cs) =
     (if c = newline then [] # split_lines cs
      else (c # hd (split_lines cs)) # tl (split_lines cs))"

lemma split_lines_nonempty [simp]: "split_lines f \<noteq> []"
  by (cases f) auto

text \<open>The position of line \<open>i\<close> in the file; one past the end of the file behind the last line.\<close>

definition line_start :: "string \<Rightarrow> nat \<Rightarrow> nat" where
  "line_start f i = sum_list (map (\<lambda>l. length l + 1) (take i (split_lines f)))"

lemma line_start_0 [simp]: "line_start f 0 = 0"
  by (simp add: line_start_def)

lemma line_start_Suc:
  "i < length (split_lines f) \<Longrightarrow> line_start f (Suc i) = line_start f i + length (split_lines f ! i) + 1"
  by (simp add: line_start_def take_Suc_conv_app_nth)

lemma split_lines_Cons:
  "c \<noteq> newline \<Longrightarrow> split_lines (c # cs) = (c # hd (split_lines cs)) # tl (split_lines cs)"
  "split_lines (newline # cs) = [] # split_lines cs"
  by simp_all

text \<open>From the start of line \<open>i\<close> on the file consists of this line and what follows.\<close>

abbreviation line_no :: "string \<Rightarrow> nat" where
  "line_no f \<equiv> length (split_lines f)"

lemma line_start_Cons:
  "line_start (newline # cs) (Suc i) = 1 + line_start cs i"
  "c \<noteq> newline \<Longrightarrow> line_start (c # cs) (Suc i) = 1 + line_start cs (Suc i)"
  by (simp_all add: line_start_def) (cases "split_lines cs"; simp add: line_start_def)

lemma line_at:
  assumes "i < line_no f"
  shows "line_start f i \<le> length f \<and>
    takeWhile (\<lambda>c. c \<noteq> newline) (drop (line_start f i) f) = split_lines f ! i \<and>
    (newline \<in> set (drop (line_start f i) f) \<longleftrightarrow> Suc i < line_no f)"
  using assms
proof (induction f arbitrary: i)
  case Nil
  then show ?case by (simp add: line_start_def)
next
  case (Cons c cs)
  show ?case
  proof (cases "c = newline")
    case True
    then show ?thesis using Cons by (cases i) (auto simp: line_start_Cons)
  next
    case False
    obtain h t where S: "split_lines cs = h # t" by (cases "split_lines cs") auto
    show ?thesis
    proof (cases i)
      case 0
      then show ?thesis using Cons.IH [of 0] False S by auto
    next
      case (Suc j)
      then have "Suc j < line_no cs" using Cons.prems False S by simp
      from Cons.IH [OF this] show ?thesis using Suc False S by (simp add: line_start_Cons)
    qed
  qed
qed

lemma line_end_newline:
  assumes "Suc i < line_no f"
  shows "line_start f (Suc i) \<le> length f" "f ! (line_start f (Suc i) - 1) = newline"
proof -
  have i: "i < line_no f" using assms by simp
  note l = line_at [OF i]
  show "line_start f (Suc i) \<le> length f" using line_at [OF assms] by simp
  have n: "newline \<in> set (drop (line_start f i) f)" using l assms by simp
  then have "length (takeWhile (\<lambda>c. c \<noteq> newline) (drop (line_start f i) f)) < length (drop (line_start f i) f)"
    by (rule length_takeWhile_less) simp
  from nth_length_takeWhile [OF this] have
    "drop (line_start f i) f ! length (split_lines f ! i) = newline" using l by simp
  moreover have "length (split_lines f ! i) < length (drop (line_start f i) f)"
    using l \<open>length (takeWhile _ _) < _\<close> by simp
  ultimately show "f ! (line_start f (Suc i) - 1) = newline"
    using i by (simp add: line_start_Suc)
qed

lemma line_start_end: "line_start f (line_no f) = length f + 1"
proof -
  obtain i where i: "line_no f = Suc i" by (cases "line_no f") auto
  then have "i < line_no f" by simp
  note l = line_at [OF this]
  then have "newline \<notin> set (drop (line_start f i) f)" using i by simp
  then have "takeWhile (\<lambda>c. c \<noteq> newline) (drop (line_start f i) f) = drop (line_start f i) f"
    by (auto simp: takeWhile_eq_all_conv)
  with l have "split_lines f ! i = drop (line_start f i) f" by metis
  then have "length (split_lines f ! i) = length f - line_start f i" by simp
  with l i show ?thesis by (simp add: line_start_Suc)
qed

lemma line_inside:
  assumes "i < line_no f" "line_start f i \<le> q" "q < line_start f (Suc i) - 1"
  shows "f ! q \<noteq> newline"
proof -
  note l = line_at [OF assms(1)]
  have q: "q - line_start f i < length (split_lines f ! i)"
    using assms by (simp add: line_start_Suc)
  then have "split_lines f ! i ! (q - line_start f i) = f ! q"
    using l assms(2) by (metis add_diff_inverse_nat leD length_drop nth_drop takeWhile_nth)
  moreover have "split_lines f ! i ! (q - line_start f i) \<noteq> newline"
    using q l by (metis (mono_tags, lifting) nth_mem set_takeWhileD)
  ultimately show ?thesis by simp
qed

text \<open>The last newline before a position.\<close>

fun prev_newline :: "string \<Rightarrow> nat \<Rightarrow> nat option" where
  "prev_newline f 0 = None"
| "prev_newline f (Suc p) = (if f ! p = newline then Some p else prev_newline f p)"

lemma prev_newline_skip:
  "a \<le> p \<Longrightarrow> (\<And>q. a \<le> q \<Longrightarrow> q < p \<Longrightarrow> f ! q \<noteq> newline) \<Longrightarrow> prev_newline f p = prev_newline f a"
proof (induction p)
  case (Suc p)
  then show ?case by (cases "a = Suc p") (auto simp: le_Suc_eq)
qed simp

lemma prev_newline_line:
  assumes "i < line_no f"
  shows "prev_newline f (line_start f (Suc i) - 1) = (case i of 0 \<Rightarrow> None | Suc j \<Rightarrow> Some (line_start f i - 1))"
proof -
  have "prev_newline f (line_start f (Suc i) - 1) = prev_newline f (line_start f i)"
    using assms line_inside [OF assms] by (intro prev_newline_skip) (auto simp: line_start_Suc)
  also have "\<dots> = (case i of 0 \<Rightarrow> None | Suc j \<Rightarrow> Some (line_start f i - 1))"
  proof (cases i)
    case (Suc j)
    have "0 < line_start f i" using Suc assms by (simp add: line_start_Suc)
    then obtain p where p: "line_start f i = Suc p" by (cases "line_start f i") auto
    have "f ! p = newline" using line_end_newline(2) [of j f] Suc assms p by simp
    with p Suc show ?thesis by simp
  qed simp
  finally show ?thesis .
qed

section \<open>The buffer as a window on the file\<close>

definition buf_inv :: "string \<Rightarrow> tb_state \<Rightarrow> bool" where
  "buf_inv f s \<longleftrightarrow> fpos s \<le> length f \<and> length (buf s) \<le> fpos s \<and>
     buf s = take (length (buf s)) (drop (fpos s - length (buf s)) f) \<and> page s \<le> length (buf s) \<and>
     (length f < BUF_SIZE \<longrightarrow> fpos s = length f)"

definition offset :: "tb_state \<Rightarrow> nat" where
  "offset s = fpos s - length (buf s) + page s"

text \<open>The fields that moving in the file leaves alone.\<close>

definition same_view :: "tb_state \<Rightarrow> tb_state \<Rightarrow> bool" where
  "same_view s s' \<longleftrightarrow> page_length s' = page_length s \<and> hscroll s' = hscroll s \<and>
     text_out s' = text_out s \<and> pos_out s' = pos_out s"

lemma same_view_refl [simp]: "same_view s s"
  by (simp add: same_view_def)

lemma same_view_trans: "same_view s s1 \<Longrightarrow> same_view s1 s2 \<Longrightarrow> same_view s s2"
  by (simp add: same_view_def)

lemma buf_at_offset:
  assumes "buf_inv f s" "page s < length (buf s)"
  shows "buf_at s (page s) = f ! offset s" "offset s < length f"
proof -
  have b: "buf s = take (length (buf s)) (drop (fpos s - length (buf s)) f)"
      "fpos s \<le> length f" "length (buf s) \<le> fpos s"
    using assms(1) by (auto simp: buf_inv_def)
  have "buf s ! page s = take (length (buf s)) (drop (fpos s - length (buf s)) f) ! page s"
    using b(1) by simp
  also have "\<dots> = f ! offset s" using b(2,3) assms(2) by (simp add: offset_def)
  finally show "buf_at s (page s) = f ! offset s" using assms(2) by (simp add: buf_at_def)
  show "offset s < length f" using b(2,3) assms(2) by (simp add: offset_def)
qed

lemma buf_inv_read_at:
  "p \<le> length f \<Longrightarrow> i \<le> min (length f - p) BUF_SIZE \<Longrightarrow>
     buf_inv f ((read_at f p s)\<lparr>page := i\<rparr>) \<and> offset ((read_at f p s)\<lparr>page := i\<rparr>) = p + i \<and>
     same_view s ((read_at f p s)\<lparr>page := i\<rparr>)"
  by (auto simp: buf_inv_def read_at_def Let_def offset_def same_view_def min_def)

lemma read_at_simps [simp]:
  "end_reached (read_at f p s) = end_reached s" "begin_reached (read_at f p s) = begin_reached s"
  "page_length (read_at f p s) = page_length s" "hscroll (read_at f p s) = hscroll s"
  "text_out (read_at f p s) = text_out s" "pos_out (read_at f p s) = pos_out s"
  by (simp_all add: read_at_def Let_def)

text \<open>What one call of the reading loop achieves.\<close>

definition loop_post :: "string \<Rightarrow> string \<Rightarrow> tb_state \<Rightarrow> string \<Rightarrow> tb_state \<Rightarrow> bool" where
  "loop_post f acc s l s' \<longleftrightarrow>
     (let t = takeWhile (\<lambda>c. c \<noteq> newline) (drop (offset s) f)
      in buf_inv f s' \<and> same_view s s' \<and> begin_reached s' = begin_reached s \<and>
         l = take MAX_LEN (acc @ t) \<and> offset s' = offset s + length t \<and>
         (if newline \<in> set (drop (offset s) f) then end_reached s' = end_reached s \<and> page s' < length (buf s')
          else end_reached s' \<and> offset s' = length f))"

lemma loop_post_char:
  assumes "offset s < length f" "f ! offset s \<noteq> newline" "offset s2 = Suc (offset s)"
    and "same_view s s2" "begin_reached s2 = begin_reached s" "end_reached s2 = end_reached s"
    and "acc2 = (if length acc < MAX_LEN then acc @ [f ! offset s] else acc)" "length acc \<le> MAX_LEN"
    and "loop_post f acc2 s2 l s'"
  shows "loop_post f acc s l s'"
proof -
  have d: "drop (offset s) f = f ! offset s # drop (Suc (offset s)) f"
    using assms(1) by (rule Cons_nth_drop_Suc [symmetric])
  have tk: "take MAX_LEN (acc2 @ t) = take MAX_LEN (acc @ f ! offset s # t)" for t
  proof (cases "length acc < MAX_LEN")
    case True
    then obtain n where "MAX_LEN = Suc (length acc + n)" by (auto simp: less_iff_Suc_add)
    with assms(7) show ?thesis by simp
  next
    case False
    with assms(7,8) show ?thesis by simp
  qed
  show ?thesis
    using assms(2-6,9) unfolding loop_post_def Let_def d
    by (auto simp: tk same_view_def simp del: take_append split: if_splits)
qed

lemma loop_post_same_offset:
  assumes "offset s2 = offset s" "same_view s s2" "begin_reached s2 = begin_reached s"
    "end_reached s2 = end_reached s" "loop_post f acc s2 l s'"
  shows "loop_post f acc s l s'"
  using assms by (auto simp: loop_post_def Let_def same_view_def)

lemma line_loop_correct:
  assumes "nul \<notin> set f" "buf_inv f s" "length acc \<le> MAX_LEN"
  shows "loop_post f acc s (fst (line_loop f acc s)) (snd (line_loop f acc s))"
  using assms
proof (induction f acc s rule: line_loop.induct)
  case (1 f acc s)
  show ?case
  proof (cases "page s < length (buf s)")
    case True
    note at = buf_at_offset [OF "1.prems"(2) True]
    have d: "drop (offset s) f = f ! offset s # drop (Suc (offset s)) f"
      using at(2) by (rule Cons_nth_drop_Suc [symmetric])
    have nn: "f ! offset s \<noteq> nul" using at(2) "1.prems"(1) nth_mem by metis
    show ?thesis
    proof (cases "f ! offset s = newline")
      case True
      then have "line_loop f acc s = (acc, s)" by (subst line_loop.simps) (simp add: at(1))
      with True \<open>page s < _\<close> "1.prems" show ?thesis by (simp add: loop_post_def d)
    next
      case False
      let ?acc = "if length acc < MAX_LEN then acc @ [buf_at s (page s)] else acc"
      let ?s = "s\<lparr>page := page s + 1\<rparr>"
      have i: "buf_inv f ?s" using "1.prems"(2) \<open>page s < _\<close> by (auto simp: buf_inv_def)
      have l: "line_loop f acc s = line_loop f ?acc ?s"
        using False nn by (subst line_loop.simps) (simp add: at(1))
      have "length ?acc \<le> MAX_LEN" using "1.prems"(3) by simp
      with "1.IH"(2) [OF _ _ "1.prems"(1) i] False nn at(1)
      have "loop_post f ?acc ?s (fst (line_loop f ?acc ?s)) (snd (line_loop f ?acc ?s))" by simp
      then show ?thesis
        unfolding l by (rule loop_post_char [rotated -1])
          (use at False "1.prems"(3) in \<open>simp_all add: offset_def same_view_def\<close>)
    qed
  next
    case False
    with "1.prems"(2) have p: "page s = length (buf s)" by (simp add: buf_inv_def)
    then have o: "offset s = fpos s" using "1.prems"(2) by (simp add: offset_def buf_inv_def)
    have n: "buf_at s (page s) = nul" using p by (simp add: buf_at_def)
    have nn: "nul \<noteq> newline" by (simp add: nul_def newline_def)
    show ?thesis
    proof (cases "fpos s < length f")
      case True
      let ?s = "(read_at f (fpos s) s)\<lparr>page := 0\<rparr>"
      have b: "buf_inv f ?s" "offset ?s = fpos s" "same_view s ?s"
        using buf_inv_read_at [of "fpos s" f 0 s] True by auto
      have l: "line_loop f acc s = line_loop f acc ?s"
        using True n nn by (subst line_loop.simps) simp
      have "loop_post f acc ?s (fst (line_loop f acc ?s)) (snd (line_loop f acc ?s))"
        using "1.IH"(1) [OF _ _ True "1.prems"(1) b(1) "1.prems"(3)] n nn by simp
      then show ?thesis
        unfolding l by (rule loop_post_same_offset [rotated -1]) (use b o in simp_all)
    next
      case False
      then have "fpos s = length f" using "1.prems"(2) by (simp add: buf_inv_def)
      moreover from False n nn have "line_loop f acc s = (acc, s\<lparr>end_reached := True\<rparr>)"
        by (subst line_loop.simps) simp
      ultimately show ?thesis
        using "1.prems" o by (simp add: loop_post_def buf_inv_def offset_def same_view_def)
    qed
  qed
qed

text \<open>Reading line \<open>i\<close> and moving to the start of line \<open>i + 1\<close>, or to the end of the file.\<close>

definition line_pos :: "string \<Rightarrow> nat \<Rightarrow> nat" where
  "line_pos f j = (if j < line_no f then line_start f j else length f)"

definition line_text :: "string \<Rightarrow> nat \<Rightarrow> string" where
  "line_text f j = (if j < line_no f then take MAX_LEN (split_lines f ! j) else [])"

definition at_line :: "string \<Rightarrow> tb_state \<Rightarrow> nat \<Rightarrow> bool" where
  "at_line f s j \<longleftrightarrow> buf_inv f s \<and> offset s = line_pos f j"

lemma get_line_correct:
  assumes "nul \<notin> set f" "at_line f s j"
  shows "\<exists>s'. get_line f s = (line_text f j, s') \<and> at_line f s' (Suc j) \<and> same_view s s' \<and>
    begin_reached s' = begin_reached s \<and> end_reached s' = (line_no f \<le> Suc j)"
proof -
  let ?s = "s\<lparr>end_reached := False\<rparr>"
  have i: "buf_inv f ?s" and o: "offset ?s = line_pos f j"
    using assms(2) by (auto simp: at_line_def buf_inv_def offset_def)
  have sv: "same_view ?s r = same_view s r" for r by (simp add: same_view_def)
  obtain l s1 where l: "line_loop f [] ?s = (l, s1)" by fastforce
  note c = line_loop_correct [OF assms(1) i, of "[]", unfolded l loop_post_def Let_def, simplified, unfolded o sv]
  show ?thesis
  proof (cases "Suc j < line_no f")
    case True
    then have j: "j < line_no f" by simp
    note la = line_at [OF j]
    have "line_pos f j = line_start f j" using j by (simp add: line_pos_def)
    with c la True have s1: "buf_inv f s1" "same_view s s1" "begin_reached s1 = begin_reached s"
        "l = take MAX_LEN (split_lines f ! j)" "offset s1 = line_start f j + length (split_lines f ! j)"
        "\<not> end_reached s1" "page s1 < length (buf s1)"
      by auto
    have "at_line f (s1\<lparr>page := page s1 + 1\<rparr>) (Suc j)"
      using s1 True j by (auto simp: at_line_def buf_inv_def offset_def line_pos_def line_start_Suc)
    then show ?thesis
      using s1 j True by (auto simp: get_line_def l line_text_def same_view_def)
  next
    case False
    have "newline \<notin> set (drop (line_pos f j) f) \<and>
        take MAX_LEN (takeWhile (\<lambda>c. c \<noteq> newline) (drop (line_pos f j) f)) = line_text f j"
      using False line_at [of j f] by (auto simp: line_pos_def line_text_def)
    with c have s1: "buf_inv f s1" "same_view s s1" "begin_reached s1 = begin_reached s"
        "l = line_text f j" "offset s1 = length f" "end_reached s1"
      by auto
    with False show ?thesis by (auto simp: get_line_def l at_line_def line_pos_def)
  qed
qed

text \<open>Going back in the buffer is going back in the file.\<close>

lemma read_back_correct:
  assumes "buf_inv f s" "page s = 0" "length (buf s) < fpos s"
  shows "buf_inv f (read_back f s)" "offset (read_back f s) = offset s" "0 < page (read_back f s)"
    "same_view s (read_back f s)" "begin_reached (read_back f s) = begin_reached s"
    "end_reached (read_back f s) = end_reached s"
proof -
  let ?b = "length (buf s)"
  have b: "fpos s \<le> length f" "0 < fpos s - ?b" using assms by (auto simp: buf_inv_def)
  have "buf_inv f (read_back f s) \<and> offset (read_back f s) = offset s \<and> same_view s (read_back f s)"
  proof (cases "fpos s < BUF_SIZE div 2 + ?b")
    case True
    then have "fpos s - ?b \<le> min (length f - 0) BUF_SIZE" using b by (auto simp: BUF_SIZE_def)
    from buf_inv_read_at [OF _ this, of s] True show ?thesis
      by (simp add: read_back_def Let_def offset_def assms(2))
  next
    case False
    then have "BUF_SIZE div 2 \<le> min (length f - (fpos s - (BUF_SIZE div 2 + ?b))) BUF_SIZE"
      using b by (auto simp: BUF_SIZE_def)
    from buf_inv_read_at [OF _ this, of s] False b show ?thesis
      by (simp add: read_back_def Let_def offset_def assms(2))
  qed
  then show "buf_inv f (read_back f s)" "offset (read_back f s) = offset s" "same_view s (read_back f s)"
    by auto
  show "0 < page (read_back f s)" using b by (auto simp: read_back_def Let_def BUF_SIZE_def)
  show "begin_reached (read_back f s) = begin_reached s" "end_reached (read_back f s) = end_reached s"
    by (simp_all add: read_back_def Let_def)
qed

definition step_back :: "string \<Rightarrow> tb_state \<Rightarrow> tb_state" where
  "step_back f s =
     (let s1 = (if page s = 0 then read_back f s else s) in s1\<lparr>page := page s1 - 1\<rparr>)"

lemma step_back_correct:
  assumes "buf_inv f s" "0 < offset s"
  shows "buf_inv f (step_back f s) \<and> Suc (offset (step_back f s)) = offset s \<and>
    page (step_back f s) < length (buf (step_back f s)) \<and>
    buf_at (step_back f s) (page (step_back f s)) = f ! (offset s - 1) \<and> same_view s (step_back f s) \<and>
    begin_reached (step_back f s) = begin_reached s \<and> end_reached (step_back f s) = end_reached s"
proof -
  define s1 where "s1 = (if page s = 0 then read_back f s else s)"
  have s1: "buf_inv f s1" "offset s1 = offset s" "0 < page s1" "same_view s s1"
      "begin_reached s1 = begin_reached s" "end_reached s1 = end_reached s"
    using read_back_correct [OF assms(1)] assms by (auto simp: s1_def offset_def)
  have s2: "step_back f s = s1\<lparr>page := page s1 - 1\<rparr>" by (simp add: step_back_def s1_def Let_def)
  have i: "buf_inv f (step_back f s)" "page (step_back f s) < length (buf (step_back f s))"
    using s1 by (auto simp: s2 buf_inv_def)
  have o: "Suc (offset (step_back f s)) = offset s" using s1 by (auto simp: s2 offset_def)
  from buf_at_offset(1) [OF i] o have
    "buf_at (step_back f s) (page (step_back f s)) = f ! (offset s - 1)"
    by (metis diff_Suc_1)
  with i o s1 show ?thesis by (simp add: s2 same_view_def)
qed

lemma at_begin: "buf_inv f s \<Longrightarrow> (page s = 0 \<and> \<not> length (buf s) < fpos s) = (offset s = 0)"
  by (auto simp: buf_inv_def offset_def)

lemma prev_line_unfold:
  "buf_inv f s \<Longrightarrow> prev_line f s =
     (if offset s = 0 then (False, s\<lparr>begin_reached := True\<rparr>)
      else if f ! (offset s - 1) \<noteq> newline then prev_line f (step_back f s) else (True, step_back f s))"
  using step_back_correct [of f s]
  by (subst prev_line.simps) (simp add: at_begin step_back_def Let_def)

lemma prev_line_correct:
  "buf_inv f s \<Longrightarrow> \<exists>s'. prev_line f s = (prev_newline f (offset s) \<noteq> None, s') \<and> buf_inv f s' \<and>
     same_view s s' \<and> end_reached s' = end_reached s \<and>
     (case prev_newline f (offset s) of
        None \<Rightarrow> offset s' = 0 \<and> begin_reached s'
      | Some p \<Rightarrow> offset s' = p \<and> begin_reached s' = begin_reached s \<and> page s' < length (buf s'))"
proof (induction "offset s" arbitrary: s)
  case 0
  then have o: "offset s = 0" by simp
  have "prev_line f s = (False, s\<lparr>begin_reached := True\<rparr>)"
    using prev_line_unfold [OF 0(2)] o by simp
  moreover have "buf_inv f (s\<lparr>begin_reached := True\<rparr>)" "offset (s\<lparr>begin_reached := True\<rparr>) = 0"
    using 0(2) o by (simp_all add: buf_inv_def offset_def)
  ultimately show ?case by (simp add: o same_view_def)
next
  case (Suc p)
  have sb: "buf_inv f (step_back f s)" "offset (step_back f s) = p" "same_view s (step_back f s)"
      "begin_reached (step_back f s) = begin_reached s" "end_reached (step_back f s) = end_reached s"
      "page (step_back f s) < length (buf (step_back f s))"
    using step_back_correct [OF Suc.prems] Suc.hyps(2) by auto
  show ?case
  proof (cases "f ! p = newline")
    case True
    with sb Suc.prems show ?thesis by (simp add: prev_line_unfold Suc.hyps(2) [symmetric])
  next
    case False
    then have l: "prev_line f s = prev_line f (step_back f s)" "prev_newline f (offset s) = prev_newline f p"
      using prev_line_unfold [OF Suc.prems] Suc.hyps(2) [symmetric] by simp_all
    show ?thesis
      using Suc.hyps(1) [OF sb(2) [symmetric] sb(1)] same_view_trans [OF sb(3)]
      unfolding l sb(2,4,5) by metis
  qed
qed

lemma prev_lines_correct:
  assumes "buf_inv f s" "offset s = line_start f j - 1" "0 < j" "j \<le> line_no f" "\<not> begin_reached s"
  shows "\<exists>s'. prev_lines f n s = (n < j, s') \<and> buf_inv f s' \<and> same_view s s' \<and>
    begin_reached s' = (j \<le> n) \<and>
    offset s' = (if n < j then line_start f (j - n) - 1 else 0) \<and>
    (0 < n \<and> n < j \<longrightarrow> page s' < length (buf s'))"
  using assms
proof (induction n arbitrary: j s)
  case 0
  then show ?case by simp
next
  case (Suc n)
  obtain i where j: "j = Suc i" using Suc.prems(3) by (cases j) auto
  have i: "i < line_no f" using Suc.prems(4) j by simp
  have pn: "prev_newline f (offset s) = (case i of 0 \<Rightarrow> None | Suc _ \<Rightarrow> Some (line_start f i - 1))"
    using prev_newline_line [OF i] Suc.prems(2) j by simp
  from prev_line_correct [OF Suc.prems(1), unfolded pn] obtain s1 where
    pl: "prev_line f s = ((case i of 0 \<Rightarrow> None | Suc _ \<Rightarrow> Some (line_start f i - 1)) \<noteq> None, s1)"
      "buf_inv f s1" "same_view s s1"
      "case (case i of 0 \<Rightarrow> None | Suc _ \<Rightarrow> Some (line_start f i - 1)) of
         None \<Rightarrow> offset s1 = 0 \<and> begin_reached s1
       | Some p \<Rightarrow> offset s1 = p \<and> begin_reached s1 = begin_reached s \<and> page s1 < length (buf s1)"
    by blast
  show ?case
  proof (cases i)
    case 0
    with pl j show ?thesis by simp
  next
    case (Suc k)
    note s1 = pl [unfolded Suc nat.case option.case, folded Suc]
    obtain s' where s': "prev_lines f n s1 = (n < i, s')" "buf_inv f s'" "same_view s1 s'"
        "begin_reached s' = (i \<le> n)" "offset s' = (if n < i then line_start f (i - n) - 1 else 0)"
        "0 < n \<and> n < i \<longrightarrow> page s' < length (buf s')"
    proof -
      have "offset s1 = line_start f i - 1" "0 < i" "i \<le> line_no f" "\<not> begin_reached s1"
        using s1(4) Suc i Suc.prems(5) by auto
      from Suc.IH [OF s1(2) this] that show thesis by metis
    qed
    have "n = 0 \<Longrightarrow> s' = s1" using s'(1) by simp
    with s' s1 j Suc show ?thesis by (auto intro: same_view_trans)
  qed
qed

lemma back_lines_correct:
  assumes "buf_inv f s" "0 < n"
    and pos: "if end_reached s then offset s = length f \<and> j = line_no f
              else j < line_no f \<and> offset s = line_start f j"
  shows "\<exists>s'. back_lines f n s = Some s' \<and> at_line f s' (j - n) \<and> same_view s s' \<and> begin_reached s' = (j \<le> n)"
proof -
  define s0 where "s0 = s\<lparr>begin_reached := False\<rparr>"
  have s0: "buf_inv f s0" "offset s0 = offset s" "\<not> begin_reached s0" "same_view s s0" "end_reached s0 = end_reached s"
    using assms(1) by (auto simp: s0_def buf_inv_def offset_def same_view_def)
  define go where "go = (\<lambda>s. case prev_lines f n s of
      (False, s') \<Rightarrow> Some s' | (True, s') \<Rightarrow> Some (s'\<lparr>page := page s' + 1\<rparr>))"
  have go: "\<exists>s'. go s1 = Some s' \<and> at_line f s' (j - n) \<and> same_view s s' \<and> begin_reached s' = (j \<le> n)"
    if s1: "buf_inv f s1" "offset s1 = line_start f j - 1" "\<not> begin_reached s1" "same_view s s1"
      and j: "0 < j" "j \<le> line_no f" for s1
  proof -
    from prev_lines_correct [OF s1(1,2) j s1(3), of n] obtain s2 where
      s2: "prev_lines f n s1 = (n < j, s2)" "buf_inv f s2" "same_view s1 s2" "begin_reached s2 = (j \<le> n)"
        "offset s2 = (if n < j then line_start f (j - n) - 1 else 0)" "n < j \<longrightarrow> page s2 < length (buf s2)"
      using assms(2) by auto
    show ?thesis
    proof (cases "n < j")
      case True
      then obtain k where "j - n = Suc k" using less_imp_Suc_add by (metis Suc_diff_Suc)
      then have "0 < line_start f (j - n)" using j by (simp add: line_start_Suc)
      with True s2 j assms(2) have "at_line f (s2\<lparr>page := page s2 + 1\<rparr>) (j - n)"
        by (auto simp: at_line_def buf_inv_def offset_def line_pos_def)
      with True s2 s1 show ?thesis by (auto simp: go_def same_view_def)
    next
      case False
      with s2 have "at_line f s2 (j - n)" by (simp add: at_line_def line_pos_def)
      with False s2 s1 show ?thesis by (auto simp: go_def intro: same_view_trans)
    qed
  qed
  show ?thesis
  proof (cases "end_reached s")
    case True
    with pos have "offset s0 = line_start f j - 1" "0 < j" "j \<le> line_no f"
      using line_start_end [of f] s0(2) by auto
    from go [OF s0(1) this(1) s0(3,4) this(2,3)] True show ?thesis
      by (simp add: back_lines_def Let_def s0_def [symmetric] s0(5) go_def)
  next
    case False
    note e = False
    with pos have j: "j < line_no f" "offset s = line_start f j" by auto
    show ?thesis
    proof (cases j)
      case 0
      with j s0 have "offset s0 = 0" by simp
      with at_begin [OF s0(1)] 0 j s0 e show ?thesis
        by (auto simp: back_lines_def Let_def s0_def [symmetric] at_line_def line_pos_def buf_inv_def
            offset_def same_view_def)
    next
      case (Suc i)
      then have p: "0 < offset s0" using j s0(2) by (simp add: line_start_Suc)
      have nl: "f ! (offset s0 - 1) = newline" using line_end_newline(2) [of i f] Suc j s0(2) by simp
      note sb = step_back_correct [OF s0(1) p]
      have np: "(page s0 = 0 \<and> \<not> length (buf s0) < fpos s0) = False" using at_begin [OF s0(1)] p by simp
      have "back_lines f n s =
          (if buf_at (step_back f s0) (page (step_back f s0)) \<noteq> newline then None else go (step_back f s0))"
        unfolding back_lines_def Let_def s0_def [symmetric] go_def step_back_def
        using np e s0(5) by (simp only: if_False if_True not_False_eq_True simp_thms)
      with sb nl have "back_lines f n s = go (step_back f s0)" by simp
      moreover have "same_view s (step_back f s0)" using sb s0(4) by (auto intro: same_view_trans)
      ultimately show ?thesis
        using go [of "step_back f s0"] sb s0 Suc j by auto
    qed
  qed
qed

section \<open>The text on the screen\<close>

lemma glyph_at_clrtoeol:
  "scr_cursor w = (y, x) \<Longrightarrow> glyph_at (scr_exec Wclrtoeol w) r c =
     (if r = y \<and> x \<le> c then Some (Ch CHR '' '') else glyph_at w r c)"
  by (simp add: glyph_at_def scr_exec.simps blank_def)

lemma scr_cursor_addch:
  "scr_cursor w = (y, x) \<Longrightarrow> scr_cursor (scr_exec (Waddch a g) w) = (y, x + 1)"
  by (simp add: scr_exec.simps)

lemma scr_cursor_str:
  "scr_cursor w = (y, x) \<Longrightarrow> scr_cursor (scr_run (waddstr t) w) = (y, x + int (length t))"
  using scr.run_str(3) [of w y x t "x + int (length t) + 1"] by (simp add: scr_run_eq)

definition shown_part :: "int \<Rightarrow> string \<Rightarrow> string" where
  "shown_part width line =
     take (nat (if int (length line) < width - 2 then int (length line) else width - 2)) line"

definition text_row :: "int \<Rightarrow> string \<Rightarrow> glyph option list" where
  "text_row width line = map (\<lambda>c. Some (Ch (
     if 1 \<le> c \<and> c < 1 + int (length (shown_part width line)) then shown_part width line ! nat (c - 1)
     else CHR '' ''))) [0..width - 1]"

definition glyph_row :: "int \<Rightarrow> screen \<Rightarrow> int \<Rightarrow> glyph option list" where
  "glyph_row width w r = map (glyph_at w r) [0..width - 1]"

lemma glyph_at_line:
  "glyph_at (scr_run (line_calls width row line) w) r c =
     (if r = row \<and> 0 \<le> c then Some (Ch (
        if 1 \<le> c \<and> c < 1 + int (length (shown_part width line)) then shown_part width line ! nat (c - 1)
        else CHR '' ''))
      else glyph_at w r c)"
proof -
  let ?t = "shown_part width line"
  define w1 where "w1 = scr_exec (Waddch None (Ch CHR '' '')) (scr_exec (Wmove row 0) w)"
  define w2 where "w2 = scr_run (waddstr ?t) w1"
  have w1: "scr_cursor w1 = (row, 1)" "glyph_at w1 r c = (if r = row \<and> c = 0 then Some (Ch CHR '' '') else glyph_at w r c)"
    using scr_cursor_addch [of "scr_exec (Wmove row 0) w" row 0] glyph_at_addch [of "scr_exec (Wmove row 0) w" row 0]
    by (simp_all add: w1_def)
  have w2: "scr_cursor w2 = (row, 1 + int (length ?t))"
    "glyph_at w2 r c = (if r = row \<and> 1 \<le> c \<and> c < 1 + int (length ?t) then Some (Ch (?t ! nat (c - 1))) else glyph_at w1 r c)"
    using scr_cursor_str [OF w1(1)] glyph_at_str [OF w1(1)] by (simp_all add: w2_def)
  have "scr_run (line_calls width row line) w = scr_exec Wclrtoeol w2"
    by (simp add: line_calls_def shown_part_def w1_def w2_def)
  then show ?thesis using glyph_at_clrtoeol [OF w2(1)] w1(2) w2(2) by auto
qed

definition shown_line :: "textbox \<Rightarrow> nat \<Rightarrow> nat \<Rightarrow> string" where
  "shown_line m hs j = drop hs (line_text (tb_file m) j)"

interpretation text_rows: item_rows
    "\<lambda>r i sel. scr_run (line_calls (tb_width m - 2) r (shown_line m hs (nat i)))"
    "\<lambda>n. scr_exec (Wscrl n)" "glyph_row (tb_width m - 2)"
    "\<lambda>i sel. text_row (tb_width m - 2) (shown_line m hs (nat i))" "\<lambda>i. True" scr_scrollok
    "\<lambda>b. scr_exec (Scrollok b)"
  for m hs
proof
  show "glyph_row (tb_width m - 2) (scr_run (line_calls (tb_width m - 2) r (shown_line m hs (nat i))) w) =
      (glyph_row (tb_width m - 2) w)(r := text_row (tb_width m - 2) (shown_line m hs (nat i)))" for r i w
  proof
    fix r'
    show "glyph_row (tb_width m - 2) (scr_run (line_calls (tb_width m - 2) r (shown_line m hs (nat i))) w) r' =
      ((glyph_row (tb_width m - 2) w)(r := text_row (tb_width m - 2) (shown_line m hs (nat i)))) r'"
      by (auto simp: glyph_row_def text_row_def glyph_at_line)
  qed
  show "scr_scrollok (scr_run (line_calls (tb_width m - 2) r (shown_line m hs (nat i))) w) = scr_scrollok w" for r i w
    by (rule scr_run_scrollok) (auto simp: line_calls_def waddstr_def)
qed (auto simp: glyph_row_def glyph_at_def scr_exec.simps)

section \<open>Pages\<close>

definition text_win :: "tb_state \<Rightarrow> screen" where
  "text_win s = scr_run (text_out s) empty_screen"

lemma print_line_correct:
  assumes "nul \<notin> set (tb_file m)" "at_line (tb_file m) s j"
  shows "\<exists>s1. print_line m r s = s1\<lparr>text_out := text_out s @ line_calls (tb_width m - 2) r (shown_line m (hscroll s) j)\<rparr> \<and>
    at_line (tb_file m) s1 (Suc j) \<and> same_view s s1 \<and> begin_reached s1 = begin_reached s \<and>
    end_reached s1 = (line_no (tb_file m) \<le> Suc j)"
proof -
  obtain s1 where s1: "get_line (tb_file m) s = (line_text (tb_file m) j, s1)" "at_line (tb_file m) s1 (Suc j)"
      "same_view s s1" "begin_reached s1 = begin_reached s" "end_reached s1 = (line_no (tb_file m) \<le> Suc j)"
    using get_line_correct [OF assms] by blast
  have "drop (if length l < h then length l else h) l = drop h l" for l :: string and h by simp
  then show ?thesis
    using s1 by (intro exI [of _ s1]) (simp add: print_line_def shown_line_def same_view_def)
qed

text \<open>One row of a page: the next line is read, and its row is printed or not.\<close>

definition reads_row :: "textbox \<Rightarrow> nat \<Rightarrow> (int \<Rightarrow> tb_state \<Rightarrow> tb_state) \<Rightarrow> (int \<Rightarrow> nat \<Rightarrow> wcall list) \<Rightarrow> bool" where
  "reads_row m hs g out \<longleftrightarrow> (\<forall>i s j. at_line (tb_file m) s j \<and> hscroll s = hs \<longrightarrow>
     at_line (tb_file m) (g i s) (Suc j) \<and> hscroll (g i s) = hs \<and> page_length (g i s) = page_length s \<and>
     begin_reached (g i s) = begin_reached s \<and> end_reached (g i s) = (line_no (tb_file m) \<le> Suc j) \<and>
     pos_out (g i s) = pos_out s \<and> text_out (g i s) = text_out s @ out i j)"

lemma rows_loop:
  assumes g: "reads_row m hs g out" and s: "at_line (tb_file m) s t" "hscroll s = hs" "t < line_no (tb_file m)"
    "page_length s = 0"
  shows "case foldl (\<lambda>(passed, s) i. count_line passed (g i s)) (False, s) [0..int k - 1] of (passed, s') \<Rightarrow>
    at_line (tb_file m) s' (t + k) \<and> passed = (line_no (tb_file m) \<le> t + k) \<and>
    page_length s' = min k (line_no (tb_file m) - t) \<and> hscroll s' = hs \<and> begin_reached s' = begin_reached s \<and>
    (0 < k \<longrightarrow> end_reached s' = (line_no (tb_file m) \<le> t + k)) \<and>
    text_out s' = text_out s @ concat (map (\<lambda>i. out i (t + nat i)) [0..int k - 1])"
proof (induction k)
  case 0
  then show ?case using s by simp
next
  case (Suc k)
  obtain p s1 where f: "foldl (\<lambda>(passed, s) i. count_line passed (g i s)) (False, s) [0..int k - 1] = (p, s1)"
    by fastforce
  note IH = Suc [unfolded f prod.case]
  have "[0..int (Suc k) - 1] = [0..int k - 1] @ [int k]" using upto_rec2 [of 0 "int k"] by simp
  then have l: "foldl (\<lambda>(passed, s) i. count_line passed (g i s)) (False, s) [0..int (Suc k) - 1] =
      count_line p (g (int k) s1)" "concat (map (\<lambda>i. out i (t + nat i)) [0..int (Suc k) - 1]) =
      concat (map (\<lambda>i. out i (t + nat i)) [0..int k - 1]) @ out (int k) (t + k)"
    by (simp_all add: f)
  have g1: "at_line (tb_file m) (g (int k) s1) (Suc (t + k))" "hscroll (g (int k) s1) = hs"
      "page_length (g (int k) s1) = page_length s1" "begin_reached (g (int k) s1) = begin_reached s1"
      "end_reached (g (int k) s1) = (line_no (tb_file m) \<le> Suc (t + k))"
      "text_out (g (int k) s1) = text_out s1 @ out (int k) (t + k)"
    using g IH unfolding reads_row_def by auto
  have a: "at_line (tb_file m) (g (int k) s1\<lparr>page_length := n\<rparr>) (Suc (t + k))" for n
    using g1(1) by (simp add: at_line_def buf_inv_def offset_def)
  show ?case
  proof (cases p)
    case True
    with IH s(3) have "min (Suc k) (line_no (tb_file m) - t) = min k (line_no (tb_file m) - t)" by auto
    with True IH g1 show ?thesis unfolding l by (simp add: count_line_def)
  next
    case False
    with IH s(3) have "min (Suc k) (line_no (tb_file m) - t) = Suc (min k (line_no (tb_file m) - t))" by auto
    with False IH g1 a show ?thesis unfolding l by (auto simp: count_line_def)
  qed
qed

lemma reads_print_line:
  "nul \<notin> set (tb_file m) \<Longrightarrow>
     reads_row m hs (\<lambda>i. print_line m i) (\<lambda>i j. line_calls (tb_width m - 2) i (shown_line m hs j))"
  unfolding reads_row_def
proof (intro allI impI, elim conjE)
  fix i s j
  assume "nul \<notin> set (tb_file m)" "at_line (tb_file m) s j" "hscroll s = hs"
  with print_line_correct [of m s j i] obtain s1 where
    "print_line m i s = s1\<lparr>text_out := text_out s @ line_calls (tb_width m - 2) i (shown_line m hs j)\<rparr>"
    "at_line (tb_file m) s1 (Suc j)" "same_view s s1" "begin_reached s1 = begin_reached s"
    "end_reached s1 = (line_no (tb_file m) \<le> Suc j)" by blast
  with \<open>hscroll s = hs\<close> show "at_line (tb_file m) (print_line m i s) (Suc j) \<and> hscroll (print_line m i s) = hs \<and>
     page_length (print_line m i s) = page_length s \<and> begin_reached (print_line m i s) = begin_reached s \<and>
     end_reached (print_line m i s) = (line_no (tb_file m) \<le> Suc j) \<and> pos_out (print_line m i s) = pos_out s \<and>
     text_out (print_line m i s) = text_out s @ line_calls (tb_width m - 2) i (shown_line m hs j)"
    by (simp add: at_line_def buf_inv_def offset_def same_view_def)
qed

definition tb_inv :: "textbox \<Rightarrow> tb_state \<Rightarrow> nat \<times> nat \<Rightarrow> bool" where
  "tb_inv m s a \<longleftrightarrow> (case a of (t, hs) \<Rightarrow>
     nul \<notin> set (tb_file m) \<and> 0 < page_rows m \<and>
     at_line (tb_file m) s (t + page_rows m) \<and> t < line_no (tb_file m) \<and>
     end_reached s = (line_no (tb_file m) \<le> t + page_rows m) \<and> begin_reached s = (t = 0) \<and>
     page_length s = min (page_rows m) (line_no (tb_file m) - t) \<and> hscroll s = hs \<and> hs \<le> MAX_LEN \<and>
     text_rows.shows_items m hs (tb_height m - 4) (text_win s) (int t) (-1) \<and>
     \<not> scr_scrollok (text_win s))"

lemma page_rows_int: "0 < page_rows m \<Longrightarrow> int (page_rows m) = tb_height m - 4"
  by (simp add: page_rows_def)

text \<open>What is needed before a page is printed from line \<open>t\<close> on.\<close>

definition before_page :: "textbox \<Rightarrow> tb_state \<Rightarrow> nat \<times> nat \<Rightarrow> bool" where
  "before_page m s a \<longleftrightarrow> (case a of (t, hs) \<Rightarrow>
     nul \<notin> set (tb_file m) \<and> 0 < page_rows m \<and> at_line (tb_file m) s t \<and> t < line_no (tb_file m) \<and>
     begin_reached s = (t = 0) \<and> hscroll s = hs \<and> hs \<le> MAX_LEN \<and> \<not> scr_scrollok (text_win s))"

lemma print_page_inv:
  assumes b: "before_page m s (t, hs)"
  shows "tb_inv m (print_page m s) (t, hs)"
proof -
  let ?f = "tb_file m" let ?h = "page_rows m"
  have b: "nul \<notin> set ?f" "0 < ?h" "at_line ?f s t" "t < line_no ?f" "begin_reached s = (t = 0)"
      "hscroll s = hs" "hs \<le> MAX_LEN" "\<not> scr_scrollok (text_win s)"
    using b by (auto simp: before_page_def)
  note h = page_rows_int [OF b(2)]
  obtain p s1 where f: "foldl (\<lambda>(passed, s) i. count_line passed (print_line m i s))
      (False, s\<lparr>page_length := 0\<rparr>) [0..int ?h - 1] = (p, s1)" by fastforce
  have "at_line ?f (s\<lparr>page_length := 0\<rparr>) t" using b(3) by (simp add: at_line_def buf_inv_def offset_def)
  from rows_loop [OF reads_print_line [OF b(1)], OF this _ b(4), of hs ?h, unfolded f] b(2,6)
  have s1: "at_line ?f s1 (t + ?h)" "page_length s1 = min ?h (line_no ?f - t)" "hscroll s1 = hs"
      "begin_reached s1 = begin_reached s" "end_reached s1 = (line_no ?f \<le> t + ?h)"
      "text_out s1 = text_out s @
         concat (map (\<lambda>i. line_calls (tb_width m - 2) i (shown_line m hs (t + nat i))) [0..int ?h - 1])"
    by auto
  have pp: "print_page m s = s1\<lparr>text_out := text_out s1 @ [Refresh]\<rparr>"
    using f by (simp add: print_page_def h)
  let ?put = "\<lambda>w i. scr_run (line_calls (tb_width m - 2) i (shown_line m hs (nat (int t + i)))) w"
  have "map (\<lambda>i. line_calls (tb_width m - 2) i (shown_line m hs (t + nat i))) [0..int ?h - 1] =
      map (\<lambda>i. line_calls (tb_width m - 2) i (shown_line m hs (nat (int t + i)))) [0..int ?h - 1]"
    by (auto simp: nat_add_distrib)
  then have out: "text_out s1 = text_out s @
      concat (map (\<lambda>i. line_calls (tb_width m - 2) i (shown_line m hs (nat (int t + i)))) [0..int ?h - 1])"
    by (simp only: s1(6))
  have win: "text_win (print_page m s) = scr_exec Refresh (foldl ?put (text_win s) [0..int ?h - 1])"
    unfolding pp by (simp add: text_win_def out scr_run_concat)
  have "text_rows.shows_items m hs (int ?h) (foldl ?put (text_win s) [0..int ?h - 1]) (int t) (-1)"
    by (rule text_rows.shows_fill) simp
  moreover have "\<not> scr_scrollok (foldl ?put (text_win s) [0..int ?h - 1])"
    by (rule foldl_invariant) (use b(8) text_rows.ok_put in auto)
  ultimately have "text_rows.shows_items m hs (tb_height m - 4) (text_win (print_page m s)) (int t) (-1)"
      "\<not> scr_scrollok (text_win (print_page m s))"
    by (simp_all add: win h text_rows.shows_items_def glyph_row_def scr_exec.simps)
  then show ?thesis
    using s1 b by (simp add: tb_inv_def pp at_line_def buf_inv_def offset_def)
qed

lemma tb_inv_pos [simp]: "tb_inv m (print_position m s) a = tb_inv m s a"
  by (simp add: tb_inv_def print_position_def at_line_def buf_inv_def offset_def text_win_def)

lemma show_page_inv: "before_page m s (t, hs) \<Longrightarrow> tb_inv m (show_page m s) (t, hs)"
  by (simp add: show_page_def print_page_inv)

lemma back_to:
  assumes inv: "tb_inv m s (t, hs)" and hs2: "hs2 \<le> MAX_LEN"
  shows "\<exists>s'. back_lines (tb_file m) (page_length s + d) (s\<lparr>hscroll := hs2\<rparr>) = Some s' \<and>
    before_page m s' (t - d, hs2) \<and> text_out s' = text_out s"
proof -
  let ?f = "tb_file m" let ?h = "page_rows m" let ?s = "s\<lparr>hscroll := hs2\<rparr>"
  have b: "nul \<notin> set ?f" "0 < ?h" "at_line ?f s (t + ?h)" "t < line_no ?f"
      "end_reached s = (line_no ?f \<le> t + ?h)" "page_length s = min ?h (line_no ?f - t)"
      "\<not> scr_scrollok (text_win s)"
    using inv by (auto simp: tb_inv_def)
  have i: "buf_inv ?f ?s" using b(3) by (simp add: at_line_def buf_inv_def)
  have n: "0 < page_length s + d" using b by simp
  have "if end_reached ?s then offset ?s = length ?f \<and> t + page_length s = line_no ?f
        else t + page_length s < line_no ?f \<and> offset ?s = line_start ?f (t + page_length s)"
    using b(3-6) by (auto simp: at_line_def line_pos_def offset_def min_def)
  from back_lines_correct [OF i n this] obtain s' where
    "back_lines ?f (page_length s + d) ?s = Some s'" "at_line ?f s' (t - d)" "same_view ?s s'"
    "begin_reached s' = (t - d = 0)" by auto
  then show ?thesis
    using b hs2 by (auto simp: before_page_def same_view_def text_win_def)
qed

lemma line_up_inv:
  assumes b: "before_page m s (t - 1, hs)" and t: "0 < t" "t < line_no (tb_file m)"
    and sh: "text_rows.shows_items m hs (tb_height m - 4) (text_win s) (int t) (-1)"
  shows "tb_inv m (line_up m s) (t - 1, hs)"
proof -
  let ?f = "tb_file m" let ?h = "page_rows m"
  let ?g = "\<lambda>i s. if i = 0 then print_line m 0 s else snd (get_line ?f s)"
  let ?o = "\<lambda>i j. if i = 0 then line_calls (tb_width m - 2) 0 (shown_line m hs j) else []"
  have b: "nul \<notin> set ?f" "0 < ?h" "at_line ?f s (t - 1)" "begin_reached s = (t - 1 = 0)"
      "hscroll s = hs" "hs \<le> MAX_LEN" "\<not> scr_scrollok (text_win s)"
    using b by (auto simp: before_page_def)
  note h = page_rows_int [OF b(2)]
  have g: "reads_row m hs ?g ?o"
    unfolding reads_row_def
  proof (intro allI impI, elim conjE)
    fix i s j assume s: "at_line ?f s j" "hscroll s = hs"
    from get_line_correct [OF b(1) s(1)] obtain s' where
      "get_line ?f s = (line_text ?f j, s')" "at_line ?f s' (Suc j)" "same_view s s'"
      "begin_reached s' = begin_reached s" "end_reached s' = (line_no ?f \<le> Suc j)" by blast
    with s reads_print_line [OF b(1), of hs, unfolded reads_row_def, rule_format, of s j 0]
    show "at_line ?f (?g i s) (Suc j) \<and> hscroll (?g i s) = hs \<and> page_length (?g i s) = page_length s \<and>
       begin_reached (?g i s) = begin_reached s \<and> end_reached (?g i s) = (line_no ?f \<le> Suc j) \<and>
       pos_out (?g i s) = pos_out s \<and> text_out (?g i s) = text_out s @ ?o i j"
      by (simp add: same_view_def)
  qed
  define s0 where "s0 = (scroll_text (-1) s)\<lparr>page_length := 0\<rparr>"
  have s0: "at_line ?f s0 (t - 1)" "hscroll s0 = hs" "page_length s0 = 0" "begin_reached s0 = (t - 1 = 0)"
      "text_out s0 = text_out s @ [Scrollok True, Wscrl (-1), Scrollok False]"
    using b by (simp_all add: s0_def scroll_text_def at_line_def buf_inv_def offset_def)
  obtain p s1 where f: "foldl (\<lambda>(passed, s) i. count_line passed (?g i s)) (False, s0) [0..int ?h - 1] = (p, s1)"
    by fastforce
  have "[0..int ?h - 1] = 0 # [1..int ?h - 1]" using b(2) by (simp add: upto_rec1)
  moreover have "concat (map (\<lambda>i. ?o i (t - 1 + nat i)) [1..int ?h - 1]) = []" by simp
  ultimately have o: "concat (map (\<lambda>i. ?o i (t - 1 + nat i)) [0..int ?h - 1]) =
      line_calls (tb_width m - 2) 0 (shown_line m hs (t - 1))" by simp
  have t1: "t - 1 < line_no ?f" using t by simp
  from rows_loop [OF g s0(1,2) t1 s0(3), of ?h, unfolded f prod.case o] b(2)
  have s1: "at_line ?f s1 (t - 1 + ?h)" "page_length s1 = min ?h (line_no ?f - (t - 1))" "hscroll s1 = hs"
      "begin_reached s1 = begin_reached s0" "end_reached s1 = (line_no ?f \<le> t - 1 + ?h)"
      "text_out s1 = text_out s0 @ line_calls (tb_width m - 2) 0 (shown_line m hs (t - 1))"
    by auto
  have lu: "line_up m s = print_position m s1"
    using f by (simp add: line_up_def Let_def s0_def [symmetric] h)
  let ?w = "scr_exec (Wscrl (-1)) (scr_exec (Scrollok True) (text_win s))"
  have win: "text_win s1 = scr_run (line_calls (tb_width m - 2) 0 (shown_line m hs (t - 1))) (scr_exec (Scrollok False) ?w)"
    by (simp add: text_win_def s1(6) s0(5))
  have nat: "nat (int t - 1) = t - 1" by simp
  have "text_rows.shows_items m hs (tb_height m - 4)
      (scr_run (line_calls (tb_width m - 2) 0 (shown_line m hs (nat (int t - 1)))) ?w) (int t - 1) (-1)"
    by (rule text_rows.shows_down) (simp_all add: sh text_rows.ok_set_ok text_rows.shows_set_ok)
  then have "text_rows.shows_items m hs (tb_height m - 4) (text_win s1) (int t - 1) (-1)"
    unfolding win nat [symmetric] by (simp only: text_rows.shows_put_set_ok TrueI)
  then have "text_rows.shows_items m hs (tb_height m - 4) (text_win s1) (int (t - 1)) (-1)"
    using t(1) by (simp add: of_nat_diff)
  moreover have "\<not> scr_scrollok (text_win s1)"
    using text_rows.ok_put [where r = 0 and m = m and hs = hs and i = "int (t - 1)"
        and w = "scr_exec (Scrollok False) ?w"]
    by (simp add: win text_rows.ok_set_ok)
  ultimately show ?thesis
    unfolding lu tb_inv_pos using s1 b s0(4) t by (simp add: tb_inv_def)
qed

lemma line_down_inv:
  assumes inv: "tb_inv m s (t, hs)" and e: "\<not> end_reached s"
  shows "tb_inv m (line_down m s) (t + 1, hs)"
proof -
  let ?f = "tb_file m" let ?h = "page_rows m"
  have b: "nul \<notin> set ?f" "0 < ?h" "at_line ?f s (t + ?h)" "hscroll s = hs" "hs \<le> MAX_LEN"
      "page_length s = min ?h (line_no ?f - t)" "\<not> scr_scrollok (text_win s)" "t + ?h < line_no ?f"
      "text_rows.shows_items m hs (tb_height m - 4) (text_win s) (int t) (-1)"
    using inv e by (auto simp: tb_inv_def)
  note h = page_rows_int [OF b(2)]
  define s0 where "s0 = scroll_text 1 (s\<lparr>begin_reached := False\<rparr>)"
  have s0: "at_line ?f s0 (t + ?h)" "hscroll s0 = hs" "page_length s0 = page_length s" "\<not> begin_reached s0"
      "text_out s0 = text_out s @ [Scrollok True, Wscrl 1, Scrollok False]"
    using b by (simp_all add: s0_def scroll_text_def at_line_def buf_inv_def offset_def)
  from reads_print_line [OF b(1), of hs, unfolded reads_row_def, rule_format, of s0 "t + ?h" "tb_height m - 5"] s0
  have s1: "at_line ?f (print_line m (tb_height m - 5) s0) (Suc (t + ?h))"
      "hscroll (print_line m (tb_height m - 5) s0) = hs"
      "page_length (print_line m (tb_height m - 5) s0) = page_length s"
      "\<not> begin_reached (print_line m (tb_height m - 5) s0)"
      "end_reached (print_line m (tb_height m - 5) s0) = (line_no ?f \<le> Suc (t + ?h))"
      "text_out (print_line m (tb_height m - 5) s0) =
         text_out s0 @ line_calls (tb_width m - 2) (tb_height m - 5) (shown_line m hs (t + ?h))"
    by auto
  define s2 where "s2 = print_line m (tb_height m - 5) s0"
  let ?w = "scr_exec (Wscrl 1) (scr_exec (Scrollok True) (text_win s))"
  let ?i = "int t + 1 + (tb_height m - 4 - 1)"
  have i: "nat ?i = t + ?h" using h by linarith
  have win: "text_win s2 = scr_run (line_calls (tb_width m - 2) (tb_height m - 4 - 1) (shown_line m hs (nat ?i)))
      (scr_exec (Scrollok False) ?w)"
    unfolding i by (simp add: text_win_def s2_def s1(6) s0(5))
  have "text_rows.shows_items m hs (tb_height m - 4)
      (scr_run (line_calls (tb_width m - 2) (tb_height m - 4 - 1) (shown_line m hs (nat ?i))) ?w) (int t + 1) (-1)"
    by (rule text_rows.shows_up) (simp_all add: b(9) text_rows.ok_set_ok text_rows.shows_set_ok)
  then have "text_rows.shows_items m hs (tb_height m - 4) (text_win s2) (int t + 1) (-1)"
    unfolding win by (simp only: text_rows.shows_put_set_ok TrueI)
  then have "text_rows.shows_items m hs (tb_height m - 4) (text_win s2) (int (t + 1)) (-1)"
    by (simp add: add.commute)
  moreover have "\<not> scr_scrollok (text_win s2)"
    unfolding win using text_rows.ok_put [where r = "tb_height m - 4 - 1" and m = m and hs = hs and i = ?i
        and w = "scr_exec (Scrollok False) ?w"]
    by (simp add: text_rows.ok_set_ok)
  ultimately show ?thesis
    using s1 [folded s2_def] b e
    by (simp add: line_down_def s0_def [symmetric] s2_def [symmetric]) (simp add: tb_inv_def)
qed

section \<open>The specification of the pager\<close>

text \<open>
  Abstractly the pager shows a page that starts at some line, scrolled sideways by some columns.
\<close>

definition tb_step :: "textbox \<Rightarrow> int \<Rightarrow> nat \<times> nat \<Rightarrow> nat \<times> nat" where
  "tb_step m key a = (case a of (t, hs) \<Rightarrow>
     let n = line_no (tb_file m); h = page_rows m
     in if key \<in> {chr CHR ''g'', KEY_HOME} then (0, hs)
        else if key \<in> {chr CHR ''G'', KEY_END} then (n - h, hs)
        else if key \<in> {chr CHR ''K'', chr CHR ''k'', KEY_UP} then (t - 1, hs)
        else if key \<in> {chr CHR ''B'', chr CHR ''b'', KEY_PPAGE} then (t - h, hs)
        else if key \<in> {chr CHR ''J'', chr CHR ''j'', KEY_DOWN} then (if t + h < n then t + 1 else t, hs)
        else if key \<in> {KEY_NPAGE, chr CHR '' ''} then (if t + h < n then t + h else t, hs)
        else if key \<in> {chr CHR ''0'', chr CHR ''H'', chr CHR ''h'', KEY_LEFT}
        then (t, if key = chr CHR ''0'' then 0 else hs - 1)
        else if key \<in> {chr CHR ''L'', chr CHR ''l'', KEY_RIGHT} then (t, min (hs + 1) MAX_LEN)
        else (t, hs))"

lemma go_back_sim:
  assumes inv: "tb_inv m s (t, hs)" and hs2: "hs2 \<le> MAX_LEN"
    and g: "go_back m (page_length s + d) g (s\<lparr>hscroll := hs2\<rparr>) = r"
    and pg: "\<And>s'. before_page m s' (t - d, hs2) \<Longrightarrow> text_out s' = text_out s \<Longrightarrow> tb_inv m (g s') (t - d, hs2)"
  shows "\<exists>s'. r = Inl s' \<and> tb_inv m s' (t - d, hs2)"
  using back_to [OF inv hs2, of d] g pg by (auto simp: go_back_def)

lemma tb_inv_hscroll: "tb_inv m s (t, hs) \<Longrightarrow> s\<lparr>hscroll := hs\<rparr> = s"
  by (simp add: tb_inv_def)

lemma first_page_sim:
  assumes inv: "tb_inv m s (t, hs)"
  shows "tb_inv m (first_page m s) (0, hs)"
proof (cases "begin_reached s")
  case True
  with inv show ?thesis by (auto simp: first_page_def tb_inv_def)
next
  case False
  let ?f = "tb_file m"
  have b: "buf_inv ?f s" "nul \<notin> set ?f" "0 < page_rows m" "hscroll s = hs" "hs \<le> MAX_LEN" "0 < line_no ?f"
      "\<not> scr_scrollok (text_win s)"
    using inv by (auto simp: tb_inv_def at_line_def)
  define s2 where "s2 = (if length (buf s) < fpos s then read_at ?f 0 (s\<lparr>begin_reached := True\<rparr>)
    else s\<lparr>begin_reached := True\<rparr>)"
  have "buf_inv ?f (s2\<lparr>page := 0\<rparr>) \<and> offset (s2\<lparr>page := 0\<rparr>) = 0"
    using b(1) buf_inv_read_at [of 0 ?f 0 "s\<lparr>begin_reached := True\<rparr>"]
    by (auto simp: s2_def buf_inv_def offset_def)
  with b have "before_page m (s2\<lparr>page := 0\<rparr>) (0, hs)"
    by (auto simp: before_page_def at_line_def line_pos_def s2_def text_win_def)
  with False show ?thesis by (simp add: first_page_def Let_def s2_def show_page_inv)
qed

lemma last_page_sim:
  assumes inv: "tb_inv m s (t, hs)"
  shows "\<exists>s'. last_page m s = Inl s' \<and> tb_inv m s' (line_no (tb_file m) - page_rows m, hs)"
proof -
  let ?f = "tb_file m"
  have b: "buf_inv ?f s" "nul \<notin> set ?f" "0 < page_rows m" "hscroll s = hs" "hs \<le> MAX_LEN"
      "\<not> scr_scrollok (text_win s)"
    using inv by (auto simp: tb_inv_def at_line_def)
  then have small: "fpos s < length ?f \<Longrightarrow> \<not> length ?f < BUF_SIZE" by (auto simp: buf_inv_def)
  define s2 where "s2 = (if fpos s < length ?f then read_at ?f (length ?f - BUF_SIZE) (s\<lparr>end_reached := True\<rparr>)
    else s\<lparr>end_reached := True\<rparr>)"
  let ?s = "s2\<lparr>page := length (buf s2)\<rparr>"
  have s: "buf_inv ?f ?s \<and> offset ?s = length ?f \<and> same_view s ?s \<and> end_reached ?s"
  proof (cases "fpos s < length ?f")
    case True
    with small have "length (buf s2) = BUF_SIZE" "length ?f - BUF_SIZE + BUF_SIZE = length ?f"
      by (auto simp: s2_def read_at_def Let_def)
    with True small show ?thesis
      using buf_inv_read_at [of "length ?f - BUF_SIZE" ?f BUF_SIZE "s\<lparr>end_reached := True\<rparr>"]
      by (auto simp: s2_def same_view_def)
  next
    case False
    with b(1) show ?thesis by (auto simp: s2_def buf_inv_def offset_def same_view_def)
  qed
  then have pos: "if end_reached ?s then offset ?s = length ?f \<and> line_no ?f = line_no ?f
      else line_no ?f < line_no ?f \<and> offset ?s = line_start ?f (line_no ?f)" by simp
  have bi: "buf_inv ?f ?s" using s by blast
  from back_lines_correct [OF bi b(3) pos] s obtain s' where
    s': "back_lines ?f (page_rows m) ?s = Some s'" "at_line ?f s' (line_no ?f - page_rows m)" "same_view ?s s'"
      "begin_reached s' = (line_no ?f \<le> page_rows m)" by auto
  have "0 < line_no ?f" by simp
  then have "line_no ?f - page_rows m < line_no ?f" using b(3) by (rule diff_less [rotated])
  with s s' b have "before_page m s' (line_no ?f - page_rows m, hs)"
    by (auto simp: before_page_def same_view_def text_win_def)
  then have "tb_inv m (show_page m s') (line_no ?f - page_rows m, hs)" by (rule show_page_inv)
  moreover have "last_page m s = Inl (show_page m s')"
    using s' small by (auto simp: last_page_def Let_def s2_def go_back_def)
  ultimately show ?thesis by blast
qed

lemma next_page_sim:
  assumes inv: "tb_inv m s (t, hs)" and e: "\<not> end_reached s"
  shows "tb_inv m (next_page m s) (t + page_rows m, hs)"
proof -
  have "before_page m (s\<lparr>begin_reached := False\<rparr>) (t + page_rows m, hs)"
    using inv e by (auto simp: tb_inv_def before_page_def at_line_def buf_inv_def offset_def text_win_def)
  with e show ?thesis by (simp add: next_page_def show_page_inv)
qed

lemma up_sim:
  assumes inv: "tb_inv m s (t, hs)" and b: "\<not> begin_reached s"
  shows "\<exists>s'. go_back m (page_length s + 1) (line_up m) s = Inl s' \<and> tb_inv m s' (t - 1, hs)"
proof -
  have hs: "hs \<le> MAX_LEN" "0 < t" "t < line_no (tb_file m)"
      "text_rows.shows_items m hs (tb_height m - 4) (text_win s) (int t) (-1)"
    using inv b by (auto simp: tb_inv_def)
  show ?thesis
  proof (rule go_back_sim [OF inv hs(1), of 1])
    show "go_back m (page_length s + 1) (line_up m) (s\<lparr>hscroll := hs\<rparr>) = go_back m (page_length s + 1) (line_up m) s"
      by (simp add: tb_inv_hscroll [OF inv])
  next
    fix s' assume "before_page m s' (t - 1, hs)" "text_out s' = text_out s"
    then show "tb_inv m (line_up m s') (t - 1, hs)"
      using hs by (intro line_up_inv) (auto simp: text_win_def)
  qed
qed

lemma ppage_sim:
  assumes inv: "tb_inv m s (t, hs)"
  shows "\<exists>s'. go_back m (page_length s + page_rows m) (show_page m) s = Inl s' \<and> tb_inv m s' (t - page_rows m, hs)"
proof -
  have "hs \<le> MAX_LEN" using inv by (simp add: tb_inv_def)
  with inv show ?thesis
    by (rule go_back_sim) (simp add: tb_inv_hscroll [OF inv], rule show_page_inv)
qed

lemma sideways_sim:
  assumes inv: "tb_inv m s (t, hs)" and "hs2 \<le> MAX_LEN"
  shows "\<exists>s'. go_back m (page_length s) (print_page m) (s\<lparr>hscroll := hs2\<rparr>) = Inl s' \<and> tb_inv m s' (t, hs2)"
  using go_back_sim [OF assms, of 0 "print_page m"] by (simp add: print_page_inv)

lemma chr_codes:
  "chr CHR ''E'' = 69"
  "chr CHR ''e'' = 101"
  "chr CHR ''x'' = 120"
  "chr CHR ''X'' = 88"
  "chr CHR ''g'' = 103"
  "chr CHR ''G'' = 71"
  "chr CHR ''K'' = 75"
  "chr CHR ''k'' = 107"
  "chr CHR ''B'' = 66"
  "chr CHR ''b'' = 98"
  "chr CHR ''J'' = 74"
  "chr CHR ''j'' = 106"
  "chr CHR '' '' = 32"
  "chr CHR ''0'' = 48"
  "chr CHR ''H'' = 72"
  "chr CHR ''h'' = 104"
  "chr CHR ''L'' = 76"
  "chr CHR ''l'' = 108"
  by (simp_all add: chr_def code_def)

lemma tb_key_sim:
  assumes inv: "tb_inv m s (t, hs)"
  shows "(\<forall>s'. tb_key m key s = Inl s' \<longrightarrow> tb_inv m s' (tb_step m key (t, hs))) \<and>
    (\<forall>r. tb_key m key s = Inr r \<longrightarrow> r = Returned 0 \<or> r = Returned (-1))"
proof -
  have i: "begin_reached s = (t = 0)" "end_reached s = (line_no (tb_file m) \<le> t + page_rows m)"
      "hscroll s = hs" "hs \<le> MAX_LEN" using inv by (auto simp: tb_inv_def)
  have left: "(if key = chr CHR ''0'' then 0 else hs - 1) \<le> MAX_LEN" using i(4) by auto
  have right: "\<not> MAX_LEN \<le> hs \<Longrightarrow> hs + 1 \<le> MAX_LEN" by simp
  consider "key \<in> {chr CHR ''E'', chr CHR ''e'', chr CHR ''X'', chr CHR ''x''}"
    | "key \<in> {chr CHR ''g'', KEY_HOME}" | "key \<in> {chr CHR ''G'', KEY_END}"
    | "key \<in> {chr CHR ''K'', chr CHR ''k'', KEY_UP}" | "key \<in> {chr CHR ''B'', chr CHR ''b'', KEY_PPAGE}"
    | "key \<in> {chr CHR ''J'', chr CHR ''j'', KEY_DOWN}" | "key \<in> {KEY_NPAGE, chr CHR '' ''}"
    | "key \<in> {chr CHR ''0'', chr CHR ''H'', chr CHR ''h'', KEY_LEFT}"
    | "key \<in> {chr CHR ''L'', chr CHR ''l'', KEY_RIGHT}" | "key \<in> {ESC, NL}"
    | "key \<notin> {chr CHR ''E'', chr CHR ''e'', chr CHR ''X'', chr CHR ''x'', chr CHR ''g'', KEY_HOME,
        chr CHR ''G'', KEY_END, chr CHR ''K'', chr CHR ''k'', KEY_UP, chr CHR ''B'', chr CHR ''b'', KEY_PPAGE,
        chr CHR ''J'', chr CHR ''j'', KEY_DOWN, KEY_NPAGE, chr CHR '' '', chr CHR ''0'', chr CHR ''H'',
        chr CHR ''h'', KEY_LEFT, chr CHR ''L'', chr CHR ''l'', KEY_RIGHT, ESC, NL}"
    by blast
  then show ?thesis
  proof cases
    case 1
    then show ?thesis by (simp add: tb_key_def)
  next
    case 2
    then have "tb_key m key s = Inl (first_page m s)" "tb_step m key (t, hs) = (0, hs)"
      by - (elim insertE emptyE; simp add: tb_key_def tb_step_def chr_codes key_defs Let_def)+
    with first_page_sim [OF inv] show ?thesis by simp
  next
    case 3
    then have "tb_key m key s = last_page m s" "tb_step m key (t, hs) = (line_no (tb_file m) - page_rows m, hs)"
      by - (elim insertE emptyE; simp add: tb_key_def tb_step_def chr_codes key_defs Let_def)+
    with last_page_sim [OF inv] show ?thesis by auto
  next
    case 4
    then have "tb_key m key s = (if t \<noteq> 0 then go_back m (page_length s + 1) (line_up m) s else Inl s)"
        "tb_step m key (t, hs) = (t - 1, hs)"
      by - (elim insertE emptyE; simp add: tb_key_def tb_step_def chr_codes key_defs Let_def i(1))+
    with up_sim [OF inv] inv i(1) show ?thesis by auto
  next
    case 5
    then have "tb_key m key s = (if t = 0 then Inl s else go_back m (page_length s + page_rows m) (show_page m) s)"
        "tb_step m key (t, hs) = (t - page_rows m, hs)"
      by - (elim insertE emptyE; simp add: tb_key_def tb_step_def chr_codes key_defs Let_def i(1))+
    with ppage_sim [OF inv] inv show ?thesis by auto
  next
    case 6
    then have "tb_key m key s = Inl (line_down m s)"
        "tb_step m key (t, hs) = (if t + page_rows m < line_no (tb_file m) then t + 1 else t, hs)"
      by - (elim insertE emptyE; simp add: tb_key_def tb_step_def chr_codes key_defs Let_def)+
    with line_down_inv [OF inv] inv i(2) show ?thesis by (auto simp: line_down_def)
  next
    case 7
    then have "tb_key m key s = Inl (next_page m s)"
        "tb_step m key (t, hs) = (if t + page_rows m < line_no (tb_file m) then t + page_rows m else t, hs)"
      by - (elim insertE emptyE; simp add: tb_key_def tb_step_def chr_codes key_defs Let_def)+
    with next_page_sim [OF inv] inv i(2) show ?thesis by (auto simp: next_page_def)
  next
    case 8
    then have "tb_key m key s = (if hs \<le> 0 then Inl s else go_back m (page_length s) (print_page m)
          (s\<lparr>hscroll := (if key = chr CHR ''0'' then 0 else hs - 1)\<rparr>))"
        "tb_step m key (t, hs) = (t, if key = chr CHR ''0'' then 0 else hs - 1)"
      by - (elim insertE emptyE; simp add: tb_key_def tb_step_def chr_codes key_defs Let_def i(3))+
    with sideways_sim [OF inv left] inv show ?thesis by auto
  next
    case 9
    then have "tb_key m key s = (if MAX_LEN \<le> hs then Inl s else go_back m (page_length s) (print_page m)
          (s\<lparr>hscroll := hs + 1\<rparr>))" "tb_step m key (t, hs) = (t, min (hs + 1) MAX_LEN)"
      by - (elim insertE emptyE; simp add: tb_key_def tb_step_def chr_codes key_defs Let_def i(3))+
    moreover have "\<exists>s'. go_back m (page_length s) (print_page m) (s\<lparr>hscroll := hs + 1\<rparr>) = Inl s' \<and>
        tb_inv m s' (t, hs + 1)" if "\<not> MAX_LEN \<le> hs"
      using that by (intro sideways_sim [OF inv right])
    moreover have "min (hs + 1) MAX_LEN = (if MAX_LEN \<le> hs then hs else hs + 1)" using i(4) by simp
    ultimately show ?thesis using inv by auto
  next
    case 10
    then have "tb_key m key s = Inr (Returned (-1))"
      by - (elim insertE emptyE; simp add: tb_key_def chr_codes key_defs)+
    then show ?thesis by simp
  next
    case 11
    then have "tb_key m key s = Inl s" "tb_step m key (t, hs) = (t, hs)"
      by (simp_all add: tb_key_def tb_step_def Let_def)
    with inv show ?thesis by simp
  qed
qed

interpretation pager: loop_simulation "tb_key m" "tb_inv m" "\<lambda>k a b. b = tb_step m k a"
    "\<lambda>r. r = Returned 0 \<or> r = Returned (-1)" for m
proof
  fix s a k s' assume "tb_inv m s a" "tb_key m k s = Inl s'"
  then show "\<exists>b. b = tb_step m k a \<and> tb_inv m s' b"
    using tb_key_sim [of m s "fst a" "snd a" k] by simp
next
  fix s a k r assume "tb_inv m s a" "tb_key m k s = Inr r"
  then show "r = Returned 0 \<or> r = Returned (-1)"
    using tb_key_sim [of m s "fst a" "snd a" k] by simp
qed

lemma tb_init_inv:
  assumes "nul \<notin> set (tb_file m)" "4 < tb_height m"
  shows "tb_inv m (tb_init m title) (0, 0)"
proof -
  let ?s = "\<lparr>fpos = 0, buf = [], page = 0, begin_reached = True, end_reached = False, page_length = 0,
    hscroll = 0, text_out = attr_clear (tb_height m - 4) (tb_width m - 2) Dialog_attr, pos_out = tb_frame m title\<rparr>"
  have "page (read_at (tb_file m) 0 ?s) = 0" by (simp add: read_at_def Let_def)
  then have p: "(read_at (tb_file m) 0 ?s)\<lparr>page := 0\<rparr> = read_at (tb_file m) 0 ?s" by simp
  have "at_line (tb_file m) (read_at (tb_file m) 0 ?s) 0"
    using buf_inv_read_at [of 0 "tb_file m" 0 ?s] by (simp add: p at_line_def line_pos_def)
  moreover have "\<not> scr_scrollok (text_win (read_at (tb_file m) 0 ?s))"
    unfolding text_win_def
    by (subst scr_run_scrollok) (auto simp: attr_clear_def empty_screen_def)
  ultimately have "before_page m (read_at (tb_file m) 0 ?s) (0, 0)"
    using assms by (simp add: before_page_def page_rows_def)
  then show ?thesis unfolding tb_init_def by (rule show_page_inv)
qed

section \<open>Properties\<close>

text \<open>
  C3. The pager shows the file: whatever keys are typed, while it is open the page starts at the
  line the specification computes (paging and scrolling by lines of the file, clamped at both
  ends), and row by row the screen shows the lines of the page, scrolled sideways; the internal
  error of \<open>back_lines\<close> and the failing seek never occur. This does not depend on how the file
  is cut into buffers. The file holds no NUL, and the window has at least one row.
\<close>

theorem pager_shows_file:
  assumes "nul \<notin> set (tb_file m)" "4 < tb_height m"
  shows "case dialog_textbox m title keys of
      Inl s \<Rightarrow> (\<exists>t hs. (t, hs) = foldl (\<lambda>a k. tb_step m k a) (0, 0) keys \<and> t < line_no (tb_file m) \<and>
        (\<forall>r. 0 \<le> r \<and> r < tb_height m - 4 \<longrightarrow>
           glyph_row (tb_width m - 2) (scr_run (text_out s) empty_screen) r =
           text_row (tb_width m - 2) (drop hs (line_text (tb_file m) (t + nat r)))))
    | Inr r \<Rightarrow> r = Returned 0 \<or> r = Returned (-1)"
proof (cases "dialog_textbox m title keys")
  case (Inl s)
  then have run: "run_loop (tb_key m) (tb_init m title) keys = Inl s" by (simp add: dialog_textbox_def)
  from pager.run_sim [OF tb_init_inv [OF assms] run] obtain b where
    b: "trace (\<lambda>k a b. b = tb_step m k a) (0, 0) keys b" "tb_inv m s b" by blast
  then have f: "b = foldl (\<lambda>a k. tb_step m k a) (0, 0) keys"
    using trace_det [where spec = "\<lambda>k a b. b = tb_step m k a" and f = "tb_step m"] by simp
  obtain t hs where th: "b = (t, hs)" by fastforce
  have sh: "\<forall>r. 0 \<le> r \<and> r < tb_height m - 4 \<longrightarrow>
      glyph_row (tb_width m - 2) (scr_run (text_out s) empty_screen) r =
      text_row (tb_width m - 2) (drop hs (line_text (tb_file m) (t + nat r)))"
  proof (intro allI impI, elim conjE)
    fix r assume r: "0 \<le> r" "r < tb_height m - 4"
    have "glyph_row (tb_width m - 2) (text_win s) r = text_row (tb_width m - 2) (shown_line m hs (nat (int t + r)))"
      using b(2) r by (simp add: th tb_inv_def text_rows.shows_items_def)
    then show "glyph_row (tb_width m - 2) (scr_run (text_out s) empty_screen) r =
        text_row (tb_width m - 2) (drop hs (line_text (tb_file m) (t + nat r)))"
      using r by (simp add: text_win_def shown_line_def nat_add_distrib)
  qed
  have "t < line_no (tb_file m)" using b(2) by (simp add: th tb_inv_def)
  with f sh show ?thesis unfolding Inl sum.case th by blast
next
  case (Inr r)
  then have "run_loop (tb_key m) (tb_init m title) keys = Inr r" by (simp add: dialog_textbox_def)
  from pager.run_sim_post [OF tb_init_inv [OF assms] this] Inr show ?thesis by simp
qed

definition demo_text :: textbox where
  "demo_text = \<lparr>tb_file = ''ab'' @ [newline] @ ''cd'', tb_height = 5, tb_width = 8\<rparr>"

lemma pager_shows_file_witness:
  "\<exists>s. dialog_textbox demo_text None [KEY_DOWN] = Inl s \<and>
     glyph_row 6 (scr_run (text_out s) empty_screen) 0 =
       map (\<lambda>c. Some (Ch c)) ['' '' ! 0, ''c'' ! 0, ''d'' ! 0, '' '' ! 0, '' '' ! 0, '' '' ! 0]"
proof -
  have d: "nul \<notin> set (tb_file demo_text)" "4 < tb_height demo_text" "tb_width demo_text = 8" "tb_height demo_text = 5"
    by (simp_all add: demo_text_def nul_def newline_def)
  obtain s where s: "dialog_textbox demo_text None [KEY_DOWN] = Inl s"
    by (simp add: dialog_textbox_def tb_key_def chr_codes key_defs)
  have l: "split_lines (tb_file demo_text) = [''ab'', ''cd'']"
    by (simp add: demo_text_def newline_def)
  have "foldl (\<lambda>a k. tb_step demo_text k a) (0, 0) [KEY_DOWN] = (1, 0)"
    by (simp add: tb_step_def Let_def chr_codes key_defs l page_rows_def d(4))
  with pager_shows_file [OF d(1,2), of "[KEY_DOWN]" None, unfolded s sum.case] d(3,4)
  have "glyph_row 6 (scr_run (text_out s) empty_screen) 0 = text_row 6 (line_text (tb_file demo_text) 1)"
    by auto
  also have "line_text (tb_file demo_text) 1 = ''cd''"
    by (simp add: line_text_def l MAX_LEN_def)
  also have "text_row 6 ''cd'' = map (\<lambda>c. Some (Ch c)) ['' '' ! 0, ''c'' ! 0, ''d'' ! 0, '' '' ! 0, '' '' ! 0, '' '' ! 0]"
    by (simp add: text_row_def shown_part_def upto.simps)
  finally show ?thesis using s by blast
qed

end
