(* ===== verification/ConfDialog.thy ===== *)
theory ConfDialog
  imports DialogMenu DialogList DialogInput DialogText
begin

text \<open>
  The simple boxes of the dialog program (\<^verbatim>\<open>misc/confdialog/yesno.c\<close>, \<^verbatim>\<open>misc/confdialog/msgbox.c\<close>) and its command line
  (\<^verbatim>\<open>misc/confdialog/confdialog.c\<close>): the common options, the table of modes, and how the arguments become the
  arguments of the boxes.
\<close>

section \<open>The yes/no box\<close>

record yesno =
  yn_height :: int
  yn_width :: int

record yn_state =
  yn_button :: int
  yn_out :: "wcall list"

definition yn_print_buttons :: "yesno \<Rightarrow> int \<Rightarrow> wcall list" where
  "yn_print_buttons m selected =
     (let x = yn_width m div 2 - 10; y = yn_height m - 2
      in print_button '' Yes '' y x (selected = 0) @ print_button ''  No  '' y (x + 13) (selected = 1) @
         [Wmove y (x + 1 + 13 * selected), Refresh])"

definition yn_toggle :: "int \<Rightarrow> int \<Rightarrow> int" where
  "yn_toggle key b =
     (let b1 = (if key = KEY_LEFT then b - 1 else b + 1)
      in if b1 < 0 then 1 else if b1 > 1 then 0 else b1)"

definition yn_key :: "yesno \<Rightarrow> int \<Rightarrow> yn_state \<Rightarrow> yn_state + int" where
  "yn_key m key s =
     (if key \<in> {chr CHR ''Y'', chr CHR ''y''} then Inr 0
      else if key \<in> {chr CHR ''N'', chr CHR ''n''} then Inr 1
      else if key \<in> {TAB, KEY_LEFT, KEY_RIGHT}
      then (let b = yn_toggle key (yn_button s)
            in Inl (s\<lparr>yn_button := b, yn_out := yn_out s @ yn_print_buttons m b\<rparr>))
      else if key \<in> {chr CHR '' '', NL} then Inr (yn_button s)
      else if key = ESC then Inr (-1)
      else Inl s)"

definition yn_frame :: "yesno \<Rightarrow> string option \<Rightarrow> placed list \<Rightarrow> wcall list" where
  "yn_frame m title prompt =
     draw_box 0 0 (yn_height m) (yn_width m) Dialog_attr Border_attr @
     separator (yn_height m) (yn_width m) @ title_bar (yn_width m) title @
     [Wattrset (Some Dialog_attr)] @ place_words prompt @ yn_print_buttons m 0"

definition dialog_yesno ::
  "(int \<times> int \<Rightarrow> string \<Rightarrow> int \<times> int) \<Rightarrow> yesno \<Rightarrow> string option \<Rightarrow> string \<Rightarrow> int list \<Rightarrow> (yn_state + int) option" where
  "dialog_yesno adv m title prompt keys =
     map_option (\<lambda>ps. run_loop (yn_key m) \<lparr>yn_button = 0, yn_out = yn_frame m title ps\<rparr> keys)
       (print_autowrap adv prompt (yn_width m - 2) 1 3)"

section \<open>The message box\<close>

text \<open>The loop reads keys until one of them closes the box; without a pause no key is read.\<close>

definition closes_msgbox :: "int \<Rightarrow> bool" where
  "closes_msgbox key \<longleftrightarrow> key \<in> {ESC, NL, chr CHR '' '', chr CHR ''O'', chr CHR ''o'', chr CHR ''X'', chr CHR ''x''}"

fun mb_loop :: "int \<Rightarrow> int list \<Rightarrow> int option" where
  "mb_loop key ks =
     (if closes_msgbox key then Some key else (case ks of [] \<Rightarrow> None | k # ks' \<Rightarrow> mb_loop k ks'))"

declare mb_loop.simps [simp del]

definition mb_frame :: "int \<Rightarrow> int \<Rightarrow> string option \<Rightarrow> bool \<Rightarrow> placed list \<Rightarrow> wcall list" where
  "mb_frame height width title pause prompt =
     draw_box 0 0 height width Dialog_attr Border_attr @ title_bar width title @
     [Wattrset (Some Dialog_attr)] @ place_words prompt @
     (if pause then separator height width @ print_button ''  Ok  '' (height - 2) (width div 2 - 4) True else []) @
     [Refresh]"

text \<open>What was drawn, and the value returned once the box is closed.\<close>

definition dialog_msgbox ::
  "(int \<times> int \<Rightarrow> string \<Rightarrow> int \<times> int) \<Rightarrow> int \<Rightarrow> int \<Rightarrow> string option \<Rightarrow> string \<Rightarrow> bool \<Rightarrow> int list \<Rightarrow>
     (wcall list \<times> int option) option" where
  "dialog_msgbox adv height width title prompt pause keys =
     map_option (\<lambda>ps. (mb_frame height width title pause ps,
         map_option (\<lambda>key. if key = ESC then -1 else 0) (if pause then mb_loop 0 keys else Some NL)))
       (print_autowrap adv prompt (width - 2) 1 2)"

section \<open>The command line\<close>

datatype jumper = J_menu | J_checklist | J_radiolist | J_yesno | J_textbox | J_inputbox | J_msgbox | J_infobox

text \<open>Name, least and greatest number of arguments (0: no limit), modulus, and function of a mode.\<close>

definition modes :: "(string \<times> nat \<times> nat \<times> nat \<times> jumper) list" where
  "modes =
     [(''--menu'', 9, 0, 3, J_menu), (''--checklist'', 9, 0, 3, J_checklist),
      (''--radiolist'', 9, 0, 3, J_radiolist), (''--yesno'', 5, 5, 1, J_yesno),
      (''--textbox'', 5, 5, 1, J_textbox), (''--inputbox'', 5, 6, 1, J_inputbox),
      (''--msgbox'', 5, 5, 1, J_msgbox), (''--infobox'', 5, 5, 1, J_infobox)]"

record cd_opts =
  title_opt :: "string option"
  backtitle :: "string option"
  clear_screen :: bool

datatype cd_parse = Usage | Clear_only | Overrun | Run jumper cd_opts "string list"

text \<open>
  The common options, over the arguments that are left (\<open>argv\<close> from \<open>offset + 1\<close> on). Behind the
  last argument there is a null pointer, which \<open>--backtitle\<close> takes as its argument; the next
  argument is then read from beyond the vector.
\<close>

definition look_for_mode :: "cd_opts \<Rightarrow> string list \<Rightarrow> cd_parse" where
  "look_for_mode opts args =
     (case args of [] \<Rightarrow> Usage
      | a # _ \<Rightarrow>
          (case find (\<lambda>m. a = fst m) modes of
             None \<Rightarrow> Usage
           | Some (_, argmin, argmax, _, j) \<Rightarrow>
               (let n = length args + 1
                in if n < argmin then Usage
                   else if argmax \<noteq> 0 \<and> n > argmax then Usage
                   else Run j opts args)))"

fun common_opts :: "nat \<Rightarrow> cd_opts \<Rightarrow> string list \<Rightarrow> cd_parse" where
  "common_opts argc opts [] = look_for_mode opts []"
| "common_opts argc opts (a # args) =
     (if a = ''--title''
      then (case args of [] \<Rightarrow> Usage
            | t # rest \<Rightarrow> if title_opt opts \<noteq> None then Usage
                          else common_opts argc (opts\<lparr>title_opt := Some t\<rparr>) rest)
      else if a = ''--backtitle''
      then (if backtitle opts \<noteq> None then Usage
            else (case args of [] \<Rightarrow> Overrun
                  | t # rest \<Rightarrow> common_opts argc (opts\<lparr>backtitle := Some t\<rparr>) rest))
      else if a = ''--clear''
      then (if clear_screen opts then Usage
            else if argc = 2 then Clear_only
            else common_opts argc (opts\<lparr>clear_screen := True\<rparr>) args)
      else look_for_mode opts (a # args))"

text \<open>\<open>argv\<close> includes the name of the program.\<close>

definition cd_parse :: "string list \<Rightarrow> cd_parse" where
  "cd_parse argv =
     (if length argv < 2 then Usage
      else common_opts (length argv) \<lparr>title_opt = None, backtitle = None, clear_screen = False\<rparr> (tl argv))"

section \<open>Running a mode\<close>

text \<open>What the run depends on: how curses places the prompt, the scroll file, and the files.\<close>

record cd_env =
  ce_adv :: "int \<times> int \<Rightarrow> string \<Rightarrow> int \<times> int"
  ce_getyx :: "wcall list \<Rightarrow> int \<times> int"
  ce_scrltmp :: "int option option"
  ce_file :: "string \<Rightarrow> string option"

datatype cd_run = Waiting | Exited int string | Usage_exit | Crashed

text \<open>The items of a menu, tag and text, from the arguments; \<open>None\<close> is a null pointer among them.\<close>

fun menu_items :: "nat \<Rightarrow> string list \<Rightarrow> (string \<times> string) list option" where
  "menu_items 0 xs = Some []"
| "menu_items (Suc n) (t # x # xs) = map_option (\<lambda>is. (t, x) # is) (menu_items n xs)"
| "menu_items (Suc n) xs = None"

fun check_items :: "nat \<Rightarrow> string list \<Rightarrow> (string \<times> string \<times> string) list option" where
  "check_items 0 xs = Some []"
| "check_items (Suc n) (t # x # st # xs) = map_option (\<lambda>is. (t, x, st) # is) (check_items n xs)"
| "check_items (Suc n) xs = None"

text \<open>\<open>args\<close> is \<open>av\<close> from its element 1 on, the name of the mode.\<close>

definition menu_of :: "cd_env \<Rightarrow> string list \<Rightarrow> menu option" where
  "menu_of e args =
     map_option (\<lambda>is. \<lparr>mn_items = is, mn_height = atoi (args ! 2), mn_width = atoi (args ! 3),
        mn_menu_height = atoi (args ! 4), mn_getyx = ce_getyx e, mn_adv = ce_adv e\<rparr>)
       (menu_items ((length args + 1 - 6) div 2) (drop 6 args))"

definition list_of_args :: "cd_env \<Rightarrow> bool \<Rightarrow> string list \<Rightarrow> checklist option" where
  "list_of_args e flag args =
     map_option (\<lambda>is. \<lparr>cl_items = is, cl_height = atoi (args ! 2), cl_width = atoi (args ! 3),
        list_height = atoi (args ! 4), flag_check = flag, cl_adv = ce_adv e\<rparr>)
       (check_items ((length args + 1 - 6) div 3) (drop 5 args))"

definition j_menu :: "cd_env \<Rightarrow> string option \<Rightarrow> string list \<Rightarrow> int list \<Rightarrow> cd_run" where
  "j_menu e t args keys =
     (case menu_of e args of None \<Rightarrow> Crashed
      | Some m \<Rightarrow>
          (case dialog_menu m t (args ! 1) (args ! 5) (ce_scrltmp e) keys of
             None \<Rightarrow> Crashed | Some (Inl s) \<Rightarrow> Waiting | Some (Inr r) \<Rightarrow> Exited (mr_return r) (mr_stderr r)))"

definition j_list :: "cd_env \<Rightarrow> bool \<Rightarrow> string option \<Rightarrow> string list \<Rightarrow> int list \<Rightarrow> cd_run" where
  "j_list e flag t args keys =
     (case list_of_args e flag args of None \<Rightarrow> Crashed
      | Some m \<Rightarrow>
          (case dialog_checklist m t (args ! 1) keys of
             None \<Rightarrow> Crashed | Some (Inl s) \<Rightarrow> Waiting | Some (Inr (ret, out)) \<Rightarrow> Exited ret out))"

definition j_checklist :: "cd_env \<Rightarrow> string option \<Rightarrow> string list \<Rightarrow> int list \<Rightarrow> cd_run" where
  "j_checklist e t args keys = j_list e True t args keys"

definition j_radiolist :: "cd_env \<Rightarrow> string option \<Rightarrow> string list \<Rightarrow> int list \<Rightarrow> cd_run" where
  "j_radiolist e t args keys = j_list e False t args keys"

definition j_yesno :: "cd_env \<Rightarrow> string option \<Rightarrow> string list \<Rightarrow> int list \<Rightarrow> cd_run" where
  "j_yesno e t args keys =
     (case dialog_yesno (ce_adv e) \<lparr>yn_height = atoi (args ! 2), yn_width = atoi (args ! 3)\<rparr> t (args ! 1) keys of
        None \<Rightarrow> Crashed | Some (Inl s) \<Rightarrow> Waiting | Some (Inr r) \<Rightarrow> Exited r [])"

text \<open>A file that cannot be opened ends the program.\<close>

definition j_textbox :: "cd_env \<Rightarrow> string option \<Rightarrow> string list \<Rightarrow> int list \<Rightarrow> cd_run" where
  "j_textbox e t args keys =
     (case ce_file e (args ! 1) of
        None \<Rightarrow> Exited (-1) (newline # ''Can'' @ [CHR 0x27] @ ''t open input file in dialog_textbox().'' @ [newline])
      | Some f \<Rightarrow>
          (case dialog_textbox \<lparr>tb_file = f, tb_height = atoi (args ! 2), tb_width = atoi (args ! 3)\<rparr> t keys of
             Inl s \<Rightarrow> Waiting | Inr (Returned r) \<Rightarrow> Exited r [] | Inr _ \<Rightarrow> Exited (-1) []))"

text \<open>
  The text that was entered is the format of the output: what a percent sign in it does is not
  defined.
\<close>

definition j_inputbox :: "cd_env \<Rightarrow> string option \<Rightarrow> string list \<Rightarrow> int list \<Rightarrow> cd_run" where
  "j_inputbox e t args keys =
     (case dialog_inputbox \<lparr>ib_height = atoi (args ! 2), ib_width = atoi (args ! 3), ib_getyx = ce_getyx e, ib_adv = ce_adv e\<rparr>
             t (args ! 1) (if length args + 1 = 6 then Some (args ! 4) else None) keys of
        None \<Rightarrow> Crashed | Some (Inl s) \<Rightarrow> Waiting
      | Some (Inr (ret, text)) \<Rightarrow>
          if ret = 0 then (if CHR ''%'' \<in> set text then Crashed else Exited ret text) else Exited ret [])"

definition j_box :: "cd_env \<Rightarrow> bool \<Rightarrow> string option \<Rightarrow> string list \<Rightarrow> int list \<Rightarrow> cd_run" where
  "j_box e pause t args keys =
     (case dialog_msgbox (ce_adv e) (atoi (args ! 2)) (atoi (args ! 3)) t (args ! 1) pause keys of
        None \<Rightarrow> Crashed | Some (_, None) \<Rightarrow> Waiting | Some (_, Some r) \<Rightarrow> Exited r [])"

fun run_mode :: "cd_env \<Rightarrow> jumper \<Rightarrow> string option \<Rightarrow> string list \<Rightarrow> int list \<Rightarrow> cd_run" where
  "run_mode e J_menu t args keys = j_menu e t args keys"
| "run_mode e J_checklist t args keys = j_checklist e t args keys"
| "run_mode e J_radiolist t args keys = j_radiolist e t args keys"
| "run_mode e J_yesno t args keys = j_yesno e t args keys"
| "run_mode e J_textbox t args keys = j_textbox e t args keys"
| "run_mode e J_inputbox t args keys = j_inputbox e t args keys"
| "run_mode e J_msgbox t args keys = j_box e True t args keys"
| "run_mode e J_infobox t args keys = j_box e False t args keys"

definition cd_main :: "cd_env \<Rightarrow> string list \<Rightarrow> int list \<Rightarrow> cd_run" where
  "cd_main e argv keys =
     (case cd_parse argv of
        Usage \<Rightarrow> Usage_exit
      | Clear_only \<Rightarrow> Exited 0 []
      | Overrun \<Rightarrow> Crashed
      | Run j opts args \<Rightarrow> run_mode e j (title_opt opts) args keys)"

section \<open>Lemmas\<close>

definition menu_args :: "(string \<times> string) list \<Rightarrow> string list" where
  "menu_args is = concat (map (\<lambda>(t, x). [t, x]) is)"

lemma menu_items_args: "menu_items (length is) (menu_args is @ rest) = Some is"
  by (induction "is") (auto simp: menu_args_def)

lemma length_menu_args: "length (menu_args is) = 2 * length is"
  by (induction "is") (auto simp: menu_args_def)

definition check_args :: "(string \<times> string \<times> string) list \<Rightarrow> string list" where
  "check_args is = concat (map (\<lambda>(t, x, st). [t, x, st]) is)"

lemma check_items_args: "check_items (length is) (check_args is @ rest) = Some is"
  by (induction "is") (auto simp: check_args_def)

lemma length_check_args: "length (check_args is) = 3 * length is"
  by (induction "is") (auto simp: check_args_def)

text \<open>The common options as a command line writes them.\<close>

definition opt_args :: "cd_opts \<Rightarrow> string list" where
  "opt_args o' =
     (case title_opt o' of None \<Rightarrow> [] | Some t \<Rightarrow> [''--title'', t]) @
     (case backtitle o' of None \<Rightarrow> [] | Some t \<Rightarrow> [''--backtitle'', t]) @
     (if clear_screen o' then [''--clear''] else [])"

lemma common_opts_args:
  assumes "argc \<noteq> 2" "a \<notin> {''--title'', ''--backtitle'', ''--clear''}"
  shows "common_opts argc \<lparr>title_opt = None, backtitle = None, clear_screen = False\<rparr> (opt_args o' @ a # rest) =
    look_for_mode o' (a # rest)"
proof -
  obtain t b c where "o' = \<lparr>title_opt = t, backtitle = b, clear_screen = c\<rparr>" by (cases o') auto
  then show ?thesis
    using assms by (cases t; cases b; cases c) (simp_all add: opt_args_def)
qed

text \<open>Yes/no: the answer by button depends on how often the focus was moved.\<close>

interpretation yn: loop_refinement "yn_key m" "\<lambda>s. yn_button s \<in> {0, 1}" "\<lambda>r. r \<in> {-1, 0, 1}" yn_button
    "\<lambda>k b b'. b' = (if k \<in> {TAB, KEY_LEFT, KEY_RIGHT} then 1 - b else b)" for m
  by unfold_locales (auto simp: yn_key_def yn_toggle_def Let_def key_defs split: if_splits)

lemma yn_key_Inr:
  "yn_key m k s = Inr r \<Longrightarrow>
     k \<in> {chr CHR ''Y'', chr CHR ''y''} \<and> r = 0 \<or> k \<in> {chr CHR ''N'', chr CHR ''n''} \<and> r = 1 \<or>
     k = ESC \<and> r = -1 \<or> k \<in> {chr CHR '' '', NL} \<and> r = yn_button s"
  by (auto simp: yn_key_def Let_def split: if_splits)

definition yn_moves :: "int list \<Rightarrow> nat" where
  "yn_moves ks = length (filter (\<lambda>k. k \<in> {TAB, KEY_LEFT, KEY_RIGHT}) ks)"

lemma yn_moves_fold:
  "b \<in> {0, 1} \<Longrightarrow>
     foldl (\<lambda>b k. if k \<in> {TAB, KEY_LEFT, KEY_RIGHT} then 1 - b else b) b ks = (b + int (yn_moves ks)) mod 2"
proof (induction ks arbitrary: b)
  case Nil
  then show ?case by (auto simp: yn_moves_def)
next
  case (Cons k ks)
  let ?b = "if k \<in> {TAB, KEY_LEFT, KEY_RIGHT} then 1 - b else b"
  have b: "?b \<in> {0, 1}" using Cons.prems by auto
  have "(?b + int (yn_moves ks)) mod 2 = (b + int (yn_moves (k # ks))) mod 2"
    using Cons.prems by (auto simp: yn_moves_def)
  with Cons.IH [OF b] show ?case by simp
qed

section \<open>Properties\<close>

text \<open>
  The command line reaches the boxes unchanged: after any of the common options, the tags and
  texts that follow \<open>--menu\<close>, and the triples that follow \<open>--checklist\<close>, are exactly the items
  of the menu or list that runs, with the sizes, the prompt and the current item given before them.
\<close>

theorem command_line_items:
  assumes "ms \<noteq> []" "cs \<noteq> []"
  shows "cd_main e (prog # opt_args o' @ [''--menu'', text, h, w, mh, cur] @ menu_args ms) keys =
      (case dialog_menu \<lparr>mn_items = ms, mn_height = atoi h, mn_width = atoi w, mn_menu_height = atoi mh,
               mn_getyx = ce_getyx e, mn_adv = ce_adv e\<rparr> (title_opt o') text cur (ce_scrltmp e) keys of
         None \<Rightarrow> Crashed | Some (Inl s) \<Rightarrow> Waiting | Some (Inr r) \<Rightarrow> Exited (mr_return r) (mr_stderr r)) \<and>
    cd_main e (prog # opt_args o' @ [''--checklist'', text, h, w, mh] @ check_args cs) keys =
      (case dialog_checklist \<lparr>cl_items = cs, cl_height = atoi h, cl_width = atoi w, list_height = atoi mh,
               flag_check = True, cl_adv = ce_adv e\<rparr> (title_opt o') text keys of
         None \<Rightarrow> Crashed | Some (Inl s) \<Rightarrow> Waiting | Some (Inr (ret, out)) \<Rightarrow> Exited ret out)"
proof -
  let ?m = "[''--menu'', text, h, w, mh, cur] @ menu_args ms"
  let ?c = "[''--checklist'', text, h, w, mh] @ check_args cs"
  have l: "1 \<le> length ms" "1 \<le> length cs" using assms by (simp_all add: Suc_leI)
  have "cd_parse (prog # opt_args o' @ ?m) = Run J_menu o' ?m"
    using l assms common_opts_args [of "length (prog # opt_args o' @ ?m)" "''--menu''" o' "tl ?m"]
    by (simp add: cd_parse_def look_for_mode_def modes_def length_menu_args)
  moreover have "menu_items ((length ?m + 1 - 6) div 2) (drop 6 ?m) = Some ms"
    using menu_items_args [of ms "[]"] by (simp add: length_menu_args)
  moreover have "cd_parse (prog # opt_args o' @ ?c) = Run J_checklist o' ?c"
    using l assms common_opts_args [of "length (prog # opt_args o' @ ?c)" "''--checklist''" o' "tl ?c"]
    by (simp add: cd_parse_def look_for_mode_def modes_def length_check_args)
  moreover have "check_items ((length ?c + 1 - 6) div 3) (drop 5 ?c) = Some cs"
    using check_items_args [of cs "[]"] by (simp add: length_check_args)
  ultimately show ?thesis
    by (simp add: cd_main_def j_menu_def menu_of_def j_checklist_def j_list_def list_of_args_def)
qed

lemma command_line_items_witness:
  "cd_parse [''dialog'', ''--title'', ''T'', ''--menu'', ''Pick'', ''12'', ''40'', ''3'', ''a'', ''a'', ''Alpha''] =
     Run J_menu \<lparr>title_opt = Some ''T'', backtitle = None, clear_screen = False\<rparr>
       [''--menu'', ''Pick'', ''12'', ''40'', ''3'', ''a'', ''a'', ''Alpha''] \<and>
   (\<forall>e. \<exists>r. cd_main e [''dialog'', ''--title'', ''T'', ''--menu'', ''Pick'', ''12'', ''40'', ''3'', ''a'', ''a'', ''Alpha''] [] = r \<and>
      r = (case dialog_menu \<lparr>mn_items = [(''a'', ''Alpha'')], mn_height = 12, mn_width = 40, mn_menu_height = 3,
               mn_getyx = ce_getyx e, mn_adv = ce_adv e\<rparr> (Some ''T'') ''Pick'' ''a'' (ce_scrltmp e) [] of
         None \<Rightarrow> Crashed | Some (Inl s) \<Rightarrow> Waiting | Some (Inr r) \<Rightarrow> Exited (mr_return r) (mr_stderr r)))"
proof -
  have a: "atoi ''12'' = 12" "atoi ''40'' = 40" "atoi ''3'' = 3"
    by (simp_all add: atoi_def read_int_def c_isspace_def c_isdigit_def c_digit_def code_def)
  have "cd_parse [''dialog'', ''--title'', ''T'', ''--menu'', ''Pick'', ''12'', ''40'', ''3'', ''a'', ''a'', ''Alpha''] =
     Run J_menu \<lparr>title_opt = Some ''T'', backtitle = None, clear_screen = False\<rparr>
       [''--menu'', ''Pick'', ''12'', ''40'', ''3'', ''a'', ''a'', ''Alpha'']"
    by (simp add: cd_parse_def look_for_mode_def modes_def)
  then show ?thesis
    using command_line_items [of "[(''a'', ''Alpha'')]" "[(''a'', ''Alpha'', ''on'')]" _ "''dialog''"
        "\<lparr>title_opt = Some ''T'', backtitle = None, clear_screen = False\<rparr>" "''Pick''" "''12''" "''40''" "''3''" "''a''" "[]"]
    by (simp add: opt_args_def menu_args_def a)
qed

text \<open>
  The answer of the yes/no box: the letters answer at once, escape gives -1, and return or
  space answers with the button that has the focus, yes (0) after an even number of moves and no
  (1) after an odd one.
\<close>

theorem yesno_answer:
  assumes "dialog_yesno adv m title prompt keys = Some (Inr r)"
  shows "\<exists>ks k rest. keys = ks @ k # rest \<and>
    (k \<in> {chr CHR ''Y'', chr CHR ''y''} \<and> r = 0 \<or> k \<in> {chr CHR ''N'', chr CHR ''n''} \<and> r = 1 \<or>
     k = ESC \<and> r = -1 \<or> k \<in> {chr CHR '' '', NL} \<and> r = int (yn_moves ks) mod 2)"
proof -
  from assms obtain ps where run: "run_loop (yn_key m) \<lparr>yn_button = 0, yn_out = yn_frame m title ps\<rparr> keys = Inr r"
    by (auto simp: dialog_yesno_def)
  then obtain ks k rest s where k: "keys = ks @ k # rest" and
    s: "run_loop (yn_key m) \<lparr>yn_button = 0, yn_out = yn_frame m title ps\<rparr> ks = Inl s" "yn_key m k s = Inr r"
    by (rule run_loop_InrE)
  let ?f = "\<lambda>k b. if k \<in> {TAB, KEY_LEFT, KEY_RIGHT} then 1 - b else b"
  have "trace (\<lambda>k b b'. b' = ?f k b) 0 ks (yn_button s)"
    using yn.run_trace [OF _ s(1)] by simp
  moreover have "trace (\<lambda>k b b'. b' = ?f k b) 0 ks (yn_button s) \<longleftrightarrow> yn_button s = foldl (\<lambda>b k. ?f k b) 0 ks"
    by (rule trace_det) (rule refl)
  moreover have "foldl (\<lambda>b k. ?f k b) 0 ks = int (yn_moves ks) mod 2"
    using yn_moves_fold [of 0 ks] by simp
  ultimately have "yn_button s = int (yn_moves ks) mod 2" by simp
  with yn_key_Inr [OF s(2)] k show ?thesis by blast
qed

lemma yesno_answer_witness:
  "dialog_yesno (\<lambda>(r, c) w. (r, c + int (length w))) \<lparr>yn_height = 8, yn_width = 40\<rparr> None ''Sure?'' [TAB, NL] =
     Some (Inr 1) \<and> int (yn_moves [TAB]) mod 2 = 1"
proof -
  have r: "dialog_yesno (\<lambda>(r, c) w. (r, c + int (length w))) \<lparr>yn_height = 8, yn_width = 40\<rparr> None ''Sure?'' [TAB, NL] =
     Some (Inr 1)"
    by (simp add: dialog_yesno_def print_autowrap_def MAX_LEN_def yn_key_def yn_toggle_def Let_def chr_def code_def key_defs)
  from yesno_answer [OF r] have "int (yn_moves [TAB]) mod 2 = 1"
    by (auto simp: Cons_eq_append_conv key_defs chr_def code_def yn_moves_def)
  with r show ?thesis by blast
qed


text \<open>
  The only command lines on which the option loop reads past the argument vector are those
  that end in \<open>--backtitle\<close>; where the option is given once and nothing precedes it, it does.
\<close>

theorem backtitle_overrun:
  "(cd_parse argv = Overrun \<longrightarrow> 2 \<le> length argv \<and> last argv = ''--backtitle'') \<and>
   cd_parse [prog, ''--backtitle''] = Overrun"
proof -
  have look: "look_for_mode opts args \<noteq> Overrun" for opts args
    by (auto simp: look_for_mode_def Let_def split: list.splits option.splits)
  have "args \<noteq> [] \<and> last args = ''--backtitle''" if "common_opts argc opts args = Overrun" for argc opts args
    using that
    by (induction argc opts args rule: common_opts.induct) (auto simp: look split: if_splits list.splits)
  from this [of "length argv" _ "tl argv"] show ?thesis
    by (cases argv) (auto simp: cd_parse_def Suc_le_eq split: if_splits)
qed

lemma backtitle_overrun_witness:
  "cd_parse [''dialog'', ''--clear'', ''--backtitle''] = Overrun \<and>
   last [''dialog'', ''--clear'', ''--backtitle''] = ''--backtitle''"
proof -
  have o: "cd_parse [''dialog'', ''--clear'', ''--backtitle''] = Overrun" by (simp add: cd_parse_def)
  with backtitle_overrun [of "[''dialog'', ''--clear'', ''--backtitle'']" "''dialog''"] show ?thesis by blast
qed

end
