(* ===== verification/Md5.thy ===== *)
theory Md5
  imports Prelude
begin

text \<open>
  The MD5 library of the Lua module (\<^verbatim>\<open>misc/luabash/md5/md5.c\<close>, \<^verbatim>\<open>md5.h\<close>, \<^verbatim>\<open>md5lib.c\<close>): the transformation of
  a block, the buffering of the input, padding and digest, on little- and big-endian machines
  with a 64-bit \<open>size\_t\<close>, and the specification of RFC 1321 it implements.
\<close>

unbundle bit_operations_syntax

type_synonym word32 = "32 word"
type_synonym byte = "8 word"

section \<open>Words in memory\<close>

definition le_bytes :: "word32 \<Rightarrow> byte list" where
  "le_bytes w = [ucast w, ucast (drop_bit 8 w), ucast (drop_bit 16 w), ucast (drop_bit 24 w)]"

definition le_word :: "byte list \<Rightarrow> word32" where
  "le_word src =
     push_bit 24 (ucast (src ! 3)) OR push_bit 16 (ucast (src ! 2)) OR push_bit 8 (ucast (src ! 1)) OR ucast (src ! 0)"

text \<open>A word as the machine stores it, and the bytes of an array of words.\<close>

definition store :: "bool \<Rightarrow> word32 \<Rightarrow> byte list" where
  "store big w = (if big then rev (le_bytes w) else le_bytes w)"

definition load :: "bool \<Rightarrow> byte list \<Rightarrow> word32" where
  "load big bs = le_word (if big then rev (take 4 bs) else take 4 bs)"

definition memory :: "bool \<Rightarrow> word32 list \<Rightarrow> byte list" where
  "memory big ws = concat (map (store big) ws)"

fun words_at :: "bool \<Rightarrow> byte list \<Rightarrow> nat \<Rightarrow> word32 list" where
  "words_at big bs 0 = []"
| "words_at big bs (Suc n) = load big bs # words_at big (drop 4 bs) n"

fun CopyToLittleEndian :: "byte list \<Rightarrow> nat \<Rightarrow> word32 list" where
  "CopyToLittleEndian src 0 = []"
| "CopyToLittleEndian src (Suc n) = le_word src # CopyToLittleEndian (drop 4 src) n"

section \<open>The transformation\<close>

datatype reg = RA | RB | RC | RD

record regs =
  ra :: word32
  rb :: word32
  rc :: word32
  rd :: word32

fun get_reg :: "reg \<Rightarrow> regs \<Rightarrow> word32" where
  "get_reg RA r = ra r" | "get_reg RB r = rb r" | "get_reg RC r = rc r" | "get_reg RD r = rd r"

fun put_reg :: "reg \<Rightarrow> word32 \<Rightarrow> regs \<Rightarrow> regs" where
  "put_reg RA w r = r\<lparr>ra := w\<rparr>" | "put_reg RB w r = r\<lparr>rb := w\<rparr>"
| "put_reg RC w r = r\<lparr>rc := w\<rparr>" | "put_reg RD w r = r\<lparr>rd := w\<rparr>"

definition rotate_left :: "word32 \<Rightarrow> nat \<Rightarrow> word32" where
  "rotate_left x n = push_bit n x OR drop_bit (32 - n) x"

datatype mix = FF | GG | HH | II

fun mix_fun :: "mix \<Rightarrow> word32 \<Rightarrow> word32 \<Rightarrow> word32 \<Rightarrow> word32" where
  "mix_fun FF x y z = z XOR (x AND (y XOR z))"
| "mix_fun GG x y z = y XOR (z AND (x XOR y))"
| "mix_fun HH x y z = x XOR y XOR z"
| "mix_fun II x y z = y XOR (x OR NOT z)"

text \<open>One line of the transformation: macro, registers, word of the block, shift and constant.\<close>

type_synonym instr = "mix \<times> (reg \<times> reg \<times> reg \<times> reg) \<times> nat \<times> nat \<times> word32"

fun exec_instr :: "word32 list \<Rightarrow> regs \<Rightarrow> instr \<Rightarrow> regs" where
  "exec_instr x r (m, (a, b, c, d), k, s, ac) =
     (let r1 = put_reg a (get_reg a r + (mix_fun m (get_reg b r) (get_reg c r) (get_reg d r) + x ! k + ac)) r;
          r2 = put_reg a (rotate_left (get_reg a r1) s) r1
      in put_reg a (get_reg a r2 + get_reg b r2) r2)"

definition md5_program :: "instr list" where
  "md5_program =
     [(FF, (RA, RB, RC, RD), 0, 7, 0xd76aa478), (FF, (RD, RA, RB, RC), 1, 12, 0xe8c7b756),
      (FF, (RC, RD, RA, RB), 2, 17, 0x242070db), (FF, (RB, RC, RD, RA), 3, 22, 0xc1bdceee),
      (FF, (RA, RB, RC, RD), 4, 7, 0xf57c0faf), (FF, (RD, RA, RB, RC), 5, 12, 0x4787c62a),
      (FF, (RC, RD, RA, RB), 6, 17, 0xa8304613), (FF, (RB, RC, RD, RA), 7, 22, 0xfd469501),
      (FF, (RA, RB, RC, RD), 8, 7, 0x698098d8), (FF, (RD, RA, RB, RC), 9, 12, 0x8b44f7af),
      (FF, (RC, RD, RA, RB), 10, 17, 0xffff5bb1), (FF, (RB, RC, RD, RA), 11, 22, 0x895cd7be),
      (FF, (RA, RB, RC, RD), 12, 7, 0x6b901122), (FF, (RD, RA, RB, RC), 13, 12, 0xfd987193),
      (FF, (RC, RD, RA, RB), 14, 17, 0xa679438e), (FF, (RB, RC, RD, RA), 15, 22, 0x49b40821),
      (GG, (RA, RB, RC, RD), 1, 5, 0xf61e2562), (GG, (RD, RA, RB, RC), 6, 9, 0xc040b340),
      (GG, (RC, RD, RA, RB), 11, 14, 0x265e5a51), (GG, (RB, RC, RD, RA), 0, 20, 0xe9b6c7aa),
      (GG, (RA, RB, RC, RD), 5, 5, 0xd62f105d), (GG, (RD, RA, RB, RC), 10, 9, 0x02441453),
      (GG, (RC, RD, RA, RB), 15, 14, 0xd8a1e681), (GG, (RB, RC, RD, RA), 4, 20, 0xe7d3fbc8),
      (GG, (RA, RB, RC, RD), 9, 5, 0x21e1cde6), (GG, (RD, RA, RB, RC), 14, 9, 0xc33707d6),
      (GG, (RC, RD, RA, RB), 3, 14, 0xf4d50d87), (GG, (RB, RC, RD, RA), 8, 20, 0x455a14ed),
      (GG, (RA, RB, RC, RD), 13, 5, 0xa9e3e905), (GG, (RD, RA, RB, RC), 2, 9, 0xfcefa3f8),
      (GG, (RC, RD, RA, RB), 7, 14, 0x676f02d9), (GG, (RB, RC, RD, RA), 12, 20, 0x8d2a4c8a),
      (HH, (RA, RB, RC, RD), 5, 4, 0xfffa3942), (HH, (RD, RA, RB, RC), 8, 11, 0x8771f681),
      (HH, (RC, RD, RA, RB), 11, 16, 0x6d9d6122), (HH, (RB, RC, RD, RA), 14, 23, 0xfde5380c),
      (HH, (RA, RB, RC, RD), 1, 4, 0xa4beea44), (HH, (RD, RA, RB, RC), 4, 11, 0x4bdecfa9),
      (HH, (RC, RD, RA, RB), 7, 16, 0xf6bb4b60), (HH, (RB, RC, RD, RA), 10, 23, 0xbebfbc70),
      (HH, (RA, RB, RC, RD), 13, 4, 0x289b7ec6), (HH, (RD, RA, RB, RC), 0, 11, 0xeaa127fa),
      (HH, (RC, RD, RA, RB), 3, 16, 0xd4ef3085), (HH, (RB, RC, RD, RA), 6, 23, 0x04881d05),
      (HH, (RA, RB, RC, RD), 9, 4, 0xd9d4d039), (HH, (RD, RA, RB, RC), 12, 11, 0xe6db99e5),
      (HH, (RC, RD, RA, RB), 15, 16, 0x1fa27cf8), (HH, (RB, RC, RD, RA), 2, 23, 0xc4ac5665),
      (II, (RA, RB, RC, RD), 0, 6, 0xf4292244), (II, (RD, RA, RB, RC), 7, 10, 0x432aff97),
      (II, (RC, RD, RA, RB), 14, 15, 0xab9423a7), (II, (RB, RC, RD, RA), 5, 21, 0xfc93a039),
      (II, (RA, RB, RC, RD), 12, 6, 0x655b59c3), (II, (RD, RA, RB, RC), 3, 10, 0x8f0ccc92),
      (II, (RC, RD, RA, RB), 10, 15, 0xffeff47d), (II, (RB, RC, RD, RA), 1, 21, 0x85845dd1),
      (II, (RA, RB, RC, RD), 8, 6, 0x6fa87e4f), (II, (RD, RA, RB, RC), 15, 10, 0xfe2ce6e0),
      (II, (RC, RD, RA, RB), 6, 15, 0xa3014314), (II, (RB, RC, RD, RA), 13, 21, 0x4e0811a1),
      (II, (RA, RB, RC, RD), 4, 6, 0xf7537e82), (II, (RD, RA, RB, RC), 11, 10, 0xbd3af235),
      (II, (RC, RD, RA, RB), 2, 15, 0x2ad7d2bb), (II, (RB, RC, RD, RA), 9, 21, 0xeb86d391)]"

text \<open>The words of the block: native loads, or explicit little-endian ones on a big-endian machine.\<close>

definition block_words :: "bool \<Rightarrow> byte list \<Rightarrow> word32 list" where
  "block_words big inp = (if big then CopyToLittleEndian inp 16 else words_at big inp 16)"

fun md5_transform :: "bool \<Rightarrow> regs \<Rightarrow> byte list \<Rightarrow> nat \<Rightarrow> regs" where
  "md5_transform big state inp 0 = state"
| "md5_transform big state inp (Suc repeat) =
     (let r = foldl (exec_instr (block_words big inp)) state md5_program
      in md5_transform big
           \<lparr>ra = ra r + ra state, rb = rb r + rb state, rc = rc r + rc state, rd = rd r + rd state\<rparr>
           (drop 64 inp) repeat)"

section \<open>The context\<close>

record md5_ctx =
  md5_state :: regs
  count0 :: word32
  count1 :: word32
  md5_buffer :: "byte list"

text \<open>What the buffer holds at first is not defined.\<close>

definition md5_init :: "byte list \<Rightarrow> md5_ctx" where
  "md5_init junk =
     \<lparr>md5_state = \<lparr>ra = 0x67452301, rb = 0xefcdab89, rc = 0x98badcfe, rd = 0x10325476\<rparr>,
      count0 = 0, count1 = 0, md5_buffer = junk\<rparr>"

definition memcpy :: "byte list \<Rightarrow> nat \<Rightarrow> byte list \<Rightarrow> byte list" where
  "memcpy dst off src = take off dst @ src @ drop (off + length src) dst"

definition byte_index :: "md5_ctx \<Rightarrow> nat" where
  "byte_index c = unat (drop_bit 3 (count0 c) AND 0x3F)"

text \<open>
  The count of bits. The comparison that finds the carry is made in the width of \<open>size\_t\<close>, the
  addition before it in 32 bits.
\<close>

definition add_count :: "nat \<Rightarrow> md5_ctx \<Rightarrow> md5_ctx" where
  "add_count n c =
     (let c0 = count0 c + word_of_nat (8 * n);
          c1 = (if unat c0 < (8 * n) mod 2 ^ 64 then count1 c + 1 else count1 c)
      in c\<lparr>count0 := c0, count1 := c1 + word_of_nat (n div 2 ^ 29)\<rparr>)"

definition md5_update :: "bool \<Rightarrow> md5_ctx \<Rightarrow> byte list \<Rightarrow> md5_ctx" where
  "md5_update big c0 inp =
     (let idx = byte_index c0;
          c = add_count (length inp) c0;
          part = 64 - idx
      in if length inp \<ge> part
         then (let b = memcpy (md5_buffer c) idx (take part inp);
                   s1 = md5_transform big (md5_state c) b 1;
                   len = (length inp - part) div 64;
                   s2 = md5_transform big s1 (drop part inp) len;
                   i = part + 64 * len
               in c\<lparr>md5_state := s2, md5_buffer := memcpy b 0 (drop i inp)\<rparr>)
         else c\<lparr>md5_buffer := memcpy (md5_buffer c) idx inp\<rparr>)"

definition final_block :: "byte list" where
  "final_block = 0x80 # replicate 63 0"

text \<open>A copy of words in little-endian order, as both machines make it.\<close>

definition copy_out :: "bool \<Rightarrow> word32 list \<Rightarrow> byte list" where
  "copy_out big ws =
     (if big then memory big (CopyToLittleEndian (memory big ws) (length ws)) else memory big ws)"

definition zero_ctx :: md5_ctx where
  "zero_ctx = \<lparr>md5_state = \<lparr>ra = 0, rb = 0, rc = 0, rd = 0\<rparr>, count0 = 0, count1 = 0, md5_buffer = replicate 64 0\<rparr>"

definition md5_final :: "bool \<Rightarrow> md5_ctx \<Rightarrow> byte list \<times> md5_ctx" where
  "md5_final big c =
     (let idx = byte_index c;
          len = (if idx < 56 then 56 else 120) - idx;
          bits = copy_out big [count0 c, count1 c];
          c1 = md5_update big c (take len final_block);
          c2 = md5_update big c1 bits;
          s = md5_state c2
      in (copy_out big [ra s, rb s, rc s, rd s], zero_ctx))"

section \<open>The Lua function\<close>

text \<open>The argument is a string or an open file, which is read in blocks of 4096 bytes.\<close>

datatype md5_arg = Message "byte list" | File "byte list"

function fread_blocks :: "nat \<Rightarrow> byte list \<Rightarrow> byte list list" where
  "fread_blocks n f = (if n = 0 \<or> f = [] then [] else take n f # fread_blocks n (drop n f))"
  by pat_completeness auto
termination
  by (relation "measure (\<lambda>(n, f). length f)") auto

declare fread_blocks.simps [simp del]

definition lmd5 :: "bool \<Rightarrow> byte list \<Rightarrow> md5_arg \<Rightarrow> byte list" where
  "lmd5 big junk arg =
     (let c = (case arg of
                 File f \<Rightarrow> foldl (md5_update big) (md5_init junk) (fread_blocks (1024 * 4) f)
               | Message m \<Rightarrow> md5_update big (md5_init junk) m)
      in fst (md5_final big c))"

section \<open>The specification\<close>

text \<open>RFC 1321: the functions, the constants, and the order in which the words are used.\<close>

definition spec_f :: "nat \<Rightarrow> word32 \<Rightarrow> word32 \<Rightarrow> word32 \<Rightarrow> word32" where
  "spec_f i x y z =
     (if i < 16 then (x AND y) OR (NOT x AND z)
      else if i < 32 then (x AND z) OR (y AND NOT z)
      else if i < 48 then x XOR y XOR z
      else y XOR (x OR NOT z))"

definition spec_index :: "nat \<Rightarrow> nat" where
  "spec_index i =
     (if i < 16 then i else if i < 32 then (5 * i + 1) mod 16
      else if i < 48 then (3 * i + 5) mod 16 else (7 * i) mod 16)"

definition spec_shift :: "nat \<Rightarrow> nat" where
  "spec_shift i = [[7, 12, 17, 22], [5, 9, 14, 20], [4, 11, 16, 23], [6, 10, 15, 21]] ! (i div 16) ! (i mod 4)"

definition spec_const :: "word32 list" where
  "spec_const =
     [0xd76aa478, 0xe8c7b756, 0x242070db, 0xc1bdceee, 0xf57c0faf, 0x4787c62a, 0xa8304613, 0xfd469501,
      0x698098d8, 0x8b44f7af, 0xffff5bb1, 0x895cd7be, 0x6b901122, 0xfd987193, 0xa679438e, 0x49b40821,
      0xf61e2562, 0xc040b340, 0x265e5a51, 0xe9b6c7aa, 0xd62f105d, 0x02441453, 0xd8a1e681, 0xe7d3fbc8,
      0x21e1cde6, 0xc33707d6, 0xf4d50d87, 0x455a14ed, 0xa9e3e905, 0xfcefa3f8, 0x676f02d9, 0x8d2a4c8a,
      0xfffa3942, 0x8771f681, 0x6d9d6122, 0xfde5380c, 0xa4beea44, 0x4bdecfa9, 0xf6bb4b60, 0xbebfbc70,
      0x289b7ec6, 0xeaa127fa, 0xd4ef3085, 0x04881d05, 0xd9d4d039, 0xe6db99e5, 0x1fa27cf8, 0xc4ac5665,
      0xf4292244, 0x432aff97, 0xab9423a7, 0xfc93a039, 0x655b59c3, 0x8f0ccc92, 0xffeff47d, 0x85845dd1,
      0x6fa87e4f, 0xfe2ce6e0, 0xa3014314, 0x4e0811a1, 0xf7537e82, 0xbd3af235, 0x2ad7d2bb, 0xeb86d391]"

type_synonym chain = "word32 \<times> word32 \<times> word32 \<times> word32"

fun spec_step :: "word32 list \<Rightarrow> chain \<Rightarrow> nat \<Rightarrow> chain" where
  "spec_step x (a, b, c, d) i =
     (d, b + word_rotl (spec_shift i) (a + spec_f i b c d + spec_const ! i + x ! spec_index i), b, c)"

fun spec_compress :: "chain \<Rightarrow> word32 list \<Rightarrow> chain" where
  "spec_compress (a, b, c, d) x =
     (case foldl (spec_step x) (a, b, c, d) [0..<64] of (a', b', c', d') \<Rightarrow> (a + a', b + b', c + c', d + d'))"

definition spec_pad :: "byte list \<Rightarrow> byte list" where
  "spec_pad m =
     m @ 0x80 # replicate ((119 - length m mod 64) mod 64) 0 @
     le_bytes (word_of_nat (8 * length m)) @ le_bytes (word_of_nat (8 * length m div 2 ^ 32))"

definition spec_md5 :: "byte list \<Rightarrow> byte list" where
  "spec_md5 m =
     (case foldl (\<lambda>h b. spec_compress h (words_at False b 16))
             (0x67452301, 0xefcdab89, 0x98badcfe, 0x10325476) (fread_blocks 64 (spec_pad m)) of
        (a, b, c, d) \<Rightarrow> concat (map le_bytes [a, b, c, d]))"


section \<open>The transformation implements the specification\<close>

text \<open>The mixing functions of the code are the shorter forms of those of the RFC.\<close>

definition op_of :: "nat \<Rightarrow> mix" where
  "op_of i = (if i < 16 then FF else if i < 32 then GG else if i < 48 then HH else II)"

lemma mix_spec: "mix_fun (op_of i) x y z = spec_f i x y z"
proof -
  have "z XOR (x AND (y XOR z)) = (x AND y) OR (NOT x AND z)"
    "y XOR (z AND (x XOR y)) = (x AND z) OR (y AND NOT z)"
    by (rule bit_word_eqI, auto simp: bit_simps)+
  then show ?thesis by (simp add: op_of_def spec_f_def)
qed

lemma rotate_left_rotl: "n < 32 \<Longrightarrow> 0 < n \<Longrightarrow> rotate_left x n = word_rotl n x"
proof (rule bit_word_eqI)
  fix m assume n: "n < 32" "0 < n" and "m < LENGTH(32)"
  then have m: "m < 32" by simp
  have l: "bit (rotate_left x n) m \<longleftrightarrow> n \<le> m \<and> bit x (m - n) \<or> bit x (32 - n + m)"
    using m by (simp add: rotate_left_def bit_or_iff bit_push_bit_iff bit_drop_bit_eq)
  have r: "bit (word_rotl n x) m \<longleftrightarrow> bit x ((m + (32 - n)) mod 32)"
    using m n by (simp add: bit_word_rotl_iff)
  show "bit (rotate_left x n) m \<longleftrightarrow> bit (word_rotl n x) m"
  proof (cases "n \<le> m")
    case True
    then have e: "m + (32 - n) = (m - n) + 32" "32 - n + m = (m - n) + 32" using n by simp_all
    have "\<not> bit x ((m - n) + 32)" using bit_imp_le_length [of x "(m - n) + 32"] by auto
    moreover have "(m - n + 32) mod 32 = m - n" using m by (subst mod_add_self2) simp
    ultimately show ?thesis using True unfolding l r e by presburger
  next
    case False
    then have e: "(m + (32 - n)) mod 32 = 32 - n + m" using n m by simp
    from False show ?thesis unfolding l r e by simp
  qed
qed

text \<open>The registers stand still and the macros change places: the chain seen by line \<open>i\<close>.\<close>

definition slots :: "nat \<Rightarrow> reg \<times> reg \<times> reg \<times> reg" where
  "slots i = [(RA, RB, RC, RD), (RD, RA, RB, RC), (RC, RD, RA, RB), (RB, RC, RD, RA)] ! (i mod 4)"

definition chain_at :: "nat \<Rightarrow> regs \<Rightarrow> chain" where
  "chain_at i r = (case slots i of (a, b, c, d) \<Rightarrow> (get_reg a r, get_reg b r, get_reg c r, get_reg d r))"

lemma program_table:
  "md5_program = map (\<lambda>i. (op_of i, slots i, spec_index i, spec_shift i, spec_const ! i)) [0..<64]"
  by code_simp

lemma shift_bound: "i < 64 \<Longrightarrow> 0 < spec_shift i \<and> spec_shift i < 32"
proof -
  have "list_all (\<lambda>i. 0 < spec_shift i \<and> spec_shift i < 32) [0..<64]" by code_simp
  then show "i < 64 \<Longrightarrow> 0 < spec_shift i \<and> spec_shift i < 32" by (simp add: list_all_iff)
qed

lemma instr_step:
  assumes "i < 64"
  shows "chain_at (Suc i) (exec_instr x r (op_of i, slots i, spec_index i, spec_shift i, spec_const ! i)) =
    spec_step x (chain_at i r) i"
proof -
  have c: "i mod 4 = 0 \<and> Suc i mod 4 = 1 \<or> i mod 4 = 1 \<and> Suc i mod 4 = 2 \<or>
      i mod 4 = 2 \<and> Suc i mod 4 = 3 \<or> i mod 4 = 3 \<and> Suc i mod 4 = 0"
    by presburger
  show ?thesis
    using c shift_bound [OF assms]
    by (elim disjE conjE) (simp_all add: chain_at_def slots_def mix_spec rotate_left_rotl ac_simps Let_def)
qed

lemma program_steps:
  "n \<le> 64 \<Longrightarrow>
     chain_at n (foldl (exec_instr x) r (map (\<lambda>i. (op_of i, slots i, spec_index i, spec_shift i, spec_const ! i)) [0..<n])) =
     foldl (spec_step x) (chain_at 0 r) [0..<n]"
  by (induction n) (simp_all add: instr_step)

definition chain_of :: "regs \<Rightarrow> chain" where
  "chain_of r = (ra r, rb r, rc r, rd r)"

lemma chain_at_0: "chain_at 0 r = chain_of r" and chain_at_64: "chain_at 64 r = chain_of r"
  by (simp_all add: chain_at_def chain_of_def slots_def)

section \<open>Blocks\<close>

lemma load_take: "le_word (take 4 bs) = le_word bs"
  by (simp add: le_word_def)

lemma CopyToLittleEndian_words: "CopyToLittleEndian bs n = words_at False bs n"
  by (induction n arbitrary: bs) (simp_all add: load_def load_take)

lemma block_words: "block_words big bs = words_at False bs 16"
  by (simp add: block_words_def CopyToLittleEndian_words)

lemma words_at_take: "4 * n \<le> k \<Longrightarrow> words_at False (take k bs) n = words_at False bs n"
proof (induction n arbitrary: k bs)
  case 0
  then show ?case by simp
next
  case (Suc n)
  then show ?case using Suc.IH [of "k - 4" "drop 4 bs"] by (simp add: load_def drop_take min_def)
qed

definition hash_block :: "chain \<Rightarrow> byte list \<Rightarrow> chain" where
  "hash_block h b = spec_compress h (words_at False b 16)"

lemma transform_one:
  "chain_of \<lparr>ra = ra r + ra s, rb = rb r + rb s, rc = rc r + rc s, rd = rd r + rd s\<rparr> =
     hash_block (chain_of s) (take 64 b)"
  if "r = foldl (exec_instr (block_words big b)) s md5_program"
proof -
  have "chain_of r = foldl (spec_step (words_at False b 16)) (chain_of s) [0..<64]"
    unfolding that program_table block_words
    using program_steps [of 64 "words_at False b 16" s] by (simp add: chain_at_0 chain_at_64 del: upt_rec_numeral)
  then show ?thesis
    by (simp add: hash_block_def words_at_take chain_of_def del: upt_rec_numeral) (metis (no_types) add.commute case_prod_conv)
qed

lemma fread_blocks_Nil [simp]: "fread_blocks n [] = []"
  by (simp add: fread_blocks.simps)

lemma fread_blocks_Cons: "0 < n \<Longrightarrow> bs \<noteq> [] \<Longrightarrow> fread_blocks n bs = take n bs # fread_blocks n (drop n bs)"
  by (subst fread_blocks.simps) simp

lemma fread_blocks_append: "0 < n \<Longrightarrow> n dvd length xs \<Longrightarrow> fread_blocks n (xs @ ys) = fread_blocks n xs @ fread_blocks n ys"
proof (induction n xs rule: fread_blocks.induct)
  case (1 n xs)
  show ?case
  proof (cases "xs = []")
    case False
    with "1.prems" have l: "n \<le> length xs" by (auto dest: dvd_imp_le)
    with "1.prems" have "n dvd length (drop n xs)" by simp
    with "1.IH" "1.prems" False l show ?thesis by (simp add: fread_blocks_Cons)
  qed simp
qed

lemma concat_fread_blocks: "0 < n \<Longrightarrow> concat (fread_blocks n bs) = bs"
proof (induction n bs rule: fread_blocks.induct)
  case (1 n bs)
  then show ?case by (cases "bs = []") (simp_all add: fread_blocks_Cons)
qed

lemma fread_blocks_length: "b \<in> set (fread_blocks n bs) \<Longrightarrow> length b \<le> n"
proof (induction n bs rule: fread_blocks.induct)
  case (1 n bs)
  then show ?case by (cases "n = 0 \<or> bs = []") (auto simp: fread_blocks.simps [of n bs])
qed

definition hash_blocks :: "chain \<Rightarrow> byte list \<Rightarrow> chain" where
  "hash_blocks h bs = foldl hash_block h (fread_blocks 64 bs)"

lemma hash_blocks_append: "64 dvd length xs \<Longrightarrow> hash_blocks h (xs @ ys) = hash_blocks (hash_blocks h xs) ys"
  by (simp add: hash_blocks_def fread_blocks_append)

lemma transform_blocks:
  "64 * n \<le> length bs \<Longrightarrow> chain_of (md5_transform big s bs n) = hash_blocks (chain_of s) (take (64 * n) bs)"
proof (induction n arbitrary: s bs)
  case 0
  then show ?case by (simp add: hash_blocks_def)
next
  case (Suc n)
  let ?r = "foldl (exec_instr (block_words big bs)) s md5_program"
  let ?s = "\<lparr>ra = ra ?r + ra s, rb = rb ?r + rb s, rc = rc ?r + rc s, rd = rd ?r + rd s\<rparr>"
  have s: "chain_of ?s = hash_block (chain_of s) (take 64 bs)"
    using transform_one [OF refl] by simp
  have "take (64 * Suc n) bs = take 64 bs @ take (64 * n) (drop 64 bs)"
    by (simp add: take_add)
  moreover have "hash_blocks h (take 64 bs) = hash_block h (take 64 bs)" for h
    using Suc.prems by (cases "bs = []") (simp_all add: hash_blocks_def fread_blocks_Cons)
  moreover have "64 dvd length (take 64 bs)" using Suc.prems by simp
  ultimately have "hash_blocks (chain_of s) (take (64 * Suc n) bs) =
      hash_blocks (hash_block (chain_of s) (take 64 bs)) (take (64 * n) (drop 64 bs))"
    by (simp only: hash_blocks_append)
  with Suc.IH [of "drop 64 bs" ?s] Suc.prems s show ?case by (simp add: Let_def)
qed


section \<open>Buffering\<close>

text \<open>
  What a context stands for: a message whose whole blocks have been hashed, with the rest at the
  start of the buffer, and its length in bits in the two words of the count.
\<close>

definition start_chain :: chain where
  "start_chain = (0x67452301, 0xefcdab89, 0x98badcfe, 0x10325476)"

definition count_of :: "nat \<Rightarrow> word32 \<times> word32" where
  "count_of n = (word_of_nat (8 * n), word_of_nat (8 * n div 2 ^ 32))"

definition md5_inv :: "md5_ctx \<Rightarrow> byte list \<Rightarrow> bool" where
  "md5_inv c m \<longleftrightarrow> (count0 c, count1 c) = count_of (length m) \<and> length (md5_buffer c) = 64 \<and>
     (\<exists>M R. m = M @ R \<and> 64 dvd length M \<and> length R < 64 \<and>
        chain_of (md5_state c) = hash_blocks start_chain M \<and> take (length R) (md5_buffer c) = R)"

lemma md5_invI:
  assumes "(count0 c, count1 c) = count_of (length (M @ R))" "length (md5_buffer c) = 64" "64 dvd length M"
    "length R < 64" "chain_of (md5_state c) = hash_blocks start_chain M" "take (length R) (md5_buffer c) = R"
  shows "md5_inv c (M @ R)"
  using assms unfolding md5_inv_def by blast

lemma div_carry: "(b :: nat) < k \<Longrightarrow> (a + b) div k = a div k + (if (a + b) mod k < b then 1 else 0)"
proof -
  assume b: "b < k"
  define r where "r = a mod k"
  have r: "r < k" using b by (simp add: r_def)
  have e: "a + b = (a div k) * k + (r + b)" by (simp add: r_def)
  have d: "(a + b) div k = a div k + (r + b) div k"
    by (subst e, rule div_mult_self3) (use b in simp)
  have m: "(a + b) mod k = (r + b) mod k" unfolding r_def by (simp add: mod_add_left_eq)
  show ?thesis
  proof (cases "r + b < k")
    case True
    then show ?thesis unfolding d m by simp
  next
    case False
    then have "r + b - k < k" "r + b - k < b" using r b by simp_all
    with False b have "(r + b) div k = 1" "(r + b) mod k < b" by (simp_all add: le_div_geq le_mod_geq)
    then show ?thesis unfolding d m by simp
  qed
qed

lemma add_count:
  assumes "(count0 c, count1 c) = count_of l" "n < 2 ^ 29"
  shows "(count0 (add_count n c), count1 (add_count n c)) = count_of (l + n)"
proof -
  have c: "count0 c = word_of_nat (8 * l)" "count1 c = word_of_nat (8 * l div 2 ^ 32)"
    using assms(1) by (simp_all add: count_of_def)
  have s: "count0 c + word_of_nat (8 * n) = word_of_nat (8 * (l + n))"
    by (simp add: c distrib_left)
  have u: "unat (word_of_nat (8 * (l + n)) :: word32) = (8 * l + 8 * n) mod 2 ^ 32"
    by (subst unat_of_nat) (simp add: distrib_left)
  have m: "(8 * n) mod 2 ^ 64 = 8 * n" "n div 2 ^ 29 = 0" using assms(2) by simp_all
  have d: "8 * (l + n) div 2 ^ 32 =
      8 * l div 2 ^ 32 + (if (8 * l + 8 * n) mod 2 ^ 32 < 8 * n then 1 else 0)"
    using div_carry [of "8 * n" "2 ^ 32" "8 * l"] assms(2) by (simp add: distrib_left)
  show ?thesis
    unfolding add_count_def Let_def count_of_def s u m d c(2) by simp
qed

lemma byte_index:
  assumes "(count0 c, count1 c) = count_of l"
  shows "byte_index c = l mod 64"
proof -
  have "x AND 63 = take_bit 6 x" for x :: word32 by (simp add: take_bit_eq_mask mask_eq_exp_minus_1)
  then have "byte_index c = unat (word_of_nat (8 * l) :: word32) div 8 mod 64"
    using assms
    by (simp add: byte_index_def count_of_def unsigned_take_bit_eq unat_drop_bit_eq take_bit_eq_mod drop_bit_eq_div
        unat_mod unat_div del: of_nat_mult)
  also have "unat (word_of_nat (8 * l) :: word32) = 8 * l mod (8 * 2 ^ 29)"
    by (subst unat_of_nat) simp
  also have "\<dots> div 8 mod 64 = l mod 64"
    unfolding mult_mod_right [symmetric] by (simp add: mod_mod_cancel)
  finally show ?thesis .
qed


lemma add_count_frame [simp]:
  "md5_state (add_count n c) = md5_state c" "md5_buffer (add_count n c) = md5_buffer c"
  by (simp_all add: add_count_def Let_def)

lemma md5_update_inv:
  assumes inv: "md5_inv c m" and n: "length inp < 2 ^ 29"
  shows "md5_inv (md5_update big c inp) (m @ inp)"
proof -
  from inv obtain M R where m: "m = M @ R" "64 dvd length M" "length R < 64"
    and chain: "chain_of (md5_state c) = hash_blocks start_chain M"
    and buf: "take (length R) (md5_buffer c) = R" "length (md5_buffer c) = 64"
    and count: "(count0 c, count1 c) = count_of (length m)"
    by (auto simp: md5_inv_def)
  have idx: "byte_index c = length R"
    using m by (simp add: byte_index [OF count] mod_add_left_eq [symmetric] dvd_imp_mod_0)
  let ?c = "add_count (length inp) c"
  have count': "(count0 ?c, count1 ?c) = count_of (length (m @ inp))"
    using add_count [OF count n] by simp
  let ?part = "64 - length R"
  show ?thesis
  proof (cases "?part \<le> length inp")
    case False
    then have "md5_update big c inp = ?c\<lparr>md5_buffer := memcpy (md5_buffer c) (length R) inp\<rparr>"
      by (simp add: md5_update_def idx Let_def)
    moreover have "md5_inv (?c\<lparr>md5_buffer := memcpy (md5_buffer c) (length R) inp\<rparr>) (M @ R @ inp)"
      using False m chain buf count' by (intro md5_invI) (simp_all add: memcpy_def)
    ultimately show ?thesis by (simp add: m(1))
  next
    case True
    define P where "P = take ?part inp"
    define len where "len = (length inp - ?part) div 64"
    define Q where "Q = take (64 * len) (drop ?part inp)"
    define T where "T = drop (?part + 64 * len) inp"
    have PQT: "inp = P @ Q @ T" by (simp add: P_def Q_def T_def add.commute flip: drop_drop)
    have l: "64 * len \<le> length inp - ?part" by (simp add: len_def)
    have lP: "length (R @ P) = 64" and lQ: "length Q = 64 * len" using True m(3) l by (simp_all add: P_def Q_def)
    have "length T = (length inp - ?part) mod 64" by (simp add: T_def len_def minus_mult_div_eq_mod [symmetric])
    then have lT: "length T < 64" by simp
    have b: "memcpy (md5_buffer c) (length R) P = R @ P" using buf lP by (simp add: memcpy_def)
    define s1 where "s1 = md5_transform big (md5_state c) (R @ P) 1"
    define s2 where "s2 = md5_transform big s1 (drop ?part inp) len"
    have "chain_of s1 = hash_blocks (hash_blocks start_chain M) (R @ P)"
      unfolding s1_def using transform_blocks [of 1 "R @ P"] lP by (simp add: chain)
    moreover have "chain_of s2 = hash_blocks (chain_of s1) Q"
      unfolding s2_def using transform_blocks [of len "drop ?part inp"] l by (simp add: Q_def)
    moreover have "64 dvd length (M @ R @ P @ Q)" using m(2) lP lQ by (simp add: add.assoc [symmetric])
    ultimately have "chain_of s2 = hash_blocks start_chain (M @ R @ P @ Q)"
      using m(2) lP hash_blocks_append [of M] hash_blocks_append [of "R @ P"] by simp
    moreover have "md5_update big c inp = ?c\<lparr>md5_state := s2, md5_buffer := memcpy (R @ P) 0 T\<rparr>"
      using True by (simp add: md5_update_def idx Let_def P_def [symmetric] b s1_def s2_def len_def T_def)
    moreover have "length (memcpy (R @ P) 0 T) = 64" "take (length T) (memcpy (R @ P) 0 T) = T"
      using lP lT by (simp_all add: memcpy_def)
    moreover have e: "m @ inp = (M @ R @ P @ Q) @ T" using PQT by (simp add: m(1))
    ultimately show ?thesis
      using count' lT \<open>64 dvd length (M @ R @ P @ Q)\<close> unfolding e by (intro md5_invI) simp_all
  qed
qed

interpretation md5: streaming "md5_update big" md5_inv "\<lambda>inp. length inp < 2 ^ 29" for big
  by unfold_locales (rule md5_update_inv)

lemma md5_init_inv: "length junk = 64 \<Longrightarrow> md5_inv (md5_init junk) []"
  by (simp add: md5_inv_def md5_init_def count_of_def chain_of_def start_chain_def hash_blocks_def)

section \<open>Byte order and digest\<close>

lemma le_bytes_word: "le_bytes (le_word [a, b, c, d]) = [a, b, c, d]"
proof -
  have "ucast (push_bit 24 (ucast d) OR push_bit 16 (ucast c) OR push_bit 8 (ucast b) OR ucast a :: word32) = a"
    "ucast (drop_bit 8 (push_bit 24 (ucast d) OR push_bit 16 (ucast c) OR push_bit 8 (ucast b) OR ucast a :: word32)) = b"
    "ucast (drop_bit 16 (push_bit 24 (ucast d) OR push_bit 16 (ucast c) OR push_bit 8 (ucast b) OR ucast a :: word32)) = c"
    "ucast (drop_bit 24 (push_bit 24 (ucast d) OR push_bit 16 (ucast c) OR push_bit 8 (ucast b) OR ucast a :: word32)) = d"
    for a b c d :: byte
    by (rule bit_word_eqI, auto simp: bit_simps dest: bit_imp_le_length)+
  then show ?thesis by (simp add: le_bytes_def le_word_def)
qed

lemma copy_to_le_memory:
  "CopyToLittleEndian (memory big ws) (length ws) = map (\<lambda>w. le_word (store big w)) ws"
  by (induction ws) (simp_all add: memory_def store_def le_bytes_def le_word_def)

lemma copy_out: "copy_out big ws = concat (map le_bytes ws)"
proof (cases big)
  case True
  have "rev (le_bytes (le_word (rev (le_bytes w)))) = le_bytes w" for w
    by (simp add: le_bytes_word le_bytes_def [of w])
  then show ?thesis using True copy_to_le_memory [of True ws]
    by (simp add: copy_out_def) (simp add: memory_def store_def o_def)
next
  case False
  moreover have "store False = le_bytes" by (simp add: fun_eq_iff store_def)
  ultimately show ?thesis by (simp add: copy_out_def memory_def)
qed

lemma fill_length:
  assumes "r < (64 :: nat)"
  shows "Suc ((119 - r) mod 64) = (if r < 56 then 56 else 120) - r"
proof (cases "r < 56")
  case True
  then have e: "119 - r = 55 - r + 64" by simp
  have "(119 - r) mod 64 = 55 - r" unfolding e by (subst mod_add_self2) simp
  with True show ?thesis by simp
next
  case False
  with assms have "(119 - r) mod 64 = 119 - r" by simp
  with False assms show ?thesis by simp
qed

lemma length_spec_pad: "64 dvd length (spec_pad m)"
proof -
  obtain q r where m: "length m = 64 * q + r" "r < 64"
    using that [of "length m div 64" "length m mod 64"] by simp
  have "length (spec_pad m) = 64 * q + (r + 8 + Suc ((119 - r) mod 64))"
    using m by (simp add: spec_pad_def le_bytes_def)
  moreover have "64 dvd r + 8 + Suc ((119 - r) mod 64)"
    unfolding fill_length [OF m(2)] using m(2) by (cases "r < 56") simp_all
  ultimately show ?thesis by simp
qed

lemma md5_final_digest:
  assumes inv: "md5_inv c m"
  shows "fst (md5_final big c) = spec_md5 m"
proof -
  let ?fill = "(119 - length m mod 64) mod 64"
  have count: "(count0 c, count1 c) = count_of (length m)" using inv by (simp add: md5_inv_def)
  let ?len = "(if byte_index c < 56 then 56 else 120) - byte_index c"
  let ?bits = "copy_out big [count0 c, count1 c]"
  have idx: "byte_index c = length m mod 64" by (rule byte_index [OF count])
  have "?len = Suc ?fill" unfolding idx by (rule fill_length [symmetric]) simp
  then have block: "take ?len final_block = 0x80 # replicate ?fill 0"
    by (simp add: final_block_def min_def)
  have bits: "?bits = le_bytes (word_of_nat (8 * length m)) @ le_bytes (word_of_nat (8 * length m div 2 ^ 32))"
    using count by (simp add: copy_out count_of_def)
  let ?c2 = "md5_update big (md5_update big c (take ?len final_block)) ?bits"
  have "length ?bits = 8" by (simp add: bits le_bytes_def)
  moreover have "length (take ?len final_block) \<le> 64" by (simp add: final_block_def)
  ultimately have "md5_inv ?c2 ((m @ take ?len final_block) @ ?bits)"
    by (intro md5_update_inv inv) simp_all
  moreover have "(m @ take ?len final_block) @ ?bits = spec_pad m" unfolding block bits spec_pad_def by simp
  ultimately have "md5_inv ?c2 (spec_pad m)" by (simp only:)
  then obtain M R where p: "spec_pad m = M @ R" "64 dvd length M" "length R < 64"
    and chain: "chain_of (md5_state ?c2) = hash_blocks start_chain M"
    by (auto simp: md5_inv_def)
  have "64 dvd length (spec_pad m)" by (rule length_spec_pad)
  then have "64 dvd length R" using p(1,2) by (simp add: dvd_add_right_iff)
  then have "R = []" using p(3) by (cases R) (auto dest: dvd_imp_le)
  then have "chain_of (md5_state ?c2) = hash_blocks start_chain (spec_pad m)" using chain p(1) by simp
  moreover have "fst (md5_final big c) =
      (case chain_of (md5_state ?c2) of (a, b, c, d) \<Rightarrow> concat (map le_bytes [a, b, c, d]))"
    by (simp only: md5_final_def Let_def fst_conv chain_of_def prod.case copy_out)
  ultimately show ?thesis by (simp add: spec_md5_def hash_blocks_def hash_block_def [abs_def] start_chain_def)
qed


section \<open>Properties\<close>

text \<open>
  C2. The digest does not depend on how the message is cut or on the byte order of the machine:
  fed in pieces of less than half a gigabyte each, a context that starts with any buffer ends
  with the digest of the whole message as RFC 1321 defines it, padding and length included.
\<close>

theorem md5_streams:
  assumes "length junk = 64" and "\<And>xs. xs \<in> set xss \<Longrightarrow> length xs < 2 ^ 29"
  shows "fst (md5_final big (foldl (md5_update big) (md5_init junk) xss)) = spec_md5 (concat xss)"
proof -
  have "md5_inv (foldl (md5_update big) (md5_init junk) xss) ([] @ concat xss)"
    by (rule md5.run_stands [OF md5_init_inv [OF assms(1)] assms(2)])
  then show ?thesis using md5_final_digest by simp
qed

text \<open>The digest of \<open>abc\<close>, the third example of the RFC.\<close>

lemma transform_abc:
  "md5_transform False \<lparr>ra = 0x67452301, rb = 0xefcdab89, rc = 0x98badcfe, rd = 0x10325476\<rparr>
     ([0x61, 0x62, 0x63, 0x80] @ replicate 52 0 @ [24, 0, 0, 0, 0, 0, 0, 0]) 1 =
   \<lparr>ra = 0x98500190, rb = 0xb04fd23c, rc = 0x7d3f96d6, rd = 0x727fe128\<rparr>"
  by code_simp

lemma spec_md5_abc:
  "spec_md5 [0x61, 0x62, 0x63] =
     [0x90, 0x01, 0x50, 0x98, 0x3c, 0xd2, 0x4f, 0xb0, 0xd6, 0x96, 0x3f, 0x7d, 0x28, 0xe1, 0x7f, 0x72]"
proof -
  let ?b = "[0x61, 0x62, 0x63, 0x80] @ replicate 52 0 @ [24, 0, 0, 0, 0, 0, 0, 0] :: byte list"
  have pad: "spec_pad [0x61, 0x62, 0x63] = ?b" by (simp add: spec_pad_def le_bytes_def)
  have "hash_blocks start_chain ?b = (0x98500190, 0xb04fd23c, 0x7d3f96d6, 0x727fe128)"
    using transform_blocks [of 1 ?b False "\<lparr>ra = 0x67452301, rb = 0xefcdab89, rc = 0x98badcfe, rd = 0x10325476\<rparr>"]
    unfolding transform_abc by (simp add: chain_of_def start_chain_def)
  then show ?thesis
    unfolding spec_md5_def pad
    by (simp add: hash_blocks_def hash_block_def [abs_def] start_chain_def le_bytes_def)
qed

lemma md5_streams_witness:
  "fst (md5_final True (foldl (md5_update True) (md5_init (replicate 64 7)) [[0x61], [], [0x62, 0x63]])) =
     [0x90, 0x01, 0x50, 0x98, 0x3c, 0xd2, 0x4f, 0xb0, 0xd6, 0x96, 0x3f, 0x7d, 0x28, 0xe1, 0x7f, 0x72]"
proof -
  have "fst (md5_final True (foldl (md5_update True) (md5_init (replicate 64 7)) [[0x61], [], [0x62, 0x63]])) =
      spec_md5 (concat [[0x61], [], [0x62, 0x63]])"
    by (rule md5_streams) auto
  then show ?thesis by (simp add: spec_md5_abc)
qed

text \<open>
  \<open>md5.dosum\<close>: the digest of a file is right for files of any length, however \<open>fread\<close> is
  used, and that of a string for strings of less than half a gigabyte.
\<close>

theorem dosum_digest:
  assumes "length junk = 64"
  shows "lmd5 big junk (File f) = spec_md5 f \<and> (length m < 2 ^ 29 \<longrightarrow> lmd5 big junk (Message m) = spec_md5 m)"
proof -
  have "md5_inv (foldl (md5_update big) (md5_init junk) (fread_blocks (1024 * 4) f)) ([] @ concat (fread_blocks (1024 * 4) f))"
    by (rule md5.run_stands [OF md5_init_inv [OF assms]]) (auto dest: fread_blocks_length)
  moreover have "md5_inv (md5_update big (md5_init junk) m) ([] @ m)" if "length m < 2 ^ 29"
    using md5_update_inv [OF md5_init_inv [OF assms] that] .
  ultimately show ?thesis
    by (auto simp: lmd5_def md5_final_digest concat_fread_blocks)
qed

lemma dosum_digest_witness:
  "lmd5 False (replicate 64 0) (Message [0x61, 0x62, 0x63]) =
     [0x90, 0x01, 0x50, 0x98, 0x3c, 0xd2, 0x4f, 0xb0, 0xd6, 0x96, 0x3f, 0x7d, 0x28, 0xe1, 0x7f, 0x72]"
  using dosum_digest [of "replicate 64 0" False "[]" "[0x61, 0x62, 0x63]"] by (simp add: spec_md5_abc)

text \<open>
  A string of half a gigabyte or more is counted wrongly: the carry is found by comparing a
  32-bit sum with a 64-bit length, so it is always taken, and the high word of the bit count
  comes out one too big.
\<close>

theorem long_string_count:
  assumes "2 ^ 29 \<le> length inp" "length inp < 2 ^ 31"
  shows "count0 (md5_update big (md5_init junk) inp) = fst (count_of (length inp)) \<and>
    count1 (md5_update big (md5_init junk) inp) = snd (count_of (length inp)) + 1"
proof -
  have f: "count0 (md5_update big c inp) = count0 (add_count (length inp) c)"
    "count1 (md5_update big c inp) = count1 (add_count (length inp) c)" for c
    by (simp_all add: md5_update_def Let_def)
  have "unat (word_of_nat (8 * length inp) :: word32) < 2 ^ 32"
    by (rule order_less_le_trans [OF unsigned_less]) simp
  also have "\<dots> \<le> 8 * length inp mod 2 ^ 64" using assms by simp
  finally have carry: "unat (word_of_nat (8 * length inp) :: word32) < 8 * length inp mod 2 ^ 64" .
  have "8 * length inp div 2 ^ 32 = length inp div 2 ^ 29" by simp
  with carry show ?thesis
    unfolding f by (simp only: md5_init_def add_count_def Let_def count_of_def) simp
qed

lemma long_string_count_witness:
  "count1 (md5_update False (md5_init (replicate 64 0)) (replicate (2 ^ 29) 0)) = 2 \<and> snd (count_of (2 ^ 29)) = 1"
  using long_string_count [of "replicate (2 ^ 29) 0" False "replicate 64 0"] by (simp add: count_of_def)

end
