(* ===== verification/ModeMuncher.thy ===== *)
theory ModeMuncher
  imports CLib
begin

text \<open>
  The mode strings of the posix library for Lua (\<^verbatim>\<open>misc/luabash/posix/modemuncher.c\<close>): changing a file
  mode as a string says, and writing a mode as a string.
\<close>

unbundle bit_operations_syntax

section \<open>Modes\<close>

type_synonym mode_t = "32 word"

definition S_ISUID :: mode_t where "S_ISUID = 2 ^ 11"
definition S_ISGID :: mode_t where "S_ISGID = 2 ^ 10"
definition S_IXUSR :: mode_t where "S_IXUSR = 2 ^ 6"
definition S_IXGRP :: mode_t where "S_IXGRP = 2 ^ 3"

text \<open>The letters of the nine places and their bits, from the read bit of the user on.\<close>

definition modesel :: "(char \<times> mode_t) list" where
  "modesel =
     [(CHR ''r'', 2 ^ 8), (CHR ''w'', 2 ^ 7), (CHR ''x'', 2 ^ 6),
      (CHR ''r'', 2 ^ 5), (CHR ''w'', 2 ^ 4), (CHR ''x'', 2 ^ 3),
      (CHR ''r'', 2 ^ 2), (CHR ''w'', 2 ^ 1), (CHR ''x'', 2 ^ 0)]"

section \<open>The long form\<close>

text \<open>
  One place. A letter that is not expected there leaves its bit as it was, unless it is an \<open>s\<close>
  in a place that has none.
\<close>

definition rwx_place :: "nat \<Rightarrow> char \<Rightarrow> mode_t \<Rightarrow> mode_t option" where
  "rwx_place count c mode =
     (if c = fst (modesel ! count) then Some (mode OR snd (modesel ! count))
      else if c = CHR ''-'' then Some (mode AND NOT (snd (modesel ! count)))
      else if c = CHR ''s''
      then (if count = 2 then Some (mode OR (S_ISUID OR S_IXUSR))
            else if count = 5 then Some (mode OR (S_ISGID OR S_IXGRP)) else None)
      else Some mode)"

text \<open>The loop over the places from \<open>count\<close> on, over the characters in memory from \<open>p\<close> on.\<close>

function rwx_loop :: "nat \<Rightarrow> string \<Rightarrow> mode_t \<Rightarrow> mode_t option" where
  "rwx_loop count p mode =
     (if count < 9
      then (case rwx_place count (hd p) mode of None \<Rightarrow> None | Some mode' \<Rightarrow> rwx_loop (count + 1) (tl p) mode')
      else Some mode)"
  by pat_completeness auto
termination by (relation "measure (\<lambda>(count, p, mode). 9 - count)") auto

declare rwx_loop.simps [simp del]

definition rwxrwxrwx :: "mode_t \<Rightarrow> string \<Rightarrow> int \<times> mode_t" where
  "rwxrwxrwx mode p =
     (case rwx_loop 0 p (mode AND NOT (S_ISUID OR S_ISGID)) of
        None \<Rightarrow> (-4, mode) | Some mode' \<Rightarrow> (0, mode'))"

definition modechopper :: "mode_t \<Rightarrow> string" where
  "modechopper mode =
     (let p = map (\<lambda>count. if mode AND snd (modesel ! count) \<noteq> 0 then fst (modesel ! count) else CHR ''-'') [0..<9];
          p1 = (if mode AND S_ISUID \<noteq> 0 then p[2 := (if mode AND S_IXUSR \<noteq> 0 then CHR ''s'' else CHR ''S'')] else p)
      in if mode AND S_ISGID \<noteq> 0 then p1[5 := (if mode AND S_IXGRP \<noteq> 0 then CHR ''s'' else CHR ''S'')] else p1)"

section \<open>The short form\<close>

definition char_at :: "string \<Rightarrow> char" where
  "char_at p = (case p of [] \<Rightarrow> nul | c # _ \<Rightarrow> c)"

fun who_loop :: "mode_t \<Rightarrow> string \<Rightarrow> mode_t \<times> string" where
  "who_loop affected [] = (affected, [])"
| "who_loop affected (c # p) =
     (if c = CHR ''u'' then who_loop (affected OR 0x9C0) p
      else if c = CHR ''g'' then who_loop (affected OR 0x438) p
      else if c = CHR ''o'' then who_loop (affected OR 0x207) p
      else if c = CHR ''a'' then who_loop (affected OR 0xFFF) p
      else if c = CHR '' '' then who_loop affected p
      else (affected, c # p))"

fun perm_loop :: "mode_t \<Rightarrow> string \<Rightarrow> mode_t \<times> string" where
  "perm_loop ch [] = (ch, [])"
| "perm_loop ch (c # p) =
     (if c = CHR ''r'' then perm_loop (ch OR 0x124) p
      else if c = CHR ''w'' then perm_loop (ch OR 0x92) p
      else if c = CHR ''x'' then perm_loop (ch OR 0x49) p
      else if c = CHR ''s'' then perm_loop (ch OR 0xC00) p
      else if c = CHR '' '' then perm_loop ch p
      else (ch, c # p))"

definition apply_op :: "char \<Rightarrow> mode_t \<Rightarrow> mode_t \<Rightarrow> mode_t \<Rightarrow> mode_t option" where
  "apply_op op affected ch mode =
     (if ch = 0 then Some mode
      else if op = CHR ''+'' then Some (mode OR (ch AND affected))
      else if op = CHR ''-'' then Some (mode AND NOT (ch AND affected))
      else if op = CHR ''='' then Some (ch AND affected)
      else None)"

lemma who_loop_length: "length (snd (who_loop a p)) \<le> length p"
  by (induction a p rule: who_loop.induct) (auto intro: le_SucI)

lemma perm_loop_length: "length (snd (perm_loop a p)) \<le> length p"
  by (induction a p rule: perm_loop.induct) (auto intro: le_SucI)

text \<open>
  The loop over the changes. \<open>beyond\<close> is what is in memory behind the terminator of the string:
  the long form always reads nine characters. \<open>op\<close> is a variable of the function: it keeps its
  value from one change to the next.
\<close>

function munch :: "string \<Rightarrow> char \<Rightarrow> mode_t \<Rightarrow> string \<Rightarrow> int \<times> mode_t" where
  "munch beyond op mode p =
     (if char_at p \<in> {CHR ''r'', CHR ''-''} then rwxrwxrwx mode (p @ nul # beyond)
      else let (aff, p1) = who_loop 0 p; affected = (if aff = 0 then 0xFFF else aff)
           in if char_at p1 \<notin> {CHR ''+'', CHR ''-'', CHR ''='', CHR '' ''} then (-1, mode)
              else let op' = (if char_at p1 \<noteq> CHR '' '' then char_at p1 else op);
                       (ch, p2) = perm_loop 0 (tl p1)
                   in if char_at p2 \<notin> {nul, CHR '' '', CHR '',''} then (-2, mode)
                      else (case apply_op op' affected ch mode of
                              None \<Rightarrow> (-3, mode)
                            | Some mode' \<Rightarrow> if char_at p2 \<noteq> CHR '','' then (0, mode')
                                             else munch beyond op' mode' (tl p2)))"
  by pat_completeness auto
termination
proof (relation "measure (\<lambda>(b, op, m, p). length p)", goal_cases)
  case 1
  show ?case by simp
next
  case (2 beyond op mode p x aff p1 affected op' y ch p2 mode')
  have "length p1 \<le> length p" using who_loop_length [of 0 p] 2(2,3) by (metis snd_conv)
  moreover have "length p2 \<le> length (tl p1)" using perm_loop_length [of 0 "tl p1"] 2(7,8) by (metis snd_conv)
  moreover have "p2 \<noteq> []" using 2(11) by (auto simp: char_at_def nul_def)
  ultimately show ?case by (cases p2) auto
qed

declare munch.simps [simp del]

definition mode_munch :: "string \<Rightarrow> mode_t \<Rightarrow> string \<Rightarrow> int \<times> mode_t" where
  "mode_munch beyond mode p = munch beyond nul mode p"

section \<open>The long form reads back what was written\<close>

lemma bit_pow2: "bit ((2::mode_t) ^ k) n \<longleftrightarrow> n = k \<and> k < 32"
  by (auto simp: bit_simps)

lemma modesel_place:
  assumes "count < 9"
  shows "snd (modesel ! count) = 2 ^ (8 - count)"
    and "fst (modesel ! count) \<noteq> CHR ''-''"
proof -
  have "count \<in> {0, 1, 2, 3, 4, 5, 6, 7, 8}" using assms by auto
  then show "snd (modesel ! count) = 2 ^ (8 - count)" and "fst (modesel ! count) \<noteq> CHR ''-''"
    by (auto simp: modesel_def)
qed

text \<open>Writing the bit \<open>k\<close> of a mode.\<close>

definition put_bit :: "nat \<Rightarrow> bool \<Rightarrow> mode_t \<Rightarrow> mode_t" where
  "put_bit k b m = (if b then m OR 2 ^ k else m AND NOT (2 ^ k))"

lemma bit_put_bit: "bit (put_bit k b m) n \<longleftrightarrow> (if n = k \<and> k < 32 then b else bit m n)"
proof (cases "n < 32")
  case True
  then show ?thesis by (auto simp: put_bit_def bit_simps)
next
  case False
  then show ?thesis by (auto simp: put_bit_def bit_simps dest: bit_imp_le_length)
qed

lemma place_letter:
  "count < 9 \<Longrightarrow>
     rwx_place count (if b then fst (modesel ! count) else CHR ''-'') mode = Some (put_bit (8 - count) b mode)"
  by (simp add: rwx_place_def put_bit_def modesel_place modesel_place(2) [symmetric])

lemma place_s:
  "rwx_place 2 CHR ''s'' mode = Some (put_bit 6 True (put_bit 11 True mode))"
  "rwx_place 5 CHR ''s'' mode = Some (put_bit 3 True (put_bit 10 True mode))"
  by (simp_all add: rwx_place_def modesel_def put_bit_def S_ISUID_def S_ISGID_def S_IXUSR_def S_IXGRP_def or.assoc)

lemma place_S: "count = 2 \<or> count = 5 \<Longrightarrow> rwx_place count CHR ''S'' mode = Some mode"
  by (auto simp: rwx_place_def modesel_def)

text \<open>The nine letters of a mode, and what reading the execute letter of the user or group does.\<close>

definition letter :: "mode_t \<Rightarrow> nat \<Rightarrow> char" where
  "letter mode count = (if bit mode (8 - count) then fst (modesel ! count) else CHR ''-'')"

definition exec_letter :: "mode_t \<Rightarrow> nat \<Rightarrow> nat \<Rightarrow> char" where
  "exec_letter mode count s =
     (if bit mode s then if bit mode (8 - count) then CHR ''s'' else CHR ''S'' else letter mode count)"

definition put_exec :: "mode_t \<Rightarrow> nat \<Rightarrow> nat \<Rightarrow> mode_t \<Rightarrow> mode_t" where
  "put_exec m x s mode =
     (if bit m s then if bit m x then put_bit x True (put_bit s True mode) else mode
      else put_bit x (bit m x) mode)"

lemma modechopper_letters:
  "modechopper m =
     [letter m 0, letter m 1, exec_letter m 2 11, letter m 3, letter m 4, exec_letter m 5 10,
      letter m 6, letter m 7, letter m 8]"
proof -
  have letters: "map (\<lambda>count. if m AND snd (modesel ! count) \<noteq> 0 then fst (modesel ! count) else CHR ''-'') [0..<9] =
      map (letter m) [0..<9]"
    by (rule map_cong) (simp_all add: modesel_place letter_def and_exp_eq_0_iff_not_bit del: upt_Suc)
  have nine: "[0..<9] = [0, 1, 2, 3, 4, 5, 6, 7, 8 :: nat]" by (simp add: upt_rec)
  show ?thesis
    unfolding modechopper_def letters unfolding nine S_ISUID_def S_ISGID_def S_IXUSR_def S_IXGRP_def
      and_exp_eq_0_iff_not_bit
    by (simp add: exec_letter_def Let_def)
qed

lemma place_of_letter: "count < 9 \<Longrightarrow> rwx_place count (letter m count) mode = Some (put_bit (8 - count) (bit m (8 - count)) mode)"
  unfolding letter_def by (rule place_letter)

lemma place_exec:
  "rwx_place 2 (exec_letter m 2 11) mode = Some (put_exec m 6 11 mode)"
  "rwx_place 5 (exec_letter m 5 10) mode = Some (put_exec m 3 10 mode)"
  by (simp_all add: exec_letter_def put_exec_def place_s place_S place_of_letter)

lemma rwx_loop_step:
  "count < 9 \<Longrightarrow> rwx_place count c mode = Some mode' \<Longrightarrow> rwx_loop count (c # p) mode = rwx_loop (count + 1) p mode'"
  by (simp add: rwx_loop.simps [of count])

lemma rwx_loop_end: "rwx_loop 9 p mode = Some mode"
  by (simp add: rwx_loop.simps)

lemma rwxrwxrwx_chopped:
  "rwxrwxrwx base (modechopper m @ p) =
     (0, put_bit 0 (bit m 0) (put_bit 1 (bit m 1) (put_bit 2 (bit m 2) (put_exec m 3 10
          (put_bit 4 (bit m 4) (put_bit 5 (bit m 5) (put_exec m 6 11 (put_bit 7 (bit m 7) (put_bit 8 (bit m 8)
            (base AND NOT (S_ISUID OR S_ISGID)))))))))))"
  by (simp add: rwxrwxrwx_def modechopper_letters rwx_loop_step [OF _ place_of_letter]
      rwx_loop_step [OF _ place_exec(1)] rwx_loop_step [OF _ place_exec(2)] rwx_loop_end del: One_nat_def)
    (simp only: One_nat_def)

lemma bit_put_exec:
  "x < 32 \<Longrightarrow> s < 32 \<Longrightarrow> x \<noteq> s \<Longrightarrow> bit (put_exec m x s mode) n \<longleftrightarrow>
     (if n = x then (if bit m s \<and> \<not> bit m x then bit mode n else bit m n)
      else if n = s then (if bit m s \<and> bit m x then True else bit mode n) else bit mode n)"
  by (auto simp: put_exec_def bit_put_bit)

lemma munch_long: "munch beyond op mode (modechopper m) = rwxrwxrwx mode (modechopper m @ nul # beyond)"
proof -
  have "char_at (modechopper m) \<in> {CHR ''r'', CHR ''-''}"
    by (simp add: char_at_def modechopper_letters letter_def modesel_def)
  then show ?thesis by (subst munch.simps) simp
qed

lemma all_mode_bits: "bit (0xDFF :: mode_t) n \<longleftrightarrow> n < 9 \<or> n = 10 \<or> n = 11"
proof -
  have "(0xDFF :: mode_t) = mask 9 OR 2 ^ 10 OR 2 ^ 11" by (simp add: mask_eq_exp_minus_1)
  show ?thesis unfolding \<open>0xDFF = _\<close> bit_or_iff bit_mask_iff bit_pow2 by auto
qed

lemma setid_cleared: "bit (base AND NOT (S_ISUID OR S_ISGID)) n \<longleftrightarrow> bit base n \<and> n \<noteq> 10 \<and> n \<noteq> 11"
  unfolding bit_and_iff bit_not_iff bit_or_iff S_ISUID_def S_ISGID_def bit_pow2
  by (auto dest: bit_imp_le_length)

lemma chopped_bits:
  assumes "bit m 11 \<longrightarrow> bit m 6" "bit m 10 \<longrightarrow> bit m 3"
  shows "bit (snd (rwxrwxrwx base (modechopper m @ p))) n \<longleftrightarrow>
           (if n < 9 \<or> n = 10 \<or> n = 11 then bit m n else bit base n)"
proof (cases "n < 9")
  case True
  then have "n \<in> {0, 1, 2, 3, 4, 5, 6, 7, 8}" by auto
  then show ?thesis using assms by (elim insertE emptyE) (auto simp: rwxrwxrwx_chopped bit_put_bit bit_put_exec)
next
  case False
  then show ?thesis using assms
    unfolding rwxrwxrwx_chopped snd_conv by (simp add: bit_put_bit bit_put_exec setid_cleared
        del: bit.de_Morgan_disj)
qed

lemma munch_chopped:
  assumes "bit m 11 \<longrightarrow> bit m 6" "bit m 10 \<longrightarrow> bit m 3"
  shows "mode_munch beyond base (modechopper m) = (0, (base AND NOT 0xDFF) OR (m AND 0xDFF))"
proof -
  let ?r = "rwxrwxrwx base (modechopper m @ nul # beyond)"
  have "fst ?r = 0" by (simp add: rwxrwxrwx_chopped)
  moreover have "snd ?r = (base AND NOT 0xDFF) OR (m AND 0xDFF)"
    by (rule bit_eqI) (auto simp only: chopped_bits [OF assms] bit_or_iff bit_and_iff bit_not_iff all_mode_bits
        possible_bit_word split: if_splits)
  ultimately show ?thesis by (simp add: mode_munch_def munch_long prod_eq_iff)
qed

text \<open>
  The string that \<open>modechopper\<close> writes for a mode without a set-id bit over a missing execute bit
  is read back by \<open>mode_munch\<close>: whatever the mode was before and whatever lies in memory behind the
  string, the permissions and set-id bits become those of the printed mode and the other bits stay.
\<close>

theorem mode_roundtrip:
  assumes "bit m 11 \<longrightarrow> bit m 6" "bit m 10 \<longrightarrow> bit m 3"
  shows "mode_munch beyond base (modechopper m) = (0, (base AND NOT 0xDFF) OR (m AND 0xDFF))"
  using assms by (rule munch_chopped)

theorem mode_roundtrip_witness:
  "mode_munch [] 0x81FF (modechopper 0xDED) = (0, 0x8DED) \<and> modechopper 0xDED = ''rwsr-sr-x''"
  using mode_roundtrip [of "0xDED" "[]" "0x81FF"] by (simp add: modechopper_letters letter_def exec_letter_def modesel_def)

section \<open>The short form as sets of bits\<close>

text \<open>A change as it is written: who it is for, the operator and the permissions.\<close>

datatype change = Change (who: string) (operator: char) (perms: string)

definition show_change :: "change \<Rightarrow> string" where
  "show_change c = who c @ operator c # perms c"

text \<open>
  A change that names nobody must not start with a minus sign: the code takes the whole rest of the
  string for the long form then.
\<close>

definition wf_change :: "change \<Rightarrow> bool" where
  "wf_change c \<longleftrightarrow> set (who c) \<subseteq> set ''ugoa '' \<and> operator c \<in> set ''+-='' \<and> set (perms c) \<subseteq> set ''rwxs '' \<and>
     (who c = [] \<longrightarrow> operator c \<noteq> CHR ''-'')"

definition who_bits :: "char \<Rightarrow> nat set" where
  "who_bits c = (if c = CHR ''u'' then {6, 7, 8, 11} else if c = CHR ''g'' then {3, 4, 5, 10}
     else if c = CHR ''o'' then {0, 1, 2, 9} else if c = CHR ''a'' then {0..<12} else {})"

definition perm_bits :: "char \<Rightarrow> nat set" where
  "perm_bits c = (if c = CHR ''r'' then {2, 5, 8} else if c = CHR ''w'' then {1, 4, 7}
     else if c = CHR ''x'' then {0, 3, 6} else if c = CHR ''s'' then {10, 11} else {})"

definition affected_bits :: "string \<Rightarrow> nat set" where
  "affected_bits w = (let B = \<Union> (who_bits ` set w) in if B = {} then {0..<12} else B)"

definition change_bits :: "nat set \<Rightarrow> change \<Rightarrow> nat set" where
  "change_bits M c =
     (let P = \<Union> (perm_bits ` set (perms c)); B = P \<inter> affected_bits (who c)
      in if P = {} then M else if operator c = CHR ''+'' then M \<union> B
         else if operator c = CHR ''-'' then M - B else B)"

definition bits_of :: "mode_t \<Rightarrow> nat set" where "bits_of m = {n. bit m n}"

lemma bits_of_ops:
  "bits_of (a OR b) = bits_of a \<union> bits_of b"
  "bits_of (a AND b) = bits_of a \<inter> bits_of b"
  "bits_of (a AND NOT b) = bits_of a - bits_of b"
  "bits_of 0 = {}"
  by (auto simp: bits_of_def bit_simps dest: bit_imp_le_length)

lemma bits_of_empty: "bits_of a = {} \<longleftrightarrow> a = 0"
  by (auto simp: bits_of_def intro!: bit_eqI)

lemma bits_of_inject: "bits_of a = bits_of b \<longleftrightarrow> a = b"
  by (auto simp: bits_of_def set_eq_iff intro: bit_eqI)

lemma bits_of_filter: "bits_of m = set (filter (bit m) [0..<32])"
  by (auto simp: bits_of_def dest: bit_imp_le_length)

lemma bits_of_letters:
  "bits_of 0x9C0 = who_bits CHR ''u''" "bits_of 0x438 = who_bits CHR ''g''"
  "bits_of 0x207 = who_bits CHR ''o''" "bits_of 0xFFF = who_bits CHR ''a''"
  "bits_of 0x124 = perm_bits CHR ''r''" "bits_of 0x92 = perm_bits CHR ''w''"
  "bits_of 0x49 = perm_bits CHR ''x''" "bits_of 0xC00 = perm_bits CHR ''s''"
  "bits_of 0xFFF = {0..<12}"
  unfolding bits_of_filter by code_simp+

lemma who_step:
  assumes "c \<in> set ''ugoa ''"
  obtains b where "bits_of b = bits_of a \<union> who_bits c" "\<And>p. who_loop a (c # p) = who_loop b p"
proof -
  from assms consider "c = CHR ''u''" | "c = CHR ''g''" | "c = CHR ''o''" | "c = CHR ''a''" | "c = CHR '' ''"
    by fastforce
  then show ?thesis
  proof cases
    case 1
    then show ?thesis by (intro that [of "a OR 0x9C0"]) (simp_all only: bits_of_ops bits_of_letters, simp)
  next
    case 2
    then show ?thesis by (intro that [of "a OR 0x438"]) (simp_all only: bits_of_ops bits_of_letters, simp)
  next
    case 3
    then show ?thesis by (intro that [of "a OR 0x207"]) (simp_all only: bits_of_ops bits_of_letters, simp)
  next
    case 4
    then show ?thesis by (intro that [of "a OR 0xFFF"]) (simp_all only: bits_of_ops bits_of_letters(1-8), simp)
  next
    case 5
    then show ?thesis by (intro that [of a]) (simp_all add: who_bits_def)
  qed
qed

lemma perm_step:
  assumes "c \<in> set ''rwxs ''"
  obtains b where "bits_of b = bits_of a \<union> perm_bits c" "\<And>p. perm_loop a (c # p) = perm_loop b p"
proof -
  from assms consider "c = CHR ''r''" | "c = CHR ''w''" | "c = CHR ''x''" | "c = CHR ''s''" | "c = CHR '' ''"
    by fastforce
  then show ?thesis
  proof cases
    case 1
    then show ?thesis by (intro that [of "a OR 0x124"]) (simp_all only: bits_of_ops bits_of_letters, simp)
  next
    case 2
    then show ?thesis by (intro that [of "a OR 0x92"]) (simp_all only: bits_of_ops bits_of_letters, simp)
  next
    case 3
    then show ?thesis by (intro that [of "a OR 0x49"]) (simp_all only: bits_of_ops bits_of_letters, simp)
  next
    case 4
    then show ?thesis by (intro that [of "a OR 0xC00"]) (simp_all only: bits_of_ops bits_of_letters, simp)
  next
    case 5
    then show ?thesis by (intro that [of a]) (simp_all add: perm_bits_def)
  qed
qed

lemma who_loop_stop: "char_at rest \<notin> set ''ugoa '' \<Longrightarrow> who_loop a rest = (a, rest)"
  by (cases rest) (auto simp: char_at_def)

lemma perm_loop_stop: "char_at rest \<notin> set ''rwxs '' \<Longrightarrow> perm_loop a rest = (a, rest)"
  by (cases rest) (auto simp: char_at_def)

text \<open>Both loops collect the bits of their letters and stop at the first other character.\<close>

locale letter_loop =
  fixes loop :: "mode_t \<Rightarrow> string \<Rightarrow> mode_t \<times> string" and letters :: "char set" and meaning :: "char \<Rightarrow> nat set"
  assumes step: "c \<in> letters \<Longrightarrow> \<exists>b. bits_of b = bits_of a \<union> meaning c \<and> (\<forall>p. loop a (c # p) = loop b p)"
    and stop: "char_at rest \<notin> letters \<Longrightarrow> loop a rest = (a, rest)"
begin

lemma collects:
  "set w \<subseteq> letters \<Longrightarrow> char_at rest \<notin> letters \<Longrightarrow>
     \<exists>b. loop a (w @ rest) = (b, rest) \<and> bits_of b = bits_of a \<union> \<Union> (meaning ` set w)"
proof (induction w arbitrary: a)
  case Nil
  then show ?case by (simp add: stop)
next
  case (Cons c w)
  from Cons.prems step [of c a] obtain b where b: "bits_of b = bits_of a \<union> meaning c" "\<forall>p. loop a (c # p) = loop b p"
    by auto
  with Cons.IH [of b] Cons.prems show ?case by (auto simp: Un_assoc)
qed

end

interpretation who: letter_loop who_loop "set ''ugoa ''" who_bits
  by unfold_locales (metis who_step, rule who_loop_stop)

interpretation perm: letter_loop perm_loop "set ''rwxs ''" perm_bits
  by unfold_locales (metis perm_step, rule perm_loop_stop)

lemma apply_op_bits:
  assumes "op \<in> set ''+-=''"
  shows "\<exists>m'. apply_op op a ch m = Some m' \<and> bits_of m' =
           (if bits_of ch = {} then bits_of m else if op = CHR ''+'' then bits_of m \<union> (bits_of ch \<inter> bits_of a)
            else if op = CHR ''-'' then bits_of m - bits_of ch \<inter> bits_of a else bits_of ch \<inter> bits_of a)"
  using assms by (auto simp: apply_op_def bits_of_ops(1,3) bits_of_ops(2) [of ch a] bits_of_empty
      simp del: bit.conj_disj_distribs bit.de_Morgan_conj)

lemma munch_step:
  assumes "char_at p \<notin> {CHR ''r'', CHR ''-''}" "who_loop 0 p = (a, p1)"
    "char_at p1 \<in> {CHR ''+'', CHR ''-'', CHR ''='', CHR '' ''}" "char_at p1 \<noteq> CHR '' ''"
    "perm_loop 0 (tl p1) = (ch, p2)" "char_at p2 \<in> {nul, CHR '' '', CHR '',''}"
    "apply_op (char_at p1) (if a = 0 then 0xFFF else a) ch m = Some m'"
  shows "munch beyond op m p = (if char_at p2 \<noteq> CHR '','' then (0, m') else munch beyond (char_at p1) m' (tl p2))"
  unfolding munch.simps [of beyond op m p] Let_def assms(2) prod.case assms(5)
  by (simp only: assms(1,3,4,6,7) if_False if_True not_True_eq_False not_False_eq_True option.case)

text \<open>One change, and the loop over the rest of the string.\<close>

lemma munch_change:
  assumes wf: "wf_change c" and rest: "char_at rest \<in> {nul, CHR '',''}"
  obtains m' where "bits_of m' = change_bits (bits_of m) c"
    and "munch beyond op m (show_change c @ rest) =
           (if char_at rest = CHR '','' then munch beyond (operator c) m' (tl rest) else (0, m'))"
proof -
  let ?p = "show_change c @ rest" and ?op = "operator c"
  from wf have c: "set (who c) \<subseteq> set ''ugoa ''" "?op \<in> set ''+-=''" "set (perms c) \<subseteq> set ''rwxs ''"
    "who c = [] \<longrightarrow> ?op \<noteq> CHR ''-''" by (auto simp: wf_change_def)
  have long: "char_at ?p \<notin> {CHR ''r'', CHR ''-''}"
    using c by (cases "who c") (auto simp: show_change_def char_at_def)
  have "char_at (?op # perms c @ rest) \<notin> set ''ugoa ''" using c(2) by (auto simp: char_at_def)
  from who.collects [OF c(1) this, of 0] obtain a where
    a: "who_loop 0 ?p = (a, ?op # perms c @ rest)" "bits_of a = \<Union> (who_bits ` set (who c))"
    by (auto simp: show_change_def bits_of_ops)
  have "char_at rest \<notin> set ''rwxs ''" using rest by (auto simp: nul_def)
  from perm.collects [OF c(3) this, of 0] obtain ch where
    ch: "perm_loop 0 (perms c @ rest) = (ch, rest)" "bits_of ch = \<Union> (perm_bits ` set (perms c))"
    by (auto simp: bits_of_ops)
  let ?a = "if a = 0 then 0xFFF else a"
  have affected: "bits_of ?a = affected_bits (who c)"
    using bits_of_empty [of a] by (simp add: affected_bits_def a(2) [symmetric] bits_of_letters(9) Let_def)
  from apply_op_bits [OF c(2), of ?a ch m] obtain m' where
    m': "apply_op ?op ?a ch m = Some m'" "bits_of m' = change_bits (bits_of m) c"
    by (auto simp: change_bits_def affected ch(2) Let_def)
  have op: "char_at (?op # q) = ?op" for q by (simp add: char_at_def)
  have op_in: "?op \<in> {CHR ''+'', CHR ''-'', CHR ''='', CHR '' ''}" "?op \<noteq> CHR '' ''" using c(2) by auto
  have rest_in: "char_at rest \<in> {nul, CHR '' '', CHR '',''}" using rest by blast
  have "munch beyond op m ?p = (if char_at rest \<noteq> CHR '','' then (0, m') else munch beyond ?op m' (tl rest))"
    using munch_step [OF long a(1) _ _ _ rest_in, of ch m m' beyond op] op_in ch(1) m'(1) by (simp only: op list.sel simp_thms)
  then have "munch beyond op m ?p = (if char_at rest = CHR '','' then munch beyond ?op m' (tl rest) else (0, m'))"
    by simp
  with m'(2) show ?thesis by (rule that)
qed

lemma munch_changes:
  "cs \<noteq> [] \<Longrightarrow> list_all wf_change cs \<Longrightarrow>
     \<exists>m'. munch beyond op m (join CHR '','' (map show_change cs)) = (0, m') \<and>
          bits_of m' = foldl change_bits (bits_of m) cs"
proof (induction cs arbitrary: op m rule: list_nonempty_induct)
  case (single c)
  then have wf: "wf_change c" by simp
  have stop: "char_at [] \<in> {nul, CHR '',''}" by (simp add: char_at_def)
  from wf stop obtain m' where "bits_of m' = change_bits (bits_of m) c"
    "munch beyond op m (show_change c @ []) = (if char_at [] = CHR '','' then munch beyond (operator c) m' (tl []) else (0, m'))"
    by (rule munch_change)
  then show ?case by (auto simp: char_at_def nul_def)
next
  case (cons c cs)
  let ?rest = "CHR '','' # join CHR '','' (map show_change cs)"
  from cons.prems have wf: "wf_change c" by simp
  have comma: "char_at ?rest \<in> {nul, CHR '',''}" by (simp add: char_at_def)
  from wf comma obtain m1 where m1: "bits_of m1 = change_bits (bits_of m) c"
    "munch beyond op m (show_change c @ ?rest) =
       (if char_at ?rest = CHR '','' then munch beyond (operator c) m1 (tl ?rest) else (0, m1))"
    by (rule munch_change)
  from cons.IH [of "operator c" m1] cons.prems obtain m' where
    "munch beyond (operator c) m1 (join CHR '','' (map show_change cs)) = (0, m')"
    "bits_of m' = foldl change_bits (bits_of m1) cs" by auto
  moreover have "munch beyond op m (join CHR '','' (map show_change (c # cs))) =
      munch beyond (operator c) m1 (join CHR '','' (map show_change cs))"
    using m1(2) cons.hyps by (simp only: list.map join_Cons map_is_Nil_conv not_False_eq_True char_at_def list.case
        list.sel if_True simp_thms)
  ultimately show ?case using m1(1) by simp
qed

text \<open>
  C24. A mode string that is a list of changes separated by commas is accepted, and its effect, seen as
  sets of bits, is that of the changes one after the other: \<open>+\<close> adds and \<open>-\<close> removes the named
  permissions of the named classes, \<open>=\<close> leaves exactly these and no other bit, and a change that
  names no permission does nothing.
\<close>

theorem mode_changes:
  assumes "cs \<noteq> []" "list_all wf_change cs"
  shows "fst (mode_munch beyond m (join CHR '','' (map show_change cs))) = 0 \<and>
    bits_of (snd (mode_munch beyond m (join CHR '','' (map show_change cs)))) = foldl change_bits (bits_of m) cs"
proof -
  from munch_changes [OF assms, of beyond nul m] obtain m' where
    "munch beyond nul m (join CHR '','' (map show_change cs)) = (0, m')"
    "bits_of m' = foldl change_bits (bits_of m) cs" by blast
  then show ?thesis by (simp only: mode_munch_def fst_conv snd_conv simp_thms)
qed

theorem mode_changes_witness:
  "snd (mode_munch [] 0x1A4 ''u+xs,go-r,o=wx'') = 3"
proof -
  let ?cs = "[Change ''u'' CHR ''+'' ''xs'', Change ''go'' CHR ''-'' ''r'', Change ''o'' CHR ''='' ''wx'']"
  have "bits_of (snd (mode_munch [] 0x1A4 (join CHR '','' (map show_change ?cs)))) = foldl change_bits (bits_of 0x1A4) ?cs"
    using mode_changes [of ?cs "[]" "0x1A4"] by (simp add: wf_change_def)
  moreover have "join CHR '','' (map show_change ?cs) = ''u+xs,go-r,o=wx''" by (simp add: show_change_def)
  moreover have "foldl change_bits (bits_of 0x1A4) ?cs = bits_of 3" unfolding bits_of_filter by code_simp
  ultimately show ?thesis by (simp add: bits_of_inject)
qed

end
