(* ===== verification/LuaApi.thy ===== *)
theory LuaApi
  imports CLib Complex_Main
begin

text \<open>
  What the modules for Lua use of its C interface: the values, tables as maps from keys, and the checks of
  arguments. How Lua writes and reads numbers is a parameter.
\<close>

datatype lua_key = Name string | Index nat

text \<open>The numbers of Lua are fractions; of functions and user data only the kind is kept.\<close>

datatype lua_value =
  Nil | Boolean bool | Number rat | Text string | Table "lua_key \<Rightarrow> lua_value option" | Function | Userdata

text \<open>\<open>number\_text\<close> writes a number; \<open>text\_number\<close> reads a string that is a number.\<close>

record lua =
  number_text :: "rat \<Rightarrow> string"
  text_number :: "string \<Rightarrow> rat option"

text \<open>Conversion to an integer cuts off the fraction.\<close>

definition truncate_number :: "rat \<Rightarrow> int" where
  "truncate_number x = (if 0 \<le> x then \<lfloor>x\<rfloor> else \<lceil>x\<rceil>)"

lemma truncate_of_int [simp]: "truncate_number (of_int n) = n"
  by (simp add: truncate_number_def)

section \<open>Arguments\<close>

text \<open>Arguments are counted from 0 here. \<open>None\<close> is an argument that was not given.\<close>

definition arg :: "lua_value list \<Rightarrow> nat \<Rightarrow> lua_value option" where
  "arg args i = (if i < length args then Some (args ! i) else None)"

definition isnoneornil :: "lua_value list \<Rightarrow> nat \<Rightarrow> bool" where
  "isnoneornil args i \<longleftrightarrow> arg args i \<in> {None, Some Nil}"

text \<open>Numbers count as strings, and strings that can be read as a number count as numbers.\<close>

definition tostring :: "lua \<Rightarrow> lua_value \<Rightarrow> string option" where
  "tostring L v = (case v of Text s \<Rightarrow> Some s | Number n \<Rightarrow> Some (number_text L n) | _ \<Rightarrow> None)"

definition tonumber :: "lua \<Rightarrow> lua_value \<Rightarrow> rat option" where
  "tonumber L v = (case v of Number n \<Rightarrow> Some n | Text s \<Rightarrow> text_number L s | _ \<Rightarrow> None)"

definition toboolean :: "lua_value option \<Rightarrow> bool" where
  "toboolean v \<longleftrightarrow> v \<notin> {None, Some Nil, Some (Boolean False)}"

definition checkstring :: "lua \<Rightarrow> lua_value list \<Rightarrow> nat \<Rightarrow> string option" where
  "checkstring L args i = (case arg args i of None \<Rightarrow> None | Some v \<Rightarrow> tostring L v)"

definition checkint :: "lua \<Rightarrow> lua_value list \<Rightarrow> nat \<Rightarrow> int option" where
  "checkint L args i =
     (case arg args i of None \<Rightarrow> None | Some v \<Rightarrow> map_option truncate_number (tonumber L v))"

definition optstring :: "lua \<Rightarrow> lua_value list \<Rightarrow> nat \<Rightarrow> string \<Rightarrow> string option" where
  "optstring L args i d = (if isnoneornil args i then Some d else checkstring L args i)"

definition optint :: "lua \<Rightarrow> lua_value list \<Rightarrow> nat \<Rightarrow> int \<Rightarrow> int option" where
  "optint L args i d = (if isnoneornil args i then Some d else checkint L args i)"

lemma arg_simps [simp]:
  "arg [] i = None" "arg (v # vs) 0 = Some v" "arg (v # vs) (Suc i) = arg vs i"
  by (auto simp: arg_def)

lemma tostring_Text [simp]: "tostring L (Text s) = Some s"
  by (simp add: tostring_def)

lemma checkstring_Text [simp]:
  "checkstring L (Text s # vs) 0 = Some s" "checkstring L (v # vs) (Suc i) = checkstring L vs i" "checkstring L [] i = None"
  by (simp_all add: checkstring_def)

lemma checkstring_texts: "checkstring L (map Text ws) i = (if i < length ws then Some (ws ! i) else None)"
  by (simp add: checkstring_def arg_def)

section \<open>Results\<close>

text \<open>\<open>lua\_pushstring\<close> of a null pointer gives nil.\<close>

definition pushstring :: "string option \<Rightarrow> lua_value" where
  "pushstring s = (case s of None \<Rightarrow> Nil | Some t \<Rightarrow> Text t)"

text \<open>Setting a field to nil removes it.\<close>

definition settable :: "lua_key \<Rightarrow> lua_value \<Rightarrow> (lua_key \<Rightarrow> lua_value option) \<Rightarrow> lua_key \<Rightarrow> lua_value option" where
  "settable k v t = t(k := (if v = Nil then None else Some v))"

definition field :: "lua_value \<Rightarrow> lua_key \<Rightarrow> lua_value" where
  "field t k = (case t of Table m \<Rightarrow> (case m k of None \<Rightarrow> Nil | Some v \<Rightarrow> v) | _ \<Rightarrow> Nil)"

definition no_table :: "lua_key \<Rightarrow> lua_value option" where
  "no_table = (\<lambda>_. None)"

lemma field_settable [simp]: "field (Table (settable k v t)) k' = (if k = k' then v else field (Table t) k')"
  by (simp add: field_def settable_def)

lemma field_no_table [simp]: "field (Table no_table) k = Nil"
  by (simp add: field_def no_table_def)

end
