(* ===== verification/LuaMatch.thy ===== *)
theory LuaMatch
  imports LuaApi
begin

text \<open>
  The pattern matcher of \<^verbatim>\<open>misc/luabash/lua/lstrlib.c\<close>, which the Lua code of the package tools uses on every
  line it reads. A position in the pattern is the rest of the pattern from there, a position in the subject is an
  index. Behind its end a string reads as a NUL, as in C, and a pattern ends at its first NUL. The array of
  captures is mutable state that is undone when a branch fails; the errors of \<open>luaL\_error\<close> are values on the left of a sum.
  Nested calls use the C stack, whose bound is left out.
\<close>

section \<open>Classes of characters\<close>

definition ch :: "string \<Rightarrow> char" where
  "ch p = (case p of [] \<Rightarrow> nul | c # _ \<Rightarrow> c)"

lemma ch_simps [simp]: "ch [] = nul" "ch (c # p) = c"
  by (simp_all add: ch_def)

abbreviation (input) L_ESC :: char where
  "L_ESC \<equiv> CHR ''%''"

definition c_iscntrl :: "char \<Rightarrow> bool" where
  "c_iscntrl c \<longleftrightarrow> code c < 32 \<or> code c = 127"

definition c_isalnum :: "char \<Rightarrow> bool" where
  "c_isalnum c \<longleftrightarrow> c_isalpha c \<or> c_isdigit c"

definition c_ispunct :: "char \<Rightarrow> bool" where
  "c_ispunct c \<longleftrightarrow> 33 \<le> code c \<and> code c \<le> 126 \<and> \<not> c_isalnum c"

definition c_isxdigit :: "char \<Rightarrow> bool" where
  "c_isxdigit c \<longleftrightarrow> c_isdigit c \<or> (65 \<le> code c \<and> code c \<le> 70) \<or> (97 \<le> code c \<and> code c \<le> 102)"

text \<open>\<open>match\_class\<close>: the letter \<open>cl\<close> behind a percent sign; a capital letter is the complement.\<close>

definition class_test :: "char \<Rightarrow> (char \<Rightarrow> bool) option" where
  "class_test l =
     (if l = CHR ''a'' then Some c_isalpha else if l = CHR ''c'' then Some c_iscntrl
      else if l = CHR ''d'' then Some c_isdigit else if l = CHR ''l'' then Some c_islower
      else if l = CHR ''p'' then Some c_ispunct else if l = CHR ''s'' then Some c_isspace
      else if l = CHR ''u'' then Some c_isupper else if l = CHR ''w'' then Some c_isalnum
      else if l = CHR ''x'' then Some c_isxdigit else if l = CHR ''z'' then Some (\<lambda>c. c = nul)
      else None)"

definition match_class :: "char \<Rightarrow> char \<Rightarrow> bool" where
  "match_class c cl =
     (case class_test (c_tolower cl) of
        None \<Rightarrow> cl = c
      | Some f \<Rightarrow> if c_islower cl then f c else \<not> f c)"

text \<open>\<open>classend\<close>: what follows a single character class. The loop of a set starts behind the bracket.\<close>

function set_end :: "string \<Rightarrow> string + string" where
  "set_end p =
     (if ch p = nul then Inl ''malformed pattern (missing ']')''
      else (let q = (if ch p = L_ESC \<and> ch (tl p) \<noteq> nul then drop 2 p else tl p)
            in if ch q = CHR '']'' then Inr (tl q) else set_end q))"
  by pat_completeness auto

termination
  by (relation "measure length") (auto simp: ch_def neq_Nil_conv split: list.splits if_splits)

declare set_end.simps [simp del]

definition classend :: "string \<Rightarrow> string + string" where
  "classend p =
     (if ch p = L_ESC then
        (if ch (tl p) = nul then Inl ''malformed pattern (ends with '%')'' else Inr (drop 2 p))
      else if ch p = CHR ''['' then set_end (if ch (tl p) = CHR ''^'' then drop 2 p else tl p)
      else Inr (tl p))"

text \<open>
  \<open>matchbracketclass\<close>: \<open>p\<close> is a position from the bracket on, \<open>ec\<close> that of the rpar one; a position is before
  another one if more of the pattern is left there.
\<close>

definition before :: "string \<Rightarrow> string \<Rightarrow> bool" where
  "before p q \<longleftrightarrow> length q < length p"

function bracket_loop :: "bool \<Rightarrow> char \<Rightarrow> string \<Rightarrow> string \<Rightarrow> bool" where
  "bracket_loop sig c p0 ec =
     (let p = tl p0
      in if \<not> before p ec then \<not> sig
         else if ch p = L_ESC then
           (if match_class c (ch (tl p)) then sig else bracket_loop sig c (tl p) ec)
         else if ch (tl p) = CHR ''-'' \<and> before (drop 2 p) ec then
           (if code (ch p) \<le> code c \<and> code c \<le> code (ch (drop 2 p)) then sig
            else bracket_loop sig c (drop 2 p) ec)
         else if ch p = c then sig
         else bracket_loop sig c p ec)"
  by pat_completeness auto

termination
  by (relation "measure (\<lambda>(sig, c, p, ec). length p)") (auto simp: before_def)

declare bracket_loop.simps [simp del]

definition matchbracketclass :: "char \<Rightarrow> string \<Rightarrow> string \<Rightarrow> bool" where
  "matchbracketclass c p ec =
     (if ch (tl p) = CHR ''^'' then bracket_loop False c (tl p) ec else bracket_loop True c p ec)"

text \<open>\<open>singlematch\<close>: the character \<open>c\<close> against the class from \<open>p\<close> to \<open>ep\<close>.\<close>

definition singlematch :: "char \<Rightarrow> string \<Rightarrow> string \<Rightarrow> bool" where
  "singlematch c p ep =
     (if ch p = CHR ''.'' then True
      else if ch p = L_ESC then match_class c (ch (tl p))
      else if ch p = CHR ''['' then matchbracketclass c p (CHR '']'' # ep)
      else ch p = c)"

lemma set_end_shorter: "set_end p = Inr ep \<Longrightarrow> length ep < length p"
proof (induction p rule: set_end.induct)
  case (1 p)
  define q where "q = (if ch p = L_ESC \<and> ch (tl p) \<noteq> nul then drop 2 p else tl p)"
  from "1.prems" have p: "ch p \<noteq> nul" and e: "(if ch q = CHR '']'' then Inr (tl q) else set_end q) = Inr ep"
    unfolding set_end.simps [of p] Let_def q_def [symmetric] by (auto split: if_splits)
  from p have q: "length q < length p" by (auto simp: q_def ch_def split: list.splits)
  show ?case
  proof (cases "ch q = CHR '']''")
    case True
    with e q show ?thesis by auto
  next
    case False
    with e "1.IH" [OF p q_def] q show ?thesis by simp
  qed
qed

lemma classend_shorter: "classend p = Inr ep \<Longrightarrow> p \<noteq> [] \<Longrightarrow> length ep < length p"
  by (cases p; cases "tl p") (auto simp: classend_def split: if_splits dest!: set_end_shorter)

section \<open>Captures\<close>

definition LUA_MAXCAPTURES :: nat where "LUA_MAXCAPTURES = 32"

definition CAP_UNFINISHED :: int where "CAP_UNFINISHED = -1"

definition CAP_POSITION :: int where "CAP_POSITION = -2"

text \<open>A capture is the index where it starts and its length, or one of the two marks.\<close>

record match_state =
  level :: nat
  capture :: "(nat \<times> int) list"

definition check_capture :: "match_state \<Rightarrow> char \<Rightarrow> string + nat" where
  "check_capture ms l =
     (let i = int (code l) - int (code CHR ''1'')
      in if i < 0 \<or> i \<ge> int (level ms) \<or> snd (capture ms ! nat i) = CAP_UNFINISHED
         then Inl ''invalid capture index'' else Inr (nat i))"

fun unfinished_below :: "(nat \<times> int) list \<Rightarrow> nat \<Rightarrow> nat option" where
  "unfinished_below cs 0 = None"
| "unfinished_below cs (Suc i) = (if snd (cs ! i) = CAP_UNFINISHED then Some i else unfinished_below cs i)"

definition capture_to_close :: "match_state \<Rightarrow> string + nat" where
  "capture_to_close ms =
     (case unfinished_below (capture ms) (level ms) of
        None \<Rightarrow> Inl ''invalid pattern capture''
      | Some i \<Rightarrow> Inr i)"

text \<open>\<open>start\_capture\<close> and \<open>end\_capture\<close> around their call of \<open>match\<close>: what is done before and after it.\<close>

type_synonym outcome = "string + nat option \<times> match_state"

definition open_capture :: "match_state \<Rightarrow> nat \<Rightarrow> int \<Rightarrow> string + match_state" where
  "open_capture ms s what =
     (if level ms \<ge> LUA_MAXCAPTURES then Inl ''too many captures''
      else Inr \<lparr>level = level ms + 1, capture = (capture ms)[level ms := (s, what)]\<rparr>)"

definition undo_open :: "outcome \<Rightarrow> outcome" where
  "undo_open r = (case r of Inr (None, ms) \<Rightarrow> Inr (None, ms\<lparr>level := level ms - 1\<rparr>) | _ \<Rightarrow> r)"

definition set_len :: "nat \<Rightarrow> int \<Rightarrow> match_state \<Rightarrow> match_state" where
  "set_len l n ms = ms\<lparr>capture := (capture ms)[l := (fst (capture ms ! l), n)]\<rparr>"

definition close_capture :: "match_state \<Rightarrow> nat \<Rightarrow> nat \<Rightarrow> match_state" where
  "close_capture ms l s = set_len l (int s - int (fst (capture ms ! l))) ms"

definition undo_close :: "nat \<Rightarrow> outcome \<Rightarrow> outcome" where
  "undo_close l r = (case r of Inr (None, ms) \<Rightarrow> Inr (None, set_len l CAP_UNFINISHED ms) | _ \<Rightarrow> r)"

text \<open>\<open>match\_capture\<close>: the length is read as a \<open>size\_t\<close>, so that the mark of a position is too long.\<close>

definition match_capture :: "string \<Rightarrow> match_state \<Rightarrow> nat \<Rightarrow> char \<Rightarrow> string + nat option" where
  "match_capture src ms s l =
     (case check_capture ms l of
        Inl e \<Rightarrow> Inl e
      | Inr i \<Rightarrow>
          (let (start, n) = capture ms ! i
           in if 0 \<le> n \<and> nat n \<le> length src - s \<and> take (nat n) (drop start src) = take (nat n) (drop s src)
              then Inr (Some (s + nat n)) else Inr None))"

section \<open>The matcher\<close>

definition at_pos :: "string \<Rightarrow> nat \<Rightarrow> char" where
  "at_pos src s = (if s < length src then src ! s else nul)"

text \<open>The loop of \<open>matchbalance\<close>, behind the lpar character.\<close>

function balance :: "string \<Rightarrow> char \<Rightarrow> char \<Rightarrow> nat \<Rightarrow> nat \<Rightarrow> nat option" where
  "balance src b e cont s =
     (if s + 1 < length src then
        (if src ! (s + 1) = e then
           (if cont = 1 then Some (s + 2) else balance src b e (cont - 1) (s + 1))
         else balance src b e (if src ! (s + 1) = b then cont + 1 else cont) (s + 1))
      else None)"
  by pat_completeness auto

termination by (relation "measure (\<lambda>(src, b, e, cont, s). length src - s)") auto

declare balance.simps [simp del]

definition matchbalance :: "string \<Rightarrow> nat \<Rightarrow> string \<Rightarrow> string + nat option" where
  "matchbalance src s p =
     (if ch p = nul \<or> ch (tl p) = nul then Inl ''unbalanced pattern''
      else if at_pos src s \<noteq> ch p then Inr None
      else Inr (balance src (ch p) (ch (tl p)) 1 s))"

text \<open>The frontier \<open>%f\<close>.\<close>

definition frontier :: "string \<Rightarrow> nat \<Rightarrow> string \<Rightarrow> string \<Rightarrow> bool" where
  "frontier src s p ep \<longleftrightarrow>
     \<not> matchbracketclass (if s = 0 then nul else src ! (s - 1)) p (CHR '']'' # ep) \<and>
     matchbracketclass (at_pos src s) p (CHR '']'' # ep)"

text \<open>One character against the class at \<open>p\<close>, and the number of them in a row.\<close>

definition single :: "string \<Rightarrow> nat \<Rightarrow> string \<Rightarrow> string \<Rightarrow> bool" where
  "single src s p ep \<longleftrightarrow> s < length src \<and> singlematch (src ! s) p ep"

definition run_length :: "string \<Rightarrow> nat \<Rightarrow> string \<Rightarrow> string \<Rightarrow> nat" where
  "run_length src s p ep = length (takeWhile (\<lambda>c. singlematch c p ep) (drop s src))"

text \<open>
  \<open>match\<close>, with the second loop of \<open>max\_expand\<close> (\<open>max\_try\<close>, whose \<open>q\<close> is the pattern behind the star) and
  \<open>min\_expand\<close>.
\<close>

function match :: "string \<Rightarrow> match_state \<Rightarrow> nat \<Rightarrow> string \<Rightarrow> outcome"
  and max_try :: "string \<Rightarrow> match_state \<Rightarrow> nat \<Rightarrow> nat \<Rightarrow> string \<Rightarrow> outcome"
  and min_expand :: "string \<Rightarrow> match_state \<Rightarrow> nat \<Rightarrow> string \<Rightarrow> string \<Rightarrow> outcome" where
  "match src ms s p =
     (if ch p = nul then Inr (Some s, ms)
      else if ch p = CHR ''('' then
        (let (q, what) = (if ch (tl p) = CHR '')'' then (drop 2 p, CAP_POSITION) else (tl p, CAP_UNFINISHED))
         in case open_capture ms s what of
              Inl e \<Rightarrow> Inl e
            | Inr ms1 \<Rightarrow> undo_open (match src ms1 s q))
      else if ch p = CHR '')'' then
        (case capture_to_close ms of
           Inl e \<Rightarrow> Inl e
         | Inr l \<Rightarrow> undo_close l (match src (close_capture ms l s) s (tl p)))
      else if ch p = L_ESC \<and> ch (tl p) = CHR ''b'' then
        (case matchbalance src s (drop 2 p) of
           Inl e \<Rightarrow> Inl e
         | Inr None \<Rightarrow> Inr (None, ms)
         | Inr (Some s1) \<Rightarrow> match src ms s1 (drop 4 p))
      else if ch p = L_ESC \<and> ch (tl p) = CHR ''f'' then
        (if ch (drop 2 p) \<noteq> CHR ''['' then Inl ''missing '[' after '%f' in pattern''
         else case classend (drop 2 p) of
           Inl e \<Rightarrow> Inl e
         | Inr ep \<Rightarrow> if frontier src s (drop 2 p) ep then match src ms s ep else Inr (None, ms))
      else if ch p = L_ESC \<and> c_isdigit (ch (tl p)) then
        (case match_capture src ms s (ch (tl p)) of
           Inl e \<Rightarrow> Inl e
         | Inr None \<Rightarrow> Inr (None, ms)
         | Inr (Some s1) \<Rightarrow> match src ms s1 (drop 2 p))
      else if ch p = CHR ''$'' \<and> ch (tl p) = nul then
        Inr (if s = length src then Some s else None, ms)
      else
        (case classend p of
           Inl e \<Rightarrow> Inl e
         | Inr ep \<Rightarrow>
             (let m = single src s p ep
              in if ch ep = CHR ''?'' then
                   (if m then
                      (case match src ms (s + 1) (tl ep) of
                         Inr (None, ms1) \<Rightarrow> match src ms1 s (tl ep)
                       | r \<Rightarrow> r)
                    else match src ms s (tl ep))
                 else if ch ep = CHR ''*'' then max_try src ms s (run_length src s p ep) (tl ep)
                 else if ch ep = CHR ''+'' then
                   (if m then max_try src ms (s + 1) (run_length src (s + 1) p ep) (tl ep) else Inr (None, ms))
                 else if ch ep = CHR ''-'' then min_expand src ms s p ep
                 else if m then match src ms (s + 1) ep
                 else Inr (None, ms))))"
| "max_try src ms s i q =
     (case match src ms (s + i) q of
        Inr (None, ms1) \<Rightarrow> if i = 0 then Inr (None, ms1) else max_try src ms1 s (i - 1) q
      | r \<Rightarrow> r)"
| "min_expand src ms s p ep =
     (case match src ms s (tl ep) of
        Inr (None, ms1) \<Rightarrow> if single src s p ep then min_expand src ms1 (s + 1) p ep else Inr (None, ms1)
      | r \<Rightarrow> r)"
  by pat_completeness auto

termination
proof (relation "measures [\<lambda>x. case x of Inl (src, ms, s, p) \<Rightarrow> length p | Inr (Inl (src, ms, s, i, q)) \<Rightarrow> length q
      | Inr (Inr (src, ms, s, p, ep)) \<Rightarrow> length (tl ep),
    \<lambda>x. case x of Inl _ \<Rightarrow> 0 | Inr (Inl (src, ms, s, i, q)) \<Rightarrow> Suc i | Inr (Inr (src, ms, s, p, ep)) \<Rightarrow> Suc (length src - s)]",
    goal_cases)
  case 1
  show ?case by simp
qed (auto dest!: classend_shorter simp: ch_def nul_def single_def split: list.splits if_splits)

declare match.simps [simp del] max_try.simps [simp del] min_expand.simps [simp del]

section \<open>All ways to match\<close>

text \<open>
  The specification has no mutable state: it lists the ways in which the pattern matches, each with its end and its
  captures, in the order of preference, and an error where one would be found. A repetition prefers the
  longest run, one with a minus sign the shortest.
\<close>

type_synonym captures = "(nat \<times> int) list"

type_synonym way = "string + nat \<times> captures"

function ways :: "string \<Rightarrow> captures \<Rightarrow> nat \<Rightarrow> string \<Rightarrow> way list" where
  "ways src cs s p =
     (if ch p = nul then [Inr (s, cs)]
      else if ch p = CHR ''('' then
        (let (q, what) = (if ch (tl p) = CHR '')'' then (drop 2 p, CAP_POSITION) else (tl p, CAP_UNFINISHED))
         in if length cs \<ge> LUA_MAXCAPTURES then [Inl ''too many captures''] else ways src (cs @ [(s, what)]) s q)
      else if ch p = CHR '')'' then
        (case unfinished_below cs (length cs) of
           None \<Rightarrow> [Inl ''invalid pattern capture'']
         | Some l \<Rightarrow> ways src (cs[l := (fst (cs ! l), int s - int (fst (cs ! l)))]) s (tl p))
      else if ch p = L_ESC \<and> ch (tl p) = CHR ''b'' then
        (case matchbalance src s (drop 2 p) of
           Inl e \<Rightarrow> [Inl e]
         | Inr None \<Rightarrow> []
         | Inr (Some s1) \<Rightarrow> ways src cs s1 (drop 4 p))
      else if ch p = L_ESC \<and> ch (tl p) = CHR ''f'' then
        (if ch (drop 2 p) \<noteq> CHR ''['' then [Inl ''missing '[' after '%f' in pattern'']
         else case classend (drop 2 p) of
           Inl e \<Rightarrow> [Inl e]
         | Inr ep \<Rightarrow> if frontier src s (drop 2 p) ep then ways src cs s ep else [])
      else if ch p = L_ESC \<and> c_isdigit (ch (tl p)) then
        (case match_capture src \<lparr>level = length cs, capture = cs\<rparr> s (ch (tl p)) of
           Inl e \<Rightarrow> [Inl e]
         | Inr None \<Rightarrow> []
         | Inr (Some s1) \<Rightarrow> ways src cs s1 (drop 2 p))
      else if ch p = CHR ''$'' \<and> ch (tl p) = nul then
        (if s = length src then [Inr (s, cs)] else [])
      else
        (case classend p of
           Inl e \<Rightarrow> [Inl e]
         | Inr ep \<Rightarrow>
             (let m = single src s p ep; n = run_length src s p ep
              in if ch ep = CHR ''?'' then (if m then ways src cs (s + 1) (tl ep) else []) @ ways src cs s (tl ep)
                 else if ch ep = CHR ''*'' then concat (map (\<lambda>i. ways src cs (s + i) (tl ep)) (rev [0..<Suc n]))
                 else if ch ep = CHR ''+'' then concat (map (\<lambda>i. ways src cs (s + i) (tl ep)) (rev [1..<Suc n]))
                 else if ch ep = CHR ''-'' then concat (map (\<lambda>i. ways src cs (s + i) (tl ep)) [0..<Suc n])
                 else if m then ways src cs (s + 1) ep
                 else [])))"
  by pat_completeness auto

termination
  by (relation "measure (\<lambda>(src, cs, s, p). length p)")
    (auto dest!: classend_shorter simp: ch_def nul_def split: list.splits if_splits)

declare ways.simps [simp del]

section \<open>The matcher finds the first way\<close>

definition visible :: "match_state \<Rightarrow> captures" where
  "visible ms = take (level ms) (capture ms)"

definition room :: "match_state \<Rightarrow> bool" where
  "room ms \<longleftrightarrow> level ms \<le> length (capture ms) \<and> length (capture ms) = LUA_MAXCAPTURES"

definition agrees :: "captures \<Rightarrow> way list \<Rightarrow> outcome \<Rightarrow> bool" where
  "agrees cs ws r \<longleftrightarrow>
     (case ws of
        [] \<Rightarrow> \<exists>ms. r = Inr (None, ms) \<and> room ms \<and> visible ms = cs
      | Inl e # _ \<Rightarrow> r = Inl e
      | Inr (s, cs') # _ \<Rightarrow> \<exists>ms. r = Inr (Some s, ms) \<and> room ms \<and> visible ms = cs')"

lemma agrees_simps [simp]:
  "agrees cs [] r \<longleftrightarrow> (\<exists>ms. r = Inr (None, ms) \<and> room ms \<and> visible ms = cs)"
  "agrees cs (Inl e # ws) r \<longleftrightarrow> r = Inl e"
  "agrees cs (Inr (s, cs') # ws) r \<longleftrightarrow> (\<exists>ms. r = Inr (Some s, ms) \<and> room ms \<and> visible ms = cs')"
  by (simp_all add: agrees_def)

lemma agrees_append:
  assumes "agrees cs ws r" "\<And>ms. r = Inr (None, ms) \<Longrightarrow> room ms \<Longrightarrow> visible ms = cs \<Longrightarrow> agrees cs ws' (f ms)"
  shows "agrees cs (ws @ ws') (case r of Inr (None, ms) \<Rightarrow> f ms | r' \<Rightarrow> r')"
proof (cases ws)
  case Nil
  with assms show ?thesis by auto
next
  case (Cons w ws1)
  with assms(1) show ?thesis by (cases w) (auto simp: agrees_def split: sum.splits)
qed

lemma length_visible [simp]: "room ms \<Longrightarrow> length (visible ms) = level ms"
  by (simp add: visible_def room_def)

lemma unfinished_below_take: "n \<le> m \<Longrightarrow> unfinished_below (take m cs) n = unfinished_below cs n"
  by (induction n) auto

lemma unfinished_below_less: "unfinished_below cs n = Some l \<Longrightarrow> l < n \<and> snd (cs ! l) = CAP_UNFINISHED"
  by (induction n) (auto split: if_splits)

lemma match_capture_visible:
  "room ms \<Longrightarrow> match_capture src \<lparr>level = level ms, capture = visible ms\<rparr> s l = match_capture src ms s l"
  by (auto simp: match_capture_def check_capture_def visible_def Let_def split: sum.splits)

lemma open_agrees:
  assumes "room ms" "open_capture ms s what = Inr ms1" "agrees (visible ms @ [(s, what)]) ws r"
  shows "agrees (visible ms) ws (undo_open r)"
proof -
  have n: "level ms1 = level ms + 1" "visible ms1 = visible ms @ [(s, what)]" "level ms < LUA_MAXCAPTURES"
    using assms(1,2) by (auto simp: open_capture_def visible_def room_def take_Suc_conv_app_nth split: if_splits)
  have "visible (ms2\<lparr>level := level ms2 - 1\<rparr>) = visible ms" "room (ms2\<lparr>level := level ms2 - 1\<rparr>)"
    if "room ms2" "visible ms2 = visible ms @ [(s, what)]" for ms2
  proof -
    have "level ms2 = level ms + 1" using that assms(1) by (metis length_append_singleton length_visible Suc_eq_plus1)
    then have "visible (ms2\<lparr>level := level ms2 - 1\<rparr>) = take (level ms) (visible ms2)" by (simp add: visible_def min_def)
    also have "\<dots> = visible ms" using that assms(1) by simp
    finally show "visible (ms2\<lparr>level := level ms2 - 1\<rparr>) = visible ms" .
    show "room (ms2\<lparr>level := level ms2 - 1\<rparr>)" using that by (auto simp: room_def)
  qed
  then show ?thesis using assms(3) by (cases ws) (auto simp: undo_open_def agrees_def split: sum.splits)
qed

lemma visible_set_len: "l < level ms \<Longrightarrow> room ms \<Longrightarrow> visible (set_len l n ms) = (visible ms)[l := (fst (visible ms ! l), n)]"
  by (simp add: visible_def set_len_def room_def take_update_swap)

lemma room_set_len [simp]: "room (set_len l n ms) = room ms"
  by (simp add: room_def set_len_def)

lemma close_agrees:
  assumes "room ms" "l < level ms" "snd (visible ms ! l) = CAP_UNFINISHED"
    and "agrees ((visible ms)[l := (fst (visible ms ! l), n)]) ws r"
  shows "agrees (visible ms) ws (undo_close l r)"
proof -
  have "visible (set_len l CAP_UNFINISHED ms2) = visible ms"
    if "room ms2" "visible ms2 = (visible ms)[l := (fst (visible ms ! l), n)]" for ms2
  proof -
    have "l < level ms2" using that assms(1,2) by (metis length_list_update length_visible)
    then show ?thesis using that assms(1-3)
      by (simp add: visible_set_len) (metis list_update_id prod.collapse)
  qed
  then show ?thesis using assms(4) by (cases ws) (auto simp: undo_close_def agrees_def split: sum.splits)
qed

lemma run_length_step: "run_length src s p ep = (if single src s p ep then Suc (run_length src (s + 1) p ep) else 0)"
proof (cases "s < length src")
  case True
  then have "drop s src = src ! s # drop (Suc s) src" by (simp add: Cons_nth_drop_Suc)
  then show ?thesis using True by (simp add: run_length_def single_def)
qed (simp add: run_length_def single_def)

text \<open>What both do with a single class, which ends at \<open>ep\<close>.\<close>

definition match_item :: "string \<Rightarrow> match_state \<Rightarrow> nat \<Rightarrow> string \<Rightarrow> string \<Rightarrow> outcome" where
  "match_item src ms s p ep =
     (let m = single src s p ep
      in if ch ep = CHR ''?'' then
           (if m then
              (case match src ms (s + 1) (tl ep) of
                 Inr (None, ms1) \<Rightarrow> match src ms1 s (tl ep)
               | r \<Rightarrow> r)
            else match src ms s (tl ep))
         else if ch ep = CHR ''*'' then max_try src ms s (run_length src s p ep) (tl ep)
         else if ch ep = CHR ''+'' then
           (if m then max_try src ms (s + 1) (run_length src (s + 1) p ep) (tl ep) else Inr (None, ms))
         else if ch ep = CHR ''-'' then min_expand src ms s p ep
         else if m then match src ms (s + 1) ep
         else Inr (None, ms))"

definition item_ways :: "string \<Rightarrow> captures \<Rightarrow> nat \<Rightarrow> string \<Rightarrow> string \<Rightarrow> way list" where
  "item_ways src cs s p ep =
     (let m = single src s p ep; n = run_length src s p ep
      in if ch ep = CHR ''?'' then (if m then ways src cs (s + 1) (tl ep) else []) @ ways src cs s (tl ep)
         else if ch ep = CHR ''*'' then concat (map (\<lambda>i. ways src cs (s + i) (tl ep)) (rev [0..<Suc n]))
         else if ch ep = CHR ''+'' then concat (map (\<lambda>i. ways src cs (s + i) (tl ep)) (rev [1..<Suc n]))
         else if ch ep = CHR ''-'' then concat (map (\<lambda>i. ways src cs (s + i) (tl ep)) [0..<Suc n])
         else if m then ways src cs (s + 1) ep
         else [])"

lemma match_agrees:
  "room ms \<Longrightarrow> agrees (visible ms) (ways src (visible ms) s p) (match src ms s p)"
  "room ms \<Longrightarrow> agrees (visible ms) (concat (map (\<lambda>j. ways src (visible ms) (s + j) q) (rev [0..<Suc i]))) (max_try src ms s i q)"
  "room ms \<Longrightarrow> agrees (visible ms) (concat (map (\<lambda>j. ways src (visible ms) (s + j) (tl ep)) [0..<Suc (run_length src s p ep)]))
     (min_expand src ms s p ep)"
proof (induction src ms s p and src ms s i q and src ms s p ep rule: match_max_try_min_expand.induct)
  case (1 src ms s p)
  note ms = "1.prems" and unfold = match.simps [of src ms s p] ways.simps [of src "visible ms" s p]
  consider (stop) "ch p = nul" | (lpar) "ch p = CHR ''(''" | (rpar) "ch p = CHR '')''"
    | (other) "ch p \<noteq> nul" "ch p \<noteq> CHR ''(''" "ch p \<noteq> CHR '')''" by blast
  then show ?case
  proof cases
    case stop
    with ms show ?thesis by (simp add: unfold)
  next
    case lpar
    obtain q what where q: "(if ch (tl p) = CHR '')'' then (drop 2 p, CAP_POSITION) else (tl p, CAP_UNFINISHED)) = (q, what)"
      by fastforce
    show ?thesis
    proof (cases "open_capture ms s what")
      case (Inl e)
      with lpar q ms show ?thesis by (simp add: unfold nul_def open_capture_def split: if_splits)
    next
      case (Inr ms1)
      have "room ms1" "visible ms1 = visible ms @ [(s, what)]" "level ms < LUA_MAXCAPTURES"
        using Inr ms by (auto simp: open_capture_def visible_def room_def take_Suc_conv_app_nth split: if_splits)
      with "1.IH"(1) [OF _ lpar refl q [symmetric] Inr] lpar
      have "agrees (visible ms @ [(s, what)]) (ways src (visible ms @ [(s, what)]) s q) (match src ms1 s q)"
        by (auto simp: nul_def)
      from open_agrees [OF ms Inr this] lpar q Inr \<open>level ms < LUA_MAXCAPTURES\<close> ms show ?thesis
        by (simp add: unfold nul_def)
    qed
  next
    case rpar
    show ?thesis
    proof (cases "unfinished_below (visible ms) (level ms)")
      case None
      moreover from None have "capture_to_close ms = Inl ''invalid pattern capture''"
        by (simp add: capture_to_close_def visible_def unfinished_below_take)
      ultimately show ?thesis using rpar ms by (simp add: unfold nul_def)
    next
      case (Some l)
      then have l: "l < level ms" "snd (visible ms ! l) = CAP_UNFINISHED" using unfinished_below_less by blast+
      have c: "capture_to_close ms = Inr l"
        using Some by (simp add: capture_to_close_def visible_def unfinished_below_take)
      have v: "visible (close_capture ms l s) = (visible ms)[l := (fst (visible ms ! l), int s - int (fst (visible ms ! l)))]"
        using visible_set_len [OF l(1) ms] l(1) by (simp add: close_capture_def visible_def)
      have "agrees (visible (close_capture ms l s)) (ways src (visible (close_capture ms l s)) s (tl p))
          (match src (close_capture ms l s) s (tl p))"
        using "1.IH"(2) rpar c ms by (auto simp: nul_def close_capture_def)
      from close_agrees [OF ms l this [unfolded v]] rpar Some c ms show ?thesis
        by (simp add: unfold nul_def)
    qed
  next
    case other
    note not = other(1) other(2) other(3)
    consider (balanced) "ch p = L_ESC" "ch (tl p) = CHR ''b''" | (front) "ch p = L_ESC" "ch (tl p) = CHR ''f''"
      | (again) "ch p = L_ESC" "c_isdigit (ch (tl p))" "ch (tl p) \<noteq> CHR ''b''" "ch (tl p) \<noteq> CHR ''f''"
      | (finish) "ch p = CHR ''$''" "ch (tl p) = nul"
      | (item) "\<not> (ch p = L_ESC \<and> ch (tl p) = CHR ''b'')" "\<not> (ch p = L_ESC \<and> ch (tl p) = CHR ''f'')"
          "\<not> (ch p = L_ESC \<and> c_isdigit (ch (tl p)))" "\<not> (ch p = CHR ''$'' \<and> ch (tl p) = nul)" by blast
    then show ?thesis
    proof cases
      case balanced
      have "agrees (visible ms) (ways src (visible ms) s1 (drop 4 p)) (match src ms s1 (drop 4 p))"
        if "matchbalance src s (drop 2 p) = Inr (Some s1)" for s1
        using "1.IH"(3) [OF not conjI [OF balanced] that refl ms] .
      with balanced ms show ?thesis by (simp add: unfold nul_def split: sum.split option.split)
    next
      case front
      have "agrees (visible ms) (ways src (visible ms) s ep) (match src ms s ep)"
        if "ch (drop 2 p) = CHR ''[''" "classend (drop 2 p) = Inr ep" "frontier src s (drop 2 p) ep" for ep
        using "1.IH"(4) not front that ms by auto
      with front ms show ?thesis by (simp add: unfold nul_def split: sum.split)
    next
      case again
      have "agrees (visible ms) (ways src (visible ms) s1 (drop 2 p)) (match src ms s1 (drop 2 p))"
        if "match_capture src ms s (ch (tl p)) = Inr (Some s1)" for s1
        using "1.IH"(5) not again that ms by auto
      with again ms match_capture_visible [OF ms] show ?thesis
        by (simp add: unfold nul_def split: sum.split option.split)
    next
      case finish
      with ms show ?thesis by (simp add: unfold nul_def)
    next
      case item
      have u: "match src ms s p = (case classend p of Inl e \<Rightarrow> Inl e | Inr ep \<Rightarrow> match_item src ms s p ep)"
        "ways src (visible ms) s p = (case classend p of Inl e \<Rightarrow> [Inl e] | Inr ep \<Rightarrow> item_ways src (visible ms) s p ep)"
        unfolding unfold match_item_def item_ways_def by (simp_all only: not item if_False)
      note ih = "1.IH"(6-) [OF not item]
      show ?thesis
      proof (cases "classend p")
        case (Inl e)
        with u show ?thesis by simp
      next
        case ep: (Inr ep)
        note ih = ih [OF ep refl]
        let ?w = "\<lambda>j. ways src (visible ms) (s + j) (tl ep)"
        consider (opt) "ch ep = CHR ''?''" | (star) "ch ep = CHR ''*''" | (plus) "ch ep = CHR ''+''" | (minus) "ch ep = CHR ''-''"
          | (one) "ch ep \<noteq> CHR ''?''" "ch ep \<noteq> CHR ''*''" "ch ep \<noteq> CHR ''+''" "ch ep \<noteq> CHR ''-''" by blast
        then have "agrees (visible ms) (item_ways src (visible ms) s p ep) (match_item src ms s p ep)"
        proof cases
          case opt
          show ?thesis
          proof (cases "single src s p ep")
            case True
            have "agrees (visible ms) (?w 1 @ ?w 0)
                (case match src ms (s + 1) (tl ep) of Inr (None, ms1) \<Rightarrow> match src ms1 s (tl ep) | r \<Rightarrow> r)"
            proof (rule agrees_append)
              show "agrees (visible ms) (?w 1) (match src ms (s + 1) (tl ep))" using ih(1) [OF opt True ms] by simp
              show "agrees (visible ms) (?w 0) (match src ms1 s (tl ep))"
                if "match src ms (s + 1) (tl ep) = Inr (None, ms1)" "room ms1" "visible ms1 = visible ms" for ms1
                using ih(2) [OF opt True that(1) refl refl that(2)] that(3) by simp
            qed
            with opt True show ?thesis by (simp add: item_ways_def match_item_def)
          next
            case False
            with ih(3) [OF opt False ms] opt show ?thesis by (simp add: item_ways_def match_item_def)
          qed
        next
          case star
          with ih(4) ms show ?thesis by (simp add: item_ways_def match_item_def del: upt_Suc)
        next
          case plus
          have "map ?w [1..<Suc (run_length src s p ep)] =
              (if single src s p ep then map (\<lambda>j. ways src (visible ms) (s + 1 + j) (tl ep)) [0..<Suc (run_length src (s + 1) p ep)] else [])"
            by (subst run_length_step) (simp add: map_Suc_upt [symmetric] del: upt_Suc)
          then have "concat (map ?w (rev [1..<Suc (run_length src s p ep)])) = (if single src s p ep
              then concat (map (\<lambda>j. ways src (visible ms) (s + 1 + j) (tl ep)) (rev [0..<Suc (run_length src (s + 1) p ep)])) else [])"
            unfolding rev_map [symmetric] by (simp add: rev_map del: upt_Suc)
          with plus ih(5) ms show ?thesis by (simp add: item_ways_def match_item_def del: upt_Suc)
        next
          case minus
          with ih(6) ms show ?thesis by (simp add: item_ways_def match_item_def del: upt_Suc)
        next
          case one
          with ih(7) ms show ?thesis by (simp add: item_ways_def match_item_def)
        qed
        with u ep show ?thesis by simp
      qed
    qed
  qed
next
  case (2 src ms s i q)
  have "agrees (visible ms) (ways src (visible ms) (s + i) q @ concat (map (\<lambda>j. ways src (visible ms) (s + j) q) (rev [0..<i])))
    (case match src ms (s + i) q of
        Inr (None, ms1) \<Rightarrow> if i = 0 then Inr (None, ms1) else max_try src ms1 s (i - 1) q
      | r \<Rightarrow> r)"
  proof (rule agrees_append)
    show "agrees (visible ms) (ways src (visible ms) (s + i) q) (match src ms (s + i) q)" using 2 by blast
    show "agrees (visible ms) (concat (map (\<lambda>j. ways src (visible ms) (s + j) q) (rev [0..<i])))
        (if i = 0 then Inr (None, ms1) else max_try src ms1 s (i - 1) q)"
      if "match src ms (s + i) q = Inr (None, ms1)" "room ms1" "visible ms1 = visible ms" for ms1
      using that "2.IH"(2) [OF that(1) refl] by (cases i) auto
  qed
  then show ?case by (simp add: max_try.simps [of src ms s i q])
next
  case (3 src ms s p ep)
  let ?w = "\<lambda>j. ways src (visible ms) (s + j) (tl ep)"
  let ?rest = "if single src s p ep then concat (map (\<lambda>j. ?w (Suc j)) [0..<Suc (run_length src (s + 1) p ep)]) else []"
  have "agrees (visible ms) (?w 0 @ ?rest)
    (case match src ms s (tl ep) of
        Inr (None, ms1) \<Rightarrow> if single src s p ep then min_expand src ms1 (s + 1) p ep else Inr (None, ms1)
      | r \<Rightarrow> r)"
  proof (rule agrees_append)
    show "agrees (visible ms) (?w 0) (match src ms s (tl ep))" using 3 by simp
    show "agrees (visible ms) ?rest (if single src s p ep then min_expand src ms1 (s + 1) p ep else Inr (None, ms1))"
      if "match src ms s (tl ep) = Inr (None, ms1)" "room ms1" "visible ms1 = visible ms" for ms1
      using that "3.IH"(2) [OF that(1) refl] by simp
  qed
  moreover have "map ?w [0..<Suc (run_length src s p ep)] =
      ?w 0 # (if single src s p ep then map (\<lambda>j. ?w (Suc j)) [0..<Suc (run_length src (s + 1) p ep)] else [])"
    by (subst run_length_step) (simp add: upt_conv_Cons map_Suc_upt [symmetric] del: upt_Suc)
  ultimately show ?case
    by (cases "single src s p ep") (simp_all add: min_expand.simps [of src ms s p ep] del: upt_Suc)
qed

text \<open>
  C36. The matcher with its mutable captures finds the first way of the specification: it fails exactly if there is none,
  then with the captures as they were, and raises the error that is met first.
\<close>

theorem match_first_way:
  assumes "room ms"
  shows "agrees (visible ms) (ways src (visible ms) s p) (match src ms s p)"
  using assms by (rule match_agrees(1))

theorem match_first_way_witness:
  "\<exists>ms. match ''xab'' \<lparr>level = 0, capture = replicate 32 (0, 0)\<rparr> 1 ''(a*)b'' = Inr (Some 3, ms) \<and> visible ms = [(1, 1)]"
proof -
  have "ways ''xab'' [] 1 ''(a*)b'' = [Inr (3, [(1, 1)])]" by code_simp
  moreover have "room \<lparr>level = 0, capture = replicate 32 (0, 0)\<rparr>" by (simp add: room_def LUA_MAXCAPTURES_def)
  ultimately show ?thesis
    using match_first_way [of "\<lparr>level = 0, capture = replicate 32 (0, 0)\<rparr>" "''xab''" 1 "''(a*)b''"]
    by (auto simp: visible_def)
qed

section \<open>Ends and captures lie in the subject\<close>

definition inside :: "nat \<Rightarrow> captures \<Rightarrow> bool" where
  "inside s cs \<longleftrightarrow> (\<forall>(start, n) \<in> set cs. start \<le> s \<and>
     (n = CAP_UNFINISHED \<or> n = CAP_POSITION \<or> 0 \<le> n \<and> start + nat n \<le> s))"

lemma inside_mono: "inside s cs \<Longrightarrow> s \<le> e \<Longrightarrow> inside e cs"
  by (fastforce simp: inside_def)

lemma inside_Nil [simp]: "inside s []"
  by (simp add: inside_def)

lemma inside_open: "inside s cs \<Longrightarrow> what \<in> {CAP_UNFINISHED, CAP_POSITION} \<Longrightarrow> inside s (cs @ [(s, what)])"
  by (auto simp: inside_def)

lemma inside_close:
  assumes "inside s cs" "l < length cs"
  shows "inside s (cs[l := (fst (cs ! l), int s - int (fst (cs ! l)))])"
proof -
  have "fst (cs ! l) \<le> s" using assms by (force simp: inside_def dest: nth_mem)
  then show ?thesis using assms(1) by (auto simp: inside_def dest!: subsetD [OF set_update_subset_insert])
qed

lemma balance_bounds: "balance src b e n s = Some s1 \<Longrightarrow> s < s1 \<and> s1 \<le> length src"
proof (induction src b e n s rule: balance.induct)
  case (1 src b e n s)
  from "1.prems" have "s + 1 < length src" by (simp add: balance.simps [of src b e n s] split: if_splits)
  moreover have "s1 = s + 2 \<or> s + 1 < s1 \<and> s1 \<le> length src"
    using 1 by (auto simp: balance.simps [of src b e n s] split: if_splits)
  ultimately show ?case by auto
qed

lemma matchbalance_bounds: "matchbalance src s p = Inr (Some s1) \<Longrightarrow> s < s1 \<and> s1 \<le> length src"
  by (auto simp: matchbalance_def dest: balance_bounds split: if_splits)

lemma match_capture_bounds:
  "match_capture src ms s l = Inr (Some s1) \<Longrightarrow> s \<le> length src \<Longrightarrow> s \<le> s1 \<and> s1 \<le> length src"
  by (auto simp: match_capture_def split: sum.splits prod.splits if_splits)

lemma run_length_bounds: "s \<le> length src \<Longrightarrow> s + run_length src s p ep \<le> length src"
  using length_takeWhile_le [of "\<lambda>c. singlematch c p ep" "drop s src"] by (simp add: run_length_def)

lemma ways_stop: "ch p = nul \<Longrightarrow> ways src cs s p = [Inr (s, cs)]"
  by (simp add: ways.simps [of src cs s p])

lemma ways_lpar:
  "ch p = CHR ''('' \<Longrightarrow> ways src cs s p =
     (if length cs \<ge> LUA_MAXCAPTURES then [Inl ''too many captures'']
      else if ch (tl p) = CHR '')'' then ways src (cs @ [(s, CAP_POSITION)]) s (drop 2 p)
      else ways src (cs @ [(s, CAP_UNFINISHED)]) s (tl p))"
  by (simp add: ways.simps [of src cs s p] nul_def)

lemma ways_rpar:
  "ch p = CHR '')'' \<Longrightarrow> ways src cs s p =
     (case unfinished_below cs (length cs) of
        None \<Rightarrow> [Inl ''invalid pattern capture'']
      | Some l \<Rightarrow> ways src (cs[l := (fst (cs ! l), int s - int (fst (cs ! l)))]) s (tl p))"
  by (simp add: ways.simps [of src cs s p] nul_def)

lemma ways_balanced:
  "ch p = L_ESC \<Longrightarrow> ch (tl p) = CHR ''b'' \<Longrightarrow> ways src cs s p =
     (case matchbalance src s (drop 2 p) of
        Inl e \<Rightarrow> [Inl e] | Inr None \<Rightarrow> [] | Inr (Some s1) \<Rightarrow> ways src cs s1 (drop 4 p))"
  by (simp add: ways.simps [of src cs s p] nul_def)

lemma ways_front:
  "ch p = L_ESC \<Longrightarrow> ch (tl p) = CHR ''f'' \<Longrightarrow> ways src cs s p =
     (if ch (drop 2 p) \<noteq> CHR ''['' then [Inl ''missing '[' after '%f' in pattern'']
      else case classend (drop 2 p) of
        Inl e \<Rightarrow> [Inl e] | Inr ep \<Rightarrow> if frontier src s (drop 2 p) ep then ways src cs s ep else [])"
  by (simp add: ways.simps [of src cs s p] nul_def)

lemma ways_again:
  "ch p = L_ESC \<Longrightarrow> c_isdigit (ch (tl p)) \<Longrightarrow> ch (tl p) \<noteq> CHR ''b'' \<Longrightarrow> ch (tl p) \<noteq> CHR ''f'' \<Longrightarrow> ways src cs s p =
     (case match_capture src \<lparr>level = length cs, capture = cs\<rparr> s (ch (tl p)) of
        Inl e \<Rightarrow> [Inl e] | Inr None \<Rightarrow> [] | Inr (Some s1) \<Rightarrow> ways src cs s1 (drop 2 p))"
  by (simp add: ways.simps [of src cs s p] nul_def)

lemma ways_finish:
  "ch p = CHR ''$'' \<Longrightarrow> ch (tl p) = nul \<Longrightarrow> ways src cs s p = (if s = length src then [Inr (s, cs)] else [])"
  by (simp add: ways.simps [of src cs s p] nul_def)

text \<open>What stands at a position of the pattern.\<close>

definition item_at :: "string \<Rightarrow> bool" where
  "item_at p \<longleftrightarrow> ch p \<notin> {nul, CHR ''('', CHR '')''} \<and>
     \<not> (ch p = L_ESC \<and> (ch (tl p) \<in> {CHR ''b'', CHR ''f''} \<or> c_isdigit (ch (tl p)))) \<and>
     \<not> (ch p = CHR ''$'' \<and> ch (tl p) = nul)"

lemma ways_item:
  assumes "item_at p"
  shows "ways src cs s p = (case classend p of Inl e \<Rightarrow> [Inl e] | Inr ep \<Rightarrow> item_ways src cs s p ep)"
proof -
  have not: "ch p \<noteq> nul" "ch p \<noteq> CHR ''(''" "ch p \<noteq> CHR '')''" "\<not> (ch p = L_ESC \<and> ch (tl p) = CHR ''b'')"
    "\<not> (ch p = L_ESC \<and> ch (tl p) = CHR ''f'')" "\<not> (ch p = L_ESC \<and> c_isdigit (ch (tl p)))"
    "\<not> (ch p = CHR ''$'' \<and> ch (tl p) = nul)"
    using assms by (auto simp: item_at_def)
  show ?thesis unfolding ways.simps [of src cs s p] item_ways_def by (simp only: not if_False)
qed

lemma pattern_cases [case_names stop lpar rpar balanced front again finish item]:
  obtains "ch p = nul" | "ch p = CHR ''(''" | "ch p = CHR '')''"
    | "ch p = L_ESC" "ch (tl p) = CHR ''b''" | "ch p = L_ESC" "ch (tl p) = CHR ''f''"
    | "ch p = L_ESC" "c_isdigit (ch (tl p))" "ch (tl p) \<noteq> CHR ''b''" "ch (tl p) \<noteq> CHR ''f''"
    | "ch p = CHR ''$''" "ch (tl p) = nul" | "item_at p"
  by (auto simp: item_at_def)

text \<open>A way behind a single class goes on after some characters of the class.\<close>

lemma item_ways_elem:
  assumes "x \<in> set (item_ways src cs s p ep)"
  obtains i q where "x \<in> set (ways src cs (s + i) q)" "i \<le> run_length src s p ep" "q = tl ep \<or> q = ep"
  using assms that [of 0 "tl ep"] that [of 1 "tl ep"] that [of 1 ep] that
  by (auto simp: item_ways_def Let_def run_length_step [of src s p ep] less_Suc_eq_le simp del: upt_Suc split: if_splits)

lemma ways_inside:
  "Inr (e, cs') \<in> set (ways src cs s p) \<Longrightarrow> s \<le> length src \<Longrightarrow> inside s cs \<Longrightarrow> s \<le> e \<and> e \<le> length src \<and> inside e cs'"
proof (induction "length p" arbitrary: cs s p rule: less_induct)
  case less
  note s = less.prems(2,3)
  have down: "ch p \<noteq> nul \<Longrightarrow> length (tl p) < length p" "ch p \<noteq> nul \<Longrightarrow> 0 < n \<Longrightarrow> length (drop n p) < length p" for n
    by (cases p; simp)+
  show ?case
  proof (cases p rule: pattern_cases)
    case stop
    with less.prems show ?thesis by (simp add: ways_stop)
  next
    case lpar
    then show ?thesis
      using less.prems less.hyps [OF down(2) [of 2] _ _ inside_open [OF s(2)]] less.hyps [OF down(1) _ _ inside_open [OF s(2)]]
      by (simp add: ways_lpar nul_def split: if_splits)
  next
    case rpar
    then obtain l where l: "unfinished_below cs (length cs) = Some l"
        "Inr (e, cs') \<in> set (ways src (cs[l := (fst (cs ! l), int s - int (fst (cs ! l)))]) s (tl p))"
      using less.prems(1) by (simp add: ways_rpar split: option.splits)
    moreover have "l < length cs" using unfinished_below_less l(1) by blast
    ultimately show ?thesis using less.hyps [OF down(1) l(2) s(1) inside_close [OF s(2)]] rpar by (simp add: nul_def)
  next
    case balanced
    then obtain s1 where s1: "matchbalance src s (drop 2 p) = Inr (Some s1)" "Inr (e, cs') \<in> set (ways src cs s1 (drop 4 p))"
      using less.prems(1) by (auto simp: ways_balanced split: sum.splits option.splits)
    moreover from this(1) have "s < s1" "s1 \<le> length src" using matchbalance_bounds by blast+
    ultimately show ?thesis using less.hyps [OF down(2) [of 4] s1(2) _ inside_mono [OF s(2), of s1]] balanced by (simp add: nul_def)
  next
    case front
    then obtain ep where ep: "ch (drop 2 p) = CHR ''[''" "classend (drop 2 p) = Inr ep" "Inr (e, cs') \<in> set (ways src cs s ep)"
      using less.prems(1) by (auto simp: ways_front split: sum.splits if_splits)
    have "length ep < length p"
      using classend_shorter [OF ep(2)] ep(1) by (cases "drop 2 p") (auto simp: nul_def dest: arg_cong [of _ _ length])
    then show ?thesis using less.hyps [OF _ ep(3) s] by simp
  next
    case again
    then obtain s1 where s1: "match_capture src \<lparr>level = length cs, capture = cs\<rparr> s (ch (tl p)) = Inr (Some s1)"
        "Inr (e, cs') \<in> set (ways src cs s1 (drop 2 p))"
      using less.prems(1) by (auto simp: ways_again split: sum.splits option.splits)
    moreover from this(1) have "s \<le> s1" "s1 \<le> length src" using match_capture_bounds [OF _ s(1)] by blast+
    ultimately show ?thesis using less.hyps [OF down(2) [of 2] s1(2) _ inside_mono [OF s(2), of s1]] again by (simp add: nul_def)
  next
    case finish
    with less.prems show ?thesis by (simp add: ways_finish split: if_splits)
  next
    case item
    then obtain ep where ep: "classend p = Inr ep" "Inr (e, cs') \<in> set (item_ways src cs s p ep)"
      using less.prems(1) by (auto simp: ways_item split: sum.splits)
    obtain i q where i: "Inr (e, cs') \<in> set (ways src cs (s + i) q)" "i \<le> run_length src s p ep" "q = tl ep \<or> q = ep"
      by (rule item_ways_elem [OF ep(2)])
    have "p \<noteq> []" using item by (auto simp: item_at_def)
    then have "length q < length p" using classend_shorter [OF ep(1)] i(3) by auto
    with less.hyps [OF _ i(1)] inside_mono [OF s(2)] i(2) run_length_bounds [OF s(1), of p ep] show ?thesis by auto
  qed
qed

section \<open>What a pattern without captures matches\<close>

datatype mult = One | Opt | Star | Plus | Lazy

text \<open>
  Such a pattern is a sequence of tests, each for as many characters as its mark allows, and may ask for the end of the
  subject. Patterns with captures, balanced parts or frontiers have no such form.
\<close>

type_synonym tests = "((char \<Rightarrow> bool) \<times> mult) list"

definition mark :: "string \<Rightarrow> mult \<times> string" where
  "mark ep =
     (if ch ep = CHR ''?'' then (Opt, tl ep) else if ch ep = CHR ''*'' then (Star, tl ep)
      else if ch ep = CHR ''+'' then (Plus, tl ep) else if ch ep = CHR ''-'' then (Lazy, tl ep)
      else (One, ep))"

lemma mark_shorter: "length (snd (mark ep)) \<le> length ep"
  by (simp add: mark_def)

function parse_items :: "string \<Rightarrow> (tests \<times> bool) option" where
  "parse_items p =
     (if ch p = nul then Some ([], False)
      else if ch p = CHR ''$'' \<and> ch (tl p) = nul then Some ([], True)
      else if item_at p then
        (case classend p of
           Inl e \<Rightarrow> None
         | Inr ep \<Rightarrow> map_option (\<lambda>(xs, stop). ((\<lambda>c. singlematch c p ep, fst (mark ep)) # xs, stop)) (parse_items (snd (mark ep))))
      else None)"
  by pat_completeness auto

termination
proof (relation "measure length", goal_cases)
  case (2 p ep)
  then have "length ep < length p" by (intro classend_shorter) auto
  with mark_shorter [of ep] show ?case by simp
qed simp

declare parse_items.simps [simp del]

fun allowed :: "mult \<Rightarrow> nat \<Rightarrow> bool" where
  "allowed One i \<longleftrightarrow> i = 1"
| "allowed Opt i \<longleftrightarrow> i \<le> 1"
| "allowed Star i \<longleftrightarrow> True"
| "allowed Plus i \<longleftrightarrow> 1 \<le> i"
| "allowed Lazy i \<longleftrightarrow> True"

fun fits :: "tests \<Rightarrow> string \<Rightarrow> bool" where
  "fits [] w \<longleftrightarrow> w = []"
| "fits ((f, m) # xs) w \<longleftrightarrow>
     (\<exists>i \<le> length w. allowed m i \<and> list_all f (take i w) \<and> fits xs (drop i w))"

lemma set_item_ways:
  "set (item_ways src cs s p ep) =
     (\<Union>i \<in> {i. i \<le> run_length src s p ep \<and> allowed (fst (mark ep)) i}. set (ways src cs (s + i) (snd (mark ep))))"
proof -
  have n: "single src s p ep \<longleftrightarrow> 1 \<le> run_length src s p ep" using run_length_step [of src s p ep] by simp
  have two: "i \<le> 1 \<longleftrightarrow> i = 0 \<or> i = 1" for i :: nat by auto
  show ?thesis
    by (auto simp: item_ways_def mark_def Let_def n two less_Suc_eq_le simp del: upt_Suc One_nat_def)
qed

lemma le_takeWhile: "i \<le> length (takeWhile f w) \<longleftrightarrow> i \<le> length w \<and> list_all f (take i w)"
proof (induction w arbitrary: i)
  case (Cons c w)
  then show ?case by (cases i) auto
qed simp

text \<open>The ends of the parts of the subject from \<open>s\<close> on that fit.\<close>

definition ends :: "string \<Rightarrow> nat \<Rightarrow> tests \<times> bool \<Rightarrow> nat set" where
  "ends src s t =
     {e. s \<le> e \<and> e \<le> length src \<and> (snd t \<longrightarrow> e = length src) \<and> fits (fst t) (take (e - s) (drop s src))}"

lemma ends_Cons:
  assumes "s \<le> length src"
  shows "ends src s ((f, m) # xs, stop) =
    (\<Union>i \<in> {i. i \<le> length (takeWhile f (drop s src)) \<and> allowed m i}. ends src (s + i) (xs, stop))"
proof -
  have "(s \<le> e \<and> e \<le> length src \<and> i \<le> length (take (e - s) (drop s src)) \<and> list_all f (take i (take (e - s) (drop s src)))
      \<and> fits xs (drop i (take (e - s) (drop s src)))) \<longleftrightarrow>
    (i \<le> length (takeWhile f (drop s src)) \<and> s + i \<le> e \<and> e \<le> length src \<and> fits xs (take (e - (s + i)) (drop (s + i) src)))"
    for e i
    using assms by (auto simp: le_takeWhile drop_take min_def add.commute)
  then show ?thesis by (auto simp: ends_def)
qed

lemma ways_fit:
  "parse_items p = Some t \<Longrightarrow> s \<le> length src \<Longrightarrow> set (ways src cs s p) = (\<lambda>e. Inr (e, cs)) ` ends src s t"
proof (induction p arbitrary: t s rule: parse_items.induct)
  case (1 p)
  consider (stop) "ch p = nul" | (finish) "ch p \<noteq> nul" "ch p = CHR ''$''" "ch (tl p) = nul"
    | (item) "ch p \<noteq> nul" "\<not> (ch p = CHR ''$'' \<and> ch (tl p) = nul)" "item_at p"
    using "1.prems"(1) by (auto simp: parse_items.simps [of p] split: if_splits)
  then show ?case
  proof cases
    case stop
    then have "t = ([], False)" using "1.prems"(1) by (simp add: parse_items.simps [of p])
    with stop "1.prems"(2) show ?thesis by (auto simp: ways_stop ends_def)
  next
    case finish
    then have "t = ([], True)" using "1.prems"(1) by (simp add: parse_items.simps [of p])
    with finish "1.prems"(2) show ?thesis by (auto simp: ways_finish ends_def)
  next
    case item
    then obtain ep xs stop where ep: "classend p = Inr ep" "parse_items (snd (mark ep)) = Some (xs, stop)"
        "t = ((\<lambda>c. singlematch c p ep, fst (mark ep)) # xs, stop)"
      using "1.prems"(1) by (auto simp: parse_items.simps [of p] split: sum.splits)
    have "set (ways src cs (s + i) (snd (mark ep))) = (\<lambda>e. Inr (e, cs)) ` ends src (s + i) (xs, stop)"
      if "i \<le> run_length src s p ep" for i
      using "1.IH" [OF item ep(1,2)] run_length_bounds [OF "1.prems"(2), of p ep] that by simp
    then show ?thesis
      using item ep(1) by (simp add: ways_item set_item_ways ep(3) ends_Cons [OF "1.prems"(2)] run_length_def image_UN)
  qed
qed

text \<open>
  A pattern without captures matches from a position exactly if some part of the subject that starts there
  has its form; the end found is that of such a part, and the captures do not change.
\<close>

theorem match_fits:
  assumes "room ms" "parse_items p = Some t" "s \<le> length src"
  shows "if ends src s t = {} then \<exists>ms'. match src ms s p = Inr (None, ms') \<and> visible ms' = visible ms
    else \<exists>e ms'. match src ms s p = Inr (Some e, ms') \<and> e \<in> ends src s t \<and> visible ms' = visible ms"
proof -
  note a = match_agrees(1) [OF assms(1), of src s p] and w = ways_fit [OF assms(2,3), of "visible ms"]
  show ?thesis
  proof (cases "ways src (visible ms) s p")
    case Nil
    with a w show ?thesis by auto
  next
    case (Cons x ws)
    then have "x \<in> (\<lambda>e. Inr (e, visible ms)) ` ends src s t" using w by auto
    then obtain e where e: "e \<in> ends src s t" "x = Inr (e, visible ms)" by blast
    then have "ends src s t \<noteq> {}" by blast
    with a Cons e show ?thesis by auto
  qed
qed

end
