(* ===== verification/LuaStrlib.thy ===== *)
theory LuaStrlib
  imports LuaMatch
begin

text \<open>
  The functions of \<^verbatim>\<open>misc/luabash/lua/lstrlib.c\<close> on the values of \<^theory_text>\<open>LuaApi\<close>. Arguments are counted from 0. A result
  is a Lua error on the left, or the values that are returned. The array of captures is not initialised by
  the code; it is the parameter \<open>junk\<close> of the functions that match.
\<close>

section \<open>Arguments\<close>

definition needed :: "'a option \<Rightarrow> string + 'a" where
  "needed x = (case x of None \<Rightarrow> Inl ''bad argument'' | Some v \<Rightarrow> Inr v)"

definition and_then :: "string + 'a \<Rightarrow> ('a \<Rightarrow> string + 'b) \<Rightarrow> string + 'b" where
  "and_then r f = (case r of Inl e \<Rightarrow> Inl e | Inr v \<Rightarrow> f v)"

lemma and_then_simps [simp]: "and_then (Inl e) f = Inl e" "and_then (Inr v) f = f v"
  by (simp_all add: and_then_def)

lemma needed_simps [simp]: "needed (Some v) = Inr v" "needed None = Inl ''bad argument''"
  by (simp_all add: needed_def)

lemma and_then_Inr: "and_then r f = Inr y \<longleftrightarrow> (\<exists>x. r = Inr x \<and> f x = Inr y)"
  by (cases r) auto

type_synonym results = "string + lua_value list"

section \<open>Parts of strings\<close>

definition str_len :: "lua \<Rightarrow> lua_value list \<Rightarrow> results" where
  "str_len L args = and_then (needed (checkstring L args 0)) (\<lambda>s. Inr [Number (of_nat (length s))])"

text \<open>A negative position counts from the end.\<close>

definition posrelat :: "int \<Rightarrow> nat \<Rightarrow> int" where
  "posrelat pos len = (if pos \<ge> 0 then pos else int len + pos + 1)"

definition str_sub :: "lua \<Rightarrow> lua_value list \<Rightarrow> results" where
  "str_sub L args =
     and_then (needed (checkstring L args 0)) (\<lambda>s.
     and_then (needed (checkint L args 1)) (\<lambda>i.
     and_then (needed (optint L args 2 (-1))) (\<lambda>j.
       let start = max 1 (posrelat i (length s)); stop = min (int (length s)) (posrelat j (length s))
       in Inr [Text (if start \<le> stop then take (nat (stop - start + 1)) (drop (nat (start - 1)) s) else [])])))"

definition str_reverse :: "lua \<Rightarrow> lua_value list \<Rightarrow> results" where
  "str_reverse L args = and_then (needed (checkstring L args 0)) (\<lambda>s. Inr [Text (rev s)])"

definition str_lower :: "lua \<Rightarrow> lua_value list \<Rightarrow> results" where
  "str_lower L args = and_then (needed (checkstring L args 0)) (\<lambda>s. Inr [Text (map c_tolower s)])"

definition str_upper :: "lua \<Rightarrow> lua_value list \<Rightarrow> results" where
  "str_upper L args = and_then (needed (checkstring L args 0)) (\<lambda>s. Inr [Text (map c_toupper s)])"

definition str_rep :: "lua \<Rightarrow> lua_value list \<Rightarrow> results" where
  "str_rep L args =
     and_then (needed (checkstring L args 0)) (\<lambda>s.
     and_then (needed (checkint L args 1)) (\<lambda>n. Inr [Text (concat (replicate (nat n) s))]))"

text \<open>
  The comparison of the end with the length is between unsigned numbers, so that a negative end is a
  large one. An \<open>int\<close> has 32 bits, and \<open>lua\_checkstack\<close> grants 2048 values with the arguments.
\<close>

definition byte_values :: "nat \<Rightarrow> string \<Rightarrow> int \<Rightarrow> int \<Rightarrow> results" where
  "byte_values given s posi j =
     (let pose = posrelat j (length s); posi = (if posi \<le> 0 then 1 else posi);
          pose = (if pose < 0 \<or> int (length s) < pose then int (length s) else pose)
      in if posi > pose then Inr []
         else let n = signed_take_bit 31 (pose - posi + 1)
              in if posi + n \<le> pose \<or> int given + n > 2048 then Inl ''string slice too long''
                 else Inr (map (\<lambda>k. Number (of_nat (code (s ! nat (posi + k - 1))))) [0..n - 1]))"

definition str_byte :: "lua \<Rightarrow> lua_value list \<Rightarrow> results" where
  "str_byte L args =
     and_then (needed (checkstring L args 0)) (\<lambda>s.
     and_then (needed (optint L args 1 1)) (\<lambda>i.
     and_then (needed (optint L args 2 (posrelat i (length s)))) (byte_values (length args) s (posrelat i (length s)))))"

fun str_char_loop :: "lua \<Rightarrow> lua_value list \<Rightarrow> string \<Rightarrow> results" where
  "str_char_loop L [] b = Inr [Text b]"
| "str_char_loop L (v # vs) b =
     (case map_option truncate_number (tonumber L v) of
        None \<Rightarrow> Inl ''bad argument''
      | Some c \<Rightarrow> if 0 \<le> c \<and> c < 256 then str_char_loop L vs (b @ [char_of (nat c)]) else Inl ''invalid value'')"

definition str_char :: "lua \<Rightarrow> lua_value list \<Rightarrow> results" where
  "str_char L args = str_char_loop L args []"

text \<open>An end before the start by more than the length gives the whole rest of the string.\<close>

lemma str_byte_numbers:
  "str_byte L [Text s, Number (of_int i), Number (of_int j)] = byte_values 3 s (posrelat i (length s)) j"
  by (simp add: str_byte_def optint_def checkint_def isnoneornil_def tonumber_def numeral_2_eq_2 numeral_3_eq_3)

lemma negative_end_ignored:
  "str_byte L [Text ''abc'', Number 1, Number (-10)] = Inr [Number 97, Number 98, Number 99]"
proof -
  have "[0..2::int] = [0, 1, 2]" by (simp add: upto.simps)
  then have "byte_values 3 ''abc'' (posrelat 1 (length ''abc'')) (-10) = Inr [Number 97, Number 98, Number 99]"
    by (simp add: byte_values_def posrelat_def code_def Let_def signed_take_bit_int_eq_self)
  with str_byte_numbers [of L "''abc''" 1 "-10"] show ?thesis by simp
qed

text \<open>\<open>char\<close> is the inverse of \<open>byte\<close> on every string that fits the stack.\<close>

lemma str_char_loop_codes: "str_char_loop L (map (\<lambda>c. Number (of_nat (code c))) s) b = Inr [Text (b @ s)]"
proof (induction s arbitrary: b)
  case (Cons c s)
  have "truncate_number (rat_of_nat (code c)) = int (code c)"
    using truncate_of_int [of "int (code c)"] by simp
  then show ?case using Cons by (simp add: tonumber_def code_def)
qed simp

lemma all_bytes:
  assumes "length s \<le> 2045"
  shows "byte_values 3 s 1 (-1) = Inr (map (\<lambda>c. Number (of_nat (code c))) s)"
proof (cases "s = []")
  case True
  then show ?thesis by (simp add: byte_values_def posrelat_def)
next
  case False
  have n: "signed_take_bit 31 (int (length s) - 1 + 1) = int (length s)"
    using assms by (simp add: signed_take_bit_int_eq_self)
  have p: "posrelat (-1) (length s) = int (length s)" by (simp add: posrelat_def)
  have u: "[0..int n - 1] = map int [0..<n]" for n
  proof (induction n)
    case (Suc n)
    have "[0..int n] = [0..int n - 1] @ [int n]" by (rule upto_rec2) simp
    then show ?case using Suc by simp
  qed simp
  have m: "map (\<lambda>k. Number (of_nat (code (s ! nat (1 + k - 1))))) [0..int (length s) - 1] = map (\<lambda>c. Number (of_nat (code c))) s"
    unfolding u by (rule nth_equalityI) simp_all
  have c: "((1::int) \<le> 0) = False" "(int (length s) < 0 \<or> int (length s) < int (length s)) = False"
    "(int (length s) < 1) = False" "(1 + int (length s) \<le> int (length s) \<or> 2048 < int 3 + int (length s)) = False"
    using assms False by (auto simp: Suc_le_eq)
  show ?thesis unfolding byte_values_def Let_def p by (simp only: c if_False n m)
qed

lemma str_char_byte:
  assumes "length s \<le> 2045"
  shows "and_then (str_byte L [Text s, Number 1, Number (-1)]) (str_char L) = Inr [Text s]"
  using str_byte_numbers [of L s 1 "-1"] all_bytes [OF assms] str_char_loop_codes [of L s "[]"]
  by (simp add: str_char_def posrelat_def)

section \<open>Finding\<close>

text \<open>\<open>lmemfind\<close>: the first character is looked for with \<open>memchr\<close>, in the \<open>l1\<close> places where the rest can follow.\<close>

definition memchr :: "char \<Rightarrow> string \<Rightarrow> nat option" where
  "memchr c s = (let k = length (takeWhile (\<lambda>d. d \<noteq> c) s) in if k < length s then Some k else None)"

function memfind_loop :: "string \<Rightarrow> nat \<Rightarrow> string \<Rightarrow> nat \<Rightarrow> nat option" where
  "memfind_loop s1 l1 s2 off =
     (case memchr (hd s2) (take l1 s1) of
        None \<Rightarrow> None
      | Some k \<Rightarrow>
          if take (length s2 - 1) (drop (k + 1) s1) = tl s2 then Some (off + k)
          else memfind_loop (drop (k + 1) s1) (l1 - (k + 1)) s2 (off + k + 1))"
  by pat_completeness auto

termination by (relation "measure (\<lambda>(s1, l1, s2, off). l1)") (auto simp: memchr_def Let_def split: if_splits)

declare memfind_loop.simps [simp del]

definition lmemfind :: "string \<Rightarrow> string \<Rightarrow> nat option" where
  "lmemfind s1 s2 =
     (if s2 = [] then Some 0
      else if length s2 > length s1 then None
      else memfind_loop s1 (length s1 - (length s2 - 1)) s2 0)"

definition occurs_at :: "string \<Rightarrow> string \<Rightarrow> nat \<Rightarrow> bool" where
  "occurs_at s1 s2 i \<longleftrightarrow> i + length s2 \<le> length s1 \<and> take (length s2) (drop i s1) = s2"

lemma memchr_Some: "memchr c s = Some k \<Longrightarrow> k < length s \<and> s ! k = c \<and> (\<forall>j < k. s ! j \<noteq> c)"
  by (auto simp: memchr_def Let_def dest: nth_length_takeWhile split: if_splits)
    (metis (full_types) nth_mem set_takeWhileD takeWhile_nth)

lemma memchr_None: "memchr c s = None \<Longrightarrow> c \<notin> set s"
  by (auto simp: memchr_def Let_def split: if_splits dest: length_takeWhile_less [where P = "\<lambda>d. d \<noteq> c"])

lemma occurs_hd:
  assumes "s2 \<noteq> []" "occurs_at s1 s2 i"
  shows "i < length s1 \<and> s1 ! i = hd s2"
proof -
  have i: "i < length s1" "take (length s2) (drop i s1) = s2" using assms by (cases s2; simp add: occurs_at_def)+
  then have "hd s2 = hd (drop i s1)" using assms(1) by (metis hd_take length_greater_0_conv)
  with i(1) show ?thesis by (simp add: hd_drop_conv_nth)
qed

lemma memfind_loop_first:
  assumes "s2 \<noteq> []"
  shows "case memfind_loop s1 (Suc (length s1) - length s2) s2 off of
      None \<Rightarrow> \<forall>i. \<not> occurs_at s1 s2 i
    | Some r \<Rightarrow> \<exists>i. r = off + i \<and> occurs_at s1 s2 i \<and> (\<forall>j < i. \<not> occurs_at s1 s2 j)"
proof (induction "length s1" arbitrary: s1 off rule: less_induct)
  case less
  let ?l = "Suc (length s1) - length s2"
  have inl: "i < ?l" if "occurs_at s1 s2 i" for i using that assms by (cases s2) (auto simp: occurs_at_def)
  show ?case
  proof (cases "memchr (hd s2) (take ?l s1)")
    case None
    have "\<not> occurs_at s1 s2 i" for i
    proof
      assume o: "occurs_at s1 s2 i"
      from occurs_hd [OF assms o] inl [OF o] have "hd s2 \<in> set (take ?l s1)"
        by (metis in_set_conv_nth length_take min_less_iff_conj nth_take)
      with memchr_None [OF None] show False by simp
    qed
    with None show ?thesis by (simp add: memfind_loop.simps [of s1 ?l s2 off])
  next
    case (Some k)
    from memchr_Some [OF this] have k: "k < ?l" "k < length s1" "s1 ! k = hd s2" "\<forall>j < k. s1 ! j \<noteq> hd s2" by auto
    then have no: "\<not> occurs_at s1 s2 j" if "j < k" for j using occurs_hd [OF assms] that by blast
    have here: "occurs_at s1 s2 k \<longleftrightarrow> take (length s2 - 1) (drop (k + 1) s1) = tl s2"
      using k assms by (cases s2) (auto simp: occurs_at_def Cons_nth_drop_Suc [symmetric])
    have shift: "occurs_at (drop (k + 1) s1) s2 j \<longleftrightarrow> occurs_at s1 s2 (k + 1 + j)" for j
      using k(2) by (auto simp: occurs_at_def add.commute add.left_commute)
    show ?thesis
    proof (cases "occurs_at s1 s2 k")
      case True
      with here no Some show ?thesis by (simp add: memfind_loop.simps [of s1 ?l s2 off])
    next
      case False
      let ?s = "drop (k + 1) s1"
      have l: "Suc (length ?s) - length s2 = ?l - (k + 1)" using k(2) by simp
      have loop: "memfind_loop s1 ?l s2 off = memfind_loop ?s (?l - (k + 1)) s2 (off + k + 1)"
        using False here Some by (simp add: memfind_loop.simps [of s1 ?l s2 off])
      have split: "(\<exists>j'. i = k + 1 + j') \<or> i \<le> k" for i by presburger
      have none: "\<not> occurs_at s1 s2 i" if "\<And>j. i = k + 1 + j \<Longrightarrow> \<not> occurs_at s1 s2 (k + 1 + j)" for i
        using that split [of i] no False by (metis le_neq_implies_less)
      have "length ?s < length s1" using k(2) by simp
      note ih = less.hyps [OF this, of "off + k + 1", unfolded l shift]
      show ?thesis
      proof (cases "memfind_loop ?s (?l - (k + 1)) s2 (off + k + 1)")
        case None
        with ih have "\<not> occurs_at s1 s2 (k + 1 + j)" for j by simp
        with none None loop show ?thesis by simp
      next
        case (Some r)
        with ih obtain j where
          j: "r = off + k + 1 + j" "occurs_at s1 s2 (k + 1 + j)" "\<And>j'. j' < j \<Longrightarrow> \<not> occurs_at s1 s2 (k + 1 + j')"
          by auto
        have "\<not> occurs_at s1 s2 i" if "i < k + 1 + j" for i
          using none [of i] j(3) that by auto
        with j(1,2) Some loop show ?thesis by (auto intro!: exI [of _ "k + 1 + j"])
      qed
    qed
  qed
qed

text \<open>Finding without a pattern gives the first place where the string occurs.\<close>

lemma lmemfind_first:
  "case lmemfind s1 s2 of
     None \<Rightarrow> \<forall>i. \<not> occurs_at s1 s2 i
   | Some i \<Rightarrow> occurs_at s1 s2 i \<and> (\<forall>j < i. \<not> occurs_at s1 s2 j)"
proof (cases "s2 = [] \<or> length s2 > length s1")
  case True
  then show ?thesis by (auto simp: lmemfind_def occurs_at_def)
next
  case False
  then have "length s1 - (length s2 - 1) = Suc (length s1) - length s2" by (cases s2) auto
  with False memfind_loop_first [of s2 s1 0] show ?thesis by (auto simp: lmemfind_def split: option.splits)
qed

section \<open>Captures as results\<close>

definition push_onecapture :: "string \<Rightarrow> match_state \<Rightarrow> nat \<Rightarrow> (nat \<times> nat) option \<Rightarrow> string + lua_value" where
  "push_onecapture src ms i whole =
     (if i \<ge> level ms then
        (if i = 0 then Inr (Text (case whole of None \<Rightarrow> [] | Some (s, e) \<Rightarrow> take (e - s) (drop s src)))
         else Inl ''invalid capture index'')
      else
        (let (start, l) = capture ms ! i
         in if l = CAP_UNFINISHED then Inl ''unfinished capture''
            else if l = CAP_POSITION then Inr (Number (of_nat (start + 1)))
            else Inr (Text (take (nat l) (drop start src)))))"

fun collect :: "(nat \<Rightarrow> string + 'a) \<Rightarrow> nat list \<Rightarrow> string + 'a list" where
  "collect f [] = Inr []"
| "collect f (i # is) = and_then (f i) (\<lambda>x. and_then (collect f is) (\<lambda>xs. Inr (x # xs)))"

definition push_captures :: "string \<Rightarrow> match_state \<Rightarrow> (nat \<times> nat) option \<Rightarrow> results" where
  "push_captures src ms whole =
     (let n = (if level ms = 0 \<and> whole \<noteq> None then 1 else level ms)
      in collect (\<lambda>i. push_onecapture src ms i whole) [0..<n])"

section \<open>find and match\<close>

definition specials :: string where
  "specials = ''^$*+?.([%-''"

definition fresh :: "(nat \<times> int) list \<Rightarrow> match_state" where
  "fresh junk = \<lparr>level = 0, capture = junk\<rparr>"

text \<open>The loop of \<open>str\_find\_aux\<close> over the positions from \<open>s1\<close> on: where a match starts and ends.\<close>

function find_loop :: "string \<Rightarrow> string \<Rightarrow> bool \<Rightarrow> (nat \<times> int) list \<Rightarrow> nat \<Rightarrow> string + (nat \<times> nat \<times> match_state) option" where
  "find_loop src p anchor caps s1 =
     (case match src (fresh caps) s1 p of
        Inl e \<Rightarrow> Inl e
      | Inr (Some res, ms) \<Rightarrow> Inr (Some (s1, res, ms))
      | Inr (None, ms) \<Rightarrow>
          if s1 < length src \<and> \<not> anchor then find_loop src p anchor (capture ms) (s1 + 1) else Inr None)"
  by pat_completeness auto

termination by (relation "measure (\<lambda>(src, p, anchor, caps, s1). length src - s1)") auto

declare find_loop.simps [simp del]

definition unanchor :: "string \<Rightarrow> bool \<times> string" where
  "unanchor p = (if ch p = CHR ''^'' then (True, tl p) else (False, p))"

definition find_from :: "(nat \<times> int) list \<Rightarrow> bool \<Rightarrow> bool \<Rightarrow> string \<Rightarrow> string \<Rightarrow> nat \<Rightarrow> results" where
  "find_from junk finding plain s p init =
     (if finding \<and> (plain \<or> (\<forall>c \<in> set (cstr p). c \<notin> set specials)) then
        (case lmemfind (drop init s) p of
           Some k \<Rightarrow> Inr [Number (of_nat (init + k + 1)), Number (of_nat (init + k + length p))]
         | None \<Rightarrow> Inr [Nil])
      else
        (let (anchor, q) = unanchor p
         in and_then (find_loop s q anchor junk init) (\<lambda>r.
              case r of
                None \<Rightarrow> Inr [Nil]
              | Some (s1, e, ms) \<Rightarrow>
                  if finding then
                    and_then (push_captures s ms None) (\<lambda>vs. Inr (Number (of_nat (s1 + 1)) # Number (of_nat e) # vs))
                  else push_captures s ms (Some (s1, e)))))"

definition str_find_aux :: "lua \<Rightarrow> (nat \<times> int) list \<Rightarrow> bool \<Rightarrow> lua_value list \<Rightarrow> results" where
  "str_find_aux L junk finding args =
     and_then (needed (checkstring L args 0)) (\<lambda>s.
     and_then (needed (checkstring L args 1)) (\<lambda>p.
     and_then (needed (optint L args 2 1)) (\<lambda>i.
       find_from junk finding (toboolean (arg args 3)) s p
         (nat (min (int (length s)) (max 0 (posrelat i (length s) - 1)))))))"

definition str_find :: "lua \<Rightarrow> (nat \<times> int) list \<Rightarrow> lua_value list \<Rightarrow> results" where
  "str_find L junk args = str_find_aux L junk True args"

definition str_match :: "lua \<Rightarrow> (nat \<times> int) list \<Rightarrow> lua_value list \<Rightarrow> results" where
  "str_match L junk args = str_find_aux L junk False args"

text \<open>
  The search with a pattern without captures finds the leftmost position from which a part of the subject fits,
  whatever the array of captures held before.
\<close>

lemma find_loop_leftmost:
  assumes "parse_items p = Some t" "length junk = LUA_MAXCAPTURES" "s1 \<le> length src"
  shows "case find_loop src p False junk s1 of
      Inl e \<Rightarrow> False
    | Inr None \<Rightarrow> \<forall>i. s1 \<le> i \<longrightarrow> i \<le> length src \<longrightarrow> ends src i t = {}
    | Inr (Some (i, e, ms)) \<Rightarrow> s1 \<le> i \<and> i \<le> e \<and> e \<le> length src \<and> e \<in> ends src i t \<and> level ms = 0 \<and>
        (\<forall>j. s1 \<le> j \<longrightarrow> j < i \<longrightarrow> ends src j t = {})"
  using assms(2,3)
proof (induction "length src - s1" arbitrary: s1 junk rule: less_induct)
  case less
  have r: "room (fresh junk)" "visible (fresh junk) = []" using less.prems(1) by (auto simp: room_def fresh_def visible_def)
  note a = match_agrees(1) [OF r(1), of src s1 p, unfolded r(2)] and w = ways_fit [OF assms(1) less.prems(2), of "[]"]
  show ?case
  proof (cases "ways src [] s1 p")
    case Nil
    with w have none: "ends src s1 t = {}" by auto
    from a Nil obtain ms where ms: "match src (fresh junk) s1 p = Inr (None, ms)" "room ms" by auto
    then have loop: "find_loop src p False junk s1 =
        (if s1 < length src then find_loop src p False (capture ms) (s1 + 1) else Inr None)"
      by (simp add: find_loop.simps [of src p False junk s1])
    show ?thesis
    proof (cases "s1 < length src")
      case True
      have "length (capture ms) = LUA_MAXCAPTURES" using ms(2) by (simp add: room_def)
      with less.hyps [of "s1 + 1" "capture ms"] True have
        ih: "case find_loop src p False (capture ms) (s1 + 1) of
          Inl e \<Rightarrow> False
        | Inr None \<Rightarrow> \<forall>i. s1 + 1 \<le> i \<longrightarrow> i \<le> length src \<longrightarrow> ends src i t = {}
        | Inr (Some (i, e, ms)) \<Rightarrow> s1 + 1 \<le> i \<and> i \<le> e \<and> e \<le> length src \<and> e \<in> ends src i t \<and> level ms = 0 \<and>
            (\<forall>j. s1 + 1 \<le> j \<longrightarrow> j < i \<longrightarrow> ends src j t = {})" by simp
      have "ends src j t = {}" if "s1 \<le> j" "s1 + 1 \<le> j \<Longrightarrow> ends src j t = {}" for j
        using that none by (cases "j = s1") auto
      then have one: "\<forall>j. s1 \<le> j \<longrightarrow> P j \<longrightarrow> ends src j t = {}" if "\<forall>j. s1 + 1 \<le> j \<longrightarrow> P j \<longrightarrow> ends src j t = {}" for P
        using that by blast
      show ?thesis
      proof (cases "find_loop src p False (capture ms) (s1 + 1)")
        case (Inl e)
        with ih show ?thesis by simp
      next
        case (Inr r)
        show ?thesis
        proof (cases r)
          case None
          with ih Inr have "\<forall>i. s1 + 1 \<le> i \<longrightarrow> i \<le> length src \<longrightarrow> ends src i t = {}" by simp
          from one [OF this] None Inr True loop show ?thesis by simp
        next
          case (Some y)
          obtain i e ms' where y: "y = (i, e, ms')" by (cases y)
          with ih Inr Some have i: "s1 + 1 \<le> i" "i \<le> e" "e \<le> length src" "e \<in> ends src i t" "level ms' = 0"
            "\<forall>j. s1 + 1 \<le> j \<longrightarrow> j < i \<longrightarrow> ends src j t = {}" by simp_all
          from one [OF i(6)] i(1-5) y Some Inr True loop show ?thesis by simp
        qed
      qed
    next
      case False
      with loop none less.prems(2) show ?thesis by auto
    qed
  next
    case (Cons x ws)
    then have "x \<in> (\<lambda>e. Inr (e, [])) ` ends src s1 t" using w by (metis list.set_intros(1))
    then obtain e where e: "e \<in> ends src s1 t" "x = Inr (e, [])" by blast
    with a Cons obtain ms where ms: "match src (fresh junk) s1 p = Inr (Some e, ms)" "room ms" "visible ms = []" by auto
    then have "level ms = 0" using length_visible [OF ms(2)] by simp
    with ms e show ?thesis by (simp add: find_loop.simps [of src p False junk s1] ends_def)
  qed
qed

lemma find_args: "str_find_aux L junk finding [Text s, Text p] = find_from junk finding False s p 0"
proof -
  have "optint L [Text s, Text p] 2 1 = Some 1" "toboolean (arg [Text s, Text p] 3) = False"
    by (simp_all add: optint_def isnoneornil_def toboolean_def arg_def)
  then show ?thesis by (simp add: str_find_aux_def posrelat_def)
qed

text \<open>
  C37. \<open>string.find\<close> and \<open>string.match\<close> with a pattern without captures find the leftmost position from which a part of the
  subject has the form of the pattern, and give this part; they give nil exactly if no part of the subject has it.
\<close>

theorem find_leftmost:
  assumes "parse_items p = Some t" "ch p \<noteq> CHR ''^''" "length junk = LUA_MAXCAPTURES"
    and "\<exists>c \<in> set (cstr p). c \<in> set specials"
  shows "if \<forall>i \<le> length s. ends s i t = {} then
      str_find L junk [Text s, Text p] = Inr [Nil] \<and> str_match L junk [Text s, Text p] = Inr [Nil]
    else \<exists>i e. i \<le> e \<and> e \<le> length s \<and> e \<in> ends s i t \<and> (\<forall>j < i. ends s j t = {}) \<and>
      str_find L junk [Text s, Text p] = Inr [Number (of_nat (i + 1)), Number (of_nat e)] \<and>
      str_match L junk [Text s, Text p] = Inr [Text (take (e - i) (drop i s))]"
proof -
  have u: "unanchor p = (False, p)" using assms(2) by (simp add: unanchor_def)
  note f = find_loop_leftmost [OF assms(1,3), of 0 s]
  show ?thesis
  proof (cases "find_loop s p False junk 0")
    case (Inl e)
    with f show ?thesis by simp
  next
    case (Inr r)
    show ?thesis
    proof (cases r)
      case None
      with f Inr assms(4) show ?thesis by (auto simp: str_find_def str_match_def find_args find_from_def u)
    next
      case (Some x)
      obtain i e ms where x: "x = (i, e, ms)" by (cases x)
      with f Inr Some have e: "i \<le> e" "e \<le> length s" "e \<in> ends s i t" "level ms = 0" "\<forall>j < i. ends s j t = {}" by auto
      have "push_captures s ms None = Inr []" "push_captures s ms (Some (i, e)) = Inr [Text (take (e - i) (drop i s))]"
        using e(4) by (simp_all add: push_captures_def push_onecapture_def)
      moreover have "\<not> (\<forall>i \<le> length s. ends s i t = {})" using e(1-3) by (auto intro!: exI [of _ i])
      ultimately show ?thesis using e Inr Some x assms(4)
        by (auto simp: str_find_def str_match_def find_args find_from_def u)
    qed
  qed
qed

theorem find_leftmost_witness:
  "\<forall>L. \<exists>i e. str_find L (replicate 32 (0, 0)) [Text ''abb'', Text ''b+''] = Inr [Number (of_nat (i + 1)), Number (of_nat e)]"
proof
  fix L
  let ?t = "([(\<lambda>c. singlematch c ''b+'' ''+'', Plus)], False)"
  have p: "parse_items ''b+'' = Some ?t"
    by (simp add: parse_items.simps item_at_def nul_def classend_def mark_def)
  have "3 \<in> ends ''abb'' 1 ?t" by (auto simp: ends_def singlematch_def intro: exI [of _ 2])
  then have some: "\<not> (\<forall>i \<le> length ''abb''. ends ''abb'' i ?t = {})" by (auto intro!: exI [of _ 1])
  have "\<exists>c \<in> set (cstr ''b+''). c \<in> set specials" by (simp add: cstr_def nul_def specials_def)
  from find_leftmost [OF p _ _ this, of "replicate 32 (0, 0)" "''abb''" L, unfolded if_not_P [OF some]]
  show "\<exists>i e. str_find L (replicate 32 (0, 0)) [Text ''abb'', Text ''b+''] = Inr [Number (of_nat (i + 1)), Number (of_nat e)]"
    unfolding LUA_MAXCAPTURES_def ch_simps length_replicate by (simp only: char.inject) blast
qed

section \<open>gmatch\<close>

text \<open>One call of the iterator: the results, and where the next call starts.\<close>

function gmatch_aux :: "string \<Rightarrow> string \<Rightarrow> (nat \<times> int) list \<Rightarrow> nat \<Rightarrow> string + (lua_value list \<times> nat) option" where
  "gmatch_aux s p caps src =
     (if src \<le> length s then
        (case match s (fresh caps) src p of
           Inl e \<Rightarrow> Inl e
         | Inr (Some e, ms) \<Rightarrow>
             and_then (push_captures s ms (Some (src, e))) (\<lambda>vs. Inr (Some (vs, if e = src then e + 1 else e)))
         | Inr (None, ms) \<Rightarrow> gmatch_aux s p (capture ms) (src + 1))
      else Inr None)"
  by pat_completeness auto

termination by (relation "measure (\<lambda>(s, p, caps, src). Suc (length s) - src)") auto

declare gmatch_aux.simps [simp del]

section \<open>gsub\<close>

text \<open>
  \<open>add\_s\<close>: the replacement with the captures in it. A percent sign at its end makes the loop read the NUL behind the
  string.
\<close>

fun add_s :: "lua \<Rightarrow> string \<Rightarrow> match_state \<Rightarrow> nat \<Rightarrow> nat \<Rightarrow> string \<Rightarrow> string + string" where
  "add_s L src ms s e [] = Inr []"
| "add_s L src ms s e (c # news) =
     (if c \<noteq> L_ESC then and_then (add_s L src ms s e news) (\<lambda>t. Inr (c # t))
      else case news of
        [] \<Rightarrow> Inr [nul]
      | d # news' \<Rightarrow>
          and_then
            (if \<not> c_isdigit d then Inr [d]
             else if d = CHR ''0'' then Inr (take (e - s) (drop s src))
             else and_then (push_onecapture src ms (code d - code CHR ''1'') (Some (s, e)))
               (\<lambda>v. needed (tostring L v)))
            (\<lambda>u. and_then (add_s L src ms s e news') (\<lambda>t. Inr (u @ t))))"

text \<open>A table is read without metamethods; \<open>call\<close> stands for functions.\<close>

definition table_key :: "lua_value \<Rightarrow> lua_key option" where
  "table_key v =
     (case v of Text t \<Rightarrow> Some (Name t) | Number n \<Rightarrow> if n \<in> \<nat> then Some (Index (nat \<lfloor>n\<rfloor>)) else None | _ \<Rightarrow> None)"

definition add_value ::
  "lua \<Rightarrow> (lua_value list \<Rightarrow> string + lua_value) \<Rightarrow> lua_value \<Rightarrow> string \<Rightarrow> match_state \<Rightarrow> nat \<Rightarrow> nat \<Rightarrow> string + string" where
  "add_value L call repl src ms s e =
     (case tostring L repl of
        Some news \<Rightarrow> add_s L src ms s e news
      | None \<Rightarrow>
          and_then
            (case repl of
               Function \<Rightarrow> and_then (push_captures src ms (Some (s, e))) call
             | Table m \<Rightarrow>
                 and_then (push_onecapture src ms 0 (Some (s, e)))
                   (\<lambda>v. Inr (case table_key v of None \<Rightarrow> Nil | Some k \<Rightarrow> field repl k))
             | _ \<Rightarrow> Inl ''string/function/table expected'')
            (\<lambda>v. if \<not> toboolean (Some v) then Inr (take (e - s) (drop s src))
                 else case tostring L v of None \<Rightarrow> Inl ''invalid replacement value'' | Some t \<Rightarrow> Inr t))"

text \<open>The loop of \<open>str\_gsub\<close>: the text so far, the number of substitutions and the position.\<close>

function gsub_loop ::
  "(match_state \<Rightarrow> nat \<Rightarrow> nat \<Rightarrow> string + string) \<Rightarrow> string \<Rightarrow> string \<Rightarrow> bool \<Rightarrow> int \<Rightarrow> (nat \<times> int) list \<Rightarrow> nat \<Rightarrow> string \<Rightarrow> nat \<Rightarrow>
     string + string \<times> nat \<times> nat" where
  "gsub_loop val src p anchor max_s caps n b s =
     (if int n < max_s then
        (case match src (fresh caps) s p of
           Inl e \<Rightarrow> Inl e
         | Inr (Some e, ms) \<Rightarrow>
             (case val ms s e of
                Inl err \<Rightarrow> Inl err
              | Inr t \<Rightarrow>
                  if e > s then (if anchor then Inr (b @ t, n + 1, e) else gsub_loop val src p anchor max_s (capture ms) (n + 1) (b @ t) e)
                  else if s < length src then
                    (if anchor then Inr (b @ t @ [src ! s], n + 1, s + 1)
                     else gsub_loop val src p anchor max_s (capture ms) (n + 1) (b @ t @ [src ! s]) (s + 1))
                  else Inr (b @ t, n + 1, s))
         | Inr (None, ms) \<Rightarrow>
             if s < length src then
               (if anchor then Inr (b @ [src ! s], n, s + 1)
                else gsub_loop val src p anchor max_s (capture ms) n (b @ [src ! s]) (s + 1))
             else Inr (b, n, s))
      else Inr (b, n, s))"
  by pat_completeness auto

termination
  by (relation "measures [\<lambda>(val, src, p, anchor, max_s, caps, n, b, s). nat (max_s - int n),
    \<lambda>(val, src, p, anchor, max_s, caps, n, b, s). length src - s]") auto

declare gsub_loop.simps [simp del]

definition str_gsub :: "lua \<Rightarrow> (nat \<times> int) list \<Rightarrow> (lua_value list \<Rightarrow> string + lua_value) \<Rightarrow> lua_value list \<Rightarrow> results" where
  "str_gsub L junk call args =
     and_then (needed (checkstring L args 0)) (\<lambda>src.
     and_then (needed (checkstring L args 1)) (\<lambda>p.
     and_then (needed (optint L args 3 (int (length src) + 1))) (\<lambda>max_s.
       let (anchor, q) = unanchor p; repl = (case arg args 2 of None \<Rightarrow> Nil | Some v \<Rightarrow> v)
       in and_then (gsub_loop (add_value L call repl src) src q anchor max_s junk 0 [] 0)
            (\<lambda>(b, n, s). Inr [Text (b @ drop s src), Number (of_nat n)]))))"

text \<open>
  What \<open>gsub\<close> does, said by the matches it replaces: a list of their start and end with the text that is written for each.
  \<open>splice\<close> is the text with them replaced, from position \<open>i\<close> on.
\<close>

type_synonym hit = "nat \<times> nat \<times> string"

fun splice :: "string \<Rightarrow> nat \<Rightarrow> hit list \<Rightarrow> string" where
  "splice src i [] = drop i src"
| "splice src i ((a, e, t) # hs) = take (a - i) (drop i src) @ t @ splice src e hs"

text \<open>The next match starts behind the one before, and not where an empty one was.\<close>

fun in_order :: "string \<Rightarrow> nat \<Rightarrow> hit list \<Rightarrow> bool" where
  "in_order src i [] = True"
| "in_order src i ((a, e, t) # hs) = (i \<le> a \<and> a \<le> e \<and> e \<le> length src \<and> in_order src (max e (a + 1)) hs)"

text \<open>A match is the first way of the pattern at its start, and its text what the replacement gives for the captures of this way.\<close>

definition proper_hit :: "(match_state \<Rightarrow> nat \<Rightarrow> nat \<Rightarrow> string + string) \<Rightarrow> string \<Rightarrow> string \<Rightarrow> hit \<Rightarrow> bool" where
  "proper_hit val src p h =
     (case h of (a, e, t) \<Rightarrow> \<exists>ms ws. ways src [] a p = Inr (e, visible ms) # ws \<and> room ms \<and> val ms a e = Inr t)"

text \<open>
  Every position from \<open>i\<close> on that no match covers was tried without success, as long as there were less than \<open>most\<close>
  matches before it; only the first position, if the pattern is anchored.
\<close>

definition covers :: "hit \<Rightarrow> nat \<Rightarrow> bool" where
  "covers h j = (case h of (a, e, t) \<Rightarrow> a \<le> j \<and> j < max e (a + 1))"

definition all_tried :: "string \<Rightarrow> string \<Rightarrow> bool \<Rightarrow> int \<Rightarrow> nat \<Rightarrow> nat \<Rightarrow> hit list \<Rightarrow> bool" where
  "all_tried src p anchor most n i hs \<longleftrightarrow>
     (\<forall>j. i \<le> j \<and> j \<le> length src \<and> (anchor \<longrightarrow> j = i) \<and> (\<forall>h \<in> set hs. \<not> covers h j) \<and>
        int (n + length (filter (\<lambda>h. fst h < j) hs)) < most \<longrightarrow> ways src [] j p = [])"

definition gsub_hits ::
  "(match_state \<Rightarrow> nat \<Rightarrow> nat \<Rightarrow> string + string) \<Rightarrow> string \<Rightarrow> string \<Rightarrow> bool \<Rightarrow> int \<Rightarrow> nat \<Rightarrow> nat \<Rightarrow> hit list \<Rightarrow> bool" where
  "gsub_hits val src p anchor most n i hs \<longleftrightarrow>
     in_order src i hs \<and> list_all (proper_hit val src p) hs \<and> (hs \<noteq> [] \<longrightarrow> int (n + length hs) \<le> most) \<and>
     (anchor \<longrightarrow> (\<forall>h \<in> set hs. fst h = i)) \<and> all_tried src p anchor most n i hs"

lemma match_ways:
  assumes "length caps = LUA_MAXCAPTURES" "match src (fresh caps) s p = Inr (r, ms)"
  shows "length (capture ms) = LUA_MAXCAPTURES" "r = None \<Longrightarrow> ways src [] s p = []"
    "r = Some e \<Longrightarrow> \<exists>ws. ways src [] s p = Inr (e, visible ms) # ws \<and> room ms"
proof -
  have r: "room (fresh caps)" "visible (fresh caps) = []" using assms(1) by (auto simp: room_def fresh_def visible_def)
  have a: "agrees [] (ways src [] s p) (Inr (r, ms))" using match_agrees(1) [OF r(1), of src s p] by (simp add: r(2) assms(2))
  show "length (capture ms) = LUA_MAXCAPTURES"
    using a by (cases "ways src [] s p") (auto simp: agrees_def room_def split: sum.splits)
  show "r = None \<Longrightarrow> ways src [] s p = []"
    using a by (cases "ways src [] s p") (auto simp: agrees_def split: sum.splits)
  show "r = Some e \<Longrightarrow> \<exists>ws. ways src [] s p = Inr (e, visible ms) # ws \<and> room ms"
    using a by (cases "ways src [] s p") (auto simp: agrees_def split: sum.splits)
qed

lemma first_way_end: "ways src [] s p = Inr (e, cs) # ws \<Longrightarrow> s \<le> length src \<Longrightarrow> s \<le> e \<and> e \<le> length src"
  using ways_inside [of e cs src "[]" s p] by simp

lemma splice_step:
  assumes "in_order src (Suc i) hs" "i < length src"
  shows "splice src i hs = src ! i # splice src (Suc i) hs"
proof (cases hs)
  case Nil
  then show ?thesis using assms(2) by (simp add: Cons_nth_drop_Suc)
next
  case (Cons h hs')
  obtain a e t where "h = (a, e, t)" by (cases h)
  with Cons assms show ?thesis by (simp flip: Cons_nth_drop_Suc add: take_Cons')
qed

lemma in_order_from: "in_order src i hs \<Longrightarrow> h \<in> set hs \<Longrightarrow> i \<le> fst h"
  by (induction src i hs rule: in_order.induct) force+

text \<open>How a description of what comes later is continued to the front.\<close>

lemma hits_limit: "most \<le> int n \<Longrightarrow> gsub_hits val src p anchor most n i []"
  by (simp add: gsub_hits_def all_tried_def)

lemma hits_behind: "gsub_hits val src p anchor most n (Suc (length src)) []"
  by (auto simp: gsub_hits_def all_tried_def)

lemma hits_skip:
  assumes "gsub_hits val src p False most n (Suc i) hs" "ways src [] i p = []"
  shows "gsub_hits val src p False most n i hs"
proof -
  have "in_order src i hs" using assms(1) by (cases hs) (auto simp: gsub_hits_def)
  moreover have "all_tried src p False most n i hs"
    unfolding all_tried_def
  proof (intro allI impI)
    fix j assume j: "i \<le> j \<and> j \<le> length src \<and> (False \<longrightarrow> j = i) \<and> (\<forall>h \<in> set hs. \<not> covers h j) \<and>
      int (n + length (filter (\<lambda>h. fst h < j) hs)) < most"
    show "ways src [] j p = []"
    proof (cases "j = i")
      case False
      with j assms(1) show ?thesis by (auto simp: gsub_hits_def all_tried_def)
    qed (simp add: assms(2))
  qed
  ultimately show ?thesis using assms(1) by (simp add: gsub_hits_def)
qed

lemma hits_fail:
  assumes "ways src [] i p = []"
  shows "gsub_hits val src p True most n i []"
  using assms by (simp add: gsub_hits_def all_tried_def)

lemma hits_hit:
  assumes "gsub_hits val src p False most (Suc n) (max e (Suc i)) hs" "proper_hit val src p (i, e, t)" "i \<le> length src" "int n < most"
  shows "gsub_hits val src p False most n i ((i, e, t) # hs)"
proof -
  have e: "i \<le> e" "e \<le> length src" using assms(2,3) first_way_end by (auto simp: proper_hit_def)
  have "all_tried src p False most n i ((i, e, t) # hs)"
    unfolding all_tried_def
  proof (intro allI impI)
    fix j assume j: "i \<le> j \<and> j \<le> length src \<and> (False \<longrightarrow> j = i) \<and> (\<forall>h \<in> set ((i, e, t) # hs). \<not> covers h j) \<and>
      int (n + length (filter (\<lambda>h. fst h < j) ((i, e, t) # hs))) < most"
    then have "max e (Suc i) \<le> j" by (auto simp: covers_def)
    with j assms(1) show "ways src [] j p = []" by (auto simp: gsub_hits_def all_tried_def)
  qed
  moreover have "int (n + length ((i, e, t) # hs)) \<le> most" using assms(1,4) by (cases "hs = []") (auto simp: gsub_hits_def)
  ultimately show ?thesis using assms(1,2) e by (simp add: gsub_hits_def)
qed

lemma hits_hit_anchored:
  assumes "proper_hit val src p (i, e, t)" "i \<le> length src" "int n < most"
  shows "gsub_hits val src p True most n i [(i, e, t)]"
  using assms first_way_end by (auto simp: gsub_hits_def all_tried_def proper_hit_def covers_def)

definition hits_ok ::
  "(match_state \<Rightarrow> nat \<Rightarrow> nat \<Rightarrow> string + string) \<Rightarrow> string \<Rightarrow> string \<Rightarrow> bool \<Rightarrow> int \<Rightarrow> nat \<Rightarrow> string \<Rightarrow> nat \<Rightarrow> string \<times> nat \<times> nat \<Rightarrow> hit list \<Rightarrow> bool" where
  "hits_ok val src p anchor most n b i res hs \<longleftrightarrow>
     (case res of (b', n', i') \<Rightarrow> b' @ drop i' src = b @ splice src i hs \<and> n' = n + length hs) \<and> gsub_hits val src p anchor most n i hs"

lemma gsub_loop_hits:
  "gsub_loop val src p anchor most caps n b s = Inr res \<Longrightarrow> length caps = LUA_MAXCAPTURES \<Longrightarrow> s \<le> length src \<Longrightarrow>
     \<exists>hs. hits_ok val src p anchor most n b s res hs"
proof (induction val src p anchor most caps n b s rule: gsub_loop.induct)
  case (1 val src p anchor most caps n b s)
  note step = gsub_loop.simps [of val src p a most caps n b s for a]
  show ?case
  proof (cases "int n < most")
    case False
    with "1.prems"(1) have "res = (b, n, s)" by (simp add: step)
    with False hits_limit [of most n val src p anchor s] show ?thesis by (intro exI [of _ "[]"]) (simp add: hits_ok_def)
  next
    case most: True
    with "1.prems"(1) obtain r ms where m: "match src (fresh caps) s p = Inr (r, ms)"
      by (cases "match src (fresh caps) s p") (auto simp: step)
    note ways = match_ways [OF "1.prems"(2) m]
    have next_char: "drop s src = src ! s # drop (Suc s) src" if "s < length src" using that by (simp add: Cons_nth_drop_Suc)
    show ?thesis
    proof (cases r)
      case None
      consider (behind) "s = length src" | (anchored) "s < length src" "anchor" | (more) "s < length src" "\<not> anchor"
        using "1.prems"(3) by linarith
      then show ?thesis
      proof cases
        case behind
        have res: "res = (b, n, s)" using "1.prems"(1) most m None behind unfolding step by simp
        have "gsub_hits val src p anchor most n s []"
          using ways(2) [OF None] behind by (auto simp: gsub_hits_def all_tried_def dest: le_antisym)
        with res show ?thesis by (intro exI [of _ "[]"]) (simp add: hits_ok_def)
      next
        case anchored
        with "1.prems"(1) most m None have "res = (b @ [src ! s], n, s + 1)" by (simp add: step)
        with anchored hits_fail [OF ways(2) [OF None]] show ?thesis
          by (intro exI [of _ "[]"]) (simp add: hits_ok_def next_char)
      next
        case more
        with "1.prems"(1) most m None have "gsub_loop val src p anchor most (capture ms) n (b @ [src ! s]) (s + 1) = Inr res"
          by (simp add: step)
        from "1.IH"(1) [OF most m refl None more this ways(1)] more obtain hs where
          hs: "hits_ok val src p anchor most n (b @ [src ! s]) (Suc s) res hs" by auto
        with more hits_skip [OF _ ways(2) [OF None]] splice_step [of src s hs] show ?thesis
          by (intro exI [of _ hs]) (auto simp: hits_ok_def gsub_hits_def)
      qed
    next
      case (Some e)
      obtain t where t: "val ms s e = Inr t"
        using "1.prems"(1) most m Some by (cases "val ms s e") (auto simp: step)
      have hit: "proper_hit val src p (s, e, t)" using ways(3) [OF Some] t by (auto simp: proper_hit_def)
      have e: "s \<le> e" "e \<le> length src" using ways(3) [OF Some] first_way_end "1.prems"(3) by auto
      consider (anchored) "s < e" anchor | (anchored_empty) "e = s" "s < length src" anchor
        | (more) "s < e" "\<not> anchor" | (empty) "e = s" "s < length src" "\<not> anchor" | (stop) "e = s" "s = length src"
        using e by linarith
      then show ?thesis
      proof cases
        case anchored
        with "1.prems"(1) most m Some t have "res = (b @ t, n + 1, e)" by (simp add: step)
        with anchored hits_hit_anchored [OF hit "1.prems"(3) most] show ?thesis
          by (intro exI [of _ "[(s, e, t)]"]) (simp add: hits_ok_def)
      next
        case anchored_empty
        with "1.prems"(1) most m Some t have "res = (b @ t @ [src ! s], n + 1, s + 1)" by (simp add: step)
        with anchored_empty hits_hit_anchored [OF hit "1.prems"(3) most] show ?thesis
          by (intro exI [of _ "[(s, e, t)]"]) (simp add: hits_ok_def next_char)
      next
        case more
        with "1.prems"(1) most m Some t
        have "gsub_loop val src p anchor most (capture ms) (n + 1) (b @ t) e = Inr res" by (simp add: step)
        from "1.IH"(2) [OF most m refl Some t more this ways(1) e(2)] obtain hs where
          hs: "hits_ok val src p anchor most (n + 1) (b @ t) e res hs" by blast
        have "gsub_hits val src p False most n s ((s, e, t) # hs)"
          using hits_hit [OF _ hit "1.prems"(3) most, of hs] hs more by (auto simp: hits_ok_def max_absorb1 Suc_leI)
        with hs more show ?thesis by (intro exI [of _ "(s, e, t) # hs"]) (auto simp: hits_ok_def)
      next
        case empty
        with "1.prems"(1) most m Some t
        have "gsub_loop val src p anchor most (capture ms) (n + 1) (b @ t @ [src ! s]) (s + 1) = Inr res" by (simp add: step)
        from "1.IH"(3) [OF most m refl Some t _ empty(2,3) this ways(1)] empty obtain hs where
          hs: "hits_ok val src p anchor most (n + 1) (b @ t @ [src ! s]) (Suc s) res hs" by auto
        have "gsub_hits val src p False most n s ((s, e, t) # hs)"
          using hs empty by (intro hits_hit [OF _ hit "1.prems"(3) most]) (auto simp: hits_ok_def)
        moreover have "splice src s hs = src ! s # splice src (Suc s) hs"
          using hs empty by (intro splice_step) (auto simp: hits_ok_def gsub_hits_def)
        ultimately show ?thesis using hs empty by (intro exI [of _ "(s, e, t) # hs"]) (auto simp: hits_ok_def)
      next
        case stop
        with "1.prems"(1) most m Some t have res: "res = (b @ t, n + 1, s)" unfolding step by simp
        have "gsub_hits val src p anchor most n s [(s, e, t)]"
        proof (cases anchor)
          case True
          with hits_hit_anchored [OF hit "1.prems"(3) most] show ?thesis by simp
        next
          case False
          have "max e (Suc s) = Suc (length src)" using stop by simp
          with False hits_hit [OF _ hit "1.prems"(3) most, of "[]"] hits_behind [of val src p False most "Suc n"] show ?thesis by simp
        qed
        with res stop show ?thesis by (intro exI [of _ "[(s, e, t)]"]) (simp add: hits_ok_def)
      qed
    qed
  qed
qed

lemma gsub_args:
  assumes "str_gsub L junk call ([Text s, Text p, repl] @ rest) = Inr vs" "length junk = LUA_MAXCAPTURES"
    and "rest = [] \<and> most = int (length s) + 1 \<or> rest = [Number (of_int most)]" "unanchor p = (anchor, q)"
  obtains hs where "vs = [Text (splice s 0 hs), Number (of_nat (length hs))]"
    and "gsub_hits (add_value L call repl s) s q anchor most 0 0 hs"
proof -
  have "optint L ([Text s, Text p, repl] @ rest) 3 (int (length s) + 1) = Some most"
    using assms(3) by (auto simp: optint_def isnoneornil_def arg_def checkint_def tonumber_def numeral_3_eq_3)
  moreover have "arg ([Text s, Text p, repl] @ rest) 2 = Some repl" by (simp add: arg_def)
  ultimately obtain b n s' where l: "gsub_loop (add_value L call repl s) s q anchor most junk 0 [] 0 = Inr (b, n, s')"
    and vs: "vs = [Text (b @ drop s' s), Number (of_nat n)]"
    using assms(1) by (auto simp: str_gsub_def assms(4) and_then_Inr)
  from gsub_loop_hits [OF l assms(2)] obtain hs where "hits_ok (add_value L call repl s) s q anchor most 0 [] 0 (b, n, s') hs" by auto
  then show ?thesis using that [of hs] vs by (simp add: hits_ok_def)
qed


text \<open>The replacement \<open>%0\<close> leaves the text as it is.\<close>

lemma splice_same:
  "in_order s i hs \<Longrightarrow> \<forall>(a, e, t) \<in> set hs. t = take (e - a) (drop a s) \<Longrightarrow> splice s i hs = drop i s"
proof (induction s i hs rule: splice.induct)
  case (2 src i a e t hs)
  then have o: "i \<le> a" "a \<le> e" "in_order src e hs" by (cases hs, auto)+
  with 2 have "splice src e hs = drop e src" by auto
  moreover have "take (e - a) (drop a src) @ drop e src = drop a src"
    using o(2) by (metis append_take_drop_id drop_drop le_add_diff_inverse2)
  moreover have "take (a - i) (drop i src) @ drop a src = drop i src"
    using o(1) by (metis append_take_drop_id drop_drop le_add_diff_inverse2)
  ultimately show ?case using "2.prems"(2) by simp
qed simp

lemma gsub_whole_match:
  assumes "length junk = LUA_MAXCAPTURES" "str_gsub L junk call [Text s, Text p, Text ''%0''] = Inr vs"
  shows "hd vs = Text s"
proof -
  have "str_gsub L junk call ([Text s, Text p, Text ''%0''] @ []) = Inr vs" using assms(2) by simp
  then obtain hs where hs: "vs = [Text (splice s 0 hs), Number (of_nat (length hs))]"
    "gsub_hits (add_value L call (Text ''%0'') s) s (snd (unanchor p)) (fst (unanchor p)) (int (length s) + 1) 0 0 hs"
    by (rule gsub_args [OF _ assms(1)]) auto
  have "t = take (e - a) (drop a s)" if "(a, e, t) \<in> set hs" for a e t
  proof -
    have "proper_hit (add_value L call (Text ''%0'') s) s (snd (unanchor p)) (a, e, t)"
      using hs(2) that by (auto simp: gsub_hits_def list_all_iff)
    then show ?thesis by (auto simp: proper_hit_def add_value_def c_isdigit_def code_def and_then_def)
  qed
  then show ?thesis using hs splice_same [of s 0 hs] by (auto simp: gsub_hits_def)
qed

lemma percent_at_end:
  "str_gsub L (replicate 32 (0, 0)) call [Text ''a'', Text ''a'', Text ''%''] = Inr [Text [nul], Number 1]"
proof -
  have m: "match ''a'' ms 0 ''a'' = Inr (Some 1, ms)" "match ''a'' ms 1 ''a'' = Inr (None, ms)" for ms
    by (simp_all add: match.simps nul_def classend_def single_def singlematch_def)
  have "optint L [Text ''a'', Text ''a'', Text ''%''] 3 2 = Some 2"
    by (simp add: optint_def isnoneornil_def arg_def)
  moreover have "gsub_loop (add_value L call (Text ''%'') ''a'') ''a'' ''a'' False 2 caps 0 [] 0 = Inr ([nul], 1, 1)" for caps
    using m by (simp add: gsub_loop.simps add_value_def)
  ultimately show ?thesis by (simp add: str_gsub_def unanchor_def arg_def)
qed


section \<open>Formats\<close>

text \<open>\<open>LUA\_INTFRMLEN\<close> is the text \<open>l\<close>; a \<open>sizeof\<close> of a text counts its NUL.\<close>

definition flags :: string where "flags = ''-+ #0''"

definition intfrmlen :: string where "intfrmlen = ''l''"

definition MAX_FORMAT :: nat where "MAX_FORMAT = (length flags + 1) + (length intfrmlen + 1) + 10"

definition skip_digit :: "string \<Rightarrow> string" where
  "skip_digit p = (if c_isdigit (ch p) then tl p else p)"

text \<open>\<open>scanformat\<close>: the format for \<open>sprintf\<close>, up to the letter at \<open>p\<close>, and what is left from there.\<close>

definition width_end :: "string \<Rightarrow> string" where
  "width_end p0 =
     (let p1 = skip_digit (skip_digit p0)
      in if ch p1 = CHR ''.'' then skip_digit (skip_digit (tl p1)) else p1)"

definition scanformat :: "string \<Rightarrow> string + string \<times> string" where
  "scanformat strfrmt =
     (let p0 = dropWhile (\<lambda>c. c \<noteq> nul \<and> c \<in> set flags) strfrmt; p = width_end p0
      in if length strfrmt - length p0 \<ge> length flags + 1 then Inl ''invalid format (repeated flags)''
         else if c_isdigit (ch p) then Inl ''invalid format (width or precision too long)''
         else Inr (CHR ''%'' # cstr (take (length strfrmt - length p + 1) strfrmt), p))"

definition addintlen :: "string \<Rightarrow> string" where
  "addintlen form = butlast form @ intfrmlen @ [last form]"

text \<open>The loop of \<open>addquoted\<close> for one character.\<close>

definition quote_char :: "char \<Rightarrow> string" where
  "quote_char c =
     (if c \<in> {CHR 0x22, CHR 0x5C, newline} then [CHR 0x5C, c]
      else if c = CHR 0x0D then [CHR 0x5C, CHR ''r'']
      else if c = nul then CHR 0x5C # ''000''
      else [c])"

definition addquoted :: "string \<Rightarrow> string" where
  "addquoted s = CHR 0x22 # concat (map quote_char s) @ [CHR 0x22]"

text \<open>How C writes numbers and strings with a given format is a parameter; only what is before a NUL is taken.\<close>

record printer =
  print_number :: "string \<Rightarrow> rat \<Rightarrow> string"
  print_string :: "string \<Rightarrow> string \<Rightarrow> string"

definition format_item :: "lua \<Rightarrow> printer \<Rightarrow> char \<Rightarrow> string \<Rightarrow> lua_value list \<Rightarrow> nat \<Rightarrow> string + string" where
  "format_item L P c form args i =
     (let number = needed (case arg args i of None \<Rightarrow> None | Some v \<Rightarrow> tonumber L v)
      in if c \<in> set ''cdiouxXeEfgG'' then
           and_then number (\<lambda>x. Inr (cstr (print_number P (if c \<in> set ''diouxX'' then addintlen form else form) x)))
         else if c = CHR ''q'' then and_then (needed (checkstring L args i)) (\<lambda>s. Inr (addquoted s))
         else if c = CHR ''s'' then
           and_then (needed (checkstring L args i)) (\<lambda>s.
             Inr (if CHR ''.'' \<notin> set form \<and> length s \<ge> 100 then s else cstr (print_string P form (cstr s))))
         else Inl ''invalid option to format'')"

lemma skip_digit_le: "length (skip_digit p) \<le> length p" "length p \<le> length (skip_digit p) + 1"
  by (auto simp: skip_digit_def)

lemma width_end_le: "length (width_end p) \<le> length p" "length p \<le> length (width_end p) + 5"
proof -
  have two: "length (skip_digit (skip_digit q)) \<le> length q" "length q \<le> length (skip_digit (skip_digit q)) + 2" for q
    using skip_digit_le [of q] skip_digit_le [of "skip_digit q"] by auto
  have "length (tl q) \<le> length q" "length q \<le> length (tl q) + 1" for q :: string by auto
  with two [of p] two [of "tl (skip_digit (skip_digit p))"]
  show "length (width_end p) \<le> length p" "length p \<le> length (width_end p) + 5"
    by (auto simp: width_end_def Let_def)
qed

lemma scanformat_rest: "scanformat s = Inr (form, p) \<Longrightarrow> length p \<le> length s"
  using dropWhile_decreases [of "\<lambda>c. c \<noteq> nul \<and> c \<in> set flags" s]
    width_end_le(1) [of "dropWhile (\<lambda>c. c \<noteq> nul \<and> c \<in> set flags) s"]
  by (auto simp: scanformat_def Let_def split: if_splits)

function format_loop :: "lua \<Rightarrow> printer \<Rightarrow> lua_value list \<Rightarrow> nat \<Rightarrow> string \<Rightarrow> string \<Rightarrow> string + string" where
  "format_loop L P args i b s =
     (case s of
        [] \<Rightarrow> Inr b
      | c # s1 \<Rightarrow>
          if c \<noteq> L_ESC then format_loop L P args i (b @ [c]) s1
          else if ch s1 = L_ESC then format_loop L P args i (b @ [L_ESC]) (tl s1)
          else
            (case scanformat s1 of
               Inl e \<Rightarrow> Inl e
             | Inr (form, p) \<Rightarrow>
                 (case format_item L P (ch p) form args (i + 1) of
                    Inl e \<Rightarrow> Inl e
                  | Inr t \<Rightarrow> format_loop L P args (i + 1) (b @ t) (tl p))))"
  by pat_completeness auto

termination
  by (relation "measure (\<lambda>(L, P, args, i, b, s). length s)") (auto dest!: scanformat_rest)

declare format_loop.simps [simp del]

definition str_format :: "lua \<Rightarrow> printer \<Rightarrow> lua_value list \<Rightarrow> results" where
  "str_format L P args =
     and_then (needed (checkstring L args 0)) (\<lambda>s. and_then (format_loop L P args 0 [] s) (\<lambda>t. Inr [Text t]))"

text \<open>A format with its NUL fits the array it is copied to, also with the length modifier.\<close>

lemma format_fits:
  assumes "scanformat s = Inr (form, p)"
  shows "length form + 1 \<le> MAX_FORMAT" "length (addintlen form) + 1 \<le> MAX_FORMAT"
proof -
  have c: "length (cstr t) \<le> length t" for t unfolding cstr_def by (rule length_takeWhile_le)
  let ?p0 = "dropWhile (\<lambda>c. c \<noteq> nul \<and> c \<in> set flags) s"
  have "length s - length ?p0 \<le> length flags" "p = width_end ?p0"
    "form = CHR ''%'' # cstr (take (length s - length p + 1) s)"
    using assms by (auto simp: scanformat_def Let_def split: if_splits)
  moreover have "length ?p0 \<le> length s" by (rule dropWhile_decreases)
  ultimately have "form \<noteq> []" "length form \<le> length flags + 7"
    using width_end_le [of ?p0] c [of "take (length s - length p + 1) s"] by auto
  then show "length form + 1 \<le> MAX_FORMAT" "length (addintlen form) + 1 \<le> MAX_FORMAT"
    by (auto simp: MAX_FORMAT_def intfrmlen_def flags_def addintlen_def)
qed

end
