(* ===== verification/LuaLex.thy ===== *)
theory LuaLex
  imports LuaStrlib
begin

text \<open>
  The lexical analyser of \<^verbatim>\<open>misc/luabash/lua/llex.c\<close>. The state is what is left of the input, with the current character
  in front, the number of the line and the text in the buffer; the end of the input is the empty list. The C
  locale is used, so the decimal point is a point. Messages are shortened.
\<close>

section \<open>The state\<close>

record lex_state =
  inp :: string
  linenumber :: nat
  buff :: string

definition MAX_INT :: nat where "MAX_INT = 2147483645"

definition next_char :: "lex_state \<Rightarrow> lex_state" where
  "next_char ls = ls\<lparr>inp := tl (inp ls)\<rparr>"

definition save :: "char \<Rightarrow> lex_state \<Rightarrow> lex_state" where
  "save c ls = ls\<lparr>buff := buff ls @ [c]\<rparr>"

definition save_and_next :: "lex_state \<Rightarrow> lex_state" where
  "save_and_next ls = next_char (save (hd (inp ls)) ls)"

definition reset_buffer :: "lex_state \<Rightarrow> lex_state" where
  "reset_buffer ls = ls\<lparr>buff := []\<rparr>"

definition return :: char where "return = CHR 0x0D"

definition current_is :: "lex_state \<Rightarrow> (char \<Rightarrow> bool) \<Rightarrow> bool" where
  "current_is ls f = (case inp ls of [] \<Rightarrow> False | c # _ \<Rightarrow> f c)"

definition is_newline :: "char \<Rightarrow> bool" where
  "is_newline c \<longleftrightarrow> c = newline \<or> c = return"

text \<open>A pair of two different line ends counts as one.\<close>

definition inclinenumber :: "lex_state \<Rightarrow> string + lex_state" where
  "inclinenumber ls =
     (let old = hd (inp ls); ls1 = next_char ls;
          ls2 = (if current_is ls1 (\<lambda>c. is_newline c \<and> c \<noteq> old) then next_char ls1 else ls1)
      in if linenumber ls2 + 1 \<ge> MAX_INT then Inl ''chunk has too many lines''
         else Inr (ls2\<lparr>linenumber := linenumber ls2 + 1\<rparr>))"

text \<open>\<open>strchr\<close> also finds the NUL at the end of the set.\<close>

definition check_next :: "string \<Rightarrow> lex_state \<Rightarrow> bool \<times> lex_state" where
  "check_next set_chars ls =
     (if current_is ls (\<lambda>c. c \<in> set set_chars \<or> c = nul) then (True, save_and_next ls) else (False, ls))"

lemma length_next_char [simp]: "length (inp (next_char ls)) = length (inp ls) - 1"
  by (simp add: next_char_def)

lemma inp_save_and_next [simp]: "inp (save_and_next ls) = tl (inp ls)"
  by (simp add: save_and_next_def next_char_def save_def)

lemma inclinenumber_shorter: "inclinenumber ls = Inr ls' \<Longrightarrow> inp ls \<noteq> [] \<Longrightarrow> length (inp ls') < length (inp ls)"
  by (cases "inp ls") (auto simp: inclinenumber_def Let_def next_char_def split: if_splits)

section \<open>Repetitions\<close>

text \<open>Saving characters as long as they have a property.\<close>

function save_while :: "(char \<Rightarrow> bool) \<Rightarrow> lex_state \<Rightarrow> lex_state" where
  "save_while f ls = (if current_is ls f then save_while f (save_and_next ls) else ls)"
  by pat_completeness auto

termination by (relation "measure (\<lambda>(f, ls). length (inp ls))") (auto simp: current_is_def split: list.splits)

declare save_while.simps [simp del]

function skip_while :: "(char \<Rightarrow> bool) \<Rightarrow> lex_state \<Rightarrow> lex_state" where
  "skip_while f ls = (if current_is ls f then skip_while f (next_char ls) else ls)"
  by pat_completeness auto

termination by (relation "measure (\<lambda>(f, ls). length (inp ls))") (auto simp: current_is_def split: list.splits)

declare skip_while.simps [simp del]

lemma save_while_eq:
  "save_while f ls = ls\<lparr>inp := dropWhile f (inp ls), buff := buff ls @ takeWhile f (inp ls)\<rparr>"
proof (induction f ls rule: save_while.induct)
  case (1 f ls)
  then show ?case
    by (cases "inp ls") (auto simp: save_while.simps [of f ls] current_is_def save_and_next_def next_char_def save_def)
qed

lemma skip_while_eq: "skip_while f ls = ls\<lparr>inp := dropWhile f (inp ls)\<rparr>"
proof (induction f ls rule: skip_while.induct)
  case (1 f ls)
  then show ?case by (cases "inp ls") (auto simp: skip_while.simps [of f ls] current_is_def next_char_def)
qed

section \<open>Long strings\<close>

text \<open>\<open>skip\_sep\<close> counts the equal signs between two brackets; -1 less their number if the second one is missing.\<close>

definition skip_sep :: "lex_state \<Rightarrow> int \<times> lex_state" where
  "skip_sep ls =
     (let s = hd (inp ls); ls1 = save_and_next ls; ls2 = save_while (\<lambda>c. c = CHR ''='') ls1;
          count = int (length (buff ls2)) - int (length (buff ls1))
      in (if current_is ls2 (\<lambda>c. c = s) then count else - count - 1, ls2))"

lemma skip_sep_shorter: "skip_sep ls = (n, ls') \<Longrightarrow> inp ls \<noteq> [] \<Longrightarrow> length (inp ls') < length (inp ls)"
  using dropWhile_decreases [of "\<lambda>c. c = CHR ''=''" "tl (inp ls)"]
  by (cases "inp ls") (auto simp: skip_sep_def Let_def save_while_eq)

text \<open>The loop of \<open>read\_long\_string\<close>; \<open>keep\<close> is false for a comment, whose text is not saved.\<close>

function long_loop :: "bool \<Rightarrow> int \<Rightarrow> lex_state \<Rightarrow> string + lex_state" where
  "long_loop keep sep ls =
     (case inp ls of
        [] \<Rightarrow> Inl (if keep then ''unfinished long string'' else ''unfinished long comment'')
      | c # _ \<Rightarrow>
          if c = CHR ''['' then
            (let (n, ls1) = skip_sep ls
             in if n = sep then
                  (if sep = 0 then Inl ''nesting of [[...]] is deprecated''
                   else long_loop keep sep (save_and_next ls1))
                else long_loop keep sep ls1)
          else if c = CHR '']'' then
            (let (n, ls1) = skip_sep ls
             in if n = sep then Inr (save_and_next ls1) else long_loop keep sep ls1)
          else if is_newline c then
            (case inclinenumber (save newline ls) of
               Inl e \<Rightarrow> Inl e
             | Inr ls1 \<Rightarrow> long_loop keep sep (if keep then ls1 else reset_buffer ls1))
          else long_loop keep sep (if keep then save_and_next ls else next_char ls))"
  by pat_completeness auto

termination
  by (relation "measure (\<lambda>(keep, sep, ls). length (inp ls))")
    (auto dest!: skip_sep_shorter [OF sym] inclinenumber_shorter simp: reset_buffer_def save_def)

declare long_loop.simps [simp del]

definition read_long_string :: "bool \<Rightarrow> int \<Rightarrow> lex_state \<Rightarrow> string + lex_state \<times> string" where
  "read_long_string keep sep ls =
     (let ls1 = save_and_next ls
      in and_then (if current_is ls1 is_newline then inclinenumber ls1 else Inr ls1) (\<lambda>ls2.
         and_then (long_loop keep sep ls2) (\<lambda>ls3.
           let k = nat (2 + sep) in Inr (ls3, take (length (buff ls3) - 2 * k) (drop k (buff ls3))))))"

section \<open>Strings\<close>

definition escapes :: "(char \<times> char) list" where
  "escapes = [(CHR ''a'', CHR 0x07), (CHR ''b'', CHR 0x08), (CHR ''f'', CHR 0x0C), (CHR ''n'', newline),
     (CHR ''r'', return), (CHR ''t'', CHR 0x09), (CHR ''v'', CHR 0x0B)]"

text \<open>At most three digits are read as one character.\<close>

definition three_digits :: "string \<Rightarrow> string" where
  "three_digits s = takeWhile c_isdigit (take 3 s)"

definition decimal :: "string \<Rightarrow> nat" where
  "decimal ds = foldl (\<lambda>c d. 10 * c + (code d - 48)) 0 ds"

function string_loop :: "char \<Rightarrow> lex_state \<Rightarrow> string + lex_state" where
  "string_loop del ls =
     (case inp ls of
        [] \<Rightarrow> Inl ''unfinished string''
      | c # r \<Rightarrow>
          if c = del then Inr ls
          else if is_newline c then Inl ''unfinished string''
          else if c = CHR 0x5C then
            (case r of
               [] \<Rightarrow> string_loop del (next_char ls)
             | d # r' \<Rightarrow>
                 (case map_of escapes d of
                    Some x \<Rightarrow> string_loop del (next_char (save x (next_char ls)))
                  | None \<Rightarrow>
                      if is_newline d then
                        (case inclinenumber (save newline (next_char ls)) of Inl e \<Rightarrow> Inl e | Inr ls1 \<Rightarrow> string_loop del ls1)
                      else if \<not> c_isdigit d then string_loop del (save_and_next (next_char ls))
                      else
                        (let ds = three_digits r
                         in if decimal ds > 255 then Inl ''escape sequence too large''
                            else string_loop del (ls\<lparr>inp := drop (length ds) r, buff := buff ls @ [char_of (decimal ds)]\<rparr>))))
          else string_loop del (save_and_next ls))"
  by pat_completeness auto

termination
  by (relation "measure (\<lambda>(del, ls). length (inp ls))")
    (auto simp: next_char_def save_def dest!: inclinenumber_shorter)

declare string_loop.simps [simp del]

definition read_string :: "char \<Rightarrow> lex_state \<Rightarrow> string + lex_state \<times> string" where
  "read_string del ls =
     and_then (string_loop del (save_and_next ls)) (\<lambda>ls1.
       let ls2 = save_and_next ls1 in Inr (ls2, take (length (buff ls2) - 2) (drop 1 (buff ls2))))"

section \<open>Numbers\<close>

text \<open>\<open>luaO\_str2d\<close> reads the buffer up to its first NUL. Another decimal point than the current one is not known.\<close>

definition read_numeral :: "lua \<Rightarrow> lex_state \<Rightarrow> string + lex_state \<times> rat" where
  "read_numeral L ls =
     (let ls1 = save_while (\<lambda>c. c_isdigit c \<or> c = CHR ''.'') (save_and_next ls); (e, ls2) = check_next ''Ee'' ls1;
          ls3 = (if e then snd (check_next ''+-'' ls2) else ls2); ls4 = save_while (\<lambda>c. c_isalnum c \<or> c = CHR ''_'') ls3
      in case text_number L (cstr (buff ls4)) of None \<Rightarrow> Inl ''malformed number'' | Some x \<Rightarrow> Inr (ls4, x))"

section \<open>Tokens\<close>

definition reserved :: "string list" where
  "reserved = [''and'', ''break'', ''do'', ''else'', ''elseif'', ''end'', ''false'', ''for'', ''function'', ''if'',
     ''in'', ''local'', ''nil'', ''not'', ''or'', ''repeat'', ''return'', ''then'', ''true'', ''until'', ''while'']"

text \<open>A symbol is given by its text.\<close>

datatype token = Reserved string | Symbol string | Numeral rat | Identifier string | Literal string | End_of_input

definition is_name :: "char \<Rightarrow> bool" where
  "is_name c \<longleftrightarrow> c_isalnum c \<or> c = CHR ''_''"

text \<open>Symbols that may be followed by an equal sign.\<close>

definition with_equal :: "string \<Rightarrow> lex_state \<Rightarrow> lex_state \<times> token" where
  "with_equal t ls =
     (let ls1 = next_char ls
      in if current_is ls1 (\<lambda>c. c = CHR ''='') then (next_char ls1, Symbol (t @ ''='')) else (ls1, Symbol t))"

definition dots :: "lua \<Rightarrow> lex_state \<Rightarrow> string + lex_state \<times> token" where
  "dots L ls =
     (let (two, ls1) = check_next ''.'' (save_and_next ls)
      in if two then
           (let (three, ls2) = check_next ''.'' ls1 in Inr (ls2, Symbol (if three then ''...'' else ''..'')))
         else if \<not> current_is ls1 c_isdigit then Inr (ls1, Symbol ''.'')
         else and_then (read_numeral L ls1) (\<lambda>(ls2, x). Inr (ls2, Numeral x)))"

definition read_name :: "lex_state \<Rightarrow> lex_state \<times> token" where
  "read_name ls =
     (let ls1 = save_while is_name (save_and_next ls)
      in (ls1, if buff ls1 \<in> set reserved then Reserved (buff ls1) else Identifier (buff ls1)))"

lemma inclinenumber_le: "inclinenumber ls = Inr ls' \<Longrightarrow> length (inp ls') \<le> length (inp ls)"
  by (auto simp: inclinenumber_def Let_def next_char_def split: if_splits)

lemma skip_sep_le: "skip_sep ls = (n, ls') \<Longrightarrow> length (inp ls') \<le> length (inp ls)"
  using dropWhile_decreases [of "\<lambda>c. c = CHR ''=''" "tl (inp ls)"]
  by (auto simp: skip_sep_def Let_def save_while_eq)

lemma long_loop_le: "long_loop keep sep ls = Inr ls' \<Longrightarrow> length (inp ls') \<le> length (inp ls)"
proof (induction keep sep ls rule: long_loop.induct)
  case (1 keep sep ls)
  note step = long_loop.simps [of keep sep ls]
  obtain c r where c: "inp ls = c # r" using "1.prems" by (cases "inp ls") (auto simp: step)
  obtain n ls1 where n: "skip_sep ls = (n, ls1)" by (cases "skip_sep ls")
  note le = skip_sep_le [OF n]
  consider (open_br) "c = CHR ''[''" | (close_br) "c = CHR '']''" | (line) "is_newline c" "c \<noteq> CHR ''[''" "c \<noteq> CHR '']''"
    | (plain) "\<not> is_newline c" "c \<noteq> CHR ''[''" "c \<noteq> CHR '']''" by blast
  then show ?case
  proof cases
    case open_br
    show ?thesis
    proof (cases "n = sep")
      case True
      with "1.prems" c n open_br have "sep \<noteq> 0" "long_loop keep sep (save_and_next ls1) = Inr ls'"
        by (auto simp: step split: if_splits)
      with "1.IH"(1) [OF c open_br n [symmetric] refl] True le show ?thesis by simp
    next
      case False
      with "1.prems" c n open_br have "long_loop keep sep ls1 = Inr ls'" by (simp add: step)
      with "1.IH"(2) [OF c open_br n [symmetric] refl] False le show ?thesis by simp
    qed
  next
    case close_br
    show ?thesis
    proof (cases "n = sep")
      case True
      with "1.prems" c n close_br have "ls' = save_and_next ls1" by (simp add: step)
      with le show ?thesis by simp
    next
      case False
      with "1.prems" c n close_br have "long_loop keep sep ls1 = Inr ls'" by (simp add: step)
      with "1.IH"(3) [OF c _ close_br n [symmetric] refl] False le close_br show ?thesis by simp
    qed
  next
    case line
    then obtain ls1 where l: "inclinenumber (save newline ls) = Inr ls1"
      "long_loop keep sep (if keep then ls1 else reset_buffer ls1) = Inr ls'"
      using "1.prems" c by (auto simp: step split: sum.splits)
    with "1.IH"(4) [OF c line(2,3,1) l(1)] inclinenumber_le [OF l(1)] show ?thesis
      by (auto simp: reset_buffer_def save_def split: if_splits)
  next
    case plain
    then have "long_loop keep sep (if keep then save_and_next ls else next_char ls) = Inr ls'"
      using "1.prems" c by (simp add: step)
    with "1.IH"(5) [OF c plain(2,3,1)] c show ?thesis by (auto split: if_splits)
  qed
qed

lemma read_long_string_le: "read_long_string keep sep ls = Inr (ls', t) \<Longrightarrow> length (inp ls') \<le> length (inp ls)"
  by (auto simp: read_long_string_def and_then_Inr Let_def split: if_splits dest!: long_loop_le inclinenumber_le)

text \<open>The loop of \<open>llex\<close>.\<close>

function llex :: "lua \<Rightarrow> lex_state \<Rightarrow> string + lex_state \<times> token" where
  "llex L ls =
     (case inp ls of
        [] \<Rightarrow> Inr (ls, End_of_input)
      | c # r \<Rightarrow>
          if is_newline c then (case inclinenumber ls of Inl e \<Rightarrow> Inl e | Inr ls1 \<Rightarrow> llex L ls1)
          else if c = CHR ''-'' then
            (if ch r \<noteq> CHR ''-'' then Inr (next_char ls, Symbol ''-'')
             else
               (let ls1 = next_char (next_char ls)
                in if current_is ls1 (\<lambda>c. c = CHR ''['') then
                     (let (sep, ls2) = skip_sep ls1; ls3 = reset_buffer ls2
                      in if sep \<ge> 0 then
                           (case read_long_string False sep ls3 of
                              Inl e \<Rightarrow> Inl e | Inr (ls4, _) \<Rightarrow> llex L (reset_buffer ls4))
                         else llex L (skip_while (\<lambda>c. \<not> is_newline c) ls3))
                   else llex L (skip_while (\<lambda>c. \<not> is_newline c) ls1)))
          else if c = CHR ''['' then
            (let (sep, ls1) = skip_sep ls
             in if sep \<ge> 0 then and_then (read_long_string True sep ls1) (\<lambda>(ls2, t). Inr (ls2, Literal t))
                else if sep = -1 then Inr (ls1, Symbol ''['')
                else Inl ''invalid long string delimiter'')
          else if c \<in> {CHR ''='', CHR ''<'', CHR ''>'', CHR ''~''} then Inr (with_equal [c] ls)
          else if c = CHR 0x22 \<or> c = CHR 0x27 then and_then (read_string c ls) (\<lambda>(ls1, t). Inr (ls1, Literal t))
          else if c = CHR ''.'' then dots L ls
          else if c_isspace c then llex L (next_char ls)
          else if c_isdigit c then and_then (read_numeral L ls) (\<lambda>(ls1, x). Inr (ls1, Numeral x))
          else if c_isalpha c \<or> c = CHR ''_'' then Inr (read_name ls)
          else Inr (next_char ls, Symbol [c]))"
  by pat_completeness auto

termination
proof (relation "measure (\<lambda>(L, ls). length (inp ls))", goal_cases)
  case (2 L ls x21 x22 x2)
  then show ?case by (auto dest: inclinenumber_shorter)
next
  case (3 L ls c r x sep y ls2 p ls3 t)
  then show ?case
    by (auto simp: next_char_def reset_buffer_def dest!: skip_sep_le [OF sym] read_long_string_le)
qed (auto simp: skip_while_eq reset_buffer_def dest!: skip_sep_le [OF sym] read_long_string_le
    intro!: le_less_trans [OF dropWhile_decreases])

declare llex.simps [simp del]

text \<open>A token is read with an empty buffer.\<close>

definition lex_token :: "lua \<Rightarrow> lex_state \<Rightarrow> string + lex_state \<times> token" where
  "lex_token L ls = llex L (reset_buffer ls)"

text \<open>\<open>luaX\_next\<close> and \<open>luaX\_lookahead\<close>; the end of the input as lookahead means that there is none.\<close>

record lexer =
  source :: lex_state
  lastline :: nat
  this_token :: token
  lookahead :: token

definition luaX_next :: "lua \<Rightarrow> lexer \<Rightarrow> string + lexer" where
  "luaX_next L x =
     (let x1 = x\<lparr>lastline := linenumber (source x)\<rparr>
      in if lookahead x1 \<noteq> End_of_input then Inr (x1\<lparr>this_token := lookahead x1, lookahead := End_of_input\<rparr>)
         else and_then (lex_token L (source x1)) (\<lambda>(ls, t). Inr (x1\<lparr>source := ls, this_token := t\<rparr>)))"

definition luaX_lookahead :: "lua \<Rightarrow> lexer \<Rightarrow> string + lexer" where
  "luaX_lookahead L x = and_then (lex_token L (source x)) (\<lambda>(ls, t). Inr (x\<lparr>source := ls, lookahead := t\<rparr>))"

text \<open>Looking ahead does not change the sequence of tokens.\<close>

lemma next_after_lookahead:
  assumes "lookahead x = End_of_input" "luaX_lookahead L x = Inr x1" "lookahead x1 \<noteq> End_of_input"
  shows "map_sum id (\<lambda>y. (source y, this_token y)) (luaX_next L x1) = map_sum id (\<lambda>y. (source y, this_token y)) (luaX_next L x)"
  using assms by (auto simp: luaX_lookahead_def luaX_next_def and_then_Inr Let_def)

section \<open>Quoted strings are read back\<close>

definition lines_in :: "string \<Rightarrow> nat" where
  "lines_in s = length (filter (\<lambda>c. c = newline) s)"

lemma quote_simps:
  "quote_char CHR 0x22 = [CHR 0x5C, CHR 0x22]" "quote_char CHR 0x5C = [CHR 0x5C, CHR 0x5C]"
  "quote_char newline = [CHR 0x5C, newline]" "quote_char return = [CHR 0x5C, CHR ''r'']"
  "quote_char nul = [CHR 0x5C, CHR ''0'', CHR ''0'', CHR ''0'']"
  "c \<notin> {CHR 0x22, CHR 0x5C, newline, return, nul} \<Longrightarrow> quote_char c = [c]"
  by (auto simp: quote_char_def newline_def return_def nul_def)

lemma ends_differ: "return \<noteq> newline" "nul \<noteq> newline" "CHR 0x22 \<noteq> newline" "CHR 0x5C \<noteq> newline"
  by (simp_all add: newline_def return_def nul_def)

lemma quoted_hd: "c = hd (concat (map quote_char s) @ CHR 0x22 # t) \<Longrightarrow> \<not> is_newline c"
  by (cases s) (auto simp: quote_char_def is_newline_def newline_def return_def nul_def)

lemma string_loop_plain:
  "c \<noteq> del \<Longrightarrow> \<not> is_newline c \<Longrightarrow> c \<noteq> CHR 0x5C \<Longrightarrow>
     string_loop del \<lparr>inp = c # t, linenumber = n, buff = b\<rparr> = string_loop del \<lparr>inp = t, linenumber = n, buff = b @ [c]\<rparr>"
  by (simp add: string_loop.simps [of del "\<lparr>inp = c # t, linenumber = n, buff = b\<rparr>"] save_and_next_def save_def next_char_def)

lemma string_loop_escaped:
  "map_of escapes d = None \<Longrightarrow> \<not> is_newline d \<Longrightarrow> \<not> c_isdigit d \<Longrightarrow>
     string_loop CHR 0x22 \<lparr>inp = CHR 0x5C # d # t, linenumber = n, buff = b\<rparr> =
       string_loop CHR 0x22 \<lparr>inp = t, linenumber = n, buff = b @ [d]\<rparr>"
  by (simp add: string_loop.simps [of "CHR 0x22" "\<lparr>inp = CHR 0x5C # d # t, linenumber = n, buff = b\<rparr>"]
      is_newline_def newline_def return_def save_and_next_def save_def next_char_def)

lemma string_loop_quoted:
  "n + lines_in s < MAX_INT \<Longrightarrow>
     string_loop CHR 0x22 \<lparr>inp = concat (map quote_char s) @ CHR 0x22 # t, linenumber = n, buff = b\<rparr> =
       Inr \<lparr>inp = CHR 0x22 # t, linenumber = n + lines_in s, buff = b @ s\<rparr>"
proof (induction s arbitrary: n b)
  case Nil
  show ?case by (simp add: string_loop.simps lines_in_def)
next
  case (Cons c s)
  let ?w = "concat (map quote_char s) @ CHR 0x22 # t"
  have slash: "\<not> is_newline CHR 0x5C" by (simp add: is_newline_def newline_def return_def)
  have rest: "string_loop CHR 0x22 \<lparr>inp = ?w, linenumber = m, buff = b @ [c]\<rparr> =
      Inr \<lparr>inp = CHR 0x22 # t, linenumber = m + lines_in s, buff = b @ c # s\<rparr>"
    if "m + lines_in s < MAX_INT" for m
    using Cons.IH [OF that] by simp
  consider (special) "c = CHR 0x22 \<or> c = CHR 0x5C" | (line) "c = newline" | (ret) "c = return" | (zero) "c = nul"
    | (plain) "c \<notin> {CHR 0x22, CHR 0x5C, newline, return, nul}" by blast
  then show ?case
  proof cases
    case special
    then have "map_of escapes c = None" "\<not> is_newline c" "\<not> c_isdigit c"
      by (auto simp: escapes_def is_newline_def newline_def return_def c_isdigit_def code_def)
    then have "string_loop CHR 0x22 \<lparr>inp = CHR 0x5C # c # ?w, linenumber = n, buff = b\<rparr> =
        string_loop CHR 0x22 \<lparr>inp = ?w, linenumber = n, buff = b @ [c]\<rparr>"
      by (rule string_loop_escaped)
    with special rest [of n] Cons.prems show ?thesis by (auto simp: quote_simps lines_in_def ends_differ)
  next
    case line
    have "inclinenumber \<lparr>inp = newline # ?w, linenumber = n, buff = b @ [newline]\<rparr> =
        Inr \<lparr>inp = ?w, linenumber = n + 1, buff = b @ [newline]\<rparr>"
      using quoted_hd [OF refl, of s t] Cons.prems line
      by (cases ?w) (auto simp: inclinenumber_def next_char_def current_is_def lines_in_def Let_def)
    then have "string_loop CHR 0x22 \<lparr>inp = CHR 0x5C # newline # ?w, linenumber = n, buff = b\<rparr> =
        string_loop CHR 0x22 \<lparr>inp = ?w, linenumber = n + 1, buff = b @ [newline]\<rparr>"
      using slash by (subst string_loop.simps)
        (simp add: escapes_def newline_def is_newline_def save_def next_char_def)
    with line rest [of "n + 1"] Cons.prems show ?thesis by (simp add: quote_simps lines_in_def)
  next
    case ret
    have "string_loop CHR 0x22 \<lparr>inp = CHR 0x5C # CHR ''r'' # ?w, linenumber = n, buff = b\<rparr> =
        string_loop CHR 0x22 \<lparr>inp = ?w, linenumber = n, buff = b @ [return]\<rparr>"
      using slash by (subst string_loop.simps) (simp add: escapes_def save_def next_char_def)
    with ret rest [of n] Cons.prems show ?thesis by (simp add: quote_simps lines_in_def ends_differ)
  next
    case zero
    have "three_digits (''000'' @ ?w) = ''000''" by (simp add: three_digits_def c_isdigit_def code_def)
    moreover have "decimal ''000'' = 0" by (simp add: decimal_def code_def)
    moreover have "char_of (0::nat) = nul" unfolding nul_def by code_simp
    ultimately have "string_loop CHR 0x22 \<lparr>inp = CHR 0x5C # ''000'' @ ?w, linenumber = n, buff = b\<rparr> =
        string_loop CHR 0x22 \<lparr>inp = ?w, linenumber = n, buff = b @ [nul]\<rparr>"
      using slash by (subst string_loop.simps)
        (simp add: escapes_def is_newline_def newline_def return_def c_isdigit_def code_def Let_def)
    with zero rest [of n] Cons.prems show ?thesis by (simp add: quote_simps lines_in_def ends_differ)
  next
    case plain
    then have "string_loop CHR 0x22 \<lparr>inp = c # ?w, linenumber = n, buff = b\<rparr> =
        string_loop CHR 0x22 \<lparr>inp = ?w, linenumber = n, buff = b @ [c]\<rparr>"
      by (intro string_loop_plain) (auto simp: is_newline_def)
    with plain rest [of n] Cons.prems show ?thesis by (simp add: quote_simps lines_in_def)
  qed
qed

lemma lex_quoted:
  assumes "n + lines_in s < MAX_INT"
  shows "lex_token L \<lparr>inp = addquoted s @ t, linenumber = n, buff = b\<rparr> =
    Inr (\<lparr>inp = t, linenumber = n + lines_in s, buff = CHR 0x22 # s @ [CHR 0x22]\<rparr>, Literal s)"
proof -
  have "read_string CHR 0x22 \<lparr>inp = addquoted s @ t, linenumber = n, buff = []\<rparr> =
      Inr (\<lparr>inp = t, linenumber = n + lines_in s, buff = CHR 0x22 # s @ [CHR 0x22]\<rparr>, s)"
    using string_loop_quoted [OF assms, of t "[CHR 0x22]"]
    by (simp add: read_string_def addquoted_def save_and_next_def save_def next_char_def Let_def)
  then show ?thesis
    by (simp add: lex_token_def reset_buffer_def llex.simps addquoted_def is_newline_def newline_def return_def)
qed

section \<open>Printed tokens are read back\<close>

definition plain_symbol :: "char \<Rightarrow> bool" where
  "plain_symbol c \<longleftrightarrow> \<not> is_newline c \<and> \<not> c_isspace c \<and> \<not> c_isdigit c \<and> \<not> c_isalpha c \<and>
     c \<notin> set ''_-[=<>~.'' \<and> c \<noteq> CHR 0x22 \<and> c \<noteq> CHR 0x27"

definition symbols :: "string set" where
  "symbols = {''-'', ''['', ''='', ''<'', ''>'', ''~'', ''=='', ''<='', ''>='', ''~='', ''.'', ''..'', ''...''} \<union>
     {[c] | c. plain_symbol c}"

text \<open>Names are not reserved; numbers are whole ones that are written with digits and read back from them.\<close>

fun valid :: "lua \<Rightarrow> token \<Rightarrow> bool" where
  "valid L (Reserved w) \<longleftrightarrow> w \<in> set reserved"
| "valid L (Symbol s) \<longleftrightarrow> s \<in> symbols"
| "valid L (Numeral x) \<longleftrightarrow> number_text L x \<noteq> [] \<and> list_all c_isdigit (number_text L x) \<and> text_number L (number_text L x) = Some x"
| "valid L (Identifier w) \<longleftrightarrow> w \<notin> set reserved \<and> list_all is_name w \<and> w \<noteq> [] \<and> (c_isalpha (hd w) \<or> hd w = CHR ''_'')"
| "valid L (Literal s) \<longleftrightarrow> True"
| "valid L End_of_input \<longleftrightarrow> False"

fun print_token :: "lua \<Rightarrow> token \<Rightarrow> string" where
  "print_token L (Reserved w) = w"
| "print_token L (Symbol s) = s"
| "print_token L (Numeral x) = number_text L x"
| "print_token L (Identifier w) = w"
| "print_token L (Literal s) = addquoted s"
| "print_token L End_of_input = []"

fun token_lines :: "token \<Rightarrow> nat" where
  "token_lines (Literal s) = lines_in s"
| "token_lines _ = 0"

text \<open>The tokens that are read one after the other up to the end of the input.\<close>

inductive lexes :: "lua \<Rightarrow> lex_state \<Rightarrow> token list \<Rightarrow> bool" for L :: lua where
  lexes_end: "lex_token L ls = Inr (ls', End_of_input) \<Longrightarrow> lexes L ls []"
| lexes_token: "lex_token L ls = Inr (ls', t) \<Longrightarrow> t \<noteq> End_of_input \<Longrightarrow> lexes L ls' ts \<Longrightarrow> lexes L ls (t # ts)"

inductive_cases lexes_NilE: "lexes L ls []"
inductive_cases lexes_ConsE: "lexes L ls (t # ts)"

text \<open>The input determines the tokens.\<close>

lemma lexes_det: "lexes L ls ts \<Longrightarrow> lexes L ls us \<Longrightarrow> ts = us"
proof (induction arbitrary: us rule: lexes.induct)
  case (lexes_end ls ls')
  then show ?case by (cases us) (auto elim: lexes_ConsE)
next
  case (lexes_token ls ls' t ts)
  note step = lexes_token.hyps(1,2)
  show ?case
  proof (cases us)
    case Nil
    with lexes_token.prems step show ?thesis by (auto elim: lexes_NilE)
  next
    case (Cons u vs)
    with lexes_token.prems obtain ls2 where "lex_token L ls = Inr (ls2, u)" "lexes L ls2 vs" by (auto elim: lexes_ConsE)
    with step(1) lexes_token.IH Cons show ?thesis by simp
  qed
qed

lemma blank_skipped: "lex_token L \<lparr>inp = CHR '' '' # s, linenumber = n, buff = b\<rparr> = lex_token L \<lparr>inp = s, linenumber = n, buff = b\<rparr>"
  by (simp add: lex_token_def llex.simps [of L "\<lparr>inp = CHR '' '' # s, linenumber = n, buff = []\<rparr>"] reset_buffer_def next_char_def
      is_newline_def newline_def return_def c_isspace_def)

lemma lex_name:
  assumes "list_all is_name w" "w \<noteq> []" "c_isalpha (hd w) \<or> hd w = CHR ''_''"
  shows "lex_token L \<lparr>inp = w @ CHR '' '' # s, linenumber = n, buff = b\<rparr> =
    Inr (\<lparr>inp = CHR '' '' # s, linenumber = n, buff = w\<rparr>, if w \<in> set reserved then Reserved w else Identifier w)"
proof -
  obtain c v where w: "w = c # v" using assms(2) by (cases w) auto
  have space: "\<not> is_name CHR '' ''"
    by (simp add: is_name_def c_isalnum_def c_isalpha_def c_isupper_def c_islower_def c_isdigit_def code_def)
  have take: "takeWhile is_name (v @ CHR '' '' # s) = v" "dropWhile is_name (v @ CHR '' '' # s) = CHR '' '' # s"
    using assms(1) w space by (auto simp: takeWhile_append dropWhile_append list_all_iff)
  have c: "\<not> is_newline c" "c \<notin> set ''-[=<>~.''" "c \<noteq> CHR 0x22" "c \<noteq> CHR 0x27" "\<not> c_isspace c" "\<not> c_isdigit c"
    using assms(3) w
    by (auto simp: is_newline_def newline_def return_def c_isalpha_def c_isupper_def c_islower_def c_isspace_def c_isdigit_def code_def)
  have "read_name \<lparr>inp = w @ CHR '' '' # s, linenumber = n, buff = []\<rparr> =
      (\<lparr>inp = CHR '' '' # s, linenumber = n, buff = w\<rparr>, if w \<in> set reserved then Reserved w else Identifier w)"
    by (simp add: read_name_def save_while_eq save_and_next_def save_def next_char_def w take Let_def)
  then show ?thesis
    using c assms(3) w by (simp add: lex_token_def reset_buffer_def llex.simps)
qed

lemma lex_digits:
  assumes "list_all c_isdigit w" "w \<noteq> []" "text_number L w = Some x"
  shows "lex_token L \<lparr>inp = w @ CHR '' '' # s, linenumber = n, buff = b\<rparr> = Inr (\<lparr>inp = CHR '' '' # s, linenumber = n, buff = w\<rparr>, Numeral x)"
proof -
  obtain c v where w: "w = c # v" using assms(2) by (cases w) auto
  have space: "\<not> c_isdigit CHR '' ''" "\<not> c_isalnum CHR '' ''"
    by (simp_all add: c_isalnum_def c_isalpha_def c_isupper_def c_islower_def c_isdigit_def code_def)
  have digits: "takeWhile (\<lambda>c. c_isdigit c \<or> c = CHR ''.'') (v @ CHR '' '' # s) = v"
    "dropWhile (\<lambda>c. c_isdigit c \<or> c = CHR ''.'') (v @ CHR '' '' # s) = CHR '' '' # s"
    using assms(1) w space by (auto simp: takeWhile_append dropWhile_append list_all_iff)
  have c: "\<not> is_newline c" "c \<notin> set ''-[=<>~.''" "c \<noteq> CHR 0x22" "c \<noteq> CHR 0x27" "\<not> c_isspace c" "c_isdigit c"
    using assms(1) w by (auto simp: is_newline_def newline_def return_def c_isspace_def c_isdigit_def code_def)
  have "cstr w = w"
    using assms(1) by (auto simp: cstr_def takeWhile_eq_all_conv list_all_iff c_isdigit_def code_def nul_def)
  then have "read_numeral L \<lparr>inp = w @ CHR '' '' # s, linenumber = n, buff = []\<rparr> =
      Inr (\<lparr>inp = CHR '' '' # s, linenumber = n, buff = w\<rparr>, x)"
    using assms(3) space
    by (simp add: read_numeral_def save_while_eq save_and_next_def save_def next_char_def check_next_def current_is_def w digits
        nul_def Let_def)
  then show ?thesis using c w by (simp add: lex_token_def reset_buffer_def llex.simps)
qed

lemma lex_symbol:
  assumes "w \<in> symbols"
  shows "\<exists>b'. lex_token L \<lparr>inp = w @ CHR '' '' # s, linenumber = n, buff = b\<rparr> =
    Inr (\<lparr>inp = CHR '' '' # s, linenumber = n, buff = b'\<rparr>, Symbol w)"
proof -
  note step = llex.simps [of L "\<lparr>inp = c # r, linenumber = n, buff = []\<rparr>" for c r]
  note start = lex_token_def reset_buffer_def is_newline_def newline_def return_def
  have space: "\<not> c_isdigit CHR '' ''" "CHR '' '' \<noteq> nul" by (simp_all add: c_isdigit_def code_def nul_def)
  have "(\<exists>c. w = [c] \<and> plain_symbol c) \<or> (\<exists>c \<in> {CHR ''='', CHR ''<'', CHR ''>'', CHR ''~''}. w = [c] \<or> w = [c, CHR ''='']) \<or>
      w \<in> {''.'', ''..'', ''...''} \<or> w = ''-'' \<or> w = ''[''"
    using assms unfolding symbols_def by (elim UnE insertE emptyE CollectE) simp_all
  then consider (plain) c where "w = [c]" "plain_symbol c"
    | (equal) c where "c \<in> {CHR ''='', CHR ''<'', CHR ''>'', CHR ''~''}" "w = [c] \<or> w = [c, CHR ''='']"
    | (dot) "w \<in> {''.'', ''..'', ''...''}" | (minus) "w = ''-''" | (bracket) "w = ''[''"
    by blast
  then show ?thesis
  proof cases
    case plain
    then have "c \<noteq> newline" "c \<noteq> return" "\<not> c_isspace c" "\<not> c_isdigit c" "\<not> c_isalpha c" "c \<noteq> CHR ''_''"
      "c \<noteq> CHR ''-''" "c \<noteq> CHR ''[''" "c \<noteq> CHR ''=''" "c \<noteq> CHR ''<''" "c \<noteq> CHR ''>''" "c \<noteq> CHR ''~''" "c \<noteq> CHR ''.''"
      "c \<noteq> CHR 0x22" "c \<noteq> CHR 0x27"
      by (auto simp: plain_symbol_def is_newline_def)
    with plain(1) show ?thesis by (simp add: lex_token_def reset_buffer_def is_newline_def step next_char_def)
  next
    case equal
    then show ?thesis by (auto simp: start step with_equal_def next_char_def current_is_def Let_def)
  next
    case dot
    then show ?thesis
      using space
      by (auto simp: start step dots_def check_next_def save_and_next_def save_def next_char_def current_is_def Let_def)
  next
    case minus
    then show ?thesis by (simp add: start step next_char_def)
  next
    case bracket
    then show ?thesis
      by (simp add: start step skip_sep_def save_while_eq save_and_next_def save_def next_char_def current_is_def Let_def)
  qed
qed

lemma lex_printed:
  assumes "valid L t" "n + token_lines t < MAX_INT"
  shows "\<exists>b'. lex_token L \<lparr>inp = print_token L t @ CHR '' '' # s, linenumber = n, buff = b\<rparr> =
    Inr (\<lparr>inp = CHR '' '' # s, linenumber = n + token_lines t, buff = b'\<rparr>, t)"
proof (cases t)
  case (Reserved w)
  then have "list_all is_name w \<and> w \<noteq> [] \<and> (c_isalpha (hd w) \<or> hd w = CHR ''_'')"
    using assms(1) by (auto simp: reserved_def is_name_def c_isalnum_def c_isalpha_def c_islower_def code_def)
  then show ?thesis using lex_name [of w] Reserved assms(1) by auto
next
  case (Symbol w)
  then show ?thesis using lex_symbol assms(1) by auto
next
  case (Numeral x)
  then show ?thesis using lex_digits assms(1) by auto
next
  case (Identifier w)
  then show ?thesis using lex_name [of w] assms(1) by auto
next
  case (Literal s)
  then show ?thesis using lex_quoted assms(2) by auto
qed (use assms in auto)

lemma lexes_printed:
  "list_all (valid L) ts \<Longrightarrow> n + sum_list (map token_lines ts) < MAX_INT \<Longrightarrow>
     lexes L \<lparr>inp = concat (map (\<lambda>t. print_token L t @ '' '') ts), linenumber = n, buff = b\<rparr> ts"
proof (induction ts arbitrary: n b)
  case Nil
  then show ?case by (auto intro!: lexes_end simp: lex_token_def llex.simps reset_buffer_def)
next
  case (Cons t ts)
  let ?s = "concat (map (\<lambda>t. print_token L t @ '' '') ts)"
  obtain b' where b': "lex_token L \<lparr>inp = print_token L t @ CHR '' '' # ?s, linenumber = n, buff = b\<rparr> =
      Inr (\<lparr>inp = CHR '' '' # ?s, linenumber = n + token_lines t, buff = b'\<rparr>, t)"
    using lex_printed [of L t n ?s b] Cons.prems by auto
  have "lexes L \<lparr>inp = ?s, linenumber = n + token_lines t, buff = b'\<rparr> ts"
    using Cons.IH Cons.prems by simp
  then have "lexes L \<lparr>inp = CHR '' '' # ?s, linenumber = n + token_lines t, buff = b'\<rparr> ts"
    by (cases rule: lexes.cases) (auto intro: lexes.intros simp: blank_skipped)
  with b' show ?case using Cons.prems(1) by (cases t) (auto intro: lexes_token)
qed

text \<open>
  C39. Whatever tokens are written, each with a blank behind it, the analyser reads exactly these tokens: names, reserved
  words, all symbols, whole numbers, and strings of any characters in the form that \<open>string.format\<close> writes for
  \<open>%q\<close>.
\<close>

theorem lexer_reads_tokens:
  assumes "list_all (valid L) ts" "1 + sum_list (map token_lines ts) < MAX_INT"
  shows "lexes L \<lparr>inp = concat (map (\<lambda>t. print_token L t @ '' '') ts), linenumber = 1, buff = []\<rparr> us \<longleftrightarrow> us = ts"
  using lexes_printed [OF assms] lexes_det by blast

theorem lexer_reads_tokens_witness:
  "\<forall>L. lexes L \<lparr>inp = ''local x = '' @ addquoted (''a'' @ [CHR 0x22, newline]) @ '' '', linenumber = 1, buff = []\<rparr>
     [Reserved ''local'', Identifier ''x'', Symbol ''='', Literal (''a'' @ [CHR 0x22, newline])]"
proof
  fix L
  let ?ts = "[Reserved ''local'', Identifier ''x'', Symbol ''='', Literal (''a'' @ [CHR 0x22, newline])]"
  have "list_all (valid L) ?ts"
    by (simp add: reserved_def is_name_def c_isalnum_def c_isalpha_def c_islower_def code_def symbols_def)
  from lexer_reads_tokens [OF this, of ?ts]
  show "lexes L \<lparr>inp = ''local x = '' @ addquoted (''a'' @ [CHR 0x22, newline]) @ '' '', linenumber = 1, buff = []\<rparr> ?ts"
    by (simp add: lines_in_def newline_def MAX_INT_def)
qed

text \<open>A NUL behind a point is taken for a second one.\<close>

lemma nul_is_a_point:
  "lex_token L \<lparr>inp = [CHR ''.'', nul, CHR '' ''], linenumber = n, buff = []\<rparr> =
     Inr (\<lparr>inp = '' '', linenumber = n, buff = [CHR ''.'', nul]\<rparr>, Symbol ''..'')"
proof -
  have "CHR '' '' \<noteq> nul" by (simp add: nul_def)
  then show ?thesis
    by (simp add: lex_token_def reset_buffer_def llex.simps is_newline_def newline_def return_def dots_def check_next_def
        save_and_next_def save_def next_char_def current_is_def Let_def)
qed

end
