(* ===== verification/LuaDump.thy ===== *)
theory LuaDump
  imports CLib "HOL-Library.Word"
begin

text \<open>
  Precompiled chunks: \<^verbatim>\<open>misc/luabash/lua/ldump.c\<close> writes a function as bytes, \<^verbatim>\<open>misc/luabash/lua/lundump.c\<close> reads
  them. Functions are trees, since every function holds those defined in it. An \<open>int\<close> has 4 bytes, a
  \<open>size\_t\<close> 8, an instruction 4 and a number 8, in the byte order of the machine. The symbolic execution of
  \<open>luaG\_checkcode\<close>, which judges the instructions of a loaded function, is a parameter.
\<close>

section \<open>Functions\<close>

text \<open>A number is kept as its 64 bits. A missing string is the null pointer.\<close>

datatype const_value = KNil | KBoolean int | KNumber "64 word" | KString "string option"

record debug =
  lineinfo :: "int list"
  locvars :: "(string option \<times> int \<times> int) list"
  upvalues :: "string option list"

record header =
  linedefined :: int
  lastlinedefined :: int
  nups :: "8 word"
  numparams :: "8 word"
  is_vararg :: "8 word"
  maxstacksize :: "8 word"

datatype proto = Proto (source_of: "string option") (head_of: header) (code_of: "32 word list") (constants_of: "const_value list")
  (protos_of: "proto list") (debug_of: debug)

section \<open>Bytes\<close>

definition le_bytes :: "nat \<Rightarrow> nat \<Rightarrow> string" where
  "le_bytes n v = map (\<lambda>i. char_of (v div 256 ^ i)) [0..<n]"

definition le_value :: "string \<Rightarrow> nat" where
  "le_value s = foldr (\<lambda>c v. code c + 256 * v) s 0"

text \<open>The representation of a number of \<open>n\<close> bytes in the memory of a machine.\<close>

definition in_memory :: "bool \<Rightarrow> nat \<Rightarrow> nat \<Rightarrow> string" where
  "in_memory big n v = (if big then rev (le_bytes n v) else le_bytes n v)"

definition from_memory :: "bool \<Rightarrow> string \<Rightarrow> nat" where
  "from_memory big s = le_value (if big then rev s else s)"

lemma length_in_memory [simp]: "length (in_memory big n v) = n"
  by (simp add: in_memory_def le_bytes_def)

lemma le_value_bytes: "le_value (le_bytes n v) = v mod 256 ^ n"
proof (induction n arbitrary: v)
  case (Suc n)
  have "le_bytes (Suc n) v = char_of v # le_bytes n (v div 256)"
    by (simp add: le_bytes_def upt_conv_Cons map_Suc_upt [symmetric] div_mult2_eq del: upt_Suc)
  then have "le_value (le_bytes (Suc n) v) = v mod 256 + 256 * (v div 256 mod 256 ^ n)"
    using Suc [of "v div 256"] by (simp add: le_value_def code_def)
  then show ?case by (simp add: mod_mult2_eq)
qed (simp add: le_value_def le_bytes_def)

lemma from_in_memory [simp]: "v < 256 ^ n \<Longrightarrow> from_memory big (in_memory big n v) = v"
  by (simp add: from_memory_def in_memory_def le_value_bytes)

section \<open>Writing\<close>

text \<open>
  Each call of \<open>DumpBlock\<close> hands one block to the writer as long as that returns 0; which blocks there are does not
  depend on it. So a function gives the list of its blocks, and \<open>write\_blocks\<close> hands them over.
\<close>

type_synonym blocks = "string list"

fun write_blocks :: "(string \<Rightarrow> 'd \<Rightarrow> int \<times> 'd) \<Rightarrow> blocks \<Rightarrow> int \<times> 'd \<Rightarrow> int \<times> 'd" where
  "write_blocks w [] D = D"
| "write_blocks w (b # bs) D = write_blocks w bs (if fst D = 0 then w b (snd D) else D)"

definition dump_char :: "int \<Rightarrow> blocks" where
  "dump_char y = [[char_of (nat (y mod 256))]]"

definition dump_int :: "bool \<Rightarrow> int \<Rightarrow> blocks" where
  "dump_int big x = [in_memory big 4 (nat (x mod 2 ^ 32))]"

definition dump_size :: "bool \<Rightarrow> nat \<Rightarrow> blocks" where
  "dump_size big n = [in_memory big 8 (n mod 2 ^ 64)]"

definition dump_number :: "bool \<Rightarrow> 64 word \<Rightarrow> blocks" where
  "dump_number big x = [in_memory big 8 (unat x)]"

text \<open>A vector is its length and one block with its elements.\<close>

definition dump_code :: "bool \<Rightarrow> 32 word list \<Rightarrow> blocks" where
  "dump_code big c = dump_int big (int (length c)) @ [concat (map (\<lambda>i. in_memory big 4 (unat i)) c)]"

definition dump_ints :: "bool \<Rightarrow> int list \<Rightarrow> blocks" where
  "dump_ints big xs = dump_int big (int (length xs)) @ [concat (concat (map (dump_int big) xs))]"

text \<open>A string is written with the NUL behind it.\<close>

definition dump_string :: "bool \<Rightarrow> string option \<Rightarrow> blocks" where
  "dump_string big s = (case s of None \<Rightarrow> dump_size big 0 | Some t \<Rightarrow> dump_size big (length t + 1) @ [t @ [nul]])"

definition dump_constant :: "bool \<Rightarrow> const_value \<Rightarrow> blocks" where
  "dump_constant big k =
     (case k of
        KNil \<Rightarrow> dump_char 0
      | KBoolean b \<Rightarrow> dump_char 1 @ dump_char b
      | KNumber x \<Rightarrow> dump_char 3 @ dump_number big x
      | KString s \<Rightarrow> dump_char 4 @ dump_string big s)"

definition dump_locvar :: "bool \<Rightarrow> string option \<times> int \<times> int \<Rightarrow> blocks" where
  "dump_locvar big v = (case v of (name, startpc, endpc) \<Rightarrow> dump_string big name @ dump_int big startpc @ dump_int big endpc)"

definition dump_debug :: "bool \<Rightarrow> bool \<Rightarrow> debug \<Rightarrow> blocks" where
  "dump_debug big strip d =
     dump_ints big (if strip then [] else lineinfo d) @
     (let vs = (if strip then [] else locvars d) in dump_int big (int (length vs)) @ concat (map (dump_locvar big) vs)) @
     (let us = (if strip then [] else upvalues d) in dump_int big (int (length us)) @ concat (map (dump_string big) us))"

definition dump_head :: "bool \<Rightarrow> header \<Rightarrow> blocks" where
  "dump_head big h =
     dump_int big (linedefined h) @ dump_int big (lastlinedefined h) @ dump_char (uint (nups h)) @
     dump_char (uint (numparams h)) @ dump_char (uint (is_vararg h)) @ dump_char (uint (maxstacksize h))"

text \<open>The source of a function is left out if it is that of the function around it; the strings are unique.\<close>

fun dump_function :: "bool \<Rightarrow> bool \<Rightarrow> string option \<Rightarrow> proto \<Rightarrow> blocks" where
  "dump_function big strip p (Proto src h c ks ps d) =
     dump_string big (if src = p \<or> strip then None else src) @ dump_head big h @ dump_code big c @
     dump_int big (int (length ks)) @ concat (map (dump_constant big) ks) @
     dump_int big (int (length ps)) @ concat (map (dump_function big strip src) ps) @ dump_debug big strip d"

text \<open>
  \<open>luaU\_header\<close>: the signature, the version, the format, the byte order, four sizes, and whether numbers are integers.
\<close>

definition luaU_header :: "bool \<Rightarrow> string" where
  "luaU_header big =
     [CHR 0x1B] @ ''Lua'' @ [CHR 0x51, CHR 0x00, if big then CHR 0x00 else CHR 0x01, CHR 0x04, CHR 0x08, CHR 0x04, CHR 0x08, CHR 0x00]"

definition dump_blocks :: "bool \<Rightarrow> bool \<Rightarrow> proto \<Rightarrow> blocks" where
  "dump_blocks big strip f = luaU_header big # dump_function big strip None f"

definition luaU_dump :: "bool \<Rightarrow> (string \<Rightarrow> 'd \<Rightarrow> int \<times> 'd) \<Rightarrow> 'd \<Rightarrow> bool \<Rightarrow> proto \<Rightarrow> int \<times> 'd" where
  "luaU_dump big w data strip f = write_blocks w (dump_blocks big strip f) (0, data)"

section \<open>Reading\<close>

text \<open>
  A loader takes what is left of the chunk and gives the reason of an error, or a value and the rest. \<open>error\<close> unwinds the
  C stack, so the first reason is the result. Memory for the vectors is taken to suffice.
\<close>

type_synonym 'a loader = "string \<Rightarrow> string + 'a \<times> string"

definition and_then :: "'a loader \<Rightarrow> ('a \<Rightarrow> 'b loader) \<Rightarrow> 'b loader" where
  "and_then p f chunk = (case p chunk of Inl why \<Rightarrow> Inl why | Inr (x, rest) \<Rightarrow> f x rest)"

definition give :: "'a \<Rightarrow> 'a loader" where
  "give x chunk = Inr (x, chunk)"

definition fail_if :: "bool \<Rightarrow> string \<Rightarrow> unit loader" where
  "fail_if c why chunk = (if c then Inl why else Inr ((), chunk))"

definition load_block :: "nat \<Rightarrow> string loader" where
  "load_block n chunk = (if n \<le> length chunk then Inr (take n chunk, drop n chunk) else Inl ''unexpected end'')"

text \<open>A \<open>char\<close> is signed.\<close>

definition load_char :: "int loader" where
  "load_char = and_then (load_block 1) (\<lambda>b. give (sint (word_of_nat (code (b ! 0)) :: 8 word)))"

definition load_byte :: "8 word loader" where
  "load_byte = and_then load_char (\<lambda>x. give (word_of_int x))"

definition signed_int :: "nat \<Rightarrow> int" where
  "signed_int v = sint (word_of_nat v :: 32 word)"

definition load_int :: "bool \<Rightarrow> int loader" where
  "load_int big =
     and_then (load_block 4) (\<lambda>b.
       (let x = signed_int (from_memory big b) in and_then (fail_if (x < 0) ''bad integer'') (\<lambda>_. give x)))"

definition load_number :: "bool \<Rightarrow> 64 word loader" where
  "load_number big = and_then (load_block 8) (\<lambda>b. give (word_of_nat (from_memory big b)))"

definition load_string :: "bool \<Rightarrow> string option loader" where
  "load_string big =
     and_then (load_block 8) (\<lambda>b.
       (let n = from_memory big b in
        if n = 0 then give None else and_then (load_block n) (\<lambda>s. give (Some (take (n - 1) s)))))"

text \<open>A vector is read with one call and then cut, a list element by element.\<close>

definition pieces :: "nat \<Rightarrow> nat \<Rightarrow> string \<Rightarrow> string list" where
  "pieces w n s = map (\<lambda>i. take w (drop (w * i) s)) [0..<n]"

primrec load_list :: "'a loader \<Rightarrow> nat \<Rightarrow> 'a list loader" where
  "load_list p 0 = give []"
| "load_list p (Suc n) = and_then p (\<lambda>x. and_then (load_list p n) (\<lambda>xs. give (x # xs)))"

definition load_code :: "bool \<Rightarrow> 32 word list loader" where
  "load_code big =
     and_then (load_int big) (\<lambda>n. and_then (load_block (nat n * 4)) (\<lambda>b.
       give (map (\<lambda>s. word_of_nat (from_memory big s)) (pieces 4 (nat n) b))))"

definition load_constant :: "bool \<Rightarrow> const_value loader" where
  "load_constant big =
     and_then load_char (\<lambda>t.
       if t = 0 then give KNil
       else if t = 1 then and_then load_char (\<lambda>b. give (KBoolean b))
       else if t = 3 then and_then (load_number big) (\<lambda>x. give (KNumber x))
       else if t = 4 then and_then (load_string big) (\<lambda>s. give (KString s))
       else and_then (fail_if True ''bad constant'') (\<lambda>_. give KNil))"

definition load_locvar :: "bool \<Rightarrow> (string option \<times> int \<times> int) loader" where
  "load_locvar big =
     and_then (load_string big) (\<lambda>name. and_then (load_int big) (\<lambda>startpc. and_then (load_int big) (\<lambda>endpc.
       give (name, startpc, endpc))))"

definition load_debug :: "bool \<Rightarrow> debug loader" where
  "load_debug big =
     and_then (load_int big) (\<lambda>n. and_then (load_block (nat n * 4)) (\<lambda>b.
     and_then (load_int big) (\<lambda>m. and_then (load_list (load_locvar big) (nat m)) (\<lambda>vs.
     and_then (load_int big) (\<lambda>l. and_then (load_list (load_string big) (nat l)) (\<lambda>us.
       give \<lparr>lineinfo = map (\<lambda>s. signed_int (from_memory big s)) (pieces 4 (nat n) b), locvars = vs, upvalues = us\<rparr>))))))"

definition load_head :: "bool \<Rightarrow> header loader" where
  "load_head big =
     and_then (load_int big) (\<lambda>first. and_then (load_int big) (\<lambda>last_line.
     and_then load_byte (\<lambda>u. and_then load_byte (\<lambda>p. and_then load_byte (\<lambda>v. and_then load_byte (\<lambda>m.
       give \<lparr>linedefined = first, lastlinedefined = last_line, nups = u, numparams = p, is_vararg = v, maxstacksize = m\<rparr>))))))"

text \<open>
  The number of nested calls is bounded by the length of the chunk, since a call reads 8 bytes before the next one; a
  call for which nothing is left stops at once (\<open>depth\_suffices\<close>).
\<close>

primrec load_function :: "bool \<Rightarrow> (proto \<Rightarrow> bool) \<Rightarrow> nat \<Rightarrow> string option \<Rightarrow> proto loader" where
  "load_function big check 0 p = (\<lambda>chunk. Inl ''unexpected end'')"
| "load_function big check (Suc depth) p =
     and_then (load_string big) (\<lambda>s.
       (let src = (if s = None then p else s) in
        and_then (load_head big) (\<lambda>h. and_then (load_code big) (\<lambda>c.
        and_then (load_int big) (\<lambda>n. and_then (load_list (load_constant big) (nat n)) (\<lambda>ks.
        and_then (load_int big) (\<lambda>m. and_then (load_list (load_function big check depth src) (nat m)) (\<lambda>ps.
        and_then (load_debug big) (\<lambda>d.
          (let f = Proto src h c ks ps d in and_then (fail_if (\<not> check f) ''bad code'') (\<lambda>_. give f)))))))))))"

definition load_header :: "bool \<Rightarrow> unit loader" where
  "load_header big = and_then (load_block 12) (\<lambda>s. fail_if (luaU_header big \<noteq> s) ''bad header'')"

definition chunk_name :: "string \<Rightarrow> string" where
  "chunk_name name =
     (case name of
        [] \<Rightarrow> []
      | c # rest \<Rightarrow> if c = CHR ''@'' \<or> c = CHR ''='' then rest else if c = CHR 0x1B then ''binary string'' else name)"

definition luaU_undump :: "bool \<Rightarrow> (proto \<Rightarrow> bool) \<Rightarrow> string \<Rightarrow> proto loader" where
  "luaU_undump big check name chunk =
     (case and_then (load_header big) (\<lambda>_. load_function big check (length chunk) (Some ''=?'')) chunk of
        Inl why \<Rightarrow> Inl (chunk_name name @ '': '' @ why @ '' in precompiled chunk'')
      | Inr r \<Rightarrow> Inr r)"

section \<open>A chunk is read back\<close>

definition reads :: "'a loader \<Rightarrow> string \<Rightarrow> 'a \<Rightarrow> bool" where
  "reads p s x = (\<forall>rest. p (s @ rest) = Inr (x, rest))"

lemma reads_and_then: "reads p s x \<Longrightarrow> reads (f x) t y \<Longrightarrow> reads (and_then p f) (s @ t) y"
  by (simp add: reads_def and_then_def)

lemma reads_give [simp]: "reads (give x) [] x"
  by (simp add: reads_def give_def)

lemma reads_last: "reads p s x \<Longrightarrow> f x = give y \<Longrightarrow> reads (and_then p f) s y"
  using reads_and_then [of p s x f "[]" y] by simp

lemma reads_pass: "\<not> c \<Longrightarrow> reads (f ()) s y \<Longrightarrow> reads (and_then (fail_if c why) f) s y"
  by (simp add: reads_def and_then_def fail_if_def)

lemma reads_block: "length s = n \<Longrightarrow> reads (load_block n) s s"
  by (simp add: reads_def load_block_def)

lemma reads_list:
  assumes "\<And>x. x \<in> set xs \<Longrightarrow> reads p (d x) (g x)"
  shows "reads (load_list p (length xs)) (concat (map d xs)) (map g xs)"
  using assms
proof (induction xs)
  case (Cons x xs)
  have "reads (load_list p (length xs)) (concat (map d xs)) (map g xs)" using Cons by simp
  then have "reads (and_then (load_list p (length xs)) (\<lambda>ys. give (g x # ys))) (concat (map d xs)) (g x # map g xs)"
    by (rule reads_last) simp
  then show ?case using Cons.prems [of x] by (simp add: reads_and_then)
qed simp

lemma char_value [simp]: "code (char_of n) = n mod 256"
  by (simp add: code_def)

lemma word_of_mod: "word_of_nat (nat (x mod 2 ^ LENGTH('a))) = (word_of_int x :: 'a::len word)"
proof -
  have "word_of_nat (nat (x mod 2 ^ LENGTH('a))) = (word_of_int (x mod 2 ^ LENGTH('a)) :: 'a word)"
    by (metis of_int_of_nat_eq nat_0_le pos_mod_sign zero_less_numeral zero_less_power)
  then show ?thesis by (simp add: word_of_int_eq_iff take_bit_eq_mod)
qed

lemma reads_char: "reads load_char (concat (dump_char y)) (sint (word_of_int y :: 8 word))"
proof -
  have "word_of_nat (nat (y mod 256) mod 256) = (word_of_int y :: 8 word)"
    using word_of_mod [where ?'a = 8 and x = y] by simp
  then show ?thesis
    by (simp add: load_char_def dump_char_def reads_def and_then_def load_block_def give_def)
qed

lemma reads_small_char: "- 128 \<le> y \<Longrightarrow> y < 128 \<Longrightarrow> reads load_char (concat (dump_char y)) y"
  using reads_char [of y] by (simp add: sint_sbintrunc' signed_take_bit_int_eq_self)

lemma reads_byte: "reads load_byte (concat (dump_char (uint b))) b"
proof -
  have "word_of_int (sint (word_of_int (uint b) :: 8 word)) = b" by simp
  then show ?thesis unfolding load_byte_def by (intro reads_last [OF reads_char]) simp
qed

lemma signed_int_back:
  "- (2 ^ 31) \<le> x \<Longrightarrow> x < 2 ^ 31 \<Longrightarrow> signed_int (nat (x mod 2 ^ 32)) = x"
proof -
  assume a: "- (2 ^ 31) \<le> x" "x < 2 ^ 31"
  have "word_of_nat (nat (x mod 2 ^ 32)) = (word_of_int x :: 32 word)"
    using word_of_mod [where ?'a = 32 and x = x] by simp
  then show ?thesis using a by (simp add: signed_int_def sint_sbintrunc' signed_take_bit_int_eq_self)
qed

lemma int_from_memory: "from_memory big (in_memory big 4 (nat (x mod 2 ^ 32))) = nat (x mod 2 ^ 32)"
  by (rule from_in_memory) (simp add: nat_less_iff)

lemma reads_int: "0 \<le> x \<Longrightarrow> x < 2 ^ 31 \<Longrightarrow> reads (load_int big) (concat (dump_int big x)) x"
proof -
  assume a: "0 \<le> x" "x < 2 ^ 31"
  have "reads (and_then (fail_if (x < 0) ''bad integer'') (\<lambda>_. give x)) [] x" using a by (intro reads_pass) auto
  then have "reads (let x = signed_int (from_memory big (in_memory big 4 (nat (x mod 2 ^ 32))))
      in and_then (fail_if (x < 0) ''bad integer'') (\<lambda>_. give x)) [] x"
    using a by (simp only: Let_def int_from_memory signed_int_back [of x])
  then have "reads (load_int big) (in_memory big 4 (nat (x mod 2 ^ 32)) @ []) x"
    unfolding load_int_def by (intro reads_and_then [OF reads_block]) simp_all
  then show ?thesis by (simp add: dump_int_def)
qed

lemma reads_number: "reads (load_number big) (concat (dump_number big x)) x"
proof -
  have "from_memory big (in_memory big 8 (unat x)) = unat x" using unsigned_less [of x] by (intro from_in_memory) simp
  then show ?thesis unfolding load_number_def dump_number_def by (simp add: reads_last [OF reads_block])
qed

definition string_fits :: "string option \<Rightarrow> bool" where
  "string_fits s = (case s of None \<Rightarrow> True | Some t \<Rightarrow> length t + 1 < 2 ^ 64)"

lemma reads_string:
  assumes "string_fits s"
  shows "reads (load_string big) (concat (dump_string big s)) s"
proof (cases s)
  case None
  have "reads (load_string big) (in_memory big 8 0 @ []) None"
    unfolding load_string_def by (intro reads_and_then [OF reads_block]) simp_all
  then show ?thesis using None by (simp add: dump_string_def dump_size_def)
next
  case (Some t)
  have b: "length t + 1 < 2 ^ 64" using assms Some by (simp add: string_fits_def)
  then have v: "from_memory big (in_memory big 8 (length t + 1)) = length t + 1"
    by (intro from_in_memory) simp
  have "reads (and_then (load_block (length t + 1)) (\<lambda>s. give (Some (take (length t) s)))) (t @ [nul]) (Some t)"
    by (rule reads_last [OF reads_block]) simp_all
  then have "reads (load_string big) (in_memory big 8 (length t + 1) @ t @ [nul]) (Some t)"
    unfolding load_string_def by (intro reads_and_then [OF reads_block]) (simp_all only: v Let_def, simp_all)
  then show ?thesis using Some b by (simp add: dump_string_def dump_size_def)
qed

lemma pieces_Suc: "pieces w (Suc n) s = take w s # pieces w n (drop w s)"
  by (simp add: pieces_def upt_conv_Cons map_Suc_upt [symmetric] add.commute del: upt_Suc)

lemma pieces_concat: "(\<And>x. length (d x) = w) \<Longrightarrow> pieces w (length xs) (concat (map d xs)) = map d xs"
proof (induction xs)
  case (Cons x xs) then show ?case by (simp add: pieces_Suc)
qed (simp add: pieces_def)

lemma length_concat_map: "(\<And>x. length (d x) = w) \<Longrightarrow> length (concat (map d xs)) = length xs * w"
  by (induction xs) simp_all

lemma reads_code: "int (length c) < 2 ^ 31 \<Longrightarrow> reads (load_code big) (concat (dump_code big c)) c"
proof -
  assume a: "int (length c) < 2 ^ 31"
  let ?d = "\<lambda>i :: 32 word. in_memory big 4 (unat i)"
  have u: "from_memory big (?d i) = unat i" for i using unsigned_less [of i] by (intro from_in_memory) simp
  have "reads (and_then (load_block (nat (int (length c)) * 4)) (\<lambda>b.
      give (map (\<lambda>s. word_of_nat (from_memory big s)) (pieces 4 (nat (int (length c))) b)))) (concat (map ?d c)) c"
    by (rule reads_last [OF reads_block]) (simp_all add: length_concat_map pieces_concat u comp_def)
  then have "reads (load_code big) (concat (dump_int big (int (length c))) @ concat (map ?d c)) c"
    unfolding load_code_def using a by (intro reads_and_then [OF reads_int]) simp_all
  then show ?thesis by (simp add: dump_code_def)
qed

fun constant_fits :: "const_value \<Rightarrow> bool" where
  "constant_fits (KBoolean b) = (- 128 \<le> b \<and> b < 128)"
| "constant_fits (KString s) = string_fits s"
| "constant_fits k = True"

lemma reads_constant:
  assumes "constant_fits k"
  shows "reads (load_constant big) (concat (dump_constant big k)) k"
proof -
  have tag: "reads (load_constant big) (concat (dump_char t) @ s) k"
    if "- 128 \<le> t" "t < 128" "reads (if t = 0 then give KNil
       else if t = 1 then and_then load_char (\<lambda>b. give (KBoolean b))
       else if t = 3 then and_then (load_number big) (\<lambda>x. give (KNumber x))
       else if t = 4 then and_then (load_string big) (\<lambda>s. give (KString s))
       else and_then (fail_if True ''bad constant'') (\<lambda>_. give KNil)) s k" for t s
    unfolding load_constant_def using that by (intro reads_and_then [OF reads_small_char])
  show ?thesis
  proof (cases k)
    case KNil then show ?thesis using tag [of 0 "[]"] by (simp add: dump_constant_def)
  next
    case (KBoolean b) then show ?thesis
      using tag [of 1 "concat (dump_char b)"] assms reads_last [OF reads_small_char [of b], of "\<lambda>b. give (KBoolean b)"]
      by (simp add: dump_constant_def)
  next
    case (KNumber x) then show ?thesis
      using tag [of 3 "concat (dump_number big x)"] reads_last [OF reads_number, of "\<lambda>x. give (KNumber x)"]
      by (simp add: dump_constant_def)
  next
    case (KString s) then show ?thesis
      using tag [of 4 "concat (dump_string big s)"] assms reads_last [OF reads_string, of s "\<lambda>s. give (KString s)"]
      by (simp add: dump_constant_def)
  qed
qed

fun locvar_fits :: "string option \<times> int \<times> int \<Rightarrow> bool" where
  "locvar_fits (name, startpc, endpc) = (string_fits name \<and> 0 \<le> startpc \<and> startpc < 2 ^ 31 \<and> 0 \<le> endpc \<and> endpc < 2 ^ 31)"

lemma reads_locvar: "locvar_fits v \<Longrightarrow> reads (load_locvar big) (concat (dump_locvar big v)) v"
  by (cases v)
     (auto simp: load_locvar_def dump_locvar_def intro!: reads_and_then [OF reads_string] reads_and_then [OF reads_int] reads_last [OF reads_int])

definition short :: "'a list \<Rightarrow> bool" where
  "short xs = (int (length xs) < 2 ^ 31)"

lemma reads_counted:
  assumes "short xs" and "\<And>x. x \<in> set xs \<Longrightarrow> reads p (concat (d x)) (g x)" and "reads (f (map g xs)) s y"
  shows "reads (and_then (load_int big) (\<lambda>n. and_then (load_list p (nat n)) f))
    (concat (dump_int big (int (length xs))) @ concat (map (\<lambda>x. concat (d x)) xs) @ s) y"
proof -
  have "reads (and_then (load_list p (length xs)) f) (concat (map (\<lambda>x. concat (d x)) xs) @ s) y"
    by (intro reads_and_then [where x = "map g xs"] reads_list assms(2,3))
  then show ?thesis using assms(1) by (intro reads_and_then [OF reads_int]) (simp_all add: short_def)
qed

lemma reads_ints:
  assumes "short xs" and "\<forall>x \<in> set xs. - (2 ^ 31) \<le> x \<and> x < 2 ^ 31" and "reads (f xs) s y"
  shows "reads (and_then (load_int big) (\<lambda>n. and_then (load_block (nat n * 4)) (\<lambda>b.
      f (map (\<lambda>s. signed_int (from_memory big s)) (pieces 4 (nat n) b))))) (concat (dump_ints big xs) @ s) y"
proof -
  let ?d = "\<lambda>x. in_memory big 4 (nat (x mod 2 ^ 32))"
  have m: "map (\<lambda>s. signed_int (from_memory big s)) (map ?d xs) = xs"
    using assms(2) unfolding map_map comp_def int_from_memory by (intro map_idI) (blast intro: signed_int_back)
  have c: "concat (concat (map (dump_int big) xs)) = concat (map ?d xs)"
    by (induction xs) (simp_all add: dump_int_def)
  have "reads (and_then (load_block (length xs * 4)) (\<lambda>b.
      f (map (\<lambda>s. signed_int (from_memory big s)) (pieces 4 (length xs) b)))) (concat (map ?d xs) @ s) y"
    using assms(3) by (intro reads_and_then [OF reads_block]) (simp_all only: length_concat_map length_in_memory pieces_concat m)
  then show ?thesis unfolding dump_ints_def concat_append c append_assoc using assms(1)
    by (intro reads_and_then [OF reads_int]) (simp_all add: short_def c)
qed

definition debug_fits :: "debug \<Rightarrow> bool" where
  "debug_fits d =
     (short (lineinfo d) \<and> short (locvars d) \<and> short (upvalues d) \<and> (\<forall>x \<in> set (lineinfo d). - (2 ^ 31) \<le> x \<and> x < 2 ^ 31) \<and>
      (\<forall>v \<in> set (locvars d). locvar_fits v) \<and> (\<forall>s \<in> set (upvalues d). string_fits s))"

definition kept_debug :: "bool \<Rightarrow> debug \<Rightarrow> debug" where
  "kept_debug strip d = (if strip then \<lparr>lineinfo = [], locvars = [], upvalues = []\<rparr> else d)"

lemma concat_concat_map: "concat (concat (map d xs)) = concat (map (\<lambda>x. concat (d x)) xs)"
  by (induction xs) simp_all

lemma reads_debug_whole: "debug_fits d \<Longrightarrow> reads (load_debug big) (concat (dump_debug big False d)) d"
proof -
  assume a: "debug_fits d"
  have same: "reads (give \<lparr>lineinfo = lineinfo d, locvars = locvars d, upvalues = upvalues d\<rparr>) [] d" by (cases d) simp
  let ?make = "\<lambda>us. give \<lparr>lineinfo = lineinfo d, locvars = locvars d, upvalues = us\<rparr>"
  have "reads (and_then (load_int big) (\<lambda>l. and_then (load_list (load_string big) (nat l)) ?make))
      (concat (dump_int big (int (length (upvalues d)))) @ concat (map (\<lambda>x. concat (dump_string big x)) (upvalues d)) @ []) d"
    by (rule reads_counted [where g = "\<lambda>x. x"]) (use a in \<open>auto simp: debug_fits_def intro!: reads_string same\<close>)
  then show ?thesis
    unfolding load_debug_def dump_debug_def using a
    by (auto simp: Let_def debug_fits_def concat_concat_map
        intro!: reads_ints reads_counted [where g = "\<lambda>x. x"] reads_locvar)
qed

lemma reads_debug: "debug_fits d \<Longrightarrow> reads (load_debug big) (concat (dump_debug big strip d)) (kept_debug strip d)"
  using reads_debug_whole [of d big] reads_debug_whole [of "kept_debug True d" big]
  by (cases strip) (simp_all add: kept_debug_def dump_debug_def debug_fits_def short_def)

definition head_fits :: "header \<Rightarrow> bool" where
  "head_fits h = (0 \<le> linedefined h \<and> linedefined h < 2 ^ 31 \<and> 0 \<le> lastlinedefined h \<and> lastlinedefined h < 2 ^ 31)"

lemma reads_head: "head_fits h \<Longrightarrow> reads (load_head big) (concat (dump_head big h)) h"
  unfolding load_head_def dump_head_def
  by (cases h) (auto simp: head_fits_def intro!: reads_and_then [OF reads_int] reads_and_then [OF reads_byte] reads_last [OF reads_byte])

section \<open>The round trip\<close>

fun fits :: "proto \<Rightarrow> bool" where
  "fits (Proto src h c ks ps d) =
     (string_fits src \<and> head_fits h \<and> short c \<and> short ks \<and> (\<forall>k \<in> set ks. constant_fits k) \<and> short ps \<and> (\<forall>f \<in> set ps. fits f) \<and> debug_fits d)"

text \<open>What is left of a function in a chunk: a source that is missing is that of the function around it.\<close>

fun restored :: "bool \<Rightarrow> string option \<Rightarrow> proto \<Rightarrow> proto" where
  "restored strip q (Proto src h c ks ps d) =
     (let s = (if strip \<or> src = None then q else src) in Proto s h c ks (map (restored strip s) ps) (kept_debug strip d))"

fun all_pass :: "(proto \<Rightarrow> bool) \<Rightarrow> proto \<Rightarrow> bool" where
  "all_pass check (Proto src h c ks ps d) = (check (Proto src h c ks ps d) \<and> (\<forall>f \<in> set ps. all_pass check f))"

lemma length_in_concat: "x \<in> set xs \<Longrightarrow> length (d x) \<le> length (concat (map d xs))"
  by (induction xs) auto

lemma eight_first: "8 \<le> length (concat (dump_string big s))"
  by (cases s) (simp_all add: dump_string_def dump_size_def)

lemma reads_function:
  "fits f \<Longrightarrow> all_pass check (restored strip q f) \<Longrightarrow> strip \<or> p = None \<or> p = q \<Longrightarrow>
   length (concat (dump_function big strip p f)) \<le> depth \<Longrightarrow>
   reads (load_function big check depth q) (concat (dump_function big strip p f)) (restored strip q f)"
proof (induction f arbitrary: p q depth)
  case (Proto src h c ks ps d)
  let ?kept = "if src = p \<or> strip then None else src"
  let ?src = "if strip \<or> src = None then q else src"
  let ?f = "Proto ?src h c ks (map (restored strip ?src) ps) (kept_debug strip d)"
  let ?d = "\<lambda>f. concat (dump_function big strip src f)"
  have kept: "(if ?kept = None then q else ?kept) = ?src" using Proto.prems(3) by auto
  have long: "8 + length (concat (map ?d ps)) \<le> depth"
    using Proto.prems(4) eight_first [of big ?kept] by (simp add: concat_concat_map)
  then obtain n where n: "depth = Suc n" by (cases depth) auto
  have nested: "reads (load_function big check n ?src) (?d f) (restored strip ?src f)" if "f \<in> set ps" for f
    using that Proto.prems length_in_concat [OF that, of ?d] long n
    by (intro Proto.IH) (auto simp: Let_def split: if_splits)
  have last: "reads (and_then (load_debug big) (\<lambda>d. let f = Proto ?src h c ks (map (restored strip ?src) ps) d in
      and_then (fail_if (\<not> check f) ''bad code'') (\<lambda>_. give f))) (concat (dump_debug big strip d) @ []) ?f"
    using Proto.prems by (intro reads_and_then [OF reads_debug]) (auto simp: Let_def intro!: reads_pass)
  have "reads (load_function big check (Suc n) q)
      (concat (dump_string big ?kept) @ concat (dump_head big h) @ concat (dump_code big c) @
       concat (dump_int big (int (length ks))) @ concat (map (\<lambda>k. concat (dump_constant big k)) ks) @
       concat (dump_int big (int (length ps))) @ concat (map ?d ps) @ concat (dump_debug big strip d) @ []) ?f"
    unfolding load_function.simps
    apply (rule reads_and_then [OF reads_string])
    subgoal using Proto.prems(1) by (auto simp: string_fits_def)
    unfolding kept Let_def [of ?src]
    apply (rule reads_and_then [OF reads_head])
    subgoal using Proto.prems(1) by simp
    apply (rule reads_and_then [OF reads_code])
    subgoal using Proto.prems(1) by (simp add: short_def)
    apply (rule reads_counted [where g = "\<lambda>x. x"])
    subgoal using Proto.prems(1) by simp
    subgoal using Proto.prems(1) by (simp add: reads_constant)
    apply (rule reads_counted [where g = "restored strip ?src"])
    subgoal using Proto.prems(1) by simp
    subgoal by (rule nested)
    subgoal using last by simp
    done
  then show ?case using n by (simp add: concat_concat_map Let_def)
qed

text \<open>A writer that keeps all it gets, as that of \<open>string.dump\<close> does, ends up with the blocks one after the other.\<close>

lemma collected: "write_blocks (\<lambda>b d. (0, d @ b)) bs (0, d) = (0, d @ concat bs)"
  by (induction bs arbitrary: d) simp_all

text \<open>After an error of the writer nothing more is handed to it, and the error is the result.\<close>

lemma writer_error_kept: "e \<noteq> 0 \<Longrightarrow> write_blocks w bs (e, d) = (e, d)"
  by (induction bs) simp_all

text \<open>
  C40. A dumped chunk is loaded: \<open>luaU\_undump\<close> reads back from what \<open>luaU\_dump\<close> wrote the function with all the
  functions in it, and leaves what follows the chunk. The source of a function that was shared with the function around
  it comes back; a stripped chunk has no sources and no debug information, and its functions get the source \<open>=?\<close>.
\<close>

theorem chunk_read_back:
  assumes "fits f" and "all_pass check (restored strip (Some ''=?'') f)"
  shows "\<exists>chunk. luaU_dump big (\<lambda>b d. (0, d @ b)) [] strip f = (0, chunk) \<and>
    luaU_undump big check name (chunk @ rest) = Inr (restored strip (Some ''=?'') f, rest)"
proof -
  let ?s = "concat (dump_function big strip None f)"
  have "reads (load_header big) (luaU_header big) ()"
    unfolding load_header_def by (rule reads_last [OF reads_block]) (simp_all add: fun_eq_iff fail_if_def give_def luaU_header_def)
  moreover have "reads (load_function big check (length (luaU_header big @ ?s @ rest)) (Some ''=?'')) ?s (restored strip (Some ''=?'') f)"
    using assms by (intro reads_function) simp_all
  ultimately have "reads (and_then (load_header big)
      (\<lambda>_. load_function big check (length (luaU_header big @ ?s @ rest)) (Some ''=?''))) (luaU_header big @ ?s) (restored strip (Some ''=?'') f)"
    by (rule reads_and_then)
  then have "luaU_undump big check name ((luaU_header big @ ?s) @ rest) = Inr (restored strip (Some ''=?'') f, rest)"
    unfolding luaU_undump_def append_assoc by (simp only: reads_def append_assoc sum.case)
  then show ?thesis by (simp add: luaU_dump_def collected dump_blocks_def)
qed

definition example_proto :: proto where
  "example_proto =
     (let h = \<lparr>linedefined = 1, lastlinedefined = 3, nups = 0, numparams = 2, is_vararg = 2, maxstacksize = 4\<rparr>;
          d = \<lparr>lineinfo = [1, 2], locvars = [(Some ''x'', 0, 2)], upvalues = [Some ''u'', None]\<rparr> in
      Proto (Some ''@a.lua'') h [0x801E, 7] [KNil, KBoolean 1, KNumber 5, KString (Some ''hi'')]
        [Proto (Some ''@a.lua'') h [1] [] [] d, Proto (Some ''=b'') h [] [] [] d] d)"

lemma chunk_read_back_witness:
  "\<exists>chunk. luaU_dump True (\<lambda>b d. (0, d @ b)) [] False example_proto = (0, chunk) \<and>
    luaU_undump True (\<lambda>f. code_of f \<noteq> [0]) ''=stdin'' (chunk @ ''x'') = Inr (restored False (Some ''=?'') example_proto, ''x'')"
proof (rule chunk_read_back)
  show "fits example_proto"
    by (simp add: example_proto_def string_fits_def head_fits_def debug_fits_def short_def Let_def)
  show "all_pass (\<lambda>f. code_of f \<noteq> [0]) (restored False (Some ''=?'') example_proto)"
    by (simp add: example_proto_def Let_def)
qed

section \<open>Chunks that are refused\<close>

text \<open>A chunk of a machine with the other byte order is refused, and so is anything that is not a chunk.\<close>

lemma other_header_refused:
  "length s = 12 \<Longrightarrow> s \<noteq> luaU_header big \<Longrightarrow>
   luaU_undump big check name (s @ rest) = Inl (chunk_name name @ '': '' @ ''bad header'' @ '' in precompiled chunk'')"
  by (simp add: luaU_undump_def load_header_def and_then_def load_block_def fail_if_def)

lemma other_byte_order_refused:
  "luaU_undump big check name (concat (dump_blocks (\<not> big) strip f) @ rest) =
   Inl (chunk_name name @ '': '' @ ''bad header'' @ '' in precompiled chunk'')"
  unfolding dump_blocks_def concat.simps append_assoc
  by (rule other_header_refused) (simp_all add: luaU_header_def)

text \<open>A function with instructions that \<open>luaG\_checkcode\<close> rejects is never the result, at any depth.\<close>

lemma and_then_result: "and_then p f chunk = Inr r \<Longrightarrow> \<exists>x s. p chunk = Inr (x, s) \<and> f x s = Inr r"
  by (auto simp: and_then_def split: sum.splits)

lemma and_then_elim:
  assumes "and_then p f chunk = Inr r"
  obtains x s where "p chunk = Inr (x, s)" and "f x s = Inr r"
  using and_then_result [OF assms] by blast

lemma load_list_all:
  "load_list p n chunk = Inr (xs, rest) \<Longrightarrow> (\<And>s x t. p s = Inr (x, t) \<Longrightarrow> P x) \<Longrightarrow> \<forall>x \<in> set xs. P x"
proof (induction n arbitrary: chunk xs rest)
  case 0 then show ?case by (simp add: give_def)
next
  case (Suc n)
  from Suc.prems(1) obtain x s ys where "p chunk = Inr (x, s)" "load_list p n s = Inr (ys, rest)" "xs = x # ys"
    by (auto simp: give_def elim!: and_then_elim)
  then show ?case using Suc.IH [of s ys rest] Suc.prems(2) by auto
qed

lemma loaded_pass: "load_function big check depth q chunk = Inr (f, rest) \<Longrightarrow> all_pass check f"
proof (induction depth arbitrary: q chunk f rest)
  case (Suc depth)
  from Suc.prems obtain src h c ks n ps d s t where
    l: "load_list (load_function big check depth src) n s = Inr (ps, t)" and
    f: "f = Proto src h c ks ps d" "check f"
    by (auto simp: Let_def fail_if_def give_def elim!: and_then_elim split: if_splits)
  from l have "\<forall>f \<in> set ps. all_pass check f" by (rule load_list_all) (rule Suc.IH)
  then show ?case using f by simp
qed simp

section \<open>The depth suffices\<close>

definition shrinks :: "nat \<Rightarrow> 'a loader \<Rightarrow> bool" where
  "shrinks n p = (\<forall>s x t. p s = Inr (x, t) \<longrightarrow> length t + n \<le> length s)"

lemma shrinks_and_then: "shrinks n p \<Longrightarrow> (\<And>x. shrinks 0 (f x)) \<Longrightarrow> shrinks n (and_then p f)"
  unfolding shrinks_def by (fastforce elim!: and_then_elim)

lemma shrinks_block: "shrinks n (load_block n)"
  by (simp add: shrinks_def load_block_def)

lemma shrinks_less: "shrinks n p \<Longrightarrow> shrinks 0 p"
  by (fastforce simp: shrinks_def)

lemma shrinks_give: "shrinks 0 (give x)" "shrinks 0 (fail_if c why)"
  by (simp_all add: shrinks_def give_def fail_if_def)

lemma shrinks_list: "shrinks 0 p \<Longrightarrow> shrinks 0 (load_list p n)"
  by (induction n) (auto intro!: shrinks_and_then shrinks_give)

lemmas shrinks_all = shrinks_and_then shrinks_give shrinks_block [THEN shrinks_less] shrinks_list

lemma shrinks_string: "shrinks 8 (load_string big)"
  unfolding load_string_def Let_def by (rule shrinks_and_then [OF shrinks_block]) (auto intro!: shrinks_all)

lemma shrinks_parts:
  "shrinks 0 (load_int big)" "shrinks 0 load_char" "shrinks 0 (load_number big)" "shrinks 0 (load_code big)"
  unfolding load_int_def load_char_def load_number_def load_code_def Let_def by (auto intro!: shrinks_all)

lemma shrinks_constant: "shrinks 0 (load_constant big)"
  unfolding load_constant_def
  by (auto intro!: shrinks_and_then shrinks_parts shrinks_give shrinks_string [THEN shrinks_less])

lemma shrinks_head: "shrinks 0 (load_head big)"
  unfolding load_head_def load_byte_def by (intro shrinks_and_then shrinks_parts shrinks_give)

lemma shrinks_debug: "shrinks 0 (load_debug big)"
  unfolding load_debug_def load_locvar_def
  by (intro shrinks_and_then shrinks_parts shrinks_give shrinks_list shrinks_string [THEN shrinks_less] shrinks_block [THEN shrinks_less])

lemma shrinks_function: "shrinks 0 (load_function big check depth q)"
proof (induction depth arbitrary: q)
  case 0 then show ?case by (simp add: shrinks_def)
next
  case (Suc depth)
  then show ?case
    unfolding load_function.simps Let_def
    by (intro shrinks_and_then shrinks_parts shrinks_give shrinks_list shrinks_constant shrinks_head shrinks_debug
        shrinks_string [THEN shrinks_less])
qed

text \<open>Two loaders agree on the chunks of at most \<open>n\<close> bytes.\<close>

definition agree :: "nat \<Rightarrow> 'a loader \<Rightarrow> 'a loader \<Rightarrow> bool" where
  "agree n p p' = (\<forall>s. length s \<le> n \<longrightarrow> p s = p' s)"

lemma agree_same [simp]: "agree n p p"
  by (simp add: agree_def)

lemma agree_and_then:
  assumes "agree n p p'" and "shrinks m p" and "m \<le> n" and "\<And>x. agree (n - m) (f x) (f' x)"
  shows "agree n (and_then p f) (and_then p' f')"
  unfolding agree_def
proof (intro allI impI)
  fix s :: string
  assume s: "length s \<le> n"
  have p: "p s = p' s" using assms(1) s by (simp add: agree_def)
  show "and_then p f s = and_then p' f' s"
  proof (cases "p s")
    case (Inl why) then show ?thesis using p by (simp add: and_then_def)
  next
    case (Inr r)
    obtain x t where r: "r = (x, t)" by (cases r)
    have "length t \<le> n - m" using assms(2) Inr s r unfolding shrinks_def by force
    then have "f x t = f' x t" using assms(4) [of x] by (simp add: agree_def)
    then show ?thesis using p [symmetric] Inr r by (simp add: and_then_def)
  qed
qed

lemma agree_list: "agree n p p' \<Longrightarrow> shrinks 0 p \<Longrightarrow> agree n (load_list p k) (load_list p' k)"
  by (induction k) (auto intro!: agree_and_then [where m = 0] shrinks_list)

lemma short_string_refused: "length s < 8 \<Longrightarrow> and_then (load_string big) f s = Inl ''unexpected end''"
  by (simp add: and_then_def load_string_def load_block_def)

lemma depth_suffices:
  "length chunk \<le> n \<Longrightarrow> length chunk \<le> m \<Longrightarrow>
   load_function big check n q chunk = load_function big check m q chunk"
proof -
  have "\<forall>q. agree (min n m) (load_function big check n q) (load_function big check m q)"
  proof (induction n arbitrary: m)
    case 0 then show ?case by (cases m) (simp_all add: agree_def short_string_refused)
  next
    case (Suc n)
    show ?case
    proof (cases m)
      case 0 then show ?thesis by (simp add: agree_def short_string_refused)
    next
      case (Suc k)
      have step: "agree (min (Suc n) (Suc k)) (load_function big check (Suc n) q) (load_function big check (Suc k) q)" for q
      proof (cases "8 \<le> min (Suc n) (Suc k)")
        case False then show ?thesis by (auto simp: agree_def short_string_refused)
      next
        case True
        have i: "agree (min (Suc n) (Suc k) - 8) (load_function big check n r) (load_function big check k r)" for r
          using Suc.IH [of k] unfolding agree_def by (metis diff_le_self diff_Suc_Suc le_trans min_Suc_Suc numeral_eq_Suc)
        show ?thesis
          unfolding load_function.simps Let_def
          by (rule agree_and_then [OF agree_same shrinks_string True])
             (auto intro!: agree_and_then [where m = 0] agree_list i i [simplified] shrinks_parts shrinks_list
              shrinks_constant shrinks_head shrinks_function shrinks_debug shrinks_give)
      qed
      then show ?thesis using Suc by simp
    qed
  qed
  then show "length chunk \<le> n \<Longrightarrow> length chunk \<le> m \<Longrightarrow> ?thesis" by (simp add: agree_def)
qed

end
