(* ===== verification/LuaPosix.thy ===== *)
theory LuaPosix
  imports LuaApi ModeMuncher
begin

text \<open>
  The posix library for Lua (\<^verbatim>\<open>misc/luabash/posix/lposix.c\<close>): the functions that scripts call, over an operating
  system that is a record of parameters. The mode strings are in the theory \<open>ModeMuncher\<close>.
\<close>

section \<open>The operating system\<close>

text \<open>The calls that return a number, -1 for an error. Ids are -1 where the code passes \<open>(uid\_t) -1\<close>.\<close>

datatype syscall =
    Mkdir string mode_t | Chdir string | Rmdir string | Unlink string | Link string string | Symlink string string
  | Access string mode_t | Mkfifo string mode_t | Fork | Waitpid int | Kill int int | Sleep int | Putenv string
  | Setenv string string bool | Unsetenv string | Chmod string mode_t | Chown string int int | Utime string int int
  | Setuid int | Setgid int

record passwd =
  pw_name :: string
  pw_uid :: int
  pw_gid :: int
  pw_dir :: string
  pw_shell :: string
  pw_gecos :: string
  pw_passwd :: string

record group_entry =
  gr_name :: string
  gr_gid :: int
  gr_mem :: "string list"

record file_status =
  st_mode :: mode_t
  st_ino :: int
  st_dev :: int
  st_nlink :: int
  st_uid :: int
  st_gid :: int
  st_size :: int
  st_atime :: int
  st_mtime :: int
  st_ctime :: int

text \<open>The limits that can be asked for.\<close>

datatype pathconf_name =
    PC_LINK_MAX | PC_MAX_CANON | PC_MAX_INPUT | PC_NAME_MAX | PC_PATH_MAX | PC_PIPE_BUF | PC_CHOWN_RESTRICTED
  | PC_NO_TRUNC | PC_VDISABLE

datatype sysconf_name =
    SC_ARG_MAX | SC_CHILD_MAX | SC_CLK_TCK | SC_NGROUPS_MAX | SC_STREAM_MAX | SC_TZNAME_MAX | SC_OPEN_MAX
  | SC_JOB_CONTROL | SC_SAVED_IDS | SC_VERSION

record utsname =
  sysname :: string
  nodename :: string
  release :: string
  version :: string
  machine :: string

text \<open>What \<open>times\<close> gives: the fields of \<open>struct tms\<close> and the elapsed time, in clock ticks.\<close>

record mytimes =
  tms_utime :: int
  tms_stime :: int
  tms_cutime :: int
  tms_cstime :: int
  elapsed :: int

text \<open>
  Everything depends on a state \<open>'s\<close>; what changes it returns it. \<open>execvp\<close> gives \<open>None\<close> if it does not return.
  \<open>beyond\<close> is what lies in memory behind an argument.
\<close>

record 's posix =
  conv :: lua
  beyond :: string
  sys :: "syscall \<Rightarrow> 's \<Rightarrow> int \<times> 's"
  errno :: "'s \<Rightarrow> int"
  strerror :: "int \<Rightarrow> string"
  execvp :: "string \<Rightarrow> string list \<Rightarrow> 's \<Rightarrow> 's option"
  set_umask :: "mode_t \<Rightarrow> 's \<Rightarrow> mode_t \<times> 's"
  stat_file :: "string \<Rightarrow> 's \<Rightarrow> file_status option \<times> 's"
  lstat_file :: "string \<Rightarrow> 's \<Rightarrow> file_status option \<times> 's"
  opendir :: "string \<Rightarrow> 's \<Rightarrow> string list option \<times> 's"
  glob_paths :: "string \<Rightarrow> 's \<Rightarrow> string list option \<times> 's"
  getcwd :: "nat \<Rightarrow> 's \<Rightarrow> string option \<times> 's"
  readlink :: "string \<Rightarrow> 's \<Rightarrow> string option \<times> 's"
  environment :: "'s \<Rightarrow> string list"
  getpwnam :: "string \<Rightarrow> 's \<Rightarrow> passwd option"
  getpwuid :: "int \<Rightarrow> 's \<Rightarrow> passwd option"
  getgrnam :: "string \<Rightarrow> 's \<Rightarrow> group_entry option"
  getgrgid :: "int \<Rightarrow> 's \<Rightarrow> group_entry option"
  getegid :: "'s \<Rightarrow> int"
  geteuid :: "'s \<Rightarrow> int"
  getgid :: "'s \<Rightarrow> int"
  getuid :: "'s \<Rightarrow> int"
  getpgrp :: "'s \<Rightarrow> int"
  getpid :: "'s \<Rightarrow> int"
  getppid :: "'s \<Rightarrow> int"
  ttyname :: "int \<Rightarrow> 's \<Rightarrow> string option"
  ctermid :: "'s \<Rightarrow> string"
  getlogin :: "'s \<Rightarrow> string option"
  now :: "'s \<Rightarrow> int"
  process_times :: "'s \<Rightarrow> mytimes"
  uname :: "'s \<Rightarrow> utsname option"
  pathconf :: "string \<Rightarrow> pathconf_name \<Rightarrow> 's \<Rightarrow> int"
  sysconf :: "sysconf_name \<Rightarrow> 's \<Rightarrow> int"

text \<open>A call ends with a Lua error, with results, or with the process replaced by another program.\<close>

datatype outcome = Error string | Results "lua_value list" | Replaced string "string list"

section \<open>Results\<close>

definition filetype :: "mode_t \<Rightarrow> string" where
  "filetype m =
     (let t = m AND 0xF000
      in if t = 0x8000 then ''regular'' else if t = 0xA000 then ''link'' else if t = 0x4000 then ''directory''
         else if t = 0x2000 then ''character device'' else if t = 0x6000 then ''block device''
         else if t = 0x1000 then ''fifo'' else if t = 0xC000 then ''socket'' else ''?'')"

text \<open>With no selector all values in a table, else the selected one.\<close>

definition select_table :: "string list \<Rightarrow> (nat \<Rightarrow> lua_value) \<Rightarrow> lua_key \<Rightarrow> lua_value option" where
  "select_table S F = foldl (\<lambda>t i. settable (Name (S ! i)) (F i) t) no_table [0..<length S]"

fun checkoption :: "string list \<Rightarrow> string \<Rightarrow> nat option" where
  "checkoption [] name = None"
| "checkoption (s # S) name = (if s = name then Some 0 else map_option Suc (checkoption S name))"

definition doselection :: "lua \<Rightarrow> lua_value list \<Rightarrow> nat \<Rightarrow> string list \<Rightarrow> (nat \<Rightarrow> lua_value) \<Rightarrow> outcome" where
  "doselection L args i S F =
     (if arg args i = None then Results [Table (select_table S F)]
      else case checkstring L args i of
             None \<Rightarrow> Error ''string expected''
           | Some name \<Rightarrow>
               (case checkoption S name of None \<Rightarrow> Error ''invalid option'' | Some j \<Rightarrow> Results [F j]))"

text \<open>A table with the elements of a list under the numbers from 1 on.\<close>

definition index_table :: "string list \<Rightarrow> (lua_key \<Rightarrow> lua_value option) \<Rightarrow> lua_key \<Rightarrow> lua_value option" where
  "index_table xs t = foldl (\<lambda>t i. settable (Index (i + 1)) (Text (xs ! i)) t) t [0..<length xs]"

definition pusherror :: "'s posix \<Rightarrow> string option \<Rightarrow> 's \<Rightarrow> outcome" where
  "pusherror P info s =
     (let m = strerror P (errno P s)
      in Results [Nil, Text (case info of None \<Rightarrow> m | Some i \<Rightarrow> i @ '': '' @ m), Number (of_int (errno P s))])"

definition pushresult :: "'s posix \<Rightarrow> int \<Rightarrow> string option \<Rightarrow> 's \<Rightarrow> outcome" where
  "pushresult P i info s = (if i \<noteq> -1 then Results [Number (of_int i)] else pusherror P info s)"

text \<open>Making a call and giving back its result.\<close>

definition call_result :: "'s posix \<Rightarrow> syscall \<Rightarrow> string option \<Rightarrow> 's \<Rightarrow> outcome \<times> 's" where
  "call_result P c info s = (let (r, s') = sys P c s in (pushresult P r info s', s'))"

text \<open>A user or group by number or name; -1 if it was not given or is not known, \<open>None\<close> for a value of the wrong type.\<close>

definition mygetuid :: "'s posix \<Rightarrow> lua_value list \<Rightarrow> nat \<Rightarrow> 's \<Rightarrow> int option" where
  "mygetuid P args i s =
     (case arg args i of
        None \<Rightarrow> Some (-1)
      | Some v \<Rightarrow>
          (case tonumber (conv P) v of
             Some n \<Rightarrow> Some (truncate_number n)
           | None \<Rightarrow>
               (case tostring (conv P) v of
                  Some name \<Rightarrow> Some (case getpwnam P name s of None \<Rightarrow> -1 | Some p \<Rightarrow> pw_uid p)
                | None \<Rightarrow> None)))"

definition mygetgid :: "'s posix \<Rightarrow> lua_value list \<Rightarrow> nat \<Rightarrow> 's \<Rightarrow> int option" where
  "mygetgid P args i s =
     (case arg args i of
        None \<Rightarrow> Some (-1)
      | Some v \<Rightarrow>
          (case tonumber (conv P) v of
             Some n \<Rightarrow> Some (truncate_number n)
           | None \<Rightarrow>
               (case tostring (conv P) v of
                  Some name \<Rightarrow> Some (case getgrnam P name s of None \<Rightarrow> -1 | Some g \<Rightarrow> gr_gid g)
                | None \<Rightarrow> None)))"

text \<open>Arguments that must be strings or numbers; an error otherwise.\<close>

definition with_string :: "string option \<Rightarrow> 's \<Rightarrow> (string \<Rightarrow> outcome \<times> 's) \<Rightarrow> outcome \<times> 's" where
  "with_string a s f = (case a of None \<Rightarrow> (Error ''string expected'', s) | Some x \<Rightarrow> f x)"

definition with_int :: "int option \<Rightarrow> 's \<Rightarrow> (int \<Rightarrow> outcome \<times> 's) \<Rightarrow> outcome \<times> 's" where
  "with_int a s f = (case a of None \<Rightarrow> (Error ''number expected'', s) | Some x \<Rightarrow> f x)"

section \<open>Files and directories\<close>

type_synonym 's lua_function = "'s posix \<Rightarrow> lua_value list \<Rightarrow> 's \<Rightarrow> outcome \<times> 's"

definition Perrno :: "'s lua_function" where
  "Perrno P args s = (Results [Text (strerror P (errno P s)), Number (of_int (errno P s))], s)"

definition Pdir :: "'s lua_function" where
  "Pdir P args s = with_string (optstring (conv P) args 0 ''.'') s (\<lambda>path.
     case opendir P path s of
       (None, s') \<Rightarrow> (pusherror P (Some path) s', s')
     | (Some entries, s') \<Rightarrow> (Results [Table (index_table entries no_table)], s'))"

definition Pglob :: "'s lua_function" where
  "Pglob P args s = with_string (optstring (conv P) args 0 ''.'') s (\<lambda>pattern.
     case glob_paths P pattern s of
       (None, s') \<Rightarrow> (pusherror P (Some pattern) s', s')
     | (Some paths, s') \<Rightarrow> (Results [Table (index_table paths no_table)], s'))"

text \<open>The iterator of \<open>files\<close> keeps the open directory, here the entries it has still to give.\<close>

definition Pfiles :: "'s posix \<Rightarrow> lua_value list \<Rightarrow> 's \<Rightarrow> outcome \<times> string list option \<times> 's" where
  "Pfiles P args s =
     (case optstring (conv P) args 0 ''.'' of
        None \<Rightarrow> (Error ''string expected'', None, s)
      | Some path \<Rightarrow>
          (case opendir P path s of
             (None, s') \<Rightarrow> (pusherror P (Some path) s', None, s')
           | (Some entries, s') \<Rightarrow> (Results [Function], Some entries, s')))"

definition aux_files :: "string list option \<Rightarrow> outcome \<times> string list option" where
  "aux_files d =
     (case d of
        None \<Rightarrow> (Error ''attempt to use closed dir'', None)
      | Some [] \<Rightarrow> (Results [Nil], None)
      | Some (e # es) \<Rightarrow> (Results [Text e], Some es))"

definition MYBUFSIZ :: nat where "MYBUFSIZ = 512"

definition Pgetcwd :: "'s lua_function" where
  "Pgetcwd P args s =
     (case getcwd P MYBUFSIZ s of
        (None, s') \<Rightarrow> (pusherror P (Some ''.'') s', s') | (Some buf, s') \<Rightarrow> (Results [Text buf], s'))"

definition Pmkdir :: "'s lua_function" where
  "Pmkdir P args s = with_string (checkstring (conv P) args 0) s (\<lambda>path. call_result P (Mkdir path 0x1FF) (Some path) s)"

definition Pchdir :: "'s lua_function" where
  "Pchdir P args s = with_string (checkstring (conv P) args 0) s (\<lambda>path. call_result P (Chdir path) (Some path) s)"

definition Prmdir :: "'s lua_function" where
  "Prmdir P args s = with_string (checkstring (conv P) args 0) s (\<lambda>path. call_result P (Rmdir path) (Some path) s)"

definition Punlink :: "'s lua_function" where
  "Punlink P args s = with_string (checkstring (conv P) args 0) s (\<lambda>path. call_result P (Unlink path) (Some path) s)"

definition Plink :: "'s lua_function" where
  "Plink P args s = with_string (checkstring (conv P) args 0) s (\<lambda>oldpath.
     with_string (checkstring (conv P) args 1) s (\<lambda>newpath. call_result P (Link oldpath newpath) None s))"

definition Psymlink :: "'s lua_function" where
  "Psymlink P args s = with_string (checkstring (conv P) args 0) s (\<lambda>oldpath.
     with_string (checkstring (conv P) args 1) s (\<lambda>newpath. call_result P (Symlink oldpath newpath) None s))"

text \<open>A link target that does not fit the buffer is cut.\<close>

definition Preadlink :: "'s lua_function" where
  "Preadlink P args s = with_string (checkstring (conv P) args 0) s (\<lambda>path.
     case readlink P path s of
       (None, s') \<Rightarrow> (pusherror P (Some path) s', s') | (Some l, s') \<Rightarrow> (Results [Text (take MYBUFSIZ l)], s'))"

definition R_OK :: mode_t where "R_OK = 4"
definition W_OK :: mode_t where "W_OK = 2"
definition X_OK :: mode_t where "X_OK = 1"
definition F_OK :: mode_t where "F_OK = 0"

fun access_mode :: "mode_t \<Rightarrow> string \<Rightarrow> mode_t option" where
  "access_mode mode [] = Some mode"
| "access_mode mode (c # cs) =
     (if c = CHR '' '' then access_mode mode cs
      else if c = CHR ''r'' then access_mode (mode OR R_OK) cs
      else if c = CHR ''w'' then access_mode (mode OR W_OK) cs
      else if c = CHR ''x'' then access_mode (mode OR X_OK) cs
      else if c = CHR ''f'' then access_mode (mode OR F_OK) cs
      else None)"

definition Paccess :: "'s lua_function" where
  "Paccess P args s = with_string (checkstring (conv P) args 0) s (\<lambda>path.
     with_string (optstring (conv P) args 1 ''f'') s (\<lambda>m.
       case access_mode F_OK m of
         None \<Rightarrow> (Error ''unknown mode option'', s)
       | Some mode \<Rightarrow> call_result P (Access path mode) (Some path) s))"

definition Pmkfifo :: "'s lua_function" where
  "Pmkfifo P args s = with_string (checkstring (conv P) args 0) s (\<lambda>path. call_result P (Mkfifo path 0x1FF) (Some path) s)"

section \<open>Processes and the environment\<close>

text \<open>The argument vector has a slot for every argument and one for the null pointer.\<close>

fun exec_args :: "lua \<Rightarrow> lua_value list \<Rightarrow> string list option" where
  "exec_args L [] = Some []"
| "exec_args L (v # vs) =
     (case tostring L v of None \<Rightarrow> None | Some a \<Rightarrow> map_option ((#) a) (exec_args L vs))"

definition Pexec :: "'s lua_function" where
  "Pexec P args s = with_string (checkstring (conv P) args 0) s (\<lambda>path.
     case exec_args (conv P) (tl args) of
       None \<Rightarrow> (Error ''string expected'', s)
     | Some as \<Rightarrow>
         (case execvp P path (path # as) s of
            None \<Rightarrow> (Replaced path (path # as), s) | Some s' \<Rightarrow> (pusherror P (Some path) s', s')))"

definition Pfork :: "'s lua_function" where
  "Pfork P args s = call_result P Fork None s"

definition Pwait :: "'s lua_function" where
  "Pwait P args s = with_int (optint (conv P) args 0 (-1)) s (\<lambda>pid. call_result P (Waitpid pid) None s)"

definition Pkill :: "'s lua_function" where
  "Pkill P args s = with_int (checkint (conv P) args 0) s (\<lambda>pid.
     with_int (optint (conv P) args 1 15) s (\<lambda>sig. call_result P (Kill pid sig) None s))"

definition Psleep :: "'s lua_function" where
  "Psleep P args s = with_int (checkint (conv P) args 0) s (\<lambda>seconds.
     let (r, s') = sys P (Sleep (seconds mod 2 ^ 32)) s in (Results [Number (of_int r)], s'))"

definition Pputenv :: "'s lua_function" where
  "Pputenv P args s = with_string (checkstring (conv P) args 0) s (\<lambda>e. call_result P (Putenv e) (Some e) s)"

definition Psetenv :: "'s lua_function" where
  "Psetenv P args s = with_string (checkstring (conv P) args 0) s (\<lambda>name.
     with_string (checkstring (conv P) args 1) s (\<lambda>value.
       call_result P (Setenv name value (isnoneornil args 2 \<or> toboolean (arg args 2))) (Some name) s))"

definition Punsetenv :: "'s lua_function" where
  "Punsetenv P args s = with_string (checkstring (conv P) args 0) s (\<lambda>name.
     (Results [], snd (sys P (Unsetenv name) s)))"

text \<open>The function \<open>getenv\<close> of the C library: the first entry with the name.\<close>

definition c_getenv :: "string list \<Rightarrow> string \<Rightarrow> string option" where
  "c_getenv env name =
     (if name = [] then None
      else map_option (drop (length name + 1)) (find (prefix_of (name @ ''='')) env))"

definition env_entry :: "string \<Rightarrow> (lua_key \<Rightarrow> lua_value option) \<Rightarrow> lua_key \<Rightarrow> lua_value option" where
  "env_entry e t =
     (let name = takeWhile (\<lambda>c. c \<noteq> CHR ''='') e
      in if name = e then settable (Name e) (Boolean False) t
         else settable (Name name) (Text (drop (length name + 1) e)) t)"

definition Pgetenv :: "'s lua_function" where
  "Pgetenv P args s =
     (if arg args 0 = None then
        (Results [if environment P s = [] then Nil else Table (foldl (\<lambda>t e. env_entry e t) no_table (environment P s))], s)
      else with_string (checkstring (conv P) args 0) s (\<lambda>name.
             (Results [pushstring (c_getenv (environment P s) name)], s)))"

section \<open>Modes, ids and times\<close>

text \<open>Reading the mask means setting it to zero for a moment.\<close>

definition Pumask :: "'s lua_function" where
  "Pumask P args s =
     (let (old, s1) = set_umask P 0 s; s2 = snd (set_umask P old s1); mode = NOT old AND 0x1FF
      in if arg args 0 = None then (Results [Text (modechopper mode)], s2)
         else with_string (checkstring (conv P) args 0) s2 (\<lambda>str.
                let (r, m) = mode_munch (beyond P) mode str
                in if r \<noteq> 0 then (Results [Nil], s2)
                   else (Results [Text (modechopper (m AND 0x1FF))], snd (set_umask P (NOT (m AND 0x1FF)) s2))))"

definition Pchmod :: "'s lua_function" where
  "Pchmod P args s = with_string (checkstring (conv P) args 0) s (\<lambda>path.
     with_string (checkstring (conv P) args 1) s (\<lambda>modestr.
       case stat_file P path s of
         (None, s') \<Rightarrow> (pusherror P (Some path) s', s')
       | (Some st, s') \<Rightarrow>
           let (r, mode) = mode_munch (beyond P) (st_mode st) modestr
           in if r \<noteq> 0 then (Error ''bad mode'', s') else call_result P (Chmod path mode) (Some path) s'))"

definition Pchown :: "'s lua_function" where
  "Pchown P args s = with_string (checkstring (conv P) args 0) s (\<lambda>path.
     with_int (mygetuid P args 1 s) s (\<lambda>uid.
       with_int (mygetgid P args 2 s) s (\<lambda>gid. call_result P (Chown path uid gid) (Some path) s)))"

definition Putime :: "'s lua_function" where
  "Putime P args s = with_string (checkstring (conv P) args 0) s (\<lambda>path.
     with_int (optint (conv P) args 1 (now P s)) s (\<lambda>mtime.
       with_int (optint (conv P) args 2 (now P s)) s (\<lambda>atime.
         call_result P (Utime path mtime atime) (Some path) s)))"

definition SgetID :: "string list" where
  "SgetID = [''egid'', ''euid'', ''gid'', ''uid'', ''pgrp'', ''pid'', ''ppid'']"

definition FgetID :: "'s posix \<Rightarrow> 's \<Rightarrow> nat \<Rightarrow> lua_value" where
  "FgetID P s i =
     Number (of_int ([getegid P s, geteuid P s, getgid P s, getuid P s, getpgrp P s, getpid P s, getppid P s] ! i))"

definition Pgetprocessid :: "'s lua_function" where
  "Pgetprocessid P args s = (doselection (conv P) args 0 SgetID (FgetID P s), s)"

definition Pttyname :: "'s lua_function" where
  "Pttyname P args s = with_int (optint (conv P) args 0 0) s (\<lambda>fd. (Results [pushstring (ttyname P fd s)], s))"

definition Pctermid :: "'s lua_function" where
  "Pctermid P args s = (Results [Text (ctermid P s)], s)"

definition Pgetlogin :: "'s lua_function" where
  "Pgetlogin P args s = (Results [pushstring (getlogin P s)], s)"

definition Sgetpasswd :: "string list" where
  "Sgetpasswd = [''name'', ''uid'', ''gid'', ''dir'', ''shell'', ''gecos'', ''passwd'']"

definition Fgetpasswd :: "passwd \<Rightarrow> nat \<Rightarrow> lua_value" where
  "Fgetpasswd p i =
     [Text (pw_name p), Number (of_int (pw_uid p)), Number (of_int (pw_gid p)), Text (pw_dir p), Text (pw_shell p),
      Text (pw_gecos p), Text (pw_passwd p)] ! i"

definition Pgetpasswd :: "'s lua_function" where
  "Pgetpasswd P args s =
     (let p = (if isnoneornil args 0 then Some (getpwuid P (geteuid P s) s)
               else case tonumber (conv P) (args ! 0) of
                      Some n \<Rightarrow> Some (getpwuid P (truncate_number n) s)
                    | None \<Rightarrow> map_option (\<lambda>name. getpwnam P name s) (tostring (conv P) (args ! 0)))
      in (case p of
            None \<Rightarrow> Error ''string or number expected''
          | Some None \<Rightarrow> Results [Nil]
          | Some (Some pw) \<Rightarrow> doselection (conv P) args 1 Sgetpasswd (Fgetpasswd pw), s))"

definition Pgetgroup :: "'s lua_function" where
  "Pgetgroup P args s =
     (let g = (case arg args 0 of
                 None \<Rightarrow> None
               | Some v \<Rightarrow>
                   (case tonumber (conv P) v of
                      Some n \<Rightarrow> Some (getgrgid P (truncate_number n) s)
                    | None \<Rightarrow> map_option (\<lambda>name. getgrnam P name s) (tostring (conv P) v)))
      in (case g of
            None \<Rightarrow> Error ''string or number expected''
          | Some None \<Rightarrow> Results [Nil]
          | Some (Some gr) \<Rightarrow>
              Results [Table (index_table (gr_mem gr)
                (settable (Name ''gid'') (Number (of_int (gr_gid gr))) (settable (Name ''name'') (Text (gr_name gr)) no_table)))], s))"

definition Psetuid :: "'s lua_function" where
  "Psetuid P args s = with_int (mygetuid P args 0 s) s (\<lambda>uid. call_result P (Setuid uid) None s)"

definition Psetgid :: "'s lua_function" where
  "Psetgid P args s = with_int (mygetgid P args 0 s) s (\<lambda>gid. call_result P (Setgid gid) None s)"

definition Stimes :: "string list" where
  "Stimes = [''utime'', ''stime'', ''cutime'', ''cstime'', ''elapsed'']"

definition Ftimes :: "'s posix \<Rightarrow> 's \<Rightarrow> nat \<Rightarrow> lua_value" where
  "Ftimes P s i =
     (let t = process_times P s
      in Number (of_int ([tms_utime t, tms_stime t, tms_cutime t, tms_cstime t, elapsed t] ! i) / of_int (sysconf P SC_CLK_TCK s)))"

definition Ptimes :: "'s lua_function" where
  "Ptimes P args s = (doselection (conv P) args 0 Stimes (Ftimes P s), s)"

definition Sstat :: "string list" where
  "Sstat = [''mode'', ''ino'', ''dev'', ''nlink'', ''uid'', ''gid'', ''size'', ''atime'', ''mtime'', ''ctime'', ''type'', ''_mode'']"

definition Fstat :: "file_status \<Rightarrow> nat \<Rightarrow> lua_value" where
  "Fstat st i =
     [Text (modechopper (st_mode st)), Number (of_int (st_ino st)), Number (of_int (st_dev st)), Number (of_int (st_nlink st)),
      Number (of_int (st_uid st)), Number (of_int (st_gid st)), Number (of_int (st_size st)), Number (of_int (st_atime st)),
      Number (of_int (st_mtime st)), Number (of_int (st_ctime st)), Text (filetype (st_mode st)),
      Number (of_int (uint (st_mode st)))] ! i"

definition Pstat :: "'s lua_function" where
  "Pstat P args s = with_string (checkstring (conv P) args 0) s (\<lambda>path.
     case lstat_file P path s of
       (None, s') \<Rightarrow> (pusherror P (Some path) s', s')
     | (Some st, s') \<Rightarrow> (doselection (conv P) args 1 Sstat (Fstat st), s'))"

fun uname_format :: "utsname \<Rightarrow> string \<Rightarrow> string option" where
  "uname_format u [] = Some []"
| "uname_format u [c] = (if c \<noteq> CHR ''%'' then Some [c] else None)"
| "uname_format u (c # d # cs) =
     (if c \<noteq> CHR ''%'' then map_option ((#) c) (uname_format u (d # cs))
      else if d = CHR ''%'' then map_option ((#) d) (uname_format u cs)
      else if d = CHR ''m'' then map_option ((@) (machine u)) (uname_format u cs)
      else if d = CHR ''n'' then map_option ((@) (nodename u)) (uname_format u cs)
      else if d = CHR ''r'' then map_option ((@) (release u)) (uname_format u cs)
      else if d = CHR ''s'' then map_option ((@) (sysname u)) (uname_format u cs)
      else if d = CHR ''v'' then map_option ((@) (version u)) (uname_format u cs)
      else None)"

definition Puname :: "'s lua_function" where
  "Puname P args s =
     (case uname P s of
        None \<Rightarrow> (pusherror P None s, s)
      | Some u \<Rightarrow> with_string (optstring (conv P) args 0 ''%s %n %r %v %m'') s (\<lambda>fmt.
          (case uname_format u fmt of None \<Rightarrow> Error ''unknown format option'' | Some t \<Rightarrow> Results [Text t], s)))"

definition Kpathconf :: "pathconf_name list" where
  "Kpathconf =
     [PC_LINK_MAX, PC_MAX_CANON, PC_MAX_INPUT, PC_NAME_MAX, PC_PATH_MAX, PC_PIPE_BUF, PC_CHOWN_RESTRICTED, PC_NO_TRUNC,
      PC_VDISABLE]"

definition Spathconf :: "string list" where
  "Spathconf =
     [''link_max'', ''max_canon'', ''max_input'', ''name_max'', ''path_max'', ''pipe_buf'', ''chown_restricted'', ''no_trunc'',
      ''vdisable'']"

definition Fpathconf :: "'s posix \<Rightarrow> string \<Rightarrow> 's \<Rightarrow> nat \<Rightarrow> lua_value" where
  "Fpathconf P path s i = Number (of_int (pathconf P path (Kpathconf ! i) s))"

definition Ppathconf :: "'s lua_function" where
  "Ppathconf P args s = with_string (checkstring (conv P) args 0) s (\<lambda>path.
     (doselection (conv P) args 1 Spathconf (Fpathconf P path s), s))"

definition Ksysconf :: "sysconf_name list" where
  "Ksysconf =
     [SC_ARG_MAX, SC_CHILD_MAX, SC_CLK_TCK, SC_NGROUPS_MAX, SC_STREAM_MAX, SC_TZNAME_MAX, SC_OPEN_MAX, SC_JOB_CONTROL,
      SC_SAVED_IDS, SC_VERSION]"

definition Ssysconf :: "string list" where
  "Ssysconf =
     [''arg_max'', ''child_max'', ''clk_tck'', ''ngroups_max'', ''stream_max'', ''tzname_max'', ''open_max'', ''job_control'',
      ''saved_ids'', ''version'']"

definition Fsysconf :: "'s posix \<Rightarrow> 's \<Rightarrow> nat \<Rightarrow> lua_value" where
  "Fsysconf P s i = Number (of_int (sysconf P (Ksysconf ! i) s))"

definition Psysconf :: "'s lua_function" where
  "Psysconf P args s = (doselection (conv P) args 0 Ssysconf (Fsysconf P s), s)"

section \<open>The module\<close>

text \<open>The functions of the module, but for \<open>files\<close>, whose result is an iterator with a state of its own.\<close>

definition posix_functions :: "(string \<times> 's lua_function) list" where
  "posix_functions =
     [(''access'', Paccess), (''chdir'', Pchdir), (''chmod'', Pchmod), (''chown'', Pchown), (''ctermid'', Pctermid),
      (''dir'', Pdir), (''errno'', Perrno), (''exec'', Pexec), (''fork'', Pfork), (''getcwd'', Pgetcwd), (''getenv'', Pgetenv),
      (''getgroup'', Pgetgroup), (''getlogin'', Pgetlogin), (''getpasswd'', Pgetpasswd), (''getprocessid'', Pgetprocessid),
      (''glob'', Pglob), (''kill'', Pkill), (''link'', Plink), (''mkdir'', Pmkdir), (''mkfifo'', Pmkfifo),
      (''pathconf'', Ppathconf), (''putenv'', Pputenv), (''readlink'', Preadlink), (''rmdir'', Prmdir), (''setgid'', Psetgid),
      (''setuid'', Psetuid), (''sleep'', Psleep), (''stat'', Pstat), (''symlink'', Psymlink), (''sysconf'', Psysconf),
      (''times'', Ptimes), (''ttyname'', Pttyname), (''umask'', Pumask), (''uname'', Puname), (''unlink'', Punlink),
      (''utime'', Putime), (''wait'', Pwait), (''setenv'', Psetenv), (''unsetenv'', Punsetenv)]"

section \<open>Selectors\<close>

text \<open>The functions with a selector share a contract: the names of the selectors are distinct.\<close>

locale selection =
  fixes names :: "string list"
  assumes distinct_names: "distinct names"
begin

lemma table_part:
  "n \<le> length names \<Longrightarrow> k < n \<Longrightarrow>
     field (Table (foldl (\<lambda>t i. settable (Name (names ! i)) (F i) t) no_table [0..<n])) (Name (names ! k)) = F k"
proof (induction n)
  case 0
  then show ?case by simp
next
  case (Suc n)
  with distinct_names show ?case by (auto simp: nth_eq_iff_index_eq)
qed

lemma table_field: "k < length names \<Longrightarrow> field (Table (select_table names F)) (Name (names ! k)) = F k"
  by (simp add: select_table_def table_part)

lemma table_other: "name \<notin> set names \<Longrightarrow> field (Table (select_table names F)) (Name name) = Nil"
proof -
  assume other: "name \<notin> set names"
  have "n \<le> length names \<Longrightarrow> field (Table (foldl (\<lambda>t i. settable (Name (names ! i)) (F i) t) no_table [0..<n])) (Name name) = Nil" for n
  proof (induction n)
    case (Suc n)
    then have "names ! n \<noteq> name" using other by (metis Suc_le_lessD nth_mem)
    with Suc show ?case by simp
  qed simp
  then show ?thesis by (simp add: select_table_def)
qed

lemma option_at: "k < length names \<Longrightarrow> checkoption names (names ! k) = Some k"
proof -
  have "k < length S \<Longrightarrow> distinct S \<Longrightarrow> checkoption S (S ! k) = Some k" for S
  proof (induction S arbitrary: k)
    case Nil
    then show ?case by simp
  next
    case (Cons a S)
    then show ?case by (cases k) (auto simp: in_set_conv_nth)
  qed
  then show "k < length names \<Longrightarrow> checkoption names (names ! k) = Some k" using distinct_names by blast
qed

lemma by_name: "arg args i = Some (Text (names ! k)) \<Longrightarrow> k < length names \<Longrightarrow> doselection L args i names F = Results [F k]"
  by (simp add: doselection_def checkstring_def option_at)

end

interpretation ids: selection SgetID by unfold_locales (simp add: SgetID_def)
interpretation accounts: selection Sgetpasswd by unfold_locales (simp add: Sgetpasswd_def)
interpretation times: selection Stimes by unfold_locales (simp add: Stimes_def)
interpretation statuses: selection Sstat by unfold_locales (simp add: Sstat_def)
interpretation pathlimits: selection Spathconf by unfold_locales (simp add: Spathconf_def)
interpretation limits: selection Ssysconf by unfold_locales (simp add: Ssysconf_def)

lemma unknown_option: "name \<notin> set S \<Longrightarrow> checkoption S name = None"
  by (induction S) auto

text \<open>
  What a function with a selector gives, as a list of names with their values: without a selector a table with exactly these
  entries, with a name its value, and an error for any other name.
\<close>

definition selects :: "(lua_value list \<Rightarrow> outcome) \<Rightarrow> lua_value list \<Rightarrow> (string \<times> lua_value) list \<Rightarrow> bool" where
  "selects f args values \<longleftrightarrow>
     (\<exists>t. f args = Results [Table t] \<and>
        (\<forall>name. field (Table t) (Name name) = (case map_of values name of None \<Rightarrow> Nil | Some v \<Rightarrow> v))) \<and>
     (\<forall>(name, v) \<in> set values. f (args @ [Text name]) = Results [v]) \<and>
     (\<forall>name. name \<notin> fst ` set values \<longrightarrow> (\<exists>m. f (args @ [Text name]) = Error m))"

lemma doselection_none: "arg args i = None \<Longrightarrow> doselection L args i names F = Results [Table (select_table names F)]"
  by (simp add: doselection_def)

lemma doselection_unknown: "arg args i = Some (Text name) \<Longrightarrow> name \<notin> set names \<Longrightarrow> \<exists>m. doselection L args i names F = Error m"
  by (simp add: doselection_def checkstring_def unknown_option)

text \<open>A selection over the names of an interface, with its values in the order of the names.\<close>

lemma selection_selects:
  assumes "selection names" "length values = length names" "map fst values = names"
    and "\<And>k. k < length names \<Longrightarrow> snd (values ! k) = F k"
    and "f args = Results [Table (select_table names F)]"
    and "\<And>name. f (args @ [Text name]) = doselection L (args @ [Text name]) (length args) names F"
  shows "selects f args values"
  unfolding selects_def
proof (intro conjI)
  have at: "arg (args @ [Text name]) (length args) = Some (Text name)" for name by (simp add: arg_def)
  have val: "values ! k = (names ! k, F k)" if "k < length names" for k
    using assms(2-4) that by (metis nth_map prod.collapse)
  have dist: "distinct (map fst values)" using assms(1,3) by (simp add: selection_def)
  have "field (Table (select_table names F)) (Name name) = (case map_of values name of None \<Rightarrow> Nil | Some v \<Rightarrow> v)" for name
  proof (cases "name \<in> set names")
    case True
    then obtain k where k: "k < length names" "names ! k = name" by (auto simp: in_set_conv_nth)
    then have "map_of values name = Some (F k)" using val dist assms(2) by (metis map_of_eq_Some_iff nth_mem)
    with k selection.table_field [OF assms(1) k(1), of F] show ?thesis by simp
  next
    case False
    then have "map_of values name = None" using assms(3) by (metis map_of_eq_None_iff set_map)
    with False selection.table_other [OF assms(1) False, of F] show ?thesis by simp
  qed
  with assms(5) show "\<exists>t. f args = Results [Table t] \<and>
      (\<forall>name. field (Table t) (Name name) = (case map_of values name of None \<Rightarrow> Nil | Some v \<Rightarrow> v))" by blast
  show "\<forall>(name, v) \<in> set values. f (args @ [Text name]) = Results [v]"
    using val assms(2) selection.by_name [OF assms(1) at] by (auto simp: in_set_conv_nth assms(6))
  show "\<forall>name. name \<notin> fst ` set values \<longrightarrow> (\<exists>m. f (args @ [Text name]) = Error m)"
    using doselection_unknown [OF at, where names = names and F = F and L = L] assms(3) by (metis assms(6) set_map)
qed

lemmas one_of_these = less_Suc_eq numeral_eq_Suc

text \<open>The kinds of files, by the bits of the mode that tell them.\<close>

definition file_kinds :: "(mode_t \<times> string) list" where
  "file_kinds =
     [(0x1000, ''fifo''), (0x2000, ''character device''), (0x4000, ''directory''), (0x6000, ''block device''), (0x8000, ''regular''),
      (0xA000, ''link''), (0xC000, ''socket'')]"

lemma filetype_kinds: "filetype m = (case map_of file_kinds (m AND 0xF000) of None \<Rightarrow> ''?'' | Some k \<Rightarrow> k)"
  by (simp add: filetype_def file_kinds_def Let_def)

text \<open>
  C33. The values that the functions with a selector (\<open>stat\<close>, \<open>getpasswd\<close>, \<open>getprocessid\<close>, \<open>times\<close>, \<open>pathconf\<close>, \<open>sysconf\<close>) give
  under each name: those of the status of the file, of the account, of the process, of its times in seconds and of the limits of
  the system that the name says. With a name the function gives the value, without one a table of all
  of them, and any other name is an error.
\<close>

theorem posix_selectors:
  assumes "lstat_file P path s = (Some st, s')" "getpwnam P user s = Some pw" "text_number (conv P) user = None"
  shows "selects (\<lambda>args. fst (Pstat P args s)) [Text path]
      [(''mode'', Text (modechopper (st_mode st))), (''ino'', Number (of_int (st_ino st))), (''dev'', Number (of_int (st_dev st))),
       (''nlink'', Number (of_int (st_nlink st))), (''uid'', Number (of_int (st_uid st))), (''gid'', Number (of_int (st_gid st))),
       (''size'', Number (of_int (st_size st))), (''atime'', Number (of_int (st_atime st))), (''mtime'', Number (of_int (st_mtime st))),
       (''ctime'', Number (of_int (st_ctime st))),
       (''type'', Text (case map_of file_kinds (st_mode st AND 0xF000) of None \<Rightarrow> ''?'' | Some k \<Rightarrow> k)),
       (''_mode'', Number (of_int (uint (st_mode st))))] \<and>
    selects (\<lambda>args. fst (Pgetpasswd P args s)) [Text user]
      [(''name'', Text (pw_name pw)), (''uid'', Number (of_int (pw_uid pw))), (''gid'', Number (of_int (pw_gid pw))),
       (''dir'', Text (pw_dir pw)), (''shell'', Text (pw_shell pw)), (''gecos'', Text (pw_gecos pw)), (''passwd'', Text (pw_passwd pw))] \<and>
    selects (\<lambda>args. fst (Pgetprocessid P args s)) []
      [(''egid'', Number (of_int (getegid P s))), (''euid'', Number (of_int (geteuid P s))), (''gid'', Number (of_int (getgid P s))),
       (''uid'', Number (of_int (getuid P s))), (''pgrp'', Number (of_int (getpgrp P s))), (''pid'', Number (of_int (getpid P s))),
       (''ppid'', Number (of_int (getppid P s)))] \<and>
    selects (\<lambda>args. fst (Ptimes P args s)) []
      (map (\<lambda>(name, t). (name, Number (of_int (t (process_times P s)) / of_int (sysconf P SC_CLK_TCK s))))
        [(''utime'', tms_utime), (''stime'', tms_stime), (''cutime'', tms_cutime), (''cstime'', tms_cstime), (''elapsed'', elapsed)]) \<and>
    selects (\<lambda>args. fst (Ppathconf P args s)) [Text path]
      (map (\<lambda>(name, l). (name, Number (of_int (pathconf P path l s))))
        [(''link_max'', PC_LINK_MAX), (''max_canon'', PC_MAX_CANON), (''max_input'', PC_MAX_INPUT), (''name_max'', PC_NAME_MAX),
         (''path_max'', PC_PATH_MAX), (''pipe_buf'', PC_PIPE_BUF), (''chown_restricted'', PC_CHOWN_RESTRICTED),
         (''no_trunc'', PC_NO_TRUNC), (''vdisable'', PC_VDISABLE)]) \<and>
    selects (\<lambda>args. fst (Psysconf P args s)) []
      (map (\<lambda>(name, l). (name, Number (of_int (sysconf P l s))))
        [(''arg_max'', SC_ARG_MAX), (''child_max'', SC_CHILD_MAX), (''clk_tck'', SC_CLK_TCK), (''ngroups_max'', SC_NGROUPS_MAX),
         (''stream_max'', SC_STREAM_MAX), (''tzname_max'', SC_TZNAME_MAX), (''open_max'', SC_OPEN_MAX),
         (''job_control'', SC_JOB_CONTROL), (''saved_ids'', SC_SAVED_IDS), (''version'', SC_VERSION)])"
    (is "?stat \<and> ?passwd \<and> ?ids \<and> ?times \<and> ?path \<and> ?sys")
proof (intro conjI)
  show ?stat
    by (rule selection_selects [OF statuses.selection_axioms, where F = "Fstat st" and L = "conv P"])
      (auto simp: Pstat_def with_string_def assms(1) doselection_none Sstat_def Fstat_def one_of_these filetype_kinds)
  show ?passwd
    by (rule selection_selects [OF accounts.selection_axioms, where F = "Fgetpasswd pw" and L = "conv P"])
      (auto simp: Pgetpasswd_def isnoneornil_def tonumber_def assms(2,3) doselection_none Sgetpasswd_def Fgetpasswd_def one_of_these)
  show ?ids
    by (rule selection_selects [OF ids.selection_axioms, where F = "FgetID P s" and L = "conv P"])
      (auto simp: Pgetprocessid_def doselection_none SgetID_def FgetID_def one_of_these)
  show ?times
    by (rule selection_selects [OF times.selection_axioms, where F = "Ftimes P s" and L = "conv P"])
      (auto simp: Ptimes_def doselection_none Stimes_def Ftimes_def one_of_these)
  show ?path
    by (rule selection_selects [OF pathlimits.selection_axioms, where F = "Fpathconf P path s" and L = "conv P"])
      (auto simp: Ppathconf_def with_string_def doselection_none Spathconf_def Kpathconf_def Fpathconf_def one_of_these)
  show ?sys
    by (rule selection_selects [OF limits.selection_axioms, where F = "Fsysconf P s" and L = "conv P"])
      (auto simp: Psysconf_def doselection_none Ssysconf_def Ksysconf_def Fsysconf_def one_of_these)
qed

section \<open>Copying modes\<close>

text \<open>
  C34. What \<open>stat\<close> says of the mode of one file can be given to \<open>chmod\<close> for another: if a set-id bit of the first file
  comes with the right to execute, the request is to give the second file the permissions and the set-id
  bits of the first, and to leave all its other bits.
\<close>

theorem chmod_copies_mode:
  assumes "lstat_file P source s = (Some st1, s1)" "stat_file P target s1 = (Some st2, s2)"
    and "bit (st_mode st1) 11 \<longrightarrow> bit (st_mode st1) 6" "bit (st_mode st1) 10 \<longrightarrow> bit (st_mode st1) 3"
  shows "\<exists>m. Pstat P [Text source, Text ''mode''] s = (Results [Text m], s1) \<and>
    Pchmod P [Text target, Text m] s1 =
      call_result P (Chmod target ((st_mode st2 AND NOT 0xDFF) OR (st_mode st1 AND 0xDFF))) (Some target) s2"
proof (intro exI conjI)
  let ?m = "modechopper (st_mode st1)"
  have "doselection (conv P) [Text source, Text (Sstat ! 0)] 1 Sstat (Fstat st1) = Results [Fstat st1 0]"
    by (rule statuses.by_name) (simp_all add: Sstat_def)
  then show "Pstat P [Text source, Text ''mode''] s = (Results [Text ?m], s1)"
    by (simp add: Pstat_def with_string_def assms(1) Sstat_def Fstat_def)
  show "Pchmod P [Text target, Text ?m] s1 =
      call_result P (Chmod target ((st_mode st2 AND NOT 0xDFF) OR (st_mode st1 AND 0xDFF))) (Some target) s2"
    by (simp add: Pchmod_def with_string_def assms(2) munch_chopped [OF assms(3,4)])
qed

section \<open>The mask\<close>

text \<open>What the system promises of \<open>umask\<close>: it gives the old mask, and the new one has the permission bits of the argument.\<close>

definition keeps_mask :: "'s posix \<Rightarrow> ('s \<Rightarrow> mode_t) \<Rightarrow> bool" where
  "keeps_mask P cur \<longleftrightarrow>
     (\<forall>m s. fst (set_umask P m s) = cur s \<and> cur (snd (set_umask P m s)) = m AND 0x1FF)"

lemma mask_read:
  assumes "keeps_mask P cur" "cur s AND 0x1FF = cur s"
  shows "set_umask P 0 s = (cur s, snd (set_umask P 0 s))"
    and "cur (snd (set_umask P (cur s) (snd (set_umask P 0 s)))) = cur s"
  using assms by (auto simp: keeps_mask_def prod_eq_iff)

lemma permission_bits: "bit (0x1FF :: mode_t) n \<longleftrightarrow> n < 9"
proof -
  have "(0x1FF :: mode_t) = mask 9" by (simp add: mask_eq_exp_minus_1)
  then show ?thesis by (simp only: bit_mask_iff) (auto simp: possible_bit_word)
qed

lemma munch_permissions:
  assumes "m AND 0x1FF = m"
  shows "\<exists>c. mode_munch b base (modechopper m) = (0, c) \<and> c AND 0x1FF = m"
proof -
  have bits: "bit m n \<Longrightarrow> n < 9" for n
    using assms by (metis bit_and_iff permission_bits)
  then have "bit m 11 \<longrightarrow> bit m 6" "bit m 10 \<longrightarrow> bit m 3" by force+
  from munch_chopped [OF this, of b base]
  have "mode_munch b base (modechopper m) = (0, (base AND NOT 0xDFF) OR (m AND 0xDFF))" .
  moreover have "((base AND NOT 0xDFF) OR (m AND 0xDFF)) AND 0x1FF = m"
    by (rule bit_eqI) (auto simp only: bit_or_iff bit_and_iff bit_not_iff all_mode_bits permission_bits possible_bit_word dest: bits)
  ultimately show ?thesis by blast
qed

text \<open>
  C35. \<open>umask\<close> without an argument leaves the mask as it is and gives a text which, given to \<open>umask\<close> at any later time,
  restores the mask and is given back.
\<close>

theorem umask_restores:
  assumes "keeps_mask P cur" "cur s AND 0x1FF = cur s"
  shows "\<exists>t. fst (Pumask P [] s) = Results [Text t] \<and> cur (snd (Pumask P [] s)) = cur s \<and>
    fst (Pumask P [Text t] s') = Results [Text t] \<and> cur (snd (Pumask P [Text t] s')) = cur s"
proof (intro exI conjI)
  let ?m = "NOT (cur s) AND 0x1FF"
  have m: "?m AND 0x1FF = ?m" by (simp add: and.assoc)
  have old: "set_umask P 0 s = (cur s, snd (set_umask P 0 s))" for s
    using assms(1) by (simp add: keeps_mask_def prod_eq_iff)
  show "fst (Pumask P [] s) = Results [Text (modechopper ?m)]"
    unfolding Pumask_def by (subst old) simp
  show "cur (snd (Pumask P [] s)) = cur s"
    unfolding Pumask_def by (subst old) (simp add: mask_read(2) [OF assms])
  define s2 where "s2 = snd (set_umask P (cur s') (snd (set_umask P 0 s')))"
  from munch_permissions [OF m, of "beyond P" "NOT (cur s') AND 0x1FF"] obtain c where
    c: "mode_munch (beyond P) (NOT (cur s') AND 0x1FF) (modechopper ?m) = (0, c)" "c AND 0x1FF = ?m" by blast
  have run: "Pumask P [Text (modechopper ?m)] s' = (Results [Text (modechopper ?m)], snd (set_umask P (NOT ?m) s2))"
    unfolding Pumask_def by (subst old) (simp add: with_string_def c s2_def del: bit.de_Morgan_conj)
  then show "fst (Pumask P [Text (modechopper ?m)] s') = Results [Text (modechopper ?m)]" by simp
  have "cur (snd (set_umask P (NOT ?m) s2)) = NOT ?m AND 0x1FF" using assms(1) by (simp add: keeps_mask_def)
  also have "\<dots> = cur s AND 0x1FF"
    by (rule bit_eqI) (auto simp: bit_simps)
  finally show "cur (snd (Pumask P [Text (modechopper ?m)] s')) = cur s" using assms(2) run by simp
qed


section \<open>The environment\<close>

text \<open>The entries of an environment: names, which are not empty, with their values.\<close>

definition entry :: "string \<times> string \<Rightarrow> string" where
  "entry p = fst p @ CHR ''='' # snd p"

definition proper_names :: "(string \<times> string) list \<Rightarrow> bool" where
  "proper_names vars \<longleftrightarrow> (\<forall>(n, v) \<in> set vars. n \<noteq> [] \<and> CHR ''='' \<notin> set n)"

lemma entry_name:
  assumes "CHR ''='' \<notin> set n"
  shows "takeWhile (\<lambda>c. c \<noteq> CHR ''='') (n @ CHR ''='' # v) = n"
  using assms by (subst takeWhile_append2) auto

lemma env_entry_entry: "CHR ''='' \<notin> set n \<Longrightarrow> env_entry (entry (n, v)) t = settable (Name n) (Text v) t"
  by (simp add: env_entry_def entry_def entry_name)

lemma prefix_entry:
  assumes "CHR ''='' \<notin> set n" "CHR ''='' \<notin> set name"
  shows "prefix_of (name @ ''='') (entry (n, v)) \<longleftrightarrow> n = name"
proof -
  have "n = name" if "n @ CHR ''='' # v = (name @ [CHR ''='']) @ r" for r
    using that entry_name [OF assms(1), of v] entry_name [OF assms(2), of r] by simp
  then show ?thesis by (auto simp: prefix_of_iff entry_def)
qed

text \<open>The first entry with a name decides what \<open>getenv\<close> gives, the last one what the table holds.\<close>

lemma c_getenv_entries:
  "proper_names vars \<Longrightarrow> name \<noteq> [] \<Longrightarrow> CHR ''='' \<notin> set name \<Longrightarrow>
     c_getenv (map entry vars) name = map_of vars name"
proof (induction vars)
  case Nil
  then show ?case by (simp add: c_getenv_def)
next
  case (Cons p vars)
  obtain n v where p: "p = (n, v)" by fastforce
  then have n: "CHR ''='' \<notin> set n" using Cons.prems by (simp add: proper_names_def)
  from Cons have IH: "c_getenv (map entry vars) name = map_of vars name" by (simp add: proper_names_def)
  show ?case
  proof (cases "n = name")
    case True
    then show ?thesis using Cons.prems(2) prefix_entry [OF n Cons.prems(3), of v]
      by (simp add: p c_getenv_def) (simp add: entry_def)
  next
    case False
    then show ?thesis using IH prefix_entry [OF n Cons.prems(3), of v] Cons.prems(2)
      by (simp add: p c_getenv_def)
  qed
qed

lemma env_table_entries:
  "proper_names vars \<Longrightarrow>
     field (Table (foldl (\<lambda>t e. env_entry e t) t (map entry vars))) (Name name) =
       (case map_of (rev vars) name of None \<Rightarrow> field (Table t) (Name name) | Some v \<Rightarrow> Text v)"
proof (induction vars arbitrary: t)
  case Nil
  then show ?case by simp
next
  case (Cons p vars)
  obtain n v where p: "p = (n, v)" by fastforce
  then have n: "CHR ''='' \<notin> set n" using Cons.prems by (simp add: proper_names_def)
  from Cons show ?case
    by (simp add: p env_entry_entry [OF n] proper_names_def map_add_def split: option.split)
qed

text \<open>
  The table of \<open>getenv\<close> holds for every name what \<open>getenv\<close> gives for this name, if no name occurs
  twice in the environment.
\<close>

theorem getenv_table:
  assumes "environment P s = map entry vars" "vars \<noteq> []" "proper_names vars" "distinct (map fst vars)"
    "name \<noteq> []" "CHR ''='' \<notin> set name"
  shows "\<exists>t. Pgetenv P [] s = (Results [Table t], s) \<and>
    Pgetenv P [Text name] s = (Results [field (Table t) (Name name)], s)"
proof (intro exI conjI)
  let ?t = "foldl (\<lambda>t e. env_entry e t) no_table (map entry vars)"
  show "Pgetenv P [] s = (Results [Table ?t], s)" using assms(1,2) by (simp add: Pgetenv_def)
  have "map_of (rev vars) name = map_of vars name"
    using assms(4) by (metis map_of_eqI map_of_eq_Some_iff distinct_rev rev_map set_rev dom_map_of_conv_image_fst set_map option.exhaust domIff)
  then have "field (Table ?t) (Name name) = pushstring (c_getenv (environment P s) name)"
    using env_table_entries [OF assms(3), of no_table name] c_getenv_entries [OF assms(3,5,6)] assms(1)
    by (simp add: pushstring_def split: option.split)
  then show "Pgetenv P [Text name] s = (Results [field (Table ?t) (Name name)], s)"
    by (simp add: Pgetenv_def with_string_def)
qed

section \<open>The form of the results\<close>

text \<open>
  Most functions give one value, or nil with a message and the error number that the system has after the call;
  or they end with a Lua error, or do not return.
\<close>

definition regular :: "'s posix \<Rightarrow> outcome \<times> 's \<Rightarrow> bool" where
  "regular P r \<longleftrightarrow>
     (case fst r of
        Results vs \<Rightarrow> (\<exists>v. vs = [v]) \<or> (\<exists>m. vs = [Nil, Text m, Number (of_int (errno P (snd r)))])
      | _ \<Rightarrow> True)"

lemma regular_simps [simp]:
  "regular P (Error m, s)" "regular P (Results [v], s)" "regular P (Replaced p as, s)"
  by (simp_all add: regular_def)

lemma regular_error [simp]: "regular P (pusherror P info s, s)"
  by (simp add: regular_def pusherror_def Let_def)

lemma regular_call [simp]: "regular P (call_result P c info s)"
  by (simp add: call_result_def pushresult_def case_prod_beta)

lemma regular_with [intro!]:
  "(\<And>x. regular P (f x)) \<Longrightarrow> regular P (with_string a s f)"
  "(\<And>x. regular P (g x)) \<Longrightarrow> regular P (with_int b s g)"
  by (simp_all add: with_string_def with_int_def split: option.split)

lemma regular_selection [simp]: "regular P (doselection L args i S F, s)"
  by (simp add: doselection_def split: option.split)

lemmas function_defs = Paccess_def Pchdir_def Pchmod_def Pchown_def Pctermid_def Pdir_def Pexec_def Pfork_def Pgetcwd_def
  Pgetenv_def Pgetgroup_def Pgetlogin_def Pgetpasswd_def Pgetprocessid_def Pglob_def Pkill_def Plink_def Pmkdir_def
  Pmkfifo_def Ppathconf_def Pputenv_def Preadlink_def Prmdir_def Psetgid_def Psetuid_def Psleep_def Pstat_def Psymlink_def
  Psysconf_def Ptimes_def Pttyname_def Pumask_def Puname_def Punlink_def Putime_def Pwait_def Psetenv_def

text \<open>
  Every function of \<open>posix\_functions\<close> but \<open>errno\<close> with its two results and \<open>unsetenv\<close> with none, whatever its
  arguments and whatever the system does, ends with a Lua error, does not return, or gives one value, or nil with a message and
  the current error number.
\<close>

theorem posix_results:
  assumes "(name, f) \<in> set posix_functions" "name \<noteq> ''errno''" "name \<noteq> ''unsetenv''"
  shows "regular P (f P args s)"
proof -
  from assms have "f \<in> {Paccess, Pchdir, Pchmod, Pchown, Pctermid, Pdir, Pexec, Pfork, Pgetcwd, Pgetenv, Pgetgroup, Pgetlogin,
      Pgetpasswd, Pgetprocessid, Pglob, Pkill, Plink, Pmkdir, Pmkfifo, Ppathconf, Pputenv, Preadlink, Prmdir, Psetgid, Psetuid,
      Psleep, Pstat, Psymlink, Psysconf, Ptimes, Pttyname, Pumask, Puname, Punlink, Putime, Pwait, Psetenv}"
    by (auto simp: posix_functions_def)
  then show ?thesis
    unfolding insert_iff empty_iff simp_thms
    by (elim disjE) (auto simp: function_defs Let_def split: option.split prod.split)
qed


section \<open>Unknown users and open directories\<close>

text \<open>A user that is not known is the id -1, which asks the system to leave the owner as it is.\<close>

lemma chown_unknown_user:
  assumes "getpwnam P user s = None" "text_number (conv P) user = None"
  shows "Pchown P [Text path, Text user] s = call_result P (Chown path (-1) (-1)) (Some path) s"
  using assms by (simp add: Pchown_def with_string_def with_int_def mygetuid_def mygetgid_def tonumber_def numeral_2_eq_2)

text \<open>The iterator gives the entries of the directory in order, then nil once, and then an error.\<close>

fun next_entries :: "nat \<Rightarrow> string list option \<Rightarrow> outcome list" where
  "next_entries 0 d = []"
| "next_entries (Suc n) d = fst (aux_files d) # next_entries n (snd (aux_files d))"

lemma next_entries_closed: "next_entries n None = replicate n (Error ''attempt to use closed dir'')"
  by (induction n) (simp_all add: aux_files_def)

lemma files_entries:
  "next_entries (length es + 1 + n) (Some es) =
     map (\<lambda>e. Results [Text e]) es @ Results [Nil] # replicate n (Error ''attempt to use closed dir'')"
  by (induction es) (simp_all add: aux_files_def next_entries_closed)

section \<open>Examples\<close>

text \<open>A system whose state is the mask, with one user and one file for each path.\<close>

definition demo_status :: "mode_t \<Rightarrow> file_status" where
  "demo_status m =
     \<lparr>st_mode = m, st_ino = 7, st_dev = 1, st_nlink = 1, st_uid = 10, st_gid = 20, st_size = 300, st_atime = 4, st_mtime = 5, st_ctime = 6\<rparr>"

definition demo_user :: passwd where
  "demo_user = \<lparr>pw_name = ''root'', pw_uid = 0, pw_gid = 0, pw_dir = ''/root'', pw_shell = ''/bin/sh'', pw_gecos = [], pw_passwd = ''x''\<rparr>"

definition demo_posix :: "mode_t posix" where
  "demo_posix =
     \<lparr>conv = \<lparr>number_text = (\<lambda>n. []), text_number = (\<lambda>s. None)\<rparr>, beyond = [], sys = (\<lambda>c s. (0, s)), errno = (\<lambda>s. 0),
      strerror = (\<lambda>e. []), execvp = (\<lambda>p as s. None), set_umask = (\<lambda>m s. (s AND 0x1FF, m AND 0x1FF)),
      stat_file = (\<lambda>p s. (Some (demo_status 0x81A4), s)), lstat_file = (\<lambda>p s. (Some (demo_status 0x89ED), s)),
      opendir = (\<lambda>p s. (None, s)), glob_paths = (\<lambda>p s. (None, s)), getcwd = (\<lambda>n s. (Some ''/'', s)), readlink = (\<lambda>p s. (None, s)),
      environment = (\<lambda>s. [''HOME=/root'', ''TERM=a=b'']), getpwnam = (\<lambda>n s. Some demo_user), getpwuid = (\<lambda>n s. None),
      getgrnam = (\<lambda>n s. None), getgrgid = (\<lambda>n s. None), getegid = (\<lambda>s. 0), geteuid = (\<lambda>s. 0), getgid = (\<lambda>s. 0),
      getuid = (\<lambda>s. 0), getpgrp = (\<lambda>s. 1), getpid = (\<lambda>s. 2), getppid = (\<lambda>s. 1), ttyname = (\<lambda>n s. None), ctermid = (\<lambda>s. []),
      getlogin = (\<lambda>s. None), now = (\<lambda>s. 0), process_times = (\<lambda>s. \<lparr>tms_utime = 1, tms_stime = 2, tms_cutime = 3, tms_cstime = 4, elapsed = 5\<rparr>), uname = (\<lambda>s. None),
      pathconf = (\<lambda>p n s. 255), sysconf = (\<lambda>n s. 100)\<rparr>"

theorem posix_selectors_witness:
  "fst (Pstat demo_posix [Text ''/bin/su'', Text ''gid''] 0) = Results [Number 20] \<and>
   fst (Pstat demo_posix [Text ''/bin/su'', Text ''type''] 0) = Results [Text ''regular''] \<and>
   fst (Pgetprocessid demo_posix [Text ''pid''] 0) = Results [Number 2]"
  using posix_selectors [of demo_posix "''/bin/su''" 0 "demo_status 0x89ED" 0 "''root''" demo_user]
  by (simp add: selects_def demo_posix_def) (simp add: demo_status_def file_kinds_def)

theorem chmod_copies_mode_witness:
  "Pchmod demo_posix [Text ''copy'', Text ''rwsr-xr-x''] 0 = call_result demo_posix (Chmod ''copy'' 0x89ED) (Some ''copy'') 0"
proof -
  have "\<exists>m. Pstat demo_posix [Text ''/bin/su'', Text ''mode''] 0 = (Results [Text m], 0) \<and>
    Pchmod demo_posix [Text ''copy'', Text m] 0 =
      call_result demo_posix (Chmod ''copy'' ((0x81A4 AND NOT 0xDFF) OR (0x89ED AND 0xDFF))) (Some ''copy'') 0"
    using chmod_copies_mode [of demo_posix "''/bin/su''" 0 "demo_status 0x89ED" 0 "''copy''" "demo_status 0x81A4" 0]
    by (simp add: demo_posix_def) (simp add: demo_status_def)
  moreover have "Pstat demo_posix [Text ''/bin/su'', Text ''mode''] 0 = (Results [Text ''rwsr-xr-x''], 0)"
    by (simp add: Pstat_def with_string_def doselection_def Sstat_def Fstat_def checkstring_def demo_posix_def
        demo_status_def modechopper_letters letter_def exec_letter_def modesel_def)
  ultimately show ?thesis by simp
qed

theorem umask_restores_witness:
  "\<exists>t. fst (Pumask demo_posix [] 0x12) = Results [Text t] \<and> snd (Pumask demo_posix [Text t] 0x3F) AND 0x1FF = 0x12"
proof -
  have "keeps_mask demo_posix (\<lambda>s. s AND 0x1FF)" by (simp add: keeps_mask_def demo_posix_def and.assoc)
  from umask_restores [OF this, of "0x12" "0x3F"] show ?thesis by auto
qed

theorem getenv_table_witness:
  "\<exists>t. Pgetenv demo_posix [] 0 = (Results [Table t], 0) \<and> field (Table t) (Name ''TERM'') = Text ''a=b''"
proof -
  have "\<exists>t. Pgetenv demo_posix [] 0 = (Results [Table t], 0) \<and>
      Pgetenv demo_posix [Text ''TERM''] 0 = (Results [field (Table t) (Name ''TERM'')], 0)"
    by (rule getenv_table [where vars = "[(''HOME'', ''/root''), (''TERM'', ''a=b'')]"])
      (simp_all add: demo_posix_def entry_def proper_names_def)
  moreover have "Pgetenv demo_posix [Text ''TERM''] 0 = (Results [Text ''a=b''], 0)"
    by (simp add: Pgetenv_def with_string_def c_getenv_def pushstring_def demo_posix_def)
  ultimately show ?thesis by auto
qed

theorem posix_results_witness: "regular demo_posix (Pwait demo_posix [Text ''x''] 0)"
  by (rule posix_results [of "''wait''"]) (simp_all add: posix_functions_def)

end
