(* ===== verification/LuaBash.thy ===== *)
theory LuaBash
  imports LuaApi
begin

text \<open>
  The bash builtin \<^verbatim>\<open>luabash\<close> (\<^verbatim>\<open>misc/luabash/bash/luabash.c\<close>): it loads Lua code into the shell, calls Lua functions
  from the shell and shell commands from Lua. The shell and the Lua interpreter are a record of parameters over
  a state \<open>'s\<close> that holds everything but the variables of this file.
\<close>

section \<open>Data shared with the shell\<close>

datatype bash_flavor = Bash_v2 | Bash_v3 | Bash_unknown

text \<open>The two layouts of a simple command; a null pointer for the redirections is an empty list.\<close>

record simple_com2 =
  flags2 :: int
  words2 :: "string list"
  redirects2 :: "string list"
  line2 :: int

record simple_com3 =
  flags3 :: int
  line3 :: int
  words3 :: "string list"
  redirects3 :: "string list"

datatype simple_com = Com2 simple_com2 | Com3 simple_com3

text \<open>\<open>make\_command\<close> of a simple command; a null pointer gives \<open>None\<close>.\<close>

type_synonym command = "simple_com option"

text \<open>
  \<open>find\_variable\<close> gives \<open>None\<close> for a variable that is not known and \<open>Some None\<close> for one without a value. Running
  Lua gives \<open>None\<close> for an error. \<open>conv\<close> is how Lua converts numbers.
\<close>

record 's bash =
  find_variable :: "'s \<Rightarrow> string \<Rightarrow> string option option"
  bind_variable :: "string \<Rightarrow> string \<Rightarrow> 's \<Rightarrow> 's"
  bind_function :: "string \<Rightarrow> command \<Rightarrow> 's \<Rightarrow> 's"
  execute_command :: "command \<Rightarrow> 's \<Rightarrow> int \<times> 's"
  all_shell_variables :: "'s \<Rightarrow> (string \<times> string option) list option"
  newstate :: "'s \<Rightarrow> 's option"
  loadfile :: "string \<Rightarrow> 's \<Rightarrow> bool \<times> 's"
  run_chunk :: "'s \<Rightarrow> bool \<times> 's"
  call_global :: "string \<Rightarrow> string list \<Rightarrow> 's \<Rightarrow> lua_value option \<times> 's"
  conv :: lua

record 's luabash =
  initialized :: bool
  flavor :: bash_flavor
  lua_state :: bool
  shell :: 's

definition EXECUTION_SUCCESS :: int where "EXECUTION_SUCCESS = 0"
definition EXECUTION_FAILURE :: int where "EXECUTION_FAILURE = 1"

definition newSimpleCom :: "bash_flavor \<Rightarrow> string list \<Rightarrow> command" where
  "newSimpleCom v ws =
     (case v of
        Bash_v2 \<Rightarrow> Some (Com2 \<lparr>flags2 = 0, words2 = ws, redirects2 = [], line2 = 0\<rparr>)
      | Bash_v3 \<Rightarrow> Some (Com3 \<lparr>flags3 = 0, line3 = 0, words3 = ws, redirects3 = []\<rparr>)
      | Bash_unknown \<Rightarrow> None)"

definition getvar :: "'s bash \<Rightarrow> 's \<Rightarrow> string \<Rightarrow> string option" where
  "getvar B s name = (case find_variable B s name of None \<Rightarrow> None | Some v \<Rightarrow> v)"

section \<open>The functions for Lua\<close>

text \<open>
  A call returns \<open>None\<close> for a Lua error, or its results, and the state behind it. What is passed to the shell is a C string, which
  ends at the first NUL byte of the Lua string.
\<close>

definition register_function :: "'s bash \<Rightarrow> lua_value list \<Rightarrow> 's luabash \<Rightarrow> lua_value list option \<times> 's luabash" where
  "register_function B args st =
     (case checkstring (conv B) args 0 of
        None \<Rightarrow> (None, st)
      | Some fnname \<Rightarrow>
          let body = newSimpleCom (flavor st) [''luabash'', ''call'', cstr fnname, ''$@'']
          in (Some [], st\<lparr>shell := bind_function B (cstr fnname) body (shell st)\<rparr>))"

definition get_variable :: "'s bash \<Rightarrow> lua_value list \<Rightarrow> 's luabash \<Rightarrow> lua_value list option \<times> 's luabash" where
  "get_variable B args st =
     (case checkstring (conv B) args 0 of
        None \<Rightarrow> (None, st)
      | Some vname \<Rightarrow> (Some [pushstring (getvar B (shell st) (cstr vname))], st))"

definition set_variable :: "'s bash \<Rightarrow> lua_value list \<Rightarrow> 's luabash \<Rightarrow> lua_value list option \<times> 's luabash" where
  "set_variable B args st =
     (case (checkstring (conv B) args 0, checkstring (conv B) args 1) of
        (Some vname, Some vvalue) \<Rightarrow> (Some [], st\<lparr>shell := bind_variable B (cstr vname) (cstr vvalue) (shell st)\<rparr>)
      | _ \<Rightarrow> (None, st))"

text \<open>The word list is built argument by argument; one that is not a string ends the call.\<close>

fun word_list :: "'s bash \<Rightarrow> lua_value list \<Rightarrow> nat \<Rightarrow> nat \<Rightarrow> string list \<Rightarrow> string list option" where
  "word_list B args i 0 ws = Some ws"
| "word_list B args i (Suc n) ws =
     (case checkstring (conv B) args i of None \<Rightarrow> None | Some w \<Rightarrow> word_list B args (Suc i) n (ws @ [cstr w]))"

definition call_bashfunction :: "'s bash \<Rightarrow> lua_value list \<Rightarrow> 's luabash \<Rightarrow> lua_value list option \<times> 's luabash" where
  "call_bashfunction B args st =
     (case word_list B args 0 (length args) [] of
        None \<Rightarrow> (None, st)
      | Some ws \<Rightarrow>
          if ws = [] then (Some [Number 127], st)
          else let (r, s) = execute_command B (newSimpleCom (flavor st) ws) (shell st)
               in (Some [Number (of_int r)], st\<lparr>shell := s\<rparr>))"

text \<open>A variable without a value sets its field to nil, which removes it.\<close>

definition get_environment :: "'s bash \<Rightarrow> 's luabash \<Rightarrow> lua_value list option \<times> 's luabash" where
  "get_environment B st =
     (let vars = (case all_shell_variables B (shell st) of None \<Rightarrow> [] | Some vs \<Rightarrow> vs)
      in (Some [Table (foldl (\<lambda>t (key, val). settable (Name key) (pushstring val) t) no_table vars)], st))"

section \<open>The builtin\<close>

definition flavor_of :: "string \<Rightarrow> bash_flavor \<Rightarrow> bash_flavor" where
  "flavor_of version old =
     (if version \<noteq> [] \<and> hd version = CHR ''2'' then Bash_v2
      else if version \<noteq> [] \<and> hd version \<in> set ''345'' then Bash_v3
      else old)"

definition init_luabash :: "'s bash \<Rightarrow> 's luabash \<Rightarrow> int \<times> 's luabash" where
  "init_luabash B st =
     (if initialized st then (EXECUTION_SUCCESS, st)
      else case getvar B (shell st) ''BASH_VERSION'' of
             None \<Rightarrow> (EXECUTION_FAILURE, st)
           | Some version \<Rightarrow>
               let st1 = st\<lparr>flavor := flavor_of version (flavor st)\<rparr>
               in if flavor st1 = Bash_unknown then (EXECUTION_FAILURE, st1)
                  else case newstate B (shell st1) of
                         None \<Rightarrow> (EXECUTION_FAILURE, st1\<lparr>lua_state := False\<rparr>)
                       | Some s \<Rightarrow> (EXECUTION_SUCCESS, st1\<lparr>lua_state := True, shell := s, initialized := True\<rparr>))"

definition load_chunk :: "'s bash \<Rightarrow> string \<Rightarrow> 's luabash \<Rightarrow> int \<times> 's luabash" where
  "load_chunk B filename st =
     (let (r, st1) = init_luabash B st
      in if r \<noteq> EXECUTION_SUCCESS then (r, st1)
         else let (loaded, s2) = loadfile B filename (shell st1)
              in if \<not> loaded then (EXECUTION_FAILURE, st1\<lparr>shell := s2\<rparr>)
                 else let (ok, s3) = run_chunk B s2
                      in (if ok then EXECUTION_SUCCESS else EXECUTION_FAILURE, st1\<lparr>shell := s3\<rparr>))"

text \<open>The status for the value a function returns. A fraction is cut off; a value of another type counts as success.\<close>

definition status_of :: "lua_value option \<Rightarrow> int" where
  "status_of r =
     (case r of
        None \<Rightarrow> EXECUTION_FAILURE
      | Some (Number x) \<Rightarrow> truncate_number x
      | Some (Boolean b) \<Rightarrow> (if b then EXECUTION_SUCCESS else EXECUTION_FAILURE)
      | _ \<Rightarrow> EXECUTION_SUCCESS)"

text \<open>In a word list of the shell a word may be a null pointer (\<open>None\<close>); those are left out.\<close>

definition call_function :: "'s bash \<Rightarrow> string \<Rightarrow> string option list \<Rightarrow> 's luabash \<Rightarrow> int \<times> 's luabash" where
  "call_function B func argv st =
     (if \<not> initialized st then (EXECUTION_FAILURE, st)
      else let (r, s) = call_global B func (map the (filter (\<lambda>w. w \<noteq> None) argv)) (shell st)
           in (status_of r, st\<lparr>shell := s\<rparr>))"

definition luabash_builtin :: "'s bash \<Rightarrow> string option list \<Rightarrow> 's luabash \<Rightarrow> int \<times> 's luabash" where
  "luabash_builtin B list st =
     (case list of
        Some cmd # rest \<Rightarrow>
          if cmd = ''init'' then init_luabash B st
          else if cmd = ''load'' then
            (case rest of Some filename # _ \<Rightarrow> load_chunk B filename st | _ \<Rightarrow> (EXECUTION_FAILURE, st))
          else if cmd = ''call'' then
            (case rest of Some func # argv \<Rightarrow> call_function B func argv st | _ \<Rightarrow> (EXECUTION_FAILURE, st))
          else (EXECUTION_FAILURE, st)
      | _ \<Rightarrow> (EXECUTION_FAILURE, st))"

section \<open>Sessions\<close>

text \<open>
  In the course of a session the builtin is called with any words, and between the calls the shell does
  whatever it likes, as long as it keeps its own version.
\<close>

datatype 's event = Shell_does "'s \<Rightarrow> 's" | Builtin "string option list"

definition at_start :: "'s \<Rightarrow> 's luabash" where
  "at_start sh = \<lparr>initialized = False, flavor = Bash_unknown, lua_state = False, shell = sh\<rparr>"

definition event_step :: "'s bash \<Rightarrow> 's event \<Rightarrow> 's luabash \<Rightarrow> 's luabash" where
  "event_step B e st =
     (case e of Shell_does f \<Rightarrow> st\<lparr>shell := f (shell st)\<rparr> | Builtin ws \<Rightarrow> snd (luabash_builtin B ws st))"

definition session :: "'s bash \<Rightarrow> 's \<Rightarrow> 's event list \<Rightarrow> 's luabash" where
  "session B sh events = foldl (\<lambda>st e. event_step B e st) (at_start sh) events"

definition keeps_version :: "'s bash \<Rightarrow> 's event list \<Rightarrow> bool" where
  "keeps_version B events \<longleftrightarrow>
     (\<forall>f. Shell_does f \<in> set events \<longrightarrow> (\<forall>s. getvar B (f s) ''BASH_VERSION'' = getvar B s ''BASH_VERSION''))"

text \<open>The layout that the releases of bash have: that of 2.x, or that of 3.x and those after it.\<close>

definition release_layout :: "string \<Rightarrow> bash_flavor" where
  "release_layout version =
     (let major = takeWhile (\<lambda>c. c \<noteq> CHR ''.'') version
      in if major = ''2'' then Bash_v2 else if major \<in> {''3'', ''4'', ''5''} then Bash_v3 else Bash_unknown)"

text \<open>The words that a shell with the given layout finds in a command.\<close>

fun words_seen :: "bash_flavor \<Rightarrow> command \<Rightarrow> string list option" where
  "words_seen Bash_v2 (Some (Com2 c)) = Some (words2 c)"
| "words_seen Bash_v3 (Some (Com3 c)) = Some (words3 c)"
| "words_seen v c = None"

lemma words_seen_new: "v \<noteq> Bash_unknown \<Longrightarrow> words_seen v (newSimpleCom v ws) = Some ws"
  by (cases v) (simp_all add: newSimpleCom_def)

lemma flavor_of_again: "flavor_of v (flavor_of v old) = flavor_of v old"
  by (simp add: flavor_of_def)

lemma release_flavor: "release_layout v \<noteq> Bash_unknown \<Longrightarrow> flavor_of v Bash_unknown = release_layout v"
  by (cases v) (auto simp: release_layout_def flavor_of_def Let_def split: if_splits)

text \<open>The flavor is not known or that of the version, and known once the builtin is initialised.\<close>

definition session_inv :: "'s bash \<Rightarrow> 's \<Rightarrow> 's luabash \<Rightarrow> bool" where
  "session_inv B sh st \<longleftrightarrow>
     (if initialized st
      then lua_state st \<and> flavor st \<noteq> Bash_unknown \<and>
        (\<exists>v. getvar B sh ''BASH_VERSION'' = Some v \<and> flavor st = flavor_of v Bash_unknown)
      else getvar B (shell st) ''BASH_VERSION'' = getvar B sh ''BASH_VERSION'' \<and>
        (flavor st = Bash_unknown \<or>
         (\<exists>v. getvar B sh ''BASH_VERSION'' = Some v \<and> flavor st = flavor_of v Bash_unknown)))"

lemma init_inv: "session_inv B sh st \<Longrightarrow> session_inv B sh (snd (init_luabash B st))"
  by (cases "flavor st = Bash_unknown")
    (auto simp: session_inv_def init_luabash_def Let_def flavor_of_again split: option.splits if_splits)

lemma init_status: "fst (init_luabash B st) = EXECUTION_SUCCESS \<longleftrightarrow> initialized (snd (init_luabash B st))"
  by (auto simp: init_luabash_def Let_def EXECUTION_SUCCESS_def EXECUTION_FAILURE_def split: option.splits)

lemma session_inv_shell: "session_inv B sh st \<Longrightarrow> initialized st \<Longrightarrow> session_inv B sh (st\<lparr>shell := s\<rparr>)"
  by (simp add: session_inv_def)

lemma load_inv: "session_inv B sh st \<Longrightarrow> session_inv B sh (snd (load_chunk B filename st))"
  using init_inv [of B sh st] init_status [of B st]
  by (auto simp: load_chunk_def Let_def case_prod_beta intro: session_inv_shell)

lemma call_inv: "session_inv B sh st \<Longrightarrow> session_inv B sh (snd (call_function B func argv st))"
  by (auto simp: call_function_def case_prod_beta intro: session_inv_shell)

lemma builtin_inv: "session_inv B sh st \<Longrightarrow> session_inv B sh (snd (luabash_builtin B list st))"
  by (auto simp: luabash_builtin_def init_inv load_inv call_inv split: list.split option.split)

lemma session_inv: "keeps_version B events \<Longrightarrow> session_inv B sh (session B sh events)"
  unfolding session_def
proof (rule foldl_invariant)
  show "session_inv B sh (at_start sh)" by (simp add: session_inv_def at_start_def)
next
  fix st e
  assume "keeps_version B events" "session_inv B sh st" "e \<in> set events"
  then show "session_inv B sh (event_step B e st)"
  proof (cases e)
    case (Builtin ws)
    with \<open>session_inv B sh st\<close> show ?thesis by (simp add: event_step_def builtin_inv)
  next
    case (Shell_does f)
    with \<open>keeps_version B events\<close> \<open>e \<in> set events\<close>
    have "getvar B (f s) ''BASH_VERSION'' = getvar B s ''BASH_VERSION''" for s by (simp add: keeps_version_def)
    with Shell_does \<open>session_inv B sh st\<close> show ?thesis by (simp add: event_step_def session_inv_def)
  qed
qed

lemma session_words:
  assumes "keeps_version B events" "initialized (session B sh events)"
    "getvar B sh ''BASH_VERSION'' = Some version" "release_layout version \<noteq> Bash_unknown"
  shows "words_seen (release_layout version) (newSimpleCom (flavor (session B sh events)) ws) = Some ws"
  using session_inv [OF assms(1), of sh] assms(2-4) words_seen_new [OF assms(4)] release_flavor [OF assms(4)]
  by (auto simp: session_inv_def)

lemma word_list_strings:
  "word_list B args i n ws = Some ws' \<Longrightarrow> i + n \<le> length args \<Longrightarrow>
     ws' = ws @ map (\<lambda>j. cstr (the (checkstring (conv B) args j))) [i..<i + n]"
proof (induction n arbitrary: i ws)
  case 0
  then show ?case by simp
next
  case (Suc n)
  from Suc.prems(1) obtain w where w: "checkstring (conv B) args i = Some w" "word_list B args (Suc i) n (ws @ [cstr w]) = Some ws'"
    by (auto split: option.splits)
  from Suc.IH [OF w(2)] Suc.prems(2) w(1) show ?case by (simp add: upt_conv_Cons del: upt_Suc)
qed

lemma word_list_complete:
  "\<forall>j. i \<le> j \<and> j < i + n \<longrightarrow> checkstring (conv B) args j \<noteq> None \<Longrightarrow> \<exists>ws'. word_list B args i n ws = Some ws'"
proof (induction n arbitrary: i ws)
  case 0
  then show ?case by simp
next
  case (Suc n)
  then obtain w where w: "checkstring (conv B) args i = Some w" by force
  have "\<forall>j. Suc i \<le> j \<and> j < Suc i + n \<longrightarrow> checkstring (conv B) args j \<noteq> None" using Suc.prems by simp
  from Suc.IH [OF this] w show ?case by simp
qed

text \<open>
  C13. A session of the builtin: once it is initialised there is a Lua state, and a command that Lua code builds,
  for the shell to run it or as the body of a function, is read by the shell, whose version decides the
  layout, as the words it was built from, each up to its first NUL byte; the result is the status of the command. Before that no call runs Lua.
\<close>

theorem luabash_session:
  assumes "keeps_version B events" "s = session B sh events"
    "getvar B sh ''BASH_VERSION'' = Some version" "release_layout version \<noteq> Bash_unknown"
  shows "if initialized s
    then lua_state s \<and> (\<forall>w ws. \<exists>c. words_seen (release_layout version) c = Some (map cstr (w # ws)) \<and>
      call_bashfunction B (map Text (w # ws)) s =
        (let (r, t) = execute_command B c (shell s) in (Some [Number (of_int r)], s\<lparr>shell := t\<rparr>)))
    else luabash_builtin B (Some ''call'' # ws) s = (EXECUTION_FAILURE, s)"
proof (cases "initialized s")
  case True
  have "lua_state s" using session_inv [OF assms(1), of sh] True by (simp add: session_inv_def assms(2))
  moreover have "\<exists>c. words_seen (release_layout version) c = Some (map cstr (w # ws)) \<and>
      call_bashfunction B (map Text (w # ws)) s =
        (let (r, t) = execute_command B c (shell s) in (Some [Number (of_int r)], s\<lparr>shell := t\<rparr>))" for w ws
  proof (intro exI conjI)
    let ?args = "map Text (w # ws)"
    have c: "checkstring (conv B) ?args j = Some ((w # ws) ! j)" if "j < length ?args" for j
      using that by (simp add: checkstring_texts del: list.map)
    obtain ws' where ws': "word_list B ?args 0 (length ?args) [] = Some ws'"
      using word_list_complete [of 0 "length ?args" B ?args "[]"] c by auto
    have "ws' = map (\<lambda>j. cstr (the (checkstring (conv B) ?args j))) [0..<length ?args]" using word_list_strings [OF ws'] by simp
    also have "\<dots> = map (\<lambda>j. cstr ((w # ws) ! j)) [0..<length (w # ws)]"
      by (intro map_cong) (auto simp only: c length_map set_upt atLeastLessThan_iff option.sel)
    also have "\<dots> = map cstr (map ((!) (w # ws)) [0..<length (w # ws)])" by (simp only: map_map comp_def)
    finally have "ws' = map cstr (w # ws)" by (simp only: map_nth)
    with ws' show "call_bashfunction B ?args s =
        (let (r, t) = execute_command B (newSimpleCom (flavor s) (map cstr (w # ws))) (shell s) in (Some [Number (of_int r)], s\<lparr>shell := t\<rparr>))"
      by (simp add: call_bashfunction_def case_prod_beta Let_def)
    show "words_seen (release_layout version) (newSimpleCom (flavor s) (map cstr (w # ws))) = Some (map cstr (w # ws))"
      using session_words [OF assms(1) _ assms(3,4)] True by (simp add: assms(2))
  qed
  ultimately show ?thesis using True by simp
next
  case False
  then show ?thesis by (auto simp: luabash_builtin_def call_function_def split: list.split option.split)
qed

text \<open>
  C14. A function that Lua code registered calls back into Lua: when the shell runs its body, with the words
  expanded for the arguments of the function, the words are a call of the builtin that runs the Lua function of
  that name (up to a NUL byte in it). Its arguments are those of the function after word splitting, because \<open>$@\<close> stands in the body
  without quotation marks.
\<close>

theorem registered_function_calls_back:
  assumes "keeps_version B events" "s = session B sh events" "initialized s"
    "getvar B sh ''BASH_VERSION'' = Some version" "release_layout version \<noteq> Bash_unknown"
    "\<And>args. expand args ''$@'' = concat (map splitting args)"
    "\<And>args w. w \<in> {''luabash'', ''call'', cstr name} \<Longrightarrow> expand args w = [w]"
  shows "\<exists>body ws. register_function B [Text name] s = (Some [], s\<lparr>shell := bind_function B (cstr name) body (shell s)\<rparr>) \<and>
    words_seen (release_layout version) body = Some ws \<and>
    (\<forall>args t. initialized t \<longrightarrow> (\<exists>words. concat (map (expand args) ws) = ''luabash'' # words \<and>
       luabash_builtin B (map Some words) t =
         (let (r, u) = call_global B (cstr name) (concat (map splitting args)) (shell t) in (status_of r, t\<lparr>shell := u\<rparr>))))"
proof (intro exI conjI allI impI)
  let ?ws = "[''luabash'', ''call'', cstr name, ''$@'']"
  show "register_function B [Text name] s =
      (Some [], s\<lparr>shell := bind_function B (cstr name) (newSimpleCom (flavor s) ?ws) (shell s)\<rparr>)"
    by (simp add: register_function_def checkstring_def)
  show "words_seen (release_layout version) (newSimpleCom (flavor s) ?ws) = Some ?ws"
    using session_words [OF assms(1) _ assms(4,5)] assms(2,3) by simp
  fix args and t :: "'a luabash"
  assume "initialized t"
  show "concat (map (expand args) ?ws) = ''luabash'' # ([''call'', cstr name] @ concat (map splitting args))"
    using assms(6,7) by simp
  have "map the (filter (\<lambda>w. w \<noteq> None) (map Some xs)) = xs" for xs :: "string list"
    by (induction xs) auto
  with \<open>initialized t\<close> show "luabash_builtin B (map Some ([''call'', cstr name] @ concat (map splitting args))) t =
      (let (r, u) = call_global B (cstr name) (concat (map splitting args)) (shell t) in (status_of r, t\<lparr>shell := u\<rparr>))"
    by (simp add: luabash_builtin_def call_function_def case_prod_beta Let_def)
qed


text \<open>A shell of release 5 in which every Lua function returns the number of its arguments.\<close>

definition demo_bash :: "unit bash" where
  "demo_bash =
     \<lparr>find_variable = (\<lambda>s n. if n = ''BASH_VERSION'' then Some (Some ''5.2.15'') else None),
      bind_variable = (\<lambda>n v s. s), bind_function = (\<lambda>n c s. s), execute_command = (\<lambda>c s. (3, s)),
      all_shell_variables = (\<lambda>s. None), newstate = Some, loadfile = (\<lambda>n s. (True, s)), run_chunk = (\<lambda>s. (True, s)),
      call_global = (\<lambda>f args s. (Some (Number (of_nat (length args))), s)), conv = \<lparr>number_text = (\<lambda>n. []), text_number = (\<lambda>s. None)\<rparr>\<rparr>"

lemma demo_version: "getvar demo_bash () ''BASH_VERSION'' = Some ''5.2.15''"
  by (simp add: getvar_def demo_bash_def)

lemma demo_session:
  "keeps_version demo_bash [Builtin [Some ''init'']]" "initialized (session demo_bash () [Builtin [Some ''init'']])"
  by (simp_all add: keeps_version_def session_def at_start_def event_step_def luabash_builtin_def init_luabash_def
      demo_version flavor_of_def Let_def) (simp add: demo_bash_def)

lemma demo_release: "release_layout ''5.2.15'' \<noteq> Bash_unknown"
  by (simp add: release_layout_def)

theorem luabash_session_witness:
  "\<exists>c. words_seen Bash_v3 c = Some [''ls'', ''-l''] \<and>
     fst (call_bashfunction demo_bash [Text ''ls'', Text ''-l''] (session demo_bash () [Builtin [Some ''init'']]))
       = Some [Number 3]"
proof -
  have r: "release_layout ''5.2.15'' = Bash_v3" by (simp add: release_layout_def)
  have n: "cstr ''ls'' = ''ls''" "cstr ''-l'' = ''-l''" by (simp_all add: cstr_def nul_def)
  note luabash_session [OF demo_session(1) refl demo_version demo_release, of "[]", unfolded r if_P [OF demo_session(2)]]
  then have "\<forall>w ws. \<exists>c. words_seen Bash_v3 c = Some (map cstr (w # ws)) \<and>
      call_bashfunction demo_bash (map Text (w # ws)) (session demo_bash () [Builtin [Some ''init'']]) =
        (let (r, t) = execute_command demo_bash c (shell (session demo_bash () [Builtin [Some ''init'']]))
         in (Some [Number (of_int r)], (session demo_bash () [Builtin [Some ''init'']])\<lparr>shell := t\<rparr>))" by (rule conjunct2)
  from this [rule_format, of "''ls''" "[''-l'']"] show ?thesis by (auto simp: demo_bash_def n)
qed

theorem registered_function_calls_back_witness:
  "\<exists>ws words. concat (map (\<lambda>w. if w = ''$@'' then concat (map (tokens CHR '' '') [''a b'']) else [w]) ws) = ''luabash'' # words \<and>
    fst (luabash_builtin demo_bash (map Some words) (session demo_bash () [Builtin [Some ''init'']])) = 2"
proof -
  let ?e = "\<lambda>args w. if w = ''$@'' then concat (map (tokens CHR '' '') args) else [w]"
  let ?s = "session demo_bash () [Builtin [Some ''init'']]"
  have "\<exists>body ws. register_function demo_bash [Text ''greet''] ?s =
        (Some [], ?s\<lparr>shell := bind_function demo_bash (cstr ''greet'') body (shell ?s)\<rparr>) \<and>
      words_seen (release_layout ''5.2.15'') body = Some ws \<and>
      (\<forall>args t. initialized t \<longrightarrow> (\<exists>words. concat (map (?e args) ws) = ''luabash'' # words \<and>
         luabash_builtin demo_bash (map Some words) t =
           (let (r, u) = call_global demo_bash (cstr ''greet'') (concat (map (tokens CHR '' '') args)) (shell t)
            in (status_of r, t\<lparr>shell := u\<rparr>))))"
    by (rule registered_function_calls_back [OF demo_session(1) refl demo_session(2) demo_version demo_release]) (auto simp: cstr_def nul_def)
  then obtain ws where "\<forall>args t. initialized t \<longrightarrow> (\<exists>words. concat (map (?e args) ws) = ''luabash'' # words \<and>
         luabash_builtin demo_bash (map Some words) t =
           (let (r, u) = call_global demo_bash (cstr ''greet'') (concat (map (tokens CHR '' '') args)) (shell t)
            in (status_of r, t\<lparr>shell := u\<rparr>)))" by blast
  with demo_session(2) obtain words where w: "concat (map (?e [''a b'']) ws) = ''luabash'' # words"
    "luabash_builtin demo_bash (map Some words) ?s =
       (let (r, u) = call_global demo_bash (cstr ''greet'') (concat (map (tokens CHR '' '') [''a b''])) (shell ?s)
        in (status_of r, ?s\<lparr>shell := u\<rparr>))" by blast
  have t: "tokens CHR '' '' ''a b'' = [''a'', ''b'']" by (simp add: tokens_def)
  from w(2) have "fst (luabash_builtin demo_bash (map Some words) ?s) = 2"
    by (simp add: t demo_bash_def status_of_def truncate_number_def)
  with w(1) show ?thesis by blast
qed

end
