(* ===== verification/LuaZlib.thy ===== *)
theory LuaZlib
  imports LuaApi
begin

text \<open>
  The binding of zlib for Lua (\<^verbatim>\<open>misc/lua/lzlib/lzlib.c\<close>): results and errors of the operations on compressed files,
  and the iterator over the lines of a file with its buffer. The library zlib is not part of the repository: its
  functions are a record of parameters over the states \<open>'f\<close> of an open file.
\<close>

section \<open>Values and parameters\<close>

text \<open>The results of a call: a list of values, or a Lua error.\<close>

type_synonym 'a lua_result = "string + 'a"

text \<open>
  \<open>gzgets n f\<close> reads at most \<open>n - 1\<close> bytes, where \<open>n\<close> is an int; \<open>None\<close> is \<open>Z\_NULL\<close>. \<open>gzerror\<close> gives message and code, \<open>zError\<close> and
  \<open>strerror\<close> the messages for codes.
\<close>

record 'f zlib =
  gzopen :: "string \<Rightarrow> string \<Rightarrow> 'f option"
  gzclose :: "'f \<Rightarrow> int"
  gzgets :: "int \<Rightarrow> 'f \<Rightarrow> string option \<times> 'f"
  gzeof :: "'f \<Rightarrow> int"
  gzerror :: "'f \<Rightarrow> string \<times> int"
  zError :: "int \<Rightarrow> string"
  strerror :: "int \<Rightarrow> string"

definition Z_OK :: int where "Z_OK = 0"
definition Z_STREAM_END :: int where "Z_STREAM_END = 1"
definition Z_ERRNO :: int where "Z_ERRNO = -1"

text \<open>\<open>zf\<close> is \<open>None\<close> for the null pointer; \<open>errno\<close> is the error number of the last system call.\<close>

definition pushresult :: "'f zlib \<Rightarrow> int \<Rightarrow> 'f option \<Rightarrow> string option \<Rightarrow> lua_value list" where
  "pushresult Z errno zf filename =
     (let (msg, r) = (case zf of None \<Rightarrow> ([], Z_ERRNO) | Some f \<Rightarrow> gzerror Z f)
      in if r = Z_OK then [Boolean True]
         else let m = (if r = Z_ERRNO then strerror Z errno else msg)
              in [Nil, Text (case filename of Some n \<Rightarrow> n @ '': '' @ m | None \<Rightarrow> m), Number (of_int r), Number (of_int errno)])"

text \<open>A handle is \<open>None\<close> when the file has been closed.\<close>

definition tozfile :: "'f option \<Rightarrow> 'f lua_result" where
  "tozfile h = (case h of None \<Rightarrow> Inl ''attempt to use a closed gz file'' | Some f \<Rightarrow> Inr f)"

definition gz_open :: "'f zlib \<Rightarrow> int \<Rightarrow> string \<Rightarrow> string option \<Rightarrow> lua_value list \<times> 'f option" where
  "gz_open Z errno filename mode =
     (let zf = gzopen Z filename (case mode of None \<Rightarrow> ''r'' | Some m \<Rightarrow> m)
      in (if zf = None then pushresult Z errno None (Some filename) else [Userdata], zf))"

definition gz_close :: "'f zlib \<Rightarrow> int \<Rightarrow> 'f option \<Rightarrow> (lua_value list \<times> 'f option) lua_result" where
  "gz_close Z errno h =
     (case tozfile h of
        Inl e \<Rightarrow> Inl e
      | Inr f \<Rightarrow>
          let r = gzclose Z f
          in Inr (if r = Z_OK then [Boolean True]
                  else [Nil, Text (if r = Z_ERRNO then strerror Z errno else zError Z r), Number (of_int r), Number (of_int errno)], None))"

definition gz_lines :: "'f option \<Rightarrow> lua_value list lua_result" where
  "gz_lines h = (case tozfile h of Inl e \<Rightarrow> Inl e | Inr f \<Rightarrow> Inr [Function])"

definition gz_status :: "'f zlib \<Rightarrow> int \<Rightarrow> 'f option \<Rightarrow> lua_value list lua_result" where
  "gz_status Z errno h = (case tozfile h of Inl e \<Rightarrow> Inl e | Inr f \<Rightarrow> Inr (pushresult Z errno (Some f) None))"

text \<open>The value pushed when the end is not reached is not returned: the count of results is zero.\<close>

definition gz_eof :: "'f zlib \<Rightarrow> 'f option \<Rightarrow> lua_value list lua_result" where
  "gz_eof Z h =
     (case tozfile h of
        Inl e \<Rightarrow> Inl e
      | Inr f \<Rightarrow>
          if gzeof Z f = 1
          then let (reason, r) = gzerror Z f in Inr [Boolean True, Boolean (r = Z_STREAM_END), Text reason]
          else Inr [])"

section \<open>The content buffer\<close>

text \<open>
  The bytes of the block (its length is \<open>content\_buffer\_length\<close>), \<open>content\_length\<close>, and whether a byte behind the
  block was written. What \<open>malloc\<close> and \<open>realloc\<close> leave in new memory is the parameter \<open>junk\<close>.
\<close>

record content =
  bytes :: string
  fill :: nat
  overrun :: bool

definition ResetBuffer :: "content \<Rightarrow> content" where
  "ResetBuffer b = b\<lparr>fill := 0\<rparr>"

definition ExtendBufferBySize :: "(nat \<Rightarrow> char) \<Rightarrow> nat \<Rightarrow> content \<Rightarrow> content" where
  "ExtendBufferBySize junk n b =
     (if length (bytes b) < n then b\<lparr>bytes := bytes b @ map junk [length (bytes b)..<n]\<rparr> else b)"

definition ExtendBuffer :: "(nat \<Rightarrow> char) \<Rightarrow> content \<Rightarrow> content" where
  "ExtendBuffer junk b = ExtendBufferBySize junk (if length (bytes b) < 256 then 256 else 2 * length (bytes b)) b"

text \<open>Writing a sequence of bytes at a position.\<close>

definition poke :: "nat \<Rightarrow> string \<Rightarrow> content \<Rightarrow> content" where
  "poke i t b =
     (if i + length t \<le> length (bytes b) then b\<lparr>bytes := take i (bytes b) @ t @ drop (i + length t) (bytes b)\<rparr>
      else b\<lparr>overrun := True\<rparr>)"

definition AddToBuffer :: "(nat \<Rightarrow> char) \<Rightarrow> char \<Rightarrow> content \<Rightarrow> content" where
  "AddToBuffer junk c b =
     (let b1 = (if length (bytes b) = fill b then ExtendBuffer junk b else b)
      in (poke (fill b1) [c] b1)\<lparr>fill := fill b1 + 1\<rparr>)"

definition FinishBuffer :: "(nat \<Rightarrow> char) \<Rightarrow> content \<Rightarrow> content \<times> string" where
  "FinishBuffer junk b = (let b1 = AddToBuffer junk nul b in (b1, cstr (bytes b1)))"

text \<open>The difference of the two sizes is converted to an \<open>int\<close> of 32 bits.\<close>

definition BufferFree :: "content \<Rightarrow> int" where
  "BufferFree b = sint (word_of_int (int (length (bytes b)) - int (fill b)) :: 32 word)"

section \<open>The iterator over lines\<close>

text \<open>A piece that \<open>gzgets\<close> read is written with its terminator behind what the buffer holds.\<close>

definition take_piece :: "(nat \<Rightarrow> char) \<Rightarrow> string \<Rightarrow> char \<Rightarrow> content \<Rightarrow> char \<times> content" where
  "take_piece junk t ch b =
     (let b1 = poke (fill b) (t @ [nul]) b; l = length (cstr (bytes b1)); b2 = b1\<lparr>fill := l\<rparr>
      in if 0 < l then let c = bytes b2 ! (l - 1)
           in (c, if c \<noteq> newline then ExtendBuffer junk b2 else b2\<lparr>bytes := (bytes b2)[l - 1 := nul]\<rparr>)
         else (ch, b2))"

text \<open>The loop ends when \<open>gzgets\<close> gives nothing more or the line is complete; it may run for ever (\<open>None\<close>).\<close>

partial_function (option) read_line ::
    "(int \<Rightarrow> 'f \<Rightarrow> string option \<times> 'f) \<Rightarrow> (nat \<Rightarrow> char) \<Rightarrow> char \<Rightarrow> content \<Rightarrow> 'f \<Rightarrow> (char \<times> content \<times> 'f) option" where
  "read_line gets junk ch b f =
     (case gets (BufferFree b) f of
        (None, f') \<Rightarrow> Some (ch, b, f')
      | (Some t, f') \<Rightarrow>
          if fst (take_piece junk t ch b) = newline
          then Some (fst (take_piece junk t ch b), snd (take_piece junk t ch b), f')
          else read_line gets junk (fst (take_piece junk t ch b)) (snd (take_piece junk t ch b)) f')"

text \<open>
  \<open>last\_arg\<close> is the last argument of the call. It is what the iterator returns when it announces one result without
  having pushed a value, because \<open>lua\_pushstring\<close> belongs to the second \<open>if\<close>.
\<close>

definition lines_iterator ::
    "'f zlib \<Rightarrow> int \<Rightarrow> (nat \<Rightarrow> char) \<Rightarrow> lua_value \<Rightarrow> content \<Rightarrow> 'f \<Rightarrow> (lua_value list \<times> content \<times> 'f) option" where
  "lines_iterator Z errno junk last_arg b f =
     (let b0 = (if length (bytes b) = 0 then ExtendBuffer junk b else ResetBuffer b)
      in case read_line (gzgets Z) junk nul b0 f of
           None \<Rightarrow> None
         | Some (ch, b1, f') \<Rightarrow>
             if ch = newline \<or> 0 < fill b1
             then (if ch = newline then let (b2, s) = FinishBuffer junk b1 in Some ([Text s], b2, f')
                   else Some ([last_arg], b1, f'))
             else Some (pushresult Z errno (Some f') None, b1, f'))"

section \<open>Reading a line\<close>

text \<open>
  What zlib promises of \<open>gzgets\<close> on a file that can be read without errors: with a size of at least two it gives
  the start of what is left, up to a newline, as many bytes as fit; at the end it gives nothing.
\<close>

fun piece_of :: "nat \<Rightarrow> string \<Rightarrow> string" where
  "piece_of 0 t = []"
| "piece_of (Suc n) [] = []"
| "piece_of (Suc n) (c # t) = c # (if c = newline then [] else piece_of n t)"

definition reads :: "(int \<Rightarrow> 'f \<Rightarrow> string option \<times> 'f) \<Rightarrow> ('f \<Rightarrow> string) \<Rightarrow> bool" where
  "reads gets content \<longleftrightarrow>
     (\<forall>n f. 2 \<le> n \<longrightarrow>
        (let t = piece_of (nat (n - 1)) (content f)
         in fst (gets n f) = (if content f = [] then None else Some t) \<and>
            content (snd (gets n f)) = drop (length t) (content f)))"

lemma piece_of_short: "newline \<notin> set l \<Longrightarrow> length l < n \<Longrightarrow> piece_of n (l @ newline # r) = l @ [newline]"
  by (induction n l rule: piece_of.induct) (auto simp: gr0_conv_Suc less_Suc_eq_0_disj neq_Nil_conv Suc_less_eq2)

lemma piece_of_long: "newline \<notin> set l \<Longrightarrow> n \<le> length l \<Longrightarrow> piece_of n (l @ r) = take n l"
  by (induction n l rule: piece_of.induct) auto

lemma piece_of_end: "newline \<notin> set l \<Longrightarrow> piece_of n l = take n l"
  by (induction n l rule: piece_of.induct) auto

text \<open>
  The buffer while a line is read: it holds a part of it, without newline and NUL, and has room left. It has less than
  $2^{31}$ bytes, so that \<open>BufferFree\<close> is the room that is left (\<open>holds\_BufferFree\<close>); with more, \<open>gzgets\<close> would get a
  negative size.
\<close>

definition holds :: "content \<Rightarrow> string \<Rightarrow> bool" where
  "holds b p \<longleftrightarrow>
     fill b = length p \<and> take (length p) (bytes b) = p \<and> length p + 2 \<le> length (bytes b) \<and> 256 \<le> length (bytes b) \<and>
     length (bytes b) \<le> 2 ^ 30 \<and> \<not> overrun b \<and> nul \<notin> set p"

lemma holds_BufferFree:
  assumes "holds b p"
  shows "BufferFree b = int (length (bytes b) - length p)"
proof -
  define k where "k = int (length (bytes b)) - int (fill b)"
  have k: "0 \<le> k" "k < 2 ^ 31" "k = int (length (bytes b) - length p)" using assms by (auto simp: holds_def k_def of_nat_diff)
  from k(1,2) have "sint (word_of_int k :: 32 word) = k" by (simp add: signed_of_int signed_take_bit_int_eq_self)
  then show ?thesis by (simp only: BufferFree_def k_def [symmetric] k(3) [symmetric])
qed

text \<open>The buffer after a line was read to its newline, which was overwritten.\<close>

definition complete :: "content \<Rightarrow> string \<Rightarrow> bool" where
  "complete b p \<longleftrightarrow>
     fill b = length p + 1 \<and> fill b < length (bytes b) \<and> take (fill b) (bytes b) = p @ [nul] \<and> 256 \<le> length (bytes b) \<and>
     length (bytes b) \<le> 2 ^ 29 \<and> \<not> overrun b \<and> nul \<notin> set p"

lemma cstr_append: "nul \<notin> set p \<Longrightarrow> cstr (p @ nul # r) = p"
  unfolding cstr_def by (subst takeWhile_append2) auto

lemma poke_piece:
  assumes "holds b p" "length t < length (bytes b) - length p"
  shows "poke (fill b) (t @ [nul]) b = b\<lparr>bytes := p @ t @ nul # drop (length p + length t + 1) (bytes b)\<rparr>"
proof -
  have "length p + (length t + 1) \<le> length (bytes b)" using assms by (simp add: holds_def)
  with assms(1) show ?thesis by (simp add: poke_def holds_def add.assoc)
qed

lemma extended:
  assumes "256 \<le> length (bytes b)"
  shows "length (bytes (ExtendBuffer junk b)) = 2 * length (bytes b)"
    and "n \<le> length (bytes b) \<Longrightarrow> take n (bytes (ExtendBuffer junk b)) = take n (bytes b)"
    and "fill (ExtendBuffer junk b) = fill b" "overrun (ExtendBuffer junk b) = overrun b"
  using assms by (auto simp: ExtendBuffer_def ExtendBufferBySize_def)

text \<open>A piece without a newline and a piece that ends with one.\<close>

lemma take_part:
  assumes "holds b p" "length t < length (bytes b) - length p" "nul \<notin> set t" "newline \<notin> set t" "t \<noteq> []" "length (bytes b) \<le> 2 ^ 29"
  shows "fst (take_piece junk t ch b) = last t" "holds (snd (take_piece junk t ch b)) (p @ t)"
    "length (bytes (snd (take_piece junk t ch b))) = 2 * length (bytes b)"
proof -
  define d where "d = drop (length p + length t + 1) (bytes b)"
  have p: "nul \<notin> set (p @ t)" using assms(1,3) by (simp add: holds_def)
  have c: "cstr (p @ t @ nul # d) = p @ t" using cstr_append [OF p] by simp
  have n: "(p @ t @ nul # d) ! (length p + length t - 1) = last t"
    using assms(5) by (cases t rule: rev_cases) (simp_all add: nth_append)
  have last: "last t \<noteq> newline" using assms(4,5) by (metis last_in_set)
  have len: "length p + length t + 1 \<le> length (bytes b)" "256 \<le> length (bytes b)"
    using assms(1,2) by (simp_all add: holds_def)
  define b' where "b' = b\<lparr>bytes := p @ t @ nul # d, fill := length p + length t\<rparr>"
  have b': "length (bytes b') = length (bytes b)" "overrun b' = overrun b" "fill b' = length p + length t" "take (length p + length t) (bytes b') = p @ t"
    using len by (simp_all add: b'_def d_def)
  have take: "take_piece junk t ch b = (last t, ExtendBuffer junk b')"
    unfolding take_piece_def poke_piece [OF assms(1,2), folded d_def] using assms(5) last n by (simp add: c b'_def)
  then show "fst (take_piece junk t ch b) = last t" by simp
  from extended [where b = b' and junk = junk] len b' assms(1,6) p show "holds (snd (take_piece junk t ch b)) (p @ t)"
    "length (bytes (snd (take_piece junk t ch b))) = 2 * length (bytes b)"
    unfolding take holds_def by simp_all
qed

lemma take_end:
  assumes "holds b p" "length t + 1 < length (bytes b) - length p" "nul \<notin> set t" "length (bytes b) \<le> 2 ^ 29"
  shows "fst (take_piece junk (t @ [newline]) ch b) = newline" "complete (snd (take_piece junk (t @ [newline]) ch b)) (p @ t)"
proof -
  define d where "d = drop (length p + length (t @ [newline]) + 1) (bytes b)"
  have nn: "newline \<noteq> nul" by (simp add: newline_def nul_def)
  have p: "nul \<notin> set (p @ t @ [newline])" using assms(1,3) nn by (simp add: holds_def)
  have c: "cstr (p @ t @ newline # nul # d) = p @ t @ [newline]" using cstr_append [OF p] by simp
  have n: "(p @ t @ newline # nul # d) ! (length p + length t) = newline" by (simp add: nth_append)
  have u: "(p @ t @ newline # nul # d)[length p + length t := nul] = p @ t @ nul # nul # d"
    by (simp add: list_update_append)
  have len: "length p + length t + 2 \<le> length (bytes b)" "256 \<le> length (bytes b)"
    using assms(1,2) by (simp_all add: holds_def)
  have "length (t @ [newline]) < length (bytes b) - length p" using assms(2) by simp
  from poke_piece [OF assms(1) this]
  have piece: "poke (fill b) ((t @ [newline]) @ [nul]) b = b\<lparr>bytes := p @ t @ newline # nul # d\<rparr>" by (simp add: d_def)
  have take: "take_piece junk (t @ [newline]) ch b =
      (newline, b\<lparr>bytes := p @ t @ nul # nul # d, fill := length p + length t + 1\<rparr>)"
    unfolding take_piece_def piece using n u by (simp add: c)
  then show "fst (take_piece junk (t @ [newline]) ch b) = newline" by simp
  show "complete (snd (take_piece junk (t @ [newline]) ch b)) (p @ t)"
    unfolding take complete_def using len assms(1,3,4) by (simp add: holds_def d_def) linarith
qed

lemma reads_some:
  assumes "reads gets content" "2 \<le> n" "content f \<noteq> []"
  shows "\<exists>f'. gets n f = (Some (piece_of (nat (n - 1)) (content f)), f') \<and>
    content f' = drop (length (piece_of (nat (n - 1)) (content f))) (content f)"
proof -
  have "fst (gets n f) = Some (piece_of (nat (n - 1)) (content f)) \<and>
      content (snd (gets n f)) = drop (length (piece_of (nat (n - 1)) (content f))) (content f)"
    using assms by (simp add: reads_def Let_def)
  then show ?thesis by (metis prod.collapse)
qed

lemma reads_none:
  assumes "reads gets content" "2 \<le> n" "content f = []"
  shows "\<exists>f'. gets n f = (None, f') \<and> content f' = []"
proof -
  have "fst (gets n f) = None \<and> content (snd (gets n f)) = []"
    using assms by (simp add: reads_def Let_def)
  then show ?thesis by (metis prod.collapse)
qed

lemma holds_free: "holds b p \<Longrightarrow> 2 \<le> BufferFree b"
  by (subst holds_BufferFree) (auto simp: holds_def)

text \<open>One round of the loop that does not end it.\<close>

lemma read_part:
  assumes "reads gets content" "holds b p" "content f = l @ r" "newline \<notin> set l" "nul \<notin> set l" "l \<noteq> []"
    "BufferFree b - 1 \<le> length l \<or> r = []" "length (bytes b) \<le> 2 ^ 29" "length p + length l < 2 ^ 28"
  shows "\<exists>t f' ch'. read_line gets junk ch b f = read_line gets junk ch' (snd (take_piece junk t ch b)) f' \<and> ch' \<noteq> newline \<and>
    t \<noteq> [] \<and> holds (snd (take_piece junk t ch b)) (p @ t) \<and> l @ r = t @ content f' \<and> length t \<le> length l \<and>
    (length (bytes (snd (take_piece junk t ch b))) \<le> 2 ^ 29 \<or> content f' = [])"
proof -
  define n where "n = length (bytes b) - length p"
  have free: "BufferFree b = int n" using holds_BufferFree [OF assms(2)] by (simp add: n_def)
  have n: "2 \<le> n" using holds_free [OF assms(2)] by (simp add: free)
  have nat: "nat (int n - 1) = n - 1" by simp
  define t where "t = take (n - 1) l"
  have fits: "n - 1 \<le> length l \<or> r = []" using assms(7) by (auto simp: free)
  then have "piece_of (n - 1) (l @ r) = t"
    using piece_of_long [OF assms(4), of "n - 1" r] piece_of_end [OF assms(4), of "n - 1"] by (auto simp: t_def)
  with reads_some [OF assms(1) holds_free [OF assms(2)], of f] assms(3,6) obtain f' where
    f': "gets (int n) f = (Some t, f')" "content f' = drop (length t) (l @ r)" unfolding free nat by auto
  have t: "t \<noteq> []" "nul \<notin> set t" "newline \<notin> set t" "length t < n" "length t \<le> length l" "take (length t) l = t"
    using n assms(4-6) by (auto simp: t_def min_def dest: in_set_takeD)
  note part = take_part [OF assms(2) t(4) [unfolded n_def] t(2,3,1) assms(8), of junk ch]
  have last: "last t \<noteq> newline" using t(1,3) by (metis last_in_set)
  have "read_line gets junk ch b f = read_line gets junk (last t) (snd (take_piece junk t ch b)) f'"
    by (subst read_line.simps) (simp add: free f'(1) part(1) last)
  moreover have "l @ r = t @ content f'"
    using t(5,6) by (metis append_take_drop_id f'(2) take_append take_eq_Nil2 diff_is_0_eq append_Nil2 take0)
  moreover have "length (bytes (snd (take_piece junk t ch b))) \<le> 2 ^ 29 \<or> content f' = []"
  proof (cases "n - 1 \<le> length l")
    case True
    then have "length (bytes b) \<le> 2 ^ 28" using assms(9) n by (simp add: n_def)
    then show ?thesis by (simp add: part(3))
  next
    case False
    then show ?thesis using fits by (simp add: f'(2) t_def)
  qed
  ultimately show ?thesis using t part(2) last by blast
qed

lemma read_line_newline:
  assumes "reads gets content" "holds b p" "content f = l @ newline # r" "newline \<notin> set l" "nul \<notin> set l"
    "length (bytes b) \<le> 2 ^ 29" "length p + length l < 2 ^ 28"
  shows "\<exists>b' f'. read_line gets junk ch b f = Some (newline, b', f') \<and> complete b' (p @ l) \<and> content f' = r"
  using assms(2-)
proof (induction "length l" arbitrary: b p f l ch rule: less_induct)
  case less
  show ?case
  proof (cases "int (length l) < BufferFree b - 1")
    case True
    then have "length l < nat (BufferFree b - 1)" by linarith
    from piece_of_short [OF less.prems(3) this] reads_some [OF assms(1) holds_free [OF less.prems(1)], of f] less.prems(2)
    obtain f' where f': "gets (BufferFree b) f = (Some (l @ [newline]), f')" "content f' = r" by auto
    have "length l + 1 < length (bytes b) - length p" using True holds_BufferFree [OF less.prems(1)] by simp
    note fin = take_end [OF less.prems(1) this less.prems(4,5), of junk ch]
    have "read_line gets junk ch b f = Some (newline, snd (take_piece junk (l @ [newline]) ch b), f')"
      by (subst read_line.simps) (simp add: f'(1) fin(1))
    with fin(2) f'(2) show ?thesis by blast
  next
    case False
    with holds_free [OF less.prems(1)] have l: "BufferFree b - 1 \<le> length l" "l \<noteq> []" by auto
    from read_part [OF assms(1) less.prems(1-4) l(2) _ less.prems(5,6), of junk ch] l(1) obtain t f' ch' where
      t: "read_line gets junk ch b f = read_line gets junk ch' (snd (take_piece junk t ch b)) f'" "t \<noteq> []"
      "holds (snd (take_piece junk t ch b)) (p @ t)" "l @ newline # r = t @ content f'" "length t \<le> length l"
      "length (bytes (snd (take_piece junk t ch b))) \<le> 2 ^ 29 \<or> content f' = []" by blast
    from t(4,5) obtain l' where l': "l = t @ l'" "content f' = l' @ newline # r"
      by (metis append_eq_append_conv_if append_take_drop_id)
    from less.hyps [OF _ t(3) l'(2)] l' t(1,2,6) less.prems(3,4,6) show ?thesis by simp
  qed
qed

lemma read_line_end:
  assumes "reads gets content" "holds b p" "content f = l" "newline \<notin> set l" "nul \<notin> set l" "ch \<noteq> newline"
    "l = [] \<or> length (bytes b) \<le> 2 ^ 29" "length p + length l < 2 ^ 28"
  shows "\<exists>ch' b' f'. read_line gets junk ch b f = Some (ch', b', f') \<and> ch' \<noteq> newline \<and> holds b' (p @ l) \<and> content f' = []"
  using assms(2-)
proof (induction "length l" arbitrary: b p f l ch rule: less_induct)
  case less
  show ?case
  proof (cases "l = []")
    case True
    with reads_none [OF assms(1) holds_free [OF less.prems(1)], of f] less.prems(2) obtain f' where
      "gets (BufferFree b) f = (None, f')" "content f' = []" by auto
    with True less.prems(1,5) show ?thesis by (subst read_line.simps) simp
  next
    case False
    from read_part [OF assms(1) less.prems(1), of f l "[]" junk ch] less.prems(2-4,6,7) False obtain t f' ch' where
      t: "read_line gets junk ch b f = read_line gets junk ch' (snd (take_piece junk t ch b)) f'" "ch' \<noteq> newline" "t \<noteq> []"
      "holds (snd (take_piece junk t ch b)) (p @ t)" "l = t @ content f'"
      "length (bytes (snd (take_piece junk t ch b))) \<le> 2 ^ 29 \<or> content f' = []" by auto
    have "length (content f') < length l" using t(3,5) by (metis length_append length_greater_0_conv less_add_same_cancel2)
    moreover have "newline \<notin> set (content f')" "nul \<notin> set (content f')" using less.prems(3,4) t(5) by auto
    moreover have "length (p @ t) + length (content f') < 2 ^ 28"
      using less.prems(7) arg_cong [OF t(5), of length] by simp
    ultimately show ?thesis using less.hyps [OF _ t(4) refl _ _ t(2)] t(1,5,6) by (metis append.assoc)
  qed
qed

section \<open>The lines of a file\<close>

text \<open>The buffer between two calls of the iterator.\<close>

definition buffer_inv :: "content \<Rightarrow> bool" where
  "buffer_inv b \<longleftrightarrow> (bytes b = [] \<and> fill b = 0 \<or> 256 \<le> length (bytes b)) \<and> length (bytes b) \<le> 2 ^ 30 \<and> \<not> overrun b"

lemma buffer_start:
  assumes "buffer_inv b"
  shows "holds (if length (bytes b) = 0 then ExtendBuffer junk b else ResetBuffer b) []"
    "length (bytes b) \<le> 2 ^ 29 \<Longrightarrow> length (bytes (if length (bytes b) = 0 then ExtendBuffer junk b else ResetBuffer b)) \<le> 2 ^ 29"
  using assms by (auto simp: buffer_inv_def holds_def ExtendBuffer_def ExtendBufferBySize_def ResetBuffer_def)

lemma holds_inv: "holds b p \<Longrightarrow> buffer_inv b"
  by (simp add: holds_def buffer_inv_def)

lemma finish_line:
  assumes "complete b p"
  shows "snd (FinishBuffer junk b) = p" "buffer_inv (fst (FinishBuffer junk b))" "length (bytes (fst (FinishBuffer junk b))) \<le> 2 ^ 29"
proof -
  from assms have c: "fill b < length (bytes b)" "take (fill b) (bytes b) = p @ [nul]" "nul \<notin> set p"
    "256 \<le> length (bytes b)" "\<not> overrun b" "length (bytes b) \<le> 2 ^ 29" and k: "fill b = length p + 1" unfolding complete_def by auto
  then have "AddToBuffer junk nul b =
      b\<lparr>bytes := p @ nul # nul # drop (fill b + 1) (bytes b), fill := fill b + 1\<rparr>"
    by (simp add: AddToBuffer_def poke_def)
  with c show "snd (FinishBuffer junk b) = p" "buffer_inv (fst (FinishBuffer junk b))" "length (bytes (fst (FinishBuffer junk b))) \<le> 2 ^ 29"
    by (simp_all add: FinishBuffer_def cstr_append buffer_inv_def k) linarith
qed

lemma iterator_line:
  assumes "reads (gzgets Z) content" "buffer_inv b" "content f = l @ newline # r" "newline \<notin> set l" "nul \<notin> set l"
    "length (bytes b) \<le> 2 ^ 29" "length l < 2 ^ 28"
  shows "\<exists>b' f'. lines_iterator Z errno junk a b f = Some ([Text l], b', f') \<and> buffer_inv b' \<and> content f' = r \<and> length (bytes b') \<le> 2 ^ 29"
proof -
  from read_line_newline [OF assms(1) buffer_start(1) [OF assms(2), of junk] assms(3-5) buffer_start(2) [OF assms(2,6)], where junk = junk and ch = nul] obtain b' f' where
    r: "read_line (gzgets Z) junk nul (if length (bytes b) = 0 then ExtendBuffer junk b else ResetBuffer b) f =
      Some (newline, b', f')" "complete b' l" "content f' = r" using assms(7) by auto
  with finish_line [OF r(2), of junk] show ?thesis
    by (cases "FinishBuffer junk b'") (auto simp: lines_iterator_def simp del: ResetBuffer_def length_0_conv)
qed

lemma iterator_end:
  assumes "reads (gzgets Z) content" "buffer_inv b" "newline \<notin> set (content f)" "nul \<notin> set (content f)"
    "content f = [] \<or> length (bytes b) \<le> 2 ^ 29" "length (content f) < 2 ^ 28"
  shows "\<exists>b' f'. lines_iterator Z errno junk a b f =
      Some (if content f = [] then pushresult Z errno (Some f') None else [a], b', f') \<and> buffer_inv b' \<and> content f' = []"
proof -
  have "nul \<noteq> newline" by (simp add: newline_def nul_def)
  from read_line_end [OF assms(1) buffer_start(1) [OF assms(2), of junk] refl assms(3,4) this
      assms(5) [THEN disj_forward, OF _ buffer_start(2) [OF assms(2)]], where junk = junk] obtain ch b' f' where
    r: "read_line (gzgets Z) junk nul (if length (bytes b) = 0 then ExtendBuffer junk b else ResetBuffer b) f =
      Some (ch, b', f')" "ch \<noteq> newline" "holds b' (content f)" "content f' = []" using assms(6) by auto
  moreover from r(3) have "fill b' = length (content f)" by (simp add: holds_def)
  ultimately show ?thesis using holds_inv [OF r(3)]
    by (auto simp: lines_iterator_def simp del: length_0_conv)
qed

text \<open>
  A loop \<open>for line in file:lines()\<close> of Lua: the iterator is called with the value it returned last, until it
  returns nil. The values of the first \<open>n\<close> rounds, and the buffer after them.
\<close>

fun for_lines :: "'f zlib \<Rightarrow> int \<Rightarrow> (nat \<Rightarrow> char) \<Rightarrow> nat \<Rightarrow> lua_value \<Rightarrow> content \<Rightarrow> 'f \<Rightarrow> (lua_value list \<times> content) option" where
  "for_lines Z errno junk 0 a b f = Some ([], b)"
| "for_lines Z errno junk (Suc n) a b f =
     (case lines_iterator Z errno junk a b f of
        None \<Rightarrow> None
      | Some (vs, b', f') \<Rightarrow>
          if hd vs = Nil then Some ([], b')
          else map_option (\<lambda>(ws, c). (hd vs # ws, c)) (for_lines Z errno junk n (hd vs) b' f'))"

text \<open>What the rounds behind the last complete line give: the value before, if the file does not end with a newline, and \<open>true\<close>
  for ever, if zlib does not report the end as an error.\<close>

definition end_values :: "lua_value \<Rightarrow> string \<Rightarrow> int \<Rightarrow> nat \<Rightarrow> lua_value list" where
  "end_values a tail e n =
     (if tail \<noteq> [] \<and> a = Nil then []
      else (if tail \<noteq> [] then [a] else []) @ (if e = Z_OK then replicate n (Boolean True) else []))"

lemma for_lines_end:
  assumes "reads (gzgets Z) content" "\<And>f. content f = [] \<Longrightarrow> snd (gzerror Z f) = e" "buffer_inv b" "content f = []"
  shows "\<exists>b'. for_lines Z errno junk n a b f = Some (if e = Z_OK then replicate n (Boolean True) else [], b') \<and> buffer_inv b'"
  using assms(3,4)
proof (induction n arbitrary: a b f)
  case 0
  then show ?case by simp
next
  case (Suc n)
  from iterator_end [OF assms(1) Suc.prems(1), of f errno junk a] Suc.prems(2) obtain b' f' where
    i: "lines_iterator Z errno junk a b f = Some (pushresult Z errno (Some f') None, b', f')" "buffer_inv b'" "content f' = []" by auto
  have p: "hd (pushresult Z errno (Some f') None) = (if e = Z_OK then Boolean True else Nil)"
    using assms(2) [OF i(3)] by (cases "gzerror Z f'") (simp add: pushresult_def Let_def)
  from Suc.IH [OF i(2,3), of "Boolean True"] show ?case by (auto simp: i p)
qed

lemma take_replicate_Cons: "take n (x # replicate n x) = replicate n x"
  by (simp flip: replicate_Suc)

lemma for_lines_tail:
  assumes "reads (gzgets Z) content" "\<And>f. content f = [] \<Longrightarrow> snd (gzerror Z f) = e" "buffer_inv b"
    "newline \<notin> set (content f)" "nul \<notin> set (content f)" "length (bytes b) \<le> 2 ^ 29" "length (content f) < 2 ^ 28"
  shows "\<exists>b'. for_lines Z errno junk n a b f = Some (take n (end_values a (content f) e n), b') \<and> buffer_inv b'"
proof (cases "content f = []")
  case True
  with for_lines_end [OF assms(1-3) True, of errno junk n a] show ?thesis by (simp add: end_values_def)
next
  case ne: False
  show ?thesis
  proof (cases n)
    case 0
    with assms(3) show ?thesis by simp
  next
    case (Suc m)
    from iterator_end [OF assms(1,3-5) disjI2 [OF assms(6)] assms(7), of errno junk a] ne obtain b' f' where
      i: "lines_iterator Z errno junk a b f = Some ([a], b', f')" "buffer_inv b'" "content f' = []" by auto
    from for_lines_end [OF assms(1,2) i(2,3), of errno junk m a] i(2) ne show ?thesis
      by (auto simp: Suc i(1) end_values_def take_replicate_Cons)
  qed
qed


text \<open>
  C12. Reading a file line by line, if it has no NUL byte and no line of $2^{28}$ bytes or more, and the buffer has at most $2^{29}$: the iterator
  returns for every call, never writes outside of its buffer, and a loop over it gets the lines that end with a newline,
  in order. If the file does not end with a newline, its last line is lost: the line before appears twice
  instead (or the loop ends, if there is none); and if zlib reports no error at the end of the file,
  the loop goes on for ever with the value true. A NUL byte would hide the rest of its line from the code, which finds the length
  of what it has read with \<open>strlen\<close>; in a larger buffer the room that is left is no positive \<open>int\<close>.
\<close>

theorem lines_of_file:
  assumes "reads (gzgets Z) content" "\<And>f. content f = [] \<Longrightarrow> snd (gzerror Z f) = e"
    and "buffer_inv b" "length (bytes b) \<le> 2 ^ 29"
    and "content f = concat (map (\<lambda>l. l @ [newline]) ls) @ tail" "newline \<notin> set tail" "nul \<notin> set (content f)"
    and "\<forall>l \<in> set ls. newline \<notin> set l" "\<forall>l \<in> set (tail # ls). length l < 2 ^ 28"
  shows "\<exists>b'. for_lines Z errno junk n Nil b f =
      Some (take n (map Text ls @ end_values (last (Nil # map Text ls)) tail e n), b') \<and> \<not> overrun b'"
proof -
  have "\<exists>b'. for_lines Z errno junk n a b f =
      Some (take n (map Text ls @ end_values (last (a # map Text ls)) tail e n), b') \<and> buffer_inv b'" for a
    using assms(3-)
  proof (induction n arbitrary: a b f ls)
    case 0
    then show ?case by simp
  next
    case (Suc n)
    show ?case
    proof (cases ls)
      case Nil
      with for_lines_tail [OF assms(1,2) Suc.prems(1), of f errno junk "Suc n" a] Suc.prems show ?thesis by simp
    next
      case (Cons l ls')
      with Suc.prems(3) have f: "content f = l @ newline # (concat (map (\<lambda>l. l @ [newline]) ls') @ tail)" by simp
      from iterator_line [OF assms(1) Suc.prems(1) f, of errno junk a] Suc.prems(2,5-7) Cons f obtain b' f' where
        i: "lines_iterator Z errno junk a b f = Some ([Text l], b', f')" "buffer_inv b'" "length (bytes b') \<le> 2 ^ 29"
        "content f' = concat (map (\<lambda>l. l @ [newline]) ls') @ tail" by auto
      have "nul \<notin> set (content f')" using Suc.prems(5) unfolding f i(4) by simp
      from Suc.IH [OF i(2-4) Suc.prems(4) this, of "Text l"] Suc.prems(6,7) Cons obtain c where
        c: "for_lines Z errno junk n (Text l) b' f' =
          Some (take n (map Text ls' @ end_values (last (Text l # map Text ls')) tail e n), c)" "buffer_inv c" by auto
      have "take m (end_values v tail e (Suc n)) = take m (end_values v tail e n)" if "m \<le> n" for m v
        using that by (cases m) (auto simp: end_values_def min_def simp del: replicate_Suc)
      with c show ?thesis by (simp add: Cons i(1))
    qed
  qed
  from this [of Nil] show ?thesis by (auto simp: buffer_inv_def)
qed

text \<open>A file that is the text left in it.\<close>

definition text_file :: "int \<Rightarrow> string zlib" where
  "text_file e =
     \<lparr>gzopen = (\<lambda>n m. Some []), gzclose = (\<lambda>f. Z_OK),
      gzgets = (\<lambda>n f. (if f = [] then None else Some (piece_of (nat (n - 1)) f), drop (length (piece_of (nat (n - 1)) f)) f)),
      gzeof = (\<lambda>f. if f = [] then 1 else 0), gzerror = (\<lambda>f. ([], if f = [] then e else 0)), zError = (\<lambda>r. []), strerror = (\<lambda>r. [])\<rparr>"

lemma text_file_reads: "reads (gzgets (text_file e)) (\<lambda>f. f)"
  by (simp add: reads_def text_file_def Let_def)

theorem lines_of_file_witness:
  "\<exists>b. for_lines (text_file Z_STREAM_END) 0 (\<lambda>_. nul) 9 Nil \<lparr>bytes = [], fill = 0, overrun = False\<rparr>
     (''one'' @ [newline] @ ''two'' @ [newline] @ ''three'') = Some ([Text ''one'', Text ''two'', Text ''two''], b)"
  using lines_of_file [OF text_file_reads, of Z_STREAM_END Z_STREAM_END "\<lparr>bytes = [], fill = 0, overrun = False\<rparr>"
      "''one'' @ [newline] @ ''two'' @ [newline] @ ''three''" "[''one'', ''two'']" "''three''" 0 "\<lambda>_. nul" 9]
  by (auto simp: text_file_def buffer_inv_def newline_def nul_def end_values_def Z_OK_def Z_STREAM_END_def)

end
