(* ===== verification/IfEnslave.thy ===== *)
theory IfEnslave
  imports CLib
begin

text \<open>
  The bonding tool (\<^verbatim>\<open>package/network/ifenslave/ifenslave.c\<close>): its command line, and the requests with
  which it attaches interfaces to a bond, detaches them and rolls back. The kernel is a parameter:
  an arbitrary function from the requests made so far and a request to its outcome, an error
  number or a reply. Messages are left out, apart from what \<open>if\_getconfig\<close> shows.
\<close>

unbundle bit_operations_syntax

section \<open>Requests\<close>

type_synonym sockaddr = "nat \<times> 8 word list"
type_synonym ifflags = "16 word"

datatype addr_kind = IFADDR | DSTADDR | BRDADDR | NETMASK

datatype req =
    Get_mtu string | Get_flags string | Get_hwaddr string | Get_addr addr_kind string | Get_metric string
  | Get_conf | Get_drvinfo string
  | Set_flags string ifflags | Set_mtu string int | Set_hwaddr string sockaddr
  | Set_addr addr_kind string sockaddr
  | Bond_enslave bool string string | Bond_release bool string string
  | Bond_change_active bool string string

text \<open>The flag of the last three requests tells the old number of the request from the new one.\<close>

datatype reply =
    Done | Mtu_is int | Flags_are ifflags | Hwaddr_is sockaddr | Addr_is sockaddr | Metric_is int
  | Fw_version string | Names "string list"

type_synonym errno = int
type_synonym kernel = "req list \<Rightarrow> req \<Rightarrow> errno + reply"

text \<open>The kernel answers a request in the part of the structure the request is about.\<close>

fun mtu_in :: "reply \<Rightarrow> int" where "mtu_in (Mtu_is n) = n" | "mtu_in _ = 0"
fun flags_in :: "reply \<Rightarrow> ifflags" where "flags_in (Flags_are f) = f" | "flags_in _ = 0"
fun hwaddr_in :: "reply \<Rightarrow> sockaddr" where "hwaddr_in (Hwaddr_is a) = a" | "hwaddr_in _ = (0, [])"
fun addr_in :: "reply \<Rightarrow> sockaddr" where "addr_in (Addr_is a) = a" | "addr_in _ = (0, [])"
fun version_in :: "reply \<Rightarrow> string" where "version_in (Fw_version v) = v" | "version_in _ = []"
fun names_in :: "reply \<Rightarrow> string list" where "names_in (Names ns) = ns" | "names_in _ = []"

definition EOPNOTSUPP :: errno where "EOPNOTSUPP = 95"

definition IFF_UP :: ifflags where "IFF_UP = 0x1"
definition IFF_MASTER :: ifflags where "IFF_MASTER = 0x400"
definition IFF_SLAVE :: ifflags where "IFF_SLAVE = 0x800"

definition ifname :: "string \<Rightarrow> string" where
  "ifname n = take 16 n"

definition inet_any :: sockaddr where
  "inet_any = (2, replicate 14 0)"

section \<open>State\<close>

datatype report = Shown_flags string ifflags | Shown_addr sockaddr | Shown_hwaddr sockaddr | Unknown_interface string

record ifst =
  reqs :: "req list"
  abi_ver :: int
  hwaddr_set :: bool
  master_mtu :: int
  master_flags :: ifflags
  master_hwaddr :: sockaddr
  slave_mtu :: int
  slave_flags :: ifflags
  slave_hwaddr :: sockaddr
  shown :: "report list"

definition init_ifst :: ifst where
  "init_ifst = \<lparr>reqs = [], abi_ver = 0, hwaddr_set = False, master_mtu = 0, master_flags = 0,
     master_hwaddr = (0, []), slave_mtu = 0, slave_flags = 0, slave_hwaddr = (0, []), shown = []\<rparr>"

definition ioctl :: "kernel \<Rightarrow> req \<Rightarrow> ifst \<Rightarrow> (errno + reply) \<times> ifst" where
  "ioctl K r st = (K (reqs st) r, st\<lparr>reqs := reqs st @ [r]\<rparr>)"

text \<open>A request that only succeeds (0) or fails (-1).\<close>

definition request :: "kernel \<Rightarrow> req \<Rightarrow> ifst \<Rightarrow> int \<times> ifst" where
  "request K r st = (case ioctl K r st of (Inl e, st') \<Rightarrow> (-1, st') | (Inr a, st') \<Rightarrow> (0, st'))"

section \<open>Reading settings\<close>

text \<open>
  The version of the driver interface. \<open>strtoul\<close> with base 0, converted to an \<open>int\<close>, and the part
  of the string behind the number.
\<close>

definition digit_val :: "char \<Rightarrow> nat" where
  "digit_val c =
     (let n = code c in
      if 48 \<le> n \<and> n \<le> 57 then n - 48 else if 97 \<le> n \<and> n \<le> 122 then n - 87
      else if 65 \<le> n \<and> n \<le> 90 then n - 55 else 99)"

definition to_int32 :: "int \<Rightarrow> int" where
  "to_int32 v = (v + 2 ^ 31) mod 2 ^ 32 - 2 ^ 31"

definition strtoul :: "string \<Rightarrow> int \<times> string" where
  "strtoul s =
     (let s1 = dropWhile c_isspace s;
          neg = (s1 \<noteq> [] \<and> hd s1 = CHR ''-'');
          s2 = (if s1 \<noteq> [] \<and> (hd s1 = CHR ''-'' \<or> hd s1 = CHR ''+'') then tl s1 else s1);
          hex = (length s2 \<ge> 3 \<and> s2 ! 0 = CHR ''0'' \<and> (s2 ! 1 = CHR ''x'' \<or> s2 ! 1 = CHR ''X'') \<and> digit_val (s2 ! 2) < 16);
          base = (if hex then 16 else if s2 \<noteq> [] \<and> hd s2 = CHR ''0'' then 8 else 10);
          s3 = (if hex then drop 2 s2 else s2);
          ds = takeWhile (\<lambda>c. digit_val c < base) s3;
          v = foldl (\<lambda>v c. v * base + digit_val c) 0 ds;
          w = (if v \<ge> 2 ^ 64 then 2 ^ 64 - 1 else if neg then (2 ^ 64 - v) mod 2 ^ 64 else v)
      in if ds = [] then (0, s) else (to_int32 (int w), dropWhile (\<lambda>c. digit_val c < base) s3))"

definition get_drv_info :: "kernel \<Rightarrow> string \<Rightarrow> ifst \<Rightarrow> int \<times> ifst" where
  "get_drv_info K m st =
     (case ioctl K (Get_drvinfo (ifname m)) st of
        (Inl e, st') \<Rightarrow> if e = EOPNOTSUPP then (0, st') else (1, st')
      | (Inr a, st') \<Rightarrow>
          (let (v, rest) = strtoul (version_in a); st'' = st'\<lparr>abi_ver := v\<rparr>
           in if rest \<noteq> [] then (1, st'') else (0, st'')))"

text \<open>The requests of the tables \<open>master\_ifra\<close> and \<open>slave\_ifra\<close>, and where their answers go.\<close>

definition master_ifra :: "((string \<Rightarrow> req) \<times> (reply \<Rightarrow> ifst \<Rightarrow> ifst)) list" where
  "master_ifra =
     [(Get_mtu, \<lambda>a st. st\<lparr>master_mtu := mtu_in a\<rparr>),
      (Get_flags, \<lambda>a st. st\<lparr>master_flags := flags_in a\<rparr>),
      (Get_hwaddr, \<lambda>a st. st\<lparr>master_hwaddr := hwaddr_in a\<rparr>)]"

definition slave_ifra :: "((string \<Rightarrow> req) \<times> (reply \<Rightarrow> ifst \<Rightarrow> ifst)) list" where
  "slave_ifra =
     [(Get_mtu, \<lambda>a st. st\<lparr>slave_mtu := mtu_in a\<rparr>),
      (Get_flags, \<lambda>a st. st\<lparr>slave_flags := flags_in a\<rparr>),
      (Get_hwaddr, \<lambda>a st. st\<lparr>slave_hwaddr := hwaddr_in a\<rparr>)]"

fun get_if_settings ::
  "kernel \<Rightarrow> string \<Rightarrow> ((string \<Rightarrow> req) \<times> (reply \<Rightarrow> ifst \<Rightarrow> ifst)) list \<Rightarrow> ifst \<Rightarrow> int \<times> ifst" where
  "get_if_settings K n [] st = (0, st)"
| "get_if_settings K n ((r, put) # ifra) st =
     (case ioctl K (r (ifname n)) st of
        (Inl e, st') \<Rightarrow> (e, st')
      | (Inr a, st') \<Rightarrow> get_if_settings K n ifra (put a st'))"

definition get_slave_flags :: "kernel \<Rightarrow> string \<Rightarrow> ifst \<Rightarrow> int \<times> ifst" where
  "get_slave_flags K s st =
     (case ioctl K (Get_flags (ifname s)) st of
        (Inl e, st') \<Rightarrow> (-1, st')
      | (Inr a, st') \<Rightarrow> (0, st'\<lparr>slave_flags := flags_in a\<rparr>))"

section \<open>Changing settings\<close>

definition set_master_hwaddr :: "kernel \<Rightarrow> string \<Rightarrow> sockaddr \<Rightarrow> ifst \<Rightarrow> int \<times> ifst" where
  "set_master_hwaddr K m a = request K (Set_hwaddr (ifname m) a)"

definition set_slave_hwaddr :: "kernel \<Rightarrow> string \<Rightarrow> sockaddr \<Rightarrow> ifst \<Rightarrow> int \<times> ifst" where
  "set_slave_hwaddr K s a = request K (Set_hwaddr (ifname s) a)"

definition set_slave_mtu :: "kernel \<Rightarrow> string \<Rightarrow> int \<Rightarrow> ifst \<Rightarrow> int \<times> ifst" where
  "set_slave_mtu K s mtu = request K (Set_mtu (ifname s) mtu)"

definition set_if_flags :: "kernel \<Rightarrow> string \<Rightarrow> ifflags \<Rightarrow> ifst \<Rightarrow> int \<times> ifst" where
  "set_if_flags K n f = request K (Set_flags (ifname n) f)"

definition set_if_up :: "kernel \<Rightarrow> string \<Rightarrow> ifflags \<Rightarrow> ifst \<Rightarrow> int \<times> ifst" where
  "set_if_up K n f = set_if_flags K n (f OR IFF_UP)"

definition set_if_down :: "kernel \<Rightarrow> string \<Rightarrow> ifflags \<Rightarrow> ifst \<Rightarrow> int \<times> ifst" where
  "set_if_down K n f = set_if_flags K n (f AND NOT IFF_UP)"

definition clear_if_addr :: "kernel \<Rightarrow> string \<Rightarrow> ifst \<Rightarrow> int \<times> ifst" where
  "clear_if_addr K n = request K (Set_addr IFADDR (ifname n) inet_any)"

definition addr_ifra :: "addr_kind list" where
  "addr_ifra = [IFADDR, DSTADDR, BRDADDR, NETMASK]"

text \<open>An address the master does not have is cleared on the slave.\<close>

fun copy_addrs :: "kernel \<Rightarrow> string \<Rightarrow> string \<Rightarrow> addr_kind list \<Rightarrow> ifst \<Rightarrow> int \<times> ifst" where
  "copy_addrs K m s [] st = (0, st)"
| "copy_addrs K m s (k # ks) st =
     (let (r, st1) = ioctl K (Get_addr k (ifname m)) st;
          a = (case r of Inl e \<Rightarrow> inet_any | Inr b \<Rightarrow> addr_in b);
          (res, st2) = request K (Set_addr k (ifname s) a) st1
      in if res < 0 then (res, st2) else copy_addrs K m s ks st2)"

definition set_if_addr :: "kernel \<Rightarrow> string \<Rightarrow> string \<Rightarrow> ifst \<Rightarrow> int \<times> ifst" where
  "set_if_addr K m s = copy_addrs K m s addr_ifra"

text \<open>The bonding requests are tried with their new numbers first, then with the old ones.\<close>

definition bond_request :: "kernel \<Rightarrow> (bool \<Rightarrow> req) \<Rightarrow> ifst \<Rightarrow> int \<times> ifst" where
  "bond_request K r st =
     (let (res, st1) = request K (r False) st in if res < 0 then request K (r True) st1 else (res, st1))"

section \<open>Attaching and detaching\<close>

definition change_active :: "kernel \<Rightarrow> string \<Rightarrow> string \<Rightarrow> ifst \<Rightarrow> int \<times> ifst" where
  "change_active K m s st =
     (if slave_flags st AND IFF_SLAVE = 0 then (1, st)
      else let (res, st1) = bond_request K (\<lambda>old. Bond_change_active old (ifname m) (ifname s)) st
           in (if res < 0 then 1 else 0, st1))"

definition undo_mtu :: "kernel \<Rightarrow> string \<Rightarrow> ifst \<Rightarrow> ifst" where
  "undo_mtu K s st = snd (set_slave_mtu K s (slave_mtu st) st)"

definition undo_slave_mac :: "kernel \<Rightarrow> string \<Rightarrow> ifst \<Rightarrow> ifst" where
  "undo_slave_mac K s st = undo_mtu K s (snd (set_slave_hwaddr K s (slave_hwaddr st) st))"

definition undo_master_mac :: "kernel \<Rightarrow> string \<Rightarrow> string \<Rightarrow> ifst \<Rightarrow> ifst" where
  "undo_master_mac K m s st =
     undo_mtu K s ((snd (set_master_hwaddr K m (master_hwaddr st) st))\<lparr>hwaddr_set := False\<rparr>)"

text \<open>Where control goes after the part of \<open>enslave\<close> that copies the hardware address.\<close>

datatype goto_label = Go_on | Undo_mtu | Undo_slave_mac | Undo_master_mac

definition copy_hwaddr :: "kernel \<Rightarrow> string \<Rightarrow> string \<Rightarrow> ifst \<Rightarrow> int \<times> goto_label \<times> ifst" where
  "copy_hwaddr K m s st =
     (if hwaddr_set st
      then (if abi_ver st < 1
            then (let (res, st1) = set_slave_hwaddr K s (master_hwaddr st) st
                  in if res \<noteq> 0 then (res, Undo_mtu, st1)
                     else let (res, st2) = set_if_up K s (slave_flags st1) st1
                          in if res \<noteq> 0 then (res, Undo_slave_mac, st2) else (0, Go_on, st2))
            else (0, Go_on, st))
      else (let (res, st1) = (if abi_ver st < 1 then set_if_down K m (master_flags st) st else (0, st))
            in if res \<noteq> 0 then (res, Undo_mtu, st1)
               else let (res, st2) = set_master_hwaddr K m (slave_hwaddr st1) st1
                    in if res \<noteq> 0 then (res, Undo_mtu, st2)
                       else let (res, st3) = (if abi_ver st2 < 1 then set_if_up K m (master_flags st2) st2 else (0, st2))
                            in if res \<noteq> 0 then (res, Undo_master_mac, st3)
                               else (0, Go_on, st3\<lparr>hwaddr_set := True\<rparr>)))"

definition join_bond :: "kernel \<Rightarrow> string \<Rightarrow> string \<Rightarrow> ifst \<Rightarrow> int \<times> ifst" where
  "join_bond K m s st =
     (case copy_hwaddr K m s st of
        (res, Undo_mtu, st1) \<Rightarrow> (res, undo_mtu K s st1)
      | (res, Undo_slave_mac, st1) \<Rightarrow> (res, undo_slave_mac K s st1)
      | (res, Undo_master_mac, st1) \<Rightarrow> (res, undo_master_mac K m s st1)
      | (res, Go_on, st1) \<Rightarrow>
          (let (res, st2) = bond_request K (\<lambda>old. Bond_enslave old (ifname m) (ifname s)) st1
           in if res < 0 then (1, undo_master_mac K m s st2) else (0, st2)))"

definition enslave :: "kernel \<Rightarrow> string \<Rightarrow> string \<Rightarrow> ifst \<Rightarrow> int \<times> ifst" where
  "enslave K m s st =
     (if slave_flags st AND IFF_SLAVE \<noteq> 0 then (1, st)
      else let (res, st1) = set_if_down K s (slave_flags st) st
           in if res \<noteq> 0 then (res, st1)
              else let (res, st2) = (if abi_ver st1 < 2 then set_if_addr K m s st1 else clear_if_addr K s st1)
                   in if res \<noteq> 0 then (res, st2)
                      else let (res, st3) = (if master_mtu st2 \<noteq> slave_mtu st2
                                             then set_slave_mtu K s (master_mtu st2) st2 else (0, st2))
                           in if res \<noteq> 0 then (res, st3) else join_bond K m s st3)"

definition release :: "kernel \<Rightarrow> string \<Rightarrow> string \<Rightarrow> ifst \<Rightarrow> int \<times> ifst" where
  "release K m s st =
     (if slave_flags st AND IFF_SLAVE = 0 then (1, st)
      else let (res, st1) = bond_request K (\<lambda>old. Bond_release old (ifname m) (ifname s)) st
           in if res < 0 then (1, st1)
              else let (res, st2) = (if abi_ver st1 < 1 then set_if_down K s (slave_flags st1) st1 else (0, st1))
                   in (res, snd (set_slave_mtu K s 1500 st2)))"

section \<open>Showing interfaces\<close>

text \<open>The requests whose answers are not shown are made all the same.\<close>

definition if_getconfig :: "kernel \<Rightarrow> string \<Rightarrow> ifst \<Rightarrow> int \<times> ifst" where
  "if_getconfig K n st =
     (case ioctl K (Get_flags n) st of (Inl e, st1) \<Rightarrow> (-1, st1) | (Inr a, st1) \<Rightarrow>
      let st1 = st1\<lparr>shown := shown st1 @ [Shown_flags n (flags_in a)]\<rparr> in
      (case ioctl K (Get_addr IFADDR n) st1 of (Inl e, st2) \<Rightarrow> (-1, st2) | (Inr a, st2) \<Rightarrow>
       let st2 = st2\<lparr>shown := shown st2 @ [Shown_addr (addr_in a)]\<rparr> in
       (case ioctl K (Get_hwaddr n) st2 of (Inl e, st3) \<Rightarrow> (-1, st3) | (Inr a, st3) \<Rightarrow>
        let st3 = st3\<lparr>shown := shown st3 @ [Shown_hwaddr (hwaddr_in a)]\<rparr>
        in (0, foldl (\<lambda>st r. snd (ioctl K r st)) st3
                 [Get_metric n, Get_mtu n, Get_addr DSTADDR n, Get_addr BRDADDR n, Get_addr NETMASK n]))))"

definition show_if :: "kernel \<Rightarrow> string \<Rightarrow> ifst \<Rightarrow> ifst" where
  "show_if K n st =
     (let (res, st1) = if_getconfig K n st
      in if res < 0 then st1\<lparr>shown := shown st1 @ [Unknown_interface n]\<rparr> else st1)"

definition if_print :: "kernel \<Rightarrow> string option \<Rightarrow> ifst \<Rightarrow> ifst" where
  "if_print K n st =
     (case n of
        Some n \<Rightarrow> show_if K n st
      | None \<Rightarrow> (case ioctl K Get_conf st of
                  (Inl e, st1) \<Rightarrow> st1
                | (Inr a, st1) \<Rightarrow> foldl (\<lambda>st n. show_if K n st) st1 (names_in a)))"

section \<open>The command line\<close>

definition longopts :: "(string \<times> char) list" where
  "longopts =
     [(''all-interfaces'', CHR ''a''), (''change-active'', CHR ''c''), (''detach'', CHR ''d''),
      (''force'', CHR ''f''), (''help'', CHR ''h''), (''usage'', CHR ''u''),
      (''verbose'', CHR ''v''), (''version'', CHR ''V'')]"

definition long_option :: "string \<Rightarrow> char" where
  "long_option n =
     (case map_of longopts n of
        Some c \<Rightarrow> c
      | None \<Rightarrow> (case filter (\<lambda>(l, c). prefix_of n l) longopts of [(l, c)] \<Rightarrow> c | _ \<Rightarrow> CHR ''?''))"

text \<open>
  What \<open>getopt\_long\<close> delivers: the options, a question mark for an unknown one, and the other
  arguments in their order. Long options may be abbreviated.
\<close>

fun getopt_long :: "string list \<Rightarrow> string \<times> string list" where
  "getopt_long [] = ([], [])"
| "getopt_long (a # as) =
     (if a = ''--'' then ([], as)
      else let (os, rest) = getopt_long as
           in if prefix_of ''--'' a then (long_option (drop 2 a) # os, rest)
              else if prefix_of ''-'' a \<and> a \<noteq> ''-''
              then (map (\<lambda>c. if c \<in> set ''acdfhuvV'' then c else CHR ''?'') (tl a) @ os, rest)
              else (os, a # rest))"

text \<open>One slave: an error in reading its settings skips it.\<close>

definition slave_op :: "kernel \<Rightarrow> bool \<Rightarrow> string \<Rightarrow> string \<Rightarrow> ifst \<Rightarrow> int \<times> ifst" where
  "slave_op K detach m s st =
     (let (rv, st1) = (if detach then get_slave_flags K s st else get_if_settings K s slave_ifra st)
      in if rv \<noteq> 0 then (rv, st1) else if detach then release K m s st1 else enslave K m s st1)"

text \<open>The loop over the slaves: the status is that of the last one that failed.\<close>

fun each :: "('x \<Rightarrow> 's \<Rightarrow> int \<times> 's) \<Rightarrow> 'x list \<Rightarrow> int \<Rightarrow> 's \<Rightarrow> int \<times> 's" where
  "each op [] res s = (res, s)"
| "each op (x # xs) res s = (let (rv, s') = op x s in each op xs (if rv \<noteq> 0 then rv else res) s')"

definition attach_slaves :: "kernel \<Rightarrow> bool \<Rightarrow> string \<Rightarrow> string list \<Rightarrow> int \<Rightarrow> ifst \<Rightarrow> int \<times> ifst" where
  "attach_slaves K detach m = each (slave_op K detach m)"

definition run_master :: "kernel \<Rightarrow> string \<Rightarrow> string \<Rightarrow> string \<Rightarrow> string list \<Rightarrow> ifst \<Rightarrow> int \<times> ifst" where
  "run_master K os m s ss st =
     (let (res, st1) = get_if_settings K m master_ifra st
      in if res \<noteq> 0 then (res, st1)
         else if master_flags st1 AND IFF_MASTER = 0 then (1, st1)
         else if master_flags st1 AND IFF_UP = 0 then (1, st1)
         else if CHR ''c'' \<in> set os
         then (let (res, st2) = get_slave_flags K s st1
               in if res \<noteq> 0 then (res, st2) else change_active K m s st2)
         else if CHR ''d'' \<in> set os then attach_slaves K True m (s # ss) res st1
         else if fst (master_hwaddr st1) \<noteq> 1 \<and> CHR ''f'' \<notin> set os then (1, st1)
         else attach_slaves K False m (s # ss) res
                (st1\<lparr>hwaddr_set := list_ex (\<lambda>b. b \<noteq> 0) (take 6 (snd (master_hwaddr st1)))\<rparr>))"

definition if_main :: "kernel \<Rightarrow> bool \<Rightarrow> string list \<Rightarrow> int \<times> ifst" where
  "if_main K socket_ok argv =
     (let (os, args) = getopt_long argv; st = init_ifst
      in if CHR ''?'' \<in> set os then (2, st)
         else if length (filter (\<lambda>c. c \<noteq> CHR ''v'') os) > 1 then (2, st)
         else if CHR ''V'' \<in> set os then (0, st)
         else if CHR ''u'' \<in> set os then (0, st)
         else if CHR ''h'' \<in> set os then (0, st)
         else if \<not> socket_ok then (1, st)
         else if CHR ''a'' \<in> set os then (if args = [] then (0, if_print K None st) else (2, st))
         else (case args of
                 [] \<Rightarrow> (2, st)
               | m # ss \<Rightarrow>
                   (let (res, st1) = get_drv_info K m st
                    in if res \<noteq> 0 then (res, st1)
                       else (case ss of
                               [] \<Rightarrow> if CHR ''d'' \<in> set os \<or> CHR ''c'' \<in> set os then (2, st1)
                                     else (0, if_print K (Some m) st1)
                             | s # ss' \<Rightarrow> run_master K os m s ss' st1))))"


section \<open>The specification of attaching: a transaction\<close>

text \<open>
  A step of a transaction is a request whose outcome is ignored, a request that must succeed
  (it may depend on the answers so far), or one that must succeed under one of its two numbers.
  Each step carries the requests that are made instead of the rest of the plan if it fails.
\<close>

datatype tx_step = Look req | Must "req list \<Rightarrow> req" "req list" | Either "bool \<Rightarrow> req" "req list"

definition ok :: "kernel \<Rightarrow> req list \<Rightarrow> req \<Rightarrow> bool" where
  "ok K h r \<longleftrightarrow> \<not> isl (K h r)"

fun transact :: "kernel \<Rightarrow> req list \<Rightarrow> tx_step list \<Rightarrow> bool \<times> req list" where
  "transact K h [] = (True, h)"
| "transact K h (Look r # ps) = transact K (h @ [r]) ps"
| "transact K h (Must f undo # ps) =
     (if ok K h (f h) then transact K (h @ [f h]) ps else (False, h @ f h # undo))"
| "transact K h (Either r undo # ps) =
     (if ok K h (r False) then transact K (h @ [r False]) ps
      else if ok K (h @ [r False]) (r True) then transact K (h @ [r False, r True]) ps
      else (False, h @ r False # r True # undo))"

definition answer_to_last :: "kernel \<Rightarrow> req list \<Rightarrow> sockaddr" where
  "answer_to_last K h = (case K (butlast h) (last h) of Inl e \<Rightarrow> inet_any | Inr a \<Rightarrow> addr_in a)"

definition addr_plan :: "kernel \<Rightarrow> string \<Rightarrow> string \<Rightarrow> addr_kind list \<Rightarrow> tx_step list" where
  "addr_plan K m s ks =
     concat (map (\<lambda>k. [Look (Get_addr k (ifname m)), Must (\<lambda>h. Set_addr k (ifname s) (answer_to_last K h)) []]) ks)"

definition undo_plan :: "string \<Rightarrow> ifst \<Rightarrow> req list" where
  "undo_plan s st = [Set_mtu (ifname s) (slave_mtu st)]"

definition undo_master_plan :: "string \<Rightarrow> string \<Rightarrow> ifst \<Rightarrow> req list" where
  "undo_master_plan m s st = Set_hwaddr (ifname m) (master_hwaddr st) # undo_plan s st"

definition hwaddr_plan :: "string \<Rightarrow> string \<Rightarrow> ifst \<Rightarrow> tx_step list" where
  "hwaddr_plan m s st =
     (let old = abi_ver st < 1; undo = undo_plan s st in
      if hwaddr_set st
      then (if old
            then [Must (\<lambda>_. Set_hwaddr (ifname s) (master_hwaddr st)) undo,
                  Must (\<lambda>_. Set_flags (ifname s) (slave_flags st OR IFF_UP)) (Set_hwaddr (ifname s) (slave_hwaddr st) # undo)]
            else [])
      else (if old then [Must (\<lambda>_. Set_flags (ifname m) (master_flags st AND NOT IFF_UP)) undo] else []) @
           [Must (\<lambda>_. Set_hwaddr (ifname m) (slave_hwaddr st)) undo] @
           (if old then [Must (\<lambda>_. Set_flags (ifname m) (master_flags st OR IFF_UP)) (undo_master_plan m s st)] else []))"

definition join_plan :: "string \<Rightarrow> string \<Rightarrow> ifst \<Rightarrow> tx_step list" where
  "join_plan m s st =
     hwaddr_plan m s st @ [Either (\<lambda>old. Bond_enslave old (ifname m) (ifname s)) (undo_master_plan m s st)]"

definition enslave_plan :: "kernel \<Rightarrow> string \<Rightarrow> string \<Rightarrow> ifst \<Rightarrow> tx_step list" where
  "enslave_plan K m s st =
     [Must (\<lambda>_. Set_flags (ifname s) (slave_flags st AND NOT IFF_UP)) []] @
     (if abi_ver st < 2 then addr_plan K m s addr_ifra else [Must (\<lambda>_. Set_addr IFADDR (ifname s) inet_any) []]) @
     (if master_mtu st \<noteq> slave_mtu st then [Must (\<lambda>_. Set_mtu (ifname s) (master_mtu st)) []] else []) @
     join_plan m s st"

section \<open>Lemmas\<close>

lemma request_eq: "request K r st = (if ok K (reqs st) r then 0 else -1, st\<lparr>reqs := reqs st @ [r]\<rparr>)"
  by (simp add: request_def ioctl_def ok_def split: sum.split)

lemmas op_defs = set_master_hwaddr_def set_slave_hwaddr_def set_slave_mtu_def set_if_flags_def set_if_up_def
  set_if_down_def clear_if_addr_def undo_mtu_def undo_slave_mac_def undo_master_mac_def request_eq

text \<open>What an operation with the plan \<open>ps\<close> leaves: the requests of the transaction, and no other change but the flag.\<close>

definition follows_plan :: "kernel \<Rightarrow> tx_step list \<Rightarrow> ifst \<Rightarrow> int \<times> ifst \<Rightarrow> bool" where
  "follows_plan K ps st r \<longleftrightarrow>
     (fst r = 0 \<longleftrightarrow> fst (transact K (reqs st) ps)) \<and>
     snd r = st\<lparr>reqs := snd (transact K (reqs st) ps), hwaddr_set := hwaddr_set (snd r)\<rparr> \<and>
     (fst r = 0 \<longrightarrow> hwaddr_set (snd r))"

lemma follows_step:
  assumes "ok K (reqs st) (f (reqs st)) \<Longrightarrow> follows_plan K ps (st\<lparr>reqs := reqs st @ [f (reqs st)]\<rparr>) r"
    and "\<not> ok K (reqs st) (f (reqs st)) \<Longrightarrow>
      fst r \<noteq> 0 \<and> snd r = st\<lparr>reqs := reqs st @ f (reqs st) # undo, hwaddr_set := hwaddr_set (snd r)\<rparr>"
  shows "follows_plan K (Must f undo # ps) st r"
  using assms by (cases "ok K (reqs st) (f (reqs st))") (auto simp: follows_plan_def)

lemma join_follows: "follows_plan K (join_plan m s st) st (join_bond K m s st)"
proof (cases st)
  case (fields h abi set mmtu mflags mhw smtu sflags shw out)
  note plan_defs = join_bond_def copy_hwaddr_def join_plan_def hwaddr_plan_def undo_plan_def undo_master_plan_def
    follows_plan_def bond_request_def op_defs Let_def
  show ?thesis unfolding fields
    by (cases set; cases "abi < 1") (simp_all add: plan_defs)
qed

lemma transact_append:
  "transact K h (ps @ qs) = (case transact K h ps of (True, h') \<Rightarrow> transact K h' qs | (False, h') \<Rightarrow> (False, h'))"
  by (induction K h ps rule: transact.induct) simp_all

lemma copy_addrs_follows:
  "copy_addrs K m s ks st =
     (if fst (transact K (reqs st) (addr_plan K m s ks)) then 0 else -1,
      st\<lparr>reqs := snd (transact K (reqs st) (addr_plan K m s ks))\<rparr>)"
proof (induction ks arbitrary: st)
  case Nil
  then show ?case by (simp add: addr_plan_def)
next
  case (Cons k ks)
  let ?g = "Get_addr k (ifname m)"
  have "answer_to_last K (reqs st @ [?g]) = (case K (reqs st) ?g of Inl e \<Rightarrow> inet_any | Inr b \<Rightarrow> addr_in b)"
    by (simp add: answer_to_last_def)
  then show ?case
    by (simp add: ioctl_def request_eq Let_def Cons.IH addr_plan_def)
qed

lemma transact_shift:
  assumes "follows_plan K qs (st\<lparr>reqs := h\<rparr>) r" "transact K (reqs st) ps = (True, h)"
  shows "follows_plan K (ps @ qs) st r"
  using assms by (simp add: follows_plan_def transact_append)

lemma transact_stop:
  assumes "transact K (reqs st) ps = (False, h)" "fst r \<noteq> 0" "snd r = st\<lparr>reqs := h\<rparr>"
  shows "follows_plan K (ps @ qs) st r"
  using assms by (simp add: follows_plan_def transact_append)

lemma enslave_follows:
  assumes "slave_flags st AND IFF_SLAVE = 0"
  shows "follows_plan K (enslave_plan K m s st) st (enslave K m s st)"
proof -
  define down where "down = [Must (\<lambda>_. Set_flags (ifname s) (slave_flags st AND NOT IFF_UP)) []]"
  define addrs where "addrs = (if abi_ver st < 2 then addr_plan K m s addr_ifra else [Must (\<lambda>_. Set_addr IFADDR (ifname s) inet_any) []])"
  define mtu where "mtu = (if master_mtu st \<noteq> slave_mtu st then [Must (\<lambda>_. Set_mtu (ifname s) (master_mtu st)) []] else [])"
  obtain g1 h1 where t1: "transact K (reqs st) down = (g1, h1)" by fastforce
  obtain g2 h2 where t2: "transact K h1 addrs = (g2, h2)" by fastforce
  obtain g3 h3 where t3: "transact K h2 mtu = (g3, h3)" by fastforce
  have join_plan: "join_plan m s (st\<lparr>reqs := h\<rparr>) = join_plan m s st" for h
    by (simp add: join_plan_def hwaddr_plan_def undo_plan_def undo_master_plan_def Let_def)
  have s1: "set_if_down K s (slave_flags st) st = (if g1 then 0 else -1, st\<lparr>reqs := h1\<rparr>)"
    using t1 by (auto simp: op_defs down_def split: if_splits)
  have s2: "(if abi_ver st < 2 then set_if_addr K m s (st\<lparr>reqs := h1\<rparr>) else clear_if_addr K s (st\<lparr>reqs := h1\<rparr>)) =
      (if g2 then 0 else -1, st\<lparr>reqs := h2\<rparr>)"
    using t2 by (auto simp: op_defs addrs_def set_if_addr_def copy_addrs_follows split: if_splits)
  have s3: "(if master_mtu st \<noteq> slave_mtu st then set_slave_mtu K s (master_mtu st) (st\<lparr>reqs := h2\<rparr>) else (0, st\<lparr>reqs := h2\<rparr>)) =
      (if g3 then 0 else -1, st\<lparr>reqs := h3\<rparr>)"
    using t3 by (auto simp: op_defs mtu_def split: if_splits)
  have plan: "enslave_plan K m s st = down @ addrs @ mtu @ join_plan m s st"
    by (simp add: enslave_plan_def down_def addrs_def mtu_def)
  consider "\<not> g1" | "g1" "\<not> g2" | "g1" "g2" "\<not> g3" | "g1" "g2" "g3" by blast
  then show ?thesis
  proof cases
    case 1
    then have "enslave K m s st = (-1, st\<lparr>reqs := h1\<rparr>)" using assms by (simp add: enslave_def s1)
    with 1 t1 show ?thesis unfolding plan by (intro transact_stop) simp_all
  next
    case 2
    then have e: "enslave K m s st = (-1, st\<lparr>reqs := h2\<rparr>)" using assms s2 by (simp add: enslave_def s1)
    have "follows_plan K (addrs @ mtu @ join_plan m s st) (st\<lparr>reqs := h1\<rparr>) (enslave K m s st)"
      using 2 t2 by (intro transact_stop [where h = h2]) (simp_all add: e)
    then show ?thesis unfolding plan using 2 t1 by (intro transact_shift [where h = h1 and qs = "addrs @ mtu @ join_plan m s st"]) simp_all
  next
    case 3
    then have e: "enslave K m s st = (-1, st\<lparr>reqs := h3\<rparr>)" using assms s2 s3
      by (cases "master_mtu st = slave_mtu st") (simp_all add: enslave_def s1)
    have "follows_plan K (mtu @ join_plan m s st) (st\<lparr>reqs := h2\<rparr>) (enslave K m s st)"
      using 3 t3 by (intro transact_stop [where h = h3]) (simp_all add: e)
    then have "follows_plan K (addrs @ mtu @ join_plan m s st) (st\<lparr>reqs := h1\<rparr>) (enslave K m s st)"
      using 3 t2 by (intro transact_shift [where h = h2 and qs = "mtu @ join_plan m s st"]) simp_all
    then show ?thesis unfolding plan using 3 t1 by (intro transact_shift [where h = h1 and qs = "addrs @ mtu @ join_plan m s st"]) simp_all
  next
    case 4
    then have e: "enslave K m s st = join_bond K m s (st\<lparr>reqs := h3\<rparr>)" using assms s2 s3
      by (cases "master_mtu st = slave_mtu st") (simp_all add: enslave_def s1)
    have "follows_plan K (join_plan m s st) (st\<lparr>reqs := h3\<rparr>) (enslave K m s st)"
      using join_follows [of K m s "st\<lparr>reqs := h3\<rparr>"] by (simp add: e join_plan)
    then have "follows_plan K (mtu @ join_plan m s st) (st\<lparr>reqs := h2\<rparr>) (enslave K m s st)"
      using 4 t3 by (intro transact_shift [where h = h3 and qs = "join_plan m s st"]) simp_all
    then have "follows_plan K (addrs @ mtu @ join_plan m s st) (st\<lparr>reqs := h1\<rparr>) (enslave K m s st)"
      using 4 t2 by (intro transact_shift [where h = h2 and qs = "mtu @ join_plan m s st"]) simp_all
    then show ?thesis unfolding plan using 4 t1 by (intro transact_shift [where h = h1 and qs = "addrs @ mtu @ join_plan m s st"]) simp_all
  qed
qed

section \<open>The loop over the slaves\<close>

text \<open>
  The loop relies on one property of the operation it repeats: the log of requests only grows. A
  run that ends with status 0 then contains, for every item, a run of the operation that ended
  with status 0.
\<close>

locale status_loop =
  fixes op :: "'x \<Rightarrow> 's \<Rightarrow> int \<times> 's" and log :: "'s \<Rightarrow> 'r list"
  assumes op_log: "\<exists>rs. log (snd (op x s)) = log s @ rs"
begin

lemma each_log: "\<exists>rs. log (snd (each op xs res s)) = log s @ rs"
proof (induction xs arbitrary: res s)
  case Nil
  then show ?case by simp
next
  case (Cons x xs)
  obtain rs where rs: "log (snd (op x s)) = log s @ rs" using op_log by blast
  obtain rs' where "log (snd (each op (x # xs) res s)) = log (snd (op x s)) @ rs'"
    using Cons.IH by (auto simp: case_prod_beta)
  with rs show ?case by auto
qed

lemma each_zero:
  "fst (each op xs res s) = 0 \<Longrightarrow> res = 0 \<and> (\<forall>x \<in> set xs. \<exists>s1 rs. fst (op x s1) = 0 \<and>
     log (snd (each op xs res s)) = log (snd (op x s1)) @ rs)"
proof (induction xs arbitrary: res s)
  case Nil
  then show ?case by simp
next
  case (Cons x xs)
  let ?res = "if fst (op x s) \<noteq> 0 then fst (op x s) else res"
  have e: "each op (x # xs) res s = each op xs ?res (snd (op x s))" by (simp add: case_prod_beta)
  from Cons.prems have "fst (each op xs ?res (snd (op x s))) = 0" unfolding e .
  from Cons.IH [OF this] have "?res = 0" and
    tail: "\<forall>y \<in> set xs. \<exists>s1 rs. fst (op y s1) = 0 \<and> log (snd (each op (x # xs) res s)) = log (snd (op y s1)) @ rs"
    unfolding e by blast+
  then have "fst (op x s) = 0" "res = 0" by (simp_all split: if_splits)
  moreover obtain rs where "log (snd (each op (x # xs) res s)) = log (snd (op x s)) @ rs"
    using each_log [of xs ?res "snd (op x s)"] unfolding e by blast
  ultimately show ?case using tail by auto
qed

end

lemma transact_grows: "\<exists>rs. snd (transact K h ps) = h @ rs"
  by (induction K h ps rule: transact.induct) auto

lemma transact_either:
  "fst (transact K h (ps @ [Either r undo])) \<Longrightarrow>
     \<exists>h' old. snd (transact K h (ps @ [Either r undo])) = h' @ [r old] \<and> ok K h' (r old)"
  by (auto simp: transact_append split: prod.splits bool.splits if_splits)

lemma reqs_get_if_settings:
  "(\<And>r put a st. (r, put) \<in> set ifra \<Longrightarrow> reqs (put a st) = reqs st) \<Longrightarrow>
     \<exists>rs. reqs (snd (get_if_settings K n ifra st)) = reqs st @ rs"
proof (induction ifra arbitrary: st)
  case Nil
  then show ?case by simp
next
  case (Cons rp ifra)
  obtain r put where rp: "rp = (r, put)" by fastforce
  have IH: "\<exists>rs. reqs (snd (get_if_settings K n ifra st)) = reqs st @ rs" for st
    using Cons.prems by (intro Cons.IH) auto
  show ?case
  proof (cases "K (reqs st) (r (ifname n))")
    case (Inl e)
    then show ?thesis by (simp add: rp ioctl_def)
  next
    case (Inr a)
    let ?st = "st\<lparr>reqs := reqs st @ [r (ifname n)]\<rparr>"
    have "reqs (put a ?st) = reqs st @ [r (ifname n)]" using Cons.prems [of r put] by (simp add: rp)
    moreover obtain rs where "reqs (snd (get_if_settings K n ifra (put a ?st))) = reqs (put a ?st) @ rs"
      using IH by blast
    ultimately show ?thesis using Inr by (simp add: rp ioctl_def)
  qed
qed

lemma follows_status: "follows_plan K ps st r \<Longrightarrow> fst r = 0 \<longleftrightarrow> fst (transact K (reqs st) ps)"
  by (simp only: follows_plan_def)

lemma follows_reqs:
  assumes "follows_plan K ps st r"
  shows "reqs (snd r) = snd (transact K (reqs st) ps)"
proof -
  from assms have "snd r = st\<lparr>reqs := snd (transact K (reqs st) ps), hwaddr_set := hwaddr_set (snd r)\<rparr>"
    by (simp only: follows_plan_def)
  from arg_cong [where f = reqs, OF this] show ?thesis by simp
qed

lemma reqs_enslave: "\<exists>rs. reqs (snd (enslave K m s st)) = reqs st @ rs"
proof (cases "slave_flags st AND IFF_SLAVE = 0")
  case True
  show ?thesis unfolding follows_reqs [OF enslave_follows [OF True]] by (rule transact_grows)
next
  case False
  then show ?thesis by (simp add: enslave_def)
qed

lemma reqs_release: "\<exists>rs. reqs (snd (release K m s st)) = reqs st @ rs"
  by (simp add: release_def bond_request_def op_defs Let_def)

interpretation slaves: status_loop "slave_op K detach m" reqs for K detach m
proof unfold_locales
  fix s st
  have get: "\<exists>rs. reqs (snd (get_if_settings K s slave_ifra st)) = reqs st @ rs"
    by (rule reqs_get_if_settings) (auto simp: slave_ifra_def)
  obtain rv st1 where g: "(if detach then get_slave_flags K s st else get_if_settings K s slave_ifra st) = (rv, st1)"
    by fastforce
  then have "\<exists>rs. reqs st1 = reqs st @ rs"
    using get by (auto simp: get_slave_flags_def ioctl_def split: if_splits sum.splits)
  moreover have "\<exists>rs. reqs (snd (slave_op K detach m s st)) = reqs st1 @ rs"
    unfolding slave_op_def g using reqs_enslave reqs_release by auto
  ultimately show "\<exists>rs. reqs (snd (slave_op K detach m s st)) = reqs st @ rs" by auto
qed


section \<open>Properties\<close>

text \<open>
  C4. Attaching an interface is the transaction of its plan, for every kernel and every version of
  the driver: the requests are those of the plan up to the first one that fails, followed by the
  requests that take back what must be taken back at that point; the status is 0 if and only if
  the whole plan succeeded, and then the hardware address of the master counts as set.
\<close>

theorem enslave_transaction:
  assumes "slave_flags st AND IFF_SLAVE = 0"
    and "transact K (reqs st) (enslave_plan K m s st) = (good, h)"
  shows "(fst (enslave K m s st) = 0 \<longleftrightarrow> good) \<and> reqs (snd (enslave K m s st)) = h \<and>
    (good \<longrightarrow> hwaddr_set (snd (enslave K m s st)))"
  using enslave_follows [OF assms(1), of K m s] follows_reqs [OF enslave_follows [OF assms(1)], of K m s] assms(2)
  by (simp only: follows_plan_def) simp

text \<open>A kernel with the bond \<open>bond0\<close>, driver interface 2, that refuses to attach \<open>eth1\<close>.\<close>

definition demo_kernel :: kernel where
  "demo_kernel h r =
     (case r of
        Get_drvinfo n \<Rightarrow> Inr (Fw_version ''2'')
      | Get_flags n \<Rightarrow> Inr (Flags_are (if n = ''bond0'' then 0x403 else 0x3))
      | Get_mtu n \<Rightarrow> Inr (Mtu_is (if n = ''bond0'' then 9000 else 1500))
      | Get_hwaddr n \<Rightarrow> Inr (Hwaddr_is (1, if n = ''bond0'' then [0, 0, 0, 0, 0, 0] else [2, 0, 0, 7, 0, 1]))
      | Bond_enslave old m s \<Rightarrow> if s = ''eth1'' then Inl 22 else if old then Inr Done else Inl 25
      | _ \<Rightarrow> Inr Done)"

lemma enslave_transaction_witness:
  "reqs (snd (enslave demo_kernel ''bond0'' ''eth1''
      (init_ifst\<lparr>abi_ver := 2, master_mtu := 9000, slave_mtu := 1500, slave_flags := 3\<rparr>))) =
   [Set_flags ''eth1'' 2, Set_addr IFADDR ''eth1'' inet_any, Set_mtu ''eth1'' 9000,
    Set_hwaddr ''bond0'' (0, []), Bond_enslave False ''bond0'' ''eth1'', Bond_enslave True ''bond0'' ''eth1'',
    Set_hwaddr ''bond0'' (0, []), Set_mtu ''eth1'' 1500]"
proof -
  let ?st = "init_ifst\<lparr>abi_ver := 2, master_mtu := 9000, slave_mtu := 1500, slave_flags := 3\<rparr>"
  have f: "slave_flags ?st AND IFF_SLAVE = 0" by (simp add: IFF_SLAVE_def)
  have "transact demo_kernel (reqs ?st) (enslave_plan demo_kernel ''bond0'' ''eth1'' ?st) =
     (False, [Set_flags ''eth1'' 2, Set_addr IFADDR ''eth1'' inet_any, Set_mtu ''eth1'' 9000,
       Set_hwaddr ''bond0'' (0, []), Bond_enslave False ''bond0'' ''eth1'', Bond_enslave True ''bond0'' ''eth1'',
       Set_hwaddr ''bond0'' (0, []), Set_mtu ''eth1'' 1500])"
    by (simp add: init_ifst_def enslave_plan_def join_plan_def hwaddr_plan_def undo_plan_def undo_master_plan_def
        ok_def demo_kernel_def IFF_UP_def ifname_def)
  from enslave_transaction [OF f this] show ?thesis by blast
qed

text \<open>
  C11. Status 0 means that every slave was attached: when the tool ends with 0 after being asked to
  attach slaves, then for each of them the kernel has accepted a request to attach it to the
  master, whatever the kernel answered to the other requests.
\<close>

theorem all_slaves_attached:
  assumes "getopt_long argv = (os, m # s # ss)" "set os \<subseteq> {CHR ''f'', CHR ''v''}"
    and "if_main K True argv = (0, st)"
  shows "\<forall>x \<in> set (s # ss). \<exists>h old rs. reqs st = h @ Bond_enslave old (ifname m) (ifname x) # rs \<and>
    ok K h (Bond_enslave old (ifname m) (ifname x))"
proof -
  have o: "c \<notin> set os" if "c \<in> {CHR ''?'', CHR ''V'', CHR ''u'', CHR ''h'', CHR ''a'', CHR ''c'', CHR ''d''}" for c
    using assms(2) that by auto
  have "\<exists>st0. attach_slaves K False m (s # ss) 0 st0 = (0, st)"
    using assms(3) o
    by (simp add: if_main_def assms(1) run_master_def case_prod_beta Let_def split: if_splits) blast+
  then obtain st0 where a: "each (slave_op K False m) (s # ss) 0 st0 = (0, st)"
    by (auto simp: attach_slaves_def)
  have all: "\<forall>x \<in> set (s # ss). \<exists>s1 rs. fst (slave_op K False m x s1) = 0 \<and>
      reqs st = reqs (snd (slave_op K False m x s1)) @ rs"
    using slaves.each_zero [of K False m "s # ss" 0 st0] unfolding a by simp
  show ?thesis
  proof
    fix x assume "x \<in> set (s # ss)"
    with all obtain s1 rs where
      x: "fst (slave_op K False m x s1) = 0" "reqs st = reqs (snd (slave_op K False m x s1)) @ rs"
      by blast
    obtain rv st1 where g: "get_if_settings K x slave_ifra s1 = (rv, st1)" by fastforce
    have e: "slave_op K False m x s1 = enslave K m x st1" "fst (enslave K m x st1) = 0"
      using x(1) by (auto simp: slave_op_def g split: if_splits)
    then have free: "slave_flags st1 AND IFF_SLAVE = 0" by (auto simp: enslave_def split: if_splits)
    note f = enslave_follows [OF this, of K m x]
    let ?p = "enslave_plan K m x st1"
    obtain ps undo where p: "?p = ps @ [Either (\<lambda>old. Bond_enslave old (ifname m) (ifname x)) undo]"
      by (auto simp: enslave_plan_def join_plan_def)
    have "fst (transact K (reqs st1) ?p)" using follows_status [OF f] e(2) by simp
    then obtain h old where "snd (transact K (reqs st1) ?p) = h @ [Bond_enslave old (ifname m) (ifname x)]"
      "ok K h (Bond_enslave old (ifname m) (ifname x))"
      unfolding p using transact_either by blast
    then show "\<exists>h old rs. reqs st = h @ Bond_enslave old (ifname m) (ifname x) # rs \<and>
        ok K h (Bond_enslave old (ifname m) (ifname x))"
      using x(2) follows_reqs [OF f] unfolding e(1) by auto
  qed
qed

lemma all_slaves_attached_witness:
  "\<exists>st h old rs. if_main demo_kernel True [''--verb'', ''bond0'', ''eth0'', ''eth2''] = (0, st) \<and>
     reqs st = h @ Bond_enslave old ''bond0'' ''eth2'' # rs \<and> ok demo_kernel h (Bond_enslave old ''bond0'' ''eth2'')"
proof -
  have g: "getopt_long [''--verb'', ''bond0'', ''eth0'', ''eth2''] = (''v'', [''bond0'', ''eth0'', ''eth2''])"
    by code_simp
  have v: "strtoul ''2'' = (2, [])"
    by (simp add: strtoul_def c_isspace_def digit_val_def code_def to_int32_def)
  have "fst (if_main demo_kernel True [''--verb'', ''bond0'', ''eth0'', ''eth2'']) = 0"
    unfolding if_main_def g
    by (simp add: get_drv_info_def ioctl_def demo_kernel_def v init_ifst_def run_master_def master_ifra_def
        IFF_MASTER_def IFF_UP_def IFF_SLAVE_def attach_slaves_def slave_op_def slave_ifra_def enslave_def join_bond_def
        copy_hwaddr_def bond_request_def op_defs ok_def ifname_def)
  then obtain st where r: "if_main demo_kernel True [''--verb'', ''bond0'', ''eth0'', ''eth2''] = (0, st)"
    by (metis prod.collapse)
  from all_slaves_attached [OF g _ r] r show ?thesis by (auto simp: ifname_def)
qed

text \<open>
  A slave that cannot be attached costs the master its address: when the master has a hardware
  address and the driver is of version 2, but refuses the first slave, the address counts as not
  set afterwards, and the next slave overwrites the address of the master with its own.
\<close>

theorem refused_slave_resets_master:
  assumes "hwaddr_set st" "abi_ver st \<ge> 2" "slave_flags st AND IFF_SLAVE = 0"
    and K: "\<And>h r. ok K h r \<longleftrightarrow> (\<forall>old. r \<noteq> Bond_enslave old (ifname m) (ifname s1))"
    and "enslave K m s1 st = (res, st1)"
  shows "res = 1 \<and> \<not> hwaddr_set st1 \<and>
    (flags AND IFF_SLAVE = 0 \<longrightarrow>
       Set_hwaddr (ifname m) hw \<in>
         set (drop (length (reqs st1)) (reqs (snd (enslave K m s2 (st1\<lparr>slave_flags := flags, slave_hwaddr := hw\<rparr>))))))"
proof -
  have oks: "ok K h (Set_flags n f)" "ok K h (Set_mtu n i)" "ok K h (Set_hwaddr n a)" "ok K h (Set_addr k n a)"
    "\<not> ok K h (Bond_enslave b (ifname m) (ifname s1))" for h n f i a k b
    by (simp_all add: K)
  have st1: "res = 1 \<and> \<not> hwaddr_set st1 \<and> abi_ver st1 = abi_ver st"
    using assms(1-3,5) by (cases "master_mtu st = slave_mtu st")
      (auto simp: enslave_def join_bond_def copy_hwaddr_def bond_request_def op_defs oks)
  have "Set_hwaddr (ifname m) hw \<in>
         set (drop (length (reqs st1)) (reqs (snd (enslave K m s2 (st1\<lparr>slave_flags := flags, slave_hwaddr := hw\<rparr>)))))"
    if "flags AND IFF_SLAVE = 0"
    using assms(2) st1 that
    by (cases "master_mtu st1 = slave_mtu st1")
      (auto simp: enslave_def join_bond_def copy_hwaddr_def bond_request_def op_defs oks case_prod_beta)
  with st1 show ?thesis by blast
qed


definition refuse :: "string \<Rightarrow> string \<Rightarrow> kernel" where
  "refuse m s h r =
     (case r of Bond_enslave old m' s' \<Rightarrow> if m' = m \<and> s' = s then Inl 22 else Inr Done | _ \<Rightarrow> Inr Done)"

lemma refused_slave_resets_master_witness:
  "Set_hwaddr ''bond0'' (1, [9]) \<in>
     set (drop 6 (reqs (snd (enslave (refuse ''bond0'' ''eth1'') ''bond0'' ''eth2''
       ((snd (enslave (refuse ''bond0'' ''eth1'') ''bond0'' ''eth1'' (init_ifst\<lparr>abi_ver := 2, hwaddr_set := True\<rparr>)))
          \<lparr>slave_flags := 3, slave_hwaddr := (1, [9])\<rparr>)))))"
proof -
  let ?K = "refuse ''bond0'' ''eth1''"
  let ?st = "init_ifst\<lparr>abi_ver := 2, hwaddr_set := True\<rparr>"
  obtain res st1 where e: "enslave ?K ''bond0'' ''eth1'' ?st = (res, st1)" by fastforce
  have K: "ok ?K h r \<longleftrightarrow> (\<forall>old. r \<noteq> Bond_enslave old (ifname ''bond0'') (ifname ''eth1''))" for h r
    by (cases r) (auto simp: ok_def refuse_def ifname_def)
  have "length (reqs st1) = 6"
    using e by (auto simp: init_ifst_def IFF_SLAVE_def enslave_def join_bond_def copy_hwaddr_def bond_request_def op_defs ok_def refuse_def ifname_def)
  moreover have "Set_hwaddr (ifname ''bond0'') (1, [9]) \<in> set (drop (length (reqs st1))
      (reqs (snd (enslave ?K ''bond0'' ''eth2'' (st1\<lparr>slave_flags := 3, slave_hwaddr := (1, [9])\<rparr>)))))"
    using refused_slave_resets_master [OF _ _ _ K e, of 3 "(1, [9])" "''eth2''"]
    by (simp add: init_ifst_def IFF_SLAVE_def)
  ultimately show ?thesis unfolding e by (simp add: ifname_def)
qed

end
