(* ===== verification/IpCalc.thy ===== *)
theory IpCalc
  imports CLib
begin

text \<open>
  The network address calculator (\<^verbatim>\<open>package/network/iproute2/ipnm2nwbc.c\<close>): from an IP address and a
  netmask, or a number of bits, to the network and broadcast addresses. Both loops of the program run
  as long as their counter is not zero, so that they need not end: they are functions into \<open>option\<close>,
  and \<open>None\<close> is a program that does not return.
\<close>

unbundle bit_operations_syntax

section \<open>The program\<close>

text \<open>\<open>n >> 1\<close> rounds towards minus infinity.\<close>

partial_function (option) getbits_loop :: "int \<Rightarrow> int \<Rightarrow> int option" where
  "getbits_loop rc n = (if n = 0 then Some rc else getbits_loop (if n AND 1 \<noteq> 0 then rc + 1 else rc) (n div 2))"

definition getbits :: "int \<Rightarrow> int option" where
  "getbits n = getbits_loop 0 n"

partial_function (option) setbits_loop :: "int \<Rightarrow> int \<Rightarrow> int option" where
  "setbits_loop rc n = (if n = 0 then Some rc else setbits_loop (rc div 2 OR 128) (n - 1))"

definition setbits :: "int \<Rightarrow> int option" where
  "setbits n = setbits_loop 0 n"

text \<open>The four numbers of an address, read with \<open>%d.%d.%d.%d\<close> and printed the same way.\<close>

type_synonym quad = "int list"

definition scan_quad :: "string \<Rightarrow> quad option" where
  "scan_quad s = (case sscanf s ''%d.%d.%d.%d'' of [CInt a, CInt b, CInt c, CInt d] \<Rightarrow> Some [a, b, c, d] | _ \<Rightarrow> None)"

definition scan_prefix :: "string \<Rightarrow> (quad \<times> int) option" where
  "scan_prefix s =
     (case sscanf s ''%d.%d.%d.%d/%d'' of
        [CInt a, CInt b, CInt c, CInt d, CInt n] \<Rightarrow> Some ([a, b, c, d], n) | _ \<Rightarrow> None)"

definition dotted :: "quad \<Rightarrow> string" where
  "dotted q = join CHR ''.'' (map itoa q)"

text \<open>The mask for a number of bits: one number after the other takes up to eight of the bits that are left.\<close>

definition mask_quad :: "int \<Rightarrow> int \<times> int option" where
  "mask_quad n = (if n > 0 then (n - 8, setbits (if n > 8 then 8 else n)) else (n, Some 0))"

definition prefix_mask :: "int \<Rightarrow> quad option" where
  "prefix_mask n0 =
     (let (n1, a) = mask_quad n0; (n2, b) = mask_quad n1; (n3, c) = mask_quad n2; (n4, d) = mask_quad n3
      in those [a, b, c, d])"

definition count_bits :: "quad \<Rightarrow> int option" where
  "count_bits nm = map_option sum_list (those (map getbits nm))"

definition network :: "quad \<Rightarrow> quad \<Rightarrow> quad" where
  "network ip nm = map2 (AND) ip nm"

definition broadcast :: "quad \<Rightarrow> quad \<Rightarrow> quad" where
  "broadcast ip nm = map2 (\<lambda>i m. (i AND m) OR (255 AND NOT m)) ip nm"

definition report :: "bool \<Rightarrow> quad \<Rightarrow> quad \<Rightarrow> int \<Rightarrow> string" where
  "report verbose ip nm nmbits =
     (if verbose then
        ''Network:   '' @ dotted (network ip nm) @ '' / '' @ itoa nmbits @ newline #
        ''Netmask:   '' @ dotted nm @ newline #
        ''Broadcast: '' @ dotted (broadcast ip nm) @ [newline]
      else dotted (network ip nm) @ CHR '' '' # dotted (broadcast ip nm) @ [newline])"

text \<open>
  The function \<open>main\<close>: the exit status and what is written to the standard output. The arguments do not
  include the name of the program.
\<close>

definition ip_main :: "string list \<Rightarrow> (int \<times> string) option" where
  "ip_main argv =
     (let verbose = (argv \<noteq> [] \<and> hd argv = ''-v''); args = (if verbose then tl argv else argv)
      in case args of
           [a, m] \<Rightarrow>
             (case (scan_quad a, scan_quad m) of
                (Some ip, Some nm) \<Rightarrow> map_option (\<lambda>bits. (0, report verbose ip nm bits)) (count_bits nm)
              | _ \<Rightarrow> Some (1, []))
         | [a] \<Rightarrow>
             (case scan_prefix a of
                Some (ip, n) \<Rightarrow> map_option (\<lambda>nm. (0, report verbose ip nm n)) (prefix_mask n)
              | None \<Rightarrow> Some (1, []))
         | _ \<Rightarrow> Some (1, []))"

section \<open>The loops\<close>

lemma getbits_loop_returns:
  assumes "getbits_loop rc n = Some k"
  shows "0 \<le> n"
  using _ assms
proof (rule getbits_loop.raw_induct [where P = "\<lambda>rc n k. 0 \<le> n"])
  fix f :: "int \<Rightarrow> int \<Rightarrow> int option" and rc n k
  assume IH: "\<And>rc n k. f rc n = Some k \<Longrightarrow> 0 \<le> n"
    and k: "(if n = 0 then Some rc else f (if n AND 1 \<noteq> 0 then rc + 1 else rc) (n div 2)) = Some k"
  show "0 \<le> n"
  proof (cases "n = 0")
    case False
    with k have "0 \<le> n div 2" by (intro IH) simp
    then show ?thesis by simp
  qed simp
qed

lemma getbits_loop_nat:
  "0 \<le> n \<Longrightarrow> getbits_loop rc n = Some (rc + int (card {k. bit n k}))"
proof (induction "nat n" arbitrary: n rc rule: less_induct)
  case less
  show ?case
  proof (cases "n = 0")
    case True
    have "\<not> bit n k" for k using True by simp
    then have "{k. bit n k} = {}" by blast
    then show ?thesis unfolding \<open>{k. bit n k} = {}\<close> using True by (simp add: getbits_loop.simps)
  next
    case False
    let ?B = "{k. bit (n div 2) k}"
    have fin: "finite ?B"
    proof (rule finite_subset)
      show "?B \<subseteq> {..<nat n}"
      proof
        fix k assume "k \<in> ?B"
        then have "bit n (Suc k)" by (simp add: bit_Suc)
        then have "2 ^ Suc k \<le> n" using less.prems
          by (metis bit_take_bit_iff linorder_not_le nle_le take_bit_int_eq_self_iff)
        moreover have "int k < 2 ^ k" by (metis less_exp of_nat_less_iff of_nat_numeral of_nat_power)
        ultimately have "int k < n" unfolding power_Suc by linarith
        then show "k \<in> {..<nat n}" by simp
      qed
    qed simp
    have split: "{k. bit n k} = (if n AND 1 \<noteq> 0 then {0} else {}) \<union> Suc ` ?B"
    proof (intro set_eqI)
      fix k
      show "k \<in> {k. bit n k} \<longleftrightarrow> k \<in> (if n AND 1 \<noteq> 0 then {0} else {}) \<union> Suc ` ?B"
        by (cases k) (auto simp: bit_0 bit_Suc and_one_eq odd_iff_mod_2_eq_one)
    qed
    have "card {k. bit n k} = (if n AND 1 \<noteq> 0 then 1 else 0) + card ?B"
      unfolding split using fin by (subst card_Un_disjoint) (auto simp: card_image)
    then show ?thesis
      using less.hyps [of "n div 2" "if n AND 1 \<noteq> 0 then rc + 1 else rc"] less.prems False
      by (subst getbits_loop.simps) auto
  qed
qed

text \<open>
  C28. Counting the bits of a number ends exactly if the number is not negative, and then counts its bits:
  a netmask with a negative number in it makes the program run forever.
\<close>

theorem getbits_ends:
  "getbits n = (if n < 0 then None else Some (int (card {k. bit n k})))"
proof (cases "n < 0")
  case True
  then show ?thesis using getbits_loop_returns [of 0 n] by (cases "getbits n") (auto simp: getbits_def)
next
  case False
  then show ?thesis by (simp add: getbits_def getbits_loop_nat)
qed

section \<open>Masks\<close>

text \<open>The masks that the loop sets are the nine that a byte can hold.\<close>

lemma setbits_loop_step: "n \<noteq> 0 \<Longrightarrow> setbits_loop rc n = setbits_loop (rc div 2 OR 128) (n - 1)"
  by (subst setbits_loop.simps) simp

lemma setbits_loop_0: "setbits_loop rc 0 = Some rc"
  by (subst setbits_loop.simps) simp

lemma byte_cases:
  assumes "0 \<le> m" "m \<le> (8::int)"
  obtains "m = 0" | "m = 1" | "m = 2" | "m = 3" | "m = 4" | "m = 5" | "m = 6" | "m = 7" | "m = 8"
  using assms by linarith

lemma setbits_byte:
  assumes "0 \<le> m" "m \<le> 8"
  shows "setbits m = Some (256 - 2 ^ nat (8 - m))"
  using assms by (cases rule: byte_cases) (simp_all add: setbits_def setbits_loop_step setbits_loop_0)

lemma getbits_loop_step: "n \<noteq> 0 \<Longrightarrow> getbits_loop rc n = getbits_loop (if n AND 1 \<noteq> 0 then rc + 1 else rc) (n div 2)"
  by (subst getbits_loop.simps) simp

lemma getbits_loop_0: "getbits_loop rc 0 = Some rc"
  by (subst getbits_loop.simps) simp

lemma getbits_byte:
  assumes "0 \<le> m" "m \<le> 8"
  shows "getbits (256 - 2 ^ nat (8 - m)) = Some m"
  using assms by (cases rule: byte_cases) (simp_all add: getbits_def getbits_loop_step getbits_loop_0)

text \<open>The bits of a prefix that fall into the byte that starts behind \<open>s\<close> bits.\<close>

definition part :: "int \<Rightarrow> int \<Rightarrow> int" where
  "part s p = max 0 (min 8 (p - s))"

definition byte_mask :: "int \<Rightarrow> int" where
  "byte_mask m = 256 - 2 ^ nat (8 - m)"

lemma part_range: "0 \<le> part s p" "part s p \<le> 8"
  by (auto simp: part_def)

lemma mask_quad_part: "mask_quad n = (if n > 0 then n - 8 else n, Some (byte_mask (part 0 n)))"
proof (cases "n > 0")
  case True
  then have "part 0 n = (if n > 8 then 8 else n)" by (simp add: part_def)
  then show ?thesis using True setbits_byte [of "if n > 8 then 8 else n"] by (simp add: mask_quad_def byte_mask_def)
next
  case False
  then have "part 0 n = 0" by (simp add: part_def)
  then show ?thesis using False by (simp add: mask_quad_def byte_mask_def)
qed

lemma prefix_mask_bytes:
  "prefix_mask p = Some [byte_mask (part 0 p), byte_mask (part 8 p), byte_mask (part 16 p), byte_mask (part 24 p)]"
proof -
  let ?next = "\<lambda>n::int. if n > 0 then n - 8 else n"
  have "part 0 (?next p) = part 8 p" "part 0 (?next (?next p)) = part 16 p"
    "part 0 (?next (?next (?next p))) = part 24 p"
    by (simp_all add: part_def)
  then show ?thesis by (simp add: prefix_mask_def mask_quad_part Let_def)
qed

lemma count_bits_mask:
  assumes "0 \<le> p" "p \<le> 32"
  shows "count_bits [byte_mask (part 0 p), byte_mask (part 8 p), byte_mask (part 16 p), byte_mask (part 24 p)] = Some p"
proof -
  have "part 0 p + (part 8 p + (part 16 p + part 24 p)) = p" using assms by (simp add: part_def)
  then show ?thesis by (simp add: count_bits_def byte_mask_def getbits_byte part_range)
qed

section \<open>Bytes and addresses\<close>

lemma and_byte_mask:
  assumes "0 \<le> x" "x < 256" "0 \<le> m" "m \<le> 8"
  shows "x AND byte_mask m = x div 2 ^ nat (8 - m) * 2 ^ nat (8 - m)"
proof -
  let ?j = "nat (8 - m)"
  have "x AND byte_mask m = x AND (mask 8 AND NOT (mask ?j))"
    using assms(3,4) by (cases rule: byte_cases) (simp_all add: byte_mask_def mask_eq_exp_minus_1)
  also have "\<dots> = (x AND mask 8) AND NOT (mask ?j)" by (simp only: and.assoc)
  also have "x AND mask 8 = x" using assms(1,2) by (simp add: take_bit_eq_mask [symmetric] take_bit_int_eq_self_iff)
  also have "x AND NOT (mask ?j) = push_bit ?j (drop_bit ?j x)" by (rule bit_eqI) (auto simp: bit_simps)
  also have "\<dots> = x div 2 ^ ?j * 2 ^ ?j" by (simp add: push_bit_eq_mult drop_bit_eq_div)
  finally show ?thesis .
qed

lemma or_byte_mask:
  assumes "0 \<le> m" "m \<le> 8"
  shows "(y * 2 ^ nat (8 - m)) OR (255 AND NOT (byte_mask m)) = y * 2 ^ nat (8 - m) + (2 ^ nat (8 - m) - 1)"
proof -
  let ?j = "nat (8 - m)"
  have "255 AND NOT (byte_mask m) = mask ?j"
    using assms by (cases rule: byte_cases) (simp_all add: byte_mask_def mask_eq_exp_minus_1)
  moreover have "push_bit ?j y AND mask ?j = 0" by (rule bit_eqI) (auto simp: bit_simps)
  then have "push_bit ?j y + mask ?j = push_bit ?j y OR mask ?j" by (rule disjunctive_add_eq_or)
  ultimately show ?thesis by (simp add: push_bit_eq_mult mask_eq_exp_minus_1)
qed

text \<open>Rounding down to a multiple of a power of two.\<close>

definition floor2 :: "nat \<Rightarrow> int \<Rightarrow> int" where
  "floor2 j x = x div 2 ^ j * 2 ^ j"

lemma floor2_high:
  assumes "0 \<le> r" "r < 2 ^ b"
  shows "floor2 (b + j) (a * 2 ^ b + r) = floor2 j a * 2 ^ b"
proof -
  have "(a * 2 ^ b + r) div 2 ^ (b + j) = (a * 2 ^ b + r) div 2 ^ b div 2 ^ j"
    by (simp add: power_add zdiv_zmult2_eq)
  also have "(a * 2 ^ b + r) div 2 ^ b = a" using assms by simp
  finally show ?thesis by (simp add: floor2_def power_add)
qed

lemma floor2_low:
  assumes "j \<le> b"
  shows "floor2 j (a * 2 ^ b + r) = a * 2 ^ b + floor2 j r"
proof -
  obtain c where c: "b = j + c" using assms by (auto simp: le_iff_add)
  have "(a * 2 ^ b + r) div 2 ^ j = (a * 2 ^ c * 2 ^ j + r) div 2 ^ j" by (simp add: c power_add algebra_simps)
  also have "\<dots> = a * 2 ^ c + r div 2 ^ j" by simp
  finally show ?thesis by (simp add: floor2_def c power_add algebra_simps)
qed

lemma floor2_0 [simp]: "floor2 0 x = x"
  by (simp add: floor2_def)

text \<open>The 32-bit number of an address.\<close>

fun address_of :: "int \<Rightarrow> quad \<Rightarrow> int" where
  "address_of x [] = x"
| "address_of x (a # q) = address_of (x * 256 + a) q"

definition address :: "quad \<Rightarrow> int" where
  "address q = address_of 0 q"

definition octets :: "quad \<Rightarrow> bool" where
  "octets q \<longleftrightarrow> length q = 4 \<and> (\<forall>x \<in> set q. 0 \<le> x \<and> x < 256)"

lemma address_nested: "address [a, b, c, d] = a * 2 ^ 24 + (b * 2 ^ 16 + (c * 2 ^ 8 + d))"
  by (simp add: address_def)

lemma floor2_byte:
  assumes "0 \<le> x" "x < 256"
  shows "floor2 8 x = 0"
  using assms by (simp add: floor2_def)

lemma floor2_range:
  assumes "0 \<le> x" "x < 256" "0 \<le> m" "m \<le> 8"
  shows "0 \<le> floor2 (nat (8 - m)) x" "floor2 (nat (8 - m)) x + 2 ^ nat (8 - m) \<le> 256"
proof -
  show "0 \<le> floor2 (nat (8 - m)) x" using assms(1) by (simp add: floor2_def pos_imp_zdiv_nonneg_iff)
  define j where "j = nat (8 - m)"
  then have "j \<le> 8" using assms(3) by simp
  then have c: "256 = 2 ^ (8 - j) * (2 ^ j :: int)" by (simp flip: power_add)
  have "x div 2 ^ j * 2 ^ j \<le> x" by (simp add: minus_mod_eq_div_mult [symmetric])
  then have "x div 2 ^ j * 2 ^ j < 2 ^ (8 - j) * 2 ^ j" using assms(2) c by linarith
  then have "x div 2 ^ j + 1 \<le> 2 ^ (8 - j)" by simp
  then have "(x div 2 ^ j + 1) * 2 ^ j \<le> 2 ^ (8 - j) * 2 ^ j" by (rule mult_right_mono) simp
  then show "floor2 (nat (8 - m)) x + 2 ^ nat (8 - m) \<le> 256"
    unfolding c floor2_def j_def [symmetric] by (simp add: algebra_simps)
qed

text \<open>Rounding an address is rounding its bytes.\<close>

lemma address_floor2:
  assumes "octets [a, b, c, d]" "0 \<le> p" "p \<le> 32"
  shows "address [floor2 (nat (8 - part 0 p)) a, floor2 (nat (8 - part 8 p)) b,
           floor2 (nat (8 - part 16 p)) c, floor2 (nat (8 - part 24 p)) d] = floor2 (nat (32 - p)) (address [a, b, c, d])"
    and "2 ^ nat (8 - part 0 p) * 2 ^ 24 + 2 ^ nat (8 - part 8 p) * 2 ^ 16 + 2 ^ nat (8 - part 16 p) * 2 ^ 8 +
           2 ^ nat (8 - part 24 p) = (2 ^ nat (32 - p) :: int) + 2 ^ 24 + 2 ^ 16 + 2 ^ 8"
proof -
  have o: "0 \<le> a" "a < 256" "0 \<le> b" "b < 256" "0 \<le> c" "c < 256" "0 \<le> d" "d < 256"
    using assms(1) by (auto simp: octets_def)
  have r: "0 \<le> b * 2 ^ 16 + (c * 2 ^ 8 + d)" "b * 2 ^ 16 + (c * 2 ^ 8 + d) < 2 ^ 24"
    "0 \<le> c * 2 ^ 8 + d" "c * 2 ^ 8 + d < 2 ^ 16" "d < 2 ^ 8" using o by simp_all
  consider "p \<le> 8" | "8 < p" "p \<le> 16" | "16 < p" "p \<le> 24" | "24 < p" by linarith
  then have "address [floor2 (nat (8 - part 0 p)) a, floor2 (nat (8 - part 8 p)) b,
           floor2 (nat (8 - part 16 p)) c, floor2 (nat (8 - part 24 p)) d] = floor2 (nat (32 - p)) (address [a, b, c, d])
    \<and> 2 ^ nat (8 - part 0 p) * 2 ^ 24 + 2 ^ nat (8 - part 8 p) * 2 ^ 16 + 2 ^ nat (8 - part 16 p) * 2 ^ 8 +
           2 ^ nat (8 - part 24 p) = (2 ^ nat (32 - p) :: int) + 2 ^ 24 + 2 ^ 16 + 2 ^ 8"
  proof cases
    case 1
    then have p: "part 0 p = p" "part 8 p = 0" "part 16 p = 0" "part 24 p = 0" "nat (32 - p) = 24 + nat (8 - p)"
      using assms by (auto simp: part_def)
    show ?thesis unfolding address_nested p floor2_high [OF r(1,2)]
      by (simp add: floor2_byte o power_add)
  next
    case 2
    then have p: "part 0 p = 8" "part 8 p = p - 8" "part 16 p = 0" "part 24 p = 0" "nat (32 - p) = 16 + nat (16 - p)"
      "nat (8 - (p - 8)) = nat (16 - p)" using assms by (auto simp: part_def)
    have "16 + nat (16 - p) \<le> 24" using 2 by simp
    then show ?thesis unfolding address_nested p floor2_low [OF \<open>16 + nat (16 - p) \<le> 24\<close>] floor2_high [OF r(3,4)]
      by (simp add: floor2_byte o power_add)
  next
    case 3
    then have p: "part 0 p = 8" "part 8 p = 8" "part 16 p = p - 16" "part 24 p = 0" "nat (32 - p) = 8 + nat (24 - p)"
      "nat (8 - (p - 16)) = nat (24 - p)" using assms by (auto simp: part_def)
    have l: "8 + nat (24 - p) \<le> 24" "8 + nat (24 - p) \<le> 16" using 3 by simp_all
    show ?thesis unfolding address_nested p floor2_low [OF l(1)] floor2_low [OF l(2)] floor2_high [OF o(7) r(5)]
      by (simp add: floor2_byte o power_add)
  next
    case 4
    then have p: "part 0 p = 8" "part 8 p = 8" "part 16 p = 8" "part 24 p = p - 24"
      "nat (8 - (p - 24)) = nat (32 - p)" using assms by (auto simp: part_def)
    have l: "nat (32 - p) \<le> 24" "nat (32 - p) \<le> 16" "nat (32 - p) \<le> 8" using 4 by simp_all
    show ?thesis unfolding address_nested p floor2_low [OF l(1)] floor2_low [OF l(2)] floor2_low [OF l(3)]
      by simp
  qed
  then show "address [floor2 (nat (8 - part 0 p)) a, floor2 (nat (8 - part 8 p)) b,
           floor2 (nat (8 - part 16 p)) c, floor2 (nat (8 - part 24 p)) d] = floor2 (nat (32 - p)) (address [a, b, c, d])"
    and "2 ^ nat (8 - part 0 p) * 2 ^ 24 + 2 ^ nat (8 - part 8 p) * 2 ^ 16 + 2 ^ nat (8 - part 16 p) * 2 ^ 8 +
           2 ^ nat (8 - part 24 p) = (2 ^ nat (32 - p) :: int) + 2 ^ 24 + 2 ^ 16 + 2 ^ 8"
    by blast+
qed

section \<open>The arguments\<close>

lemma quad_format:
  "parse_format ''%d.%d.%d.%d'' = [ConvD, Literal CHR ''.'', ConvD, Literal CHR ''.'', ConvD, Literal CHR ''.'', ConvD]"
  "parse_format ''%d.%d.%d.%d/%d'' =
     [ConvD, Literal CHR ''.'', ConvD, Literal CHR ''.'', ConvD, Literal CHR ''.'', ConvD, Literal CHR ''/'', ConvD]"
  by code_simp+

lemma not_digit: "\<not> c_isdigit CHR ''.''" "\<not> c_isdigit CHR ''/''"
  by code_simp+

lemma dotted4: "dotted [a, b, c, d] = itoa a @ CHR ''.'' # itoa b @ CHR ''.'' # itoa c @ CHR ''.'' # itoa d"
  by (simp add: dotted_def)

lemma scan_quad_dotted: "scan_quad (dotted [a, b, c, d]) = Some [a, b, c, d]"
  using scan_ConvD [of "[]" "[]" d]
  unfolding scan_quad_def sscanf_def quad_format by (simp add: dotted4 scan_ConvD not_digit del: scan.simps(4))

lemma scan_prefix_dotted: "scan_prefix (dotted [a, b, c, d] @ CHR ''/'' # itoa n) = Some ([a, b, c, d], n)"
  using scan_ConvD [of "[]" "[]" n]
  unfolding scan_prefix_def sscanf_def quad_format by (simp add: dotted4 scan_ConvD not_digit del: scan.simps(4))

lemma dotted_not_v: "dotted [a, b, c, d] @ s \<noteq> ''-v''"
proof
  assume "dotted [a, b, c, d] @ s = ''-v''"
  moreover have "CHR ''.'' \<in> set (dotted [a, b, c, d] @ s)" by (simp add: dotted4)
  ultimately show False by (simp only:) simp
qed

lemma digits_unique:
  assumes "a * B + r = a' * B + r'" "0 \<le> r" "r < B" "0 \<le> r'" "r' < (B::int)"
  shows "a = a' \<and> r = r'"
proof -
  have "(a * B + r) div B = a" "(a' * B + r') div B = a'" using assms(2-5) by simp_all
  with assms(1) show ?thesis by simp
qed

lemma address_inject:
  assumes "octets q" "octets q'" "address q = address q'"
  shows "q = q'"
proof -
  obtain a b c d where q: "q = [a, b, c, d]" using assms(1)
    by (auto simp: octets_def length_Suc_conv eval_nat_numeral)
  obtain a' b' c' d' where q': "q' = [a', b', c', d']" using assms(2)
    by (auto simp: octets_def length_Suc_conv eval_nat_numeral)
  have o: "0 \<le> b" "b < 256" "0 \<le> c" "c < 256" "0 \<le> d" "d < 256" "0 \<le> b'" "b' < 256" "0 \<le> c'" "c' < 256"
    "0 \<le> d'" "d' < 256" using assms(1,2) by (auto simp: octets_def q q')
  have *: "a * 2 ^ 24 + (b * 2 ^ 16 + (c * 2 ^ 8 + d)) = a' * 2 ^ 24 + (b' * 2 ^ 16 + (c' * 2 ^ 8 + d'))"
    using assms(3) by (simp only: q q' address_nested)
  have 1: "a = a' \<and> b * 2 ^ 16 + (c * 2 ^ 8 + d) = b' * 2 ^ 16 + (c' * 2 ^ 8 + d')"
    by (rule digits_unique [OF *]) (use o in simp_all)
  have 2: "b = b' \<and> c * 2 ^ 8 + d = c' * 2 ^ 8 + d'"
    by (rule digits_unique [OF conjunct2 [OF 1]]) (use o in simp_all)
  have 3: "c = c' \<and> d = d'"
    by (rule digits_unique [OF conjunct2 [OF 2]]) (use o in simp_all)
  from 1 2 3 show ?thesis by (simp add: q q')
qed

definition mask_bytes :: "int \<Rightarrow> quad" where
  "mask_bytes p = [byte_mask (part 0 p), byte_mask (part 8 p), byte_mask (part 16 p), byte_mask (part 24 p)]"

lemma mask_bytes:
  assumes "0 \<le> p" "p \<le> 32"
  shows "octets (mask_bytes p)" "address (mask_bytes p) = 2 ^ 32 - 2 ^ nat (32 - p)"
proof -
  have "0 \<le> byte_mask (part s p) \<and> byte_mask (part s p) < 256" for s
    using part_range [of s p] by (cases "part s p" rule: byte_cases) (simp_all add: byte_mask_def)
  then show "octets (mask_bytes p)" by (auto simp: octets_def mask_bytes_def)
  have "octets [0, 0, 0, 0]" by (simp add: octets_def)
  from address_floor2(2) [OF this assms] show "address (mask_bytes p) = 2 ^ 32 - 2 ^ nat (32 - p)"
    by (simp add: mask_bytes_def address_nested byte_mask_def algebra_simps)
qed

lemma network_bytes:
  assumes "octets [a, b, c, d]"
  shows "network [a, b, c, d] (mask_bytes p) =
      [floor2 (nat (8 - part 0 p)) a, floor2 (nat (8 - part 8 p)) b, floor2 (nat (8 - part 16 p)) c, floor2 (nat (8 - part 24 p)) d]"
    and "broadcast [a, b, c, d] (mask_bytes p) =
      [floor2 (nat (8 - part 0 p)) a + (2 ^ nat (8 - part 0 p) - 1), floor2 (nat (8 - part 8 p)) b + (2 ^ nat (8 - part 8 p) - 1),
       floor2 (nat (8 - part 16 p)) c + (2 ^ nat (8 - part 16 p) - 1), floor2 (nat (8 - part 24 p)) d + (2 ^ nat (8 - part 24 p) - 1)]"
  using assms by (simp_all add: network_def broadcast_def mask_bytes_def octets_def and_byte_mask or_byte_mask part_range floor2_def)

text \<open>
  C27. For an address and a netmask whose first \<open>p\<close> bits are set, given either as a mask or as the number
  \<open>p\<close>, the program prints the same: the network address is the address rounded down to a multiple of
  \<open>2 ^ (32 - p)\<close>, and the broadcast address is the last of the \<open>2 ^ (32 - p)\<close> addresses from there.
\<close>

theorem ipcalc_addresses:
  assumes "octets ip" "octets nm" "0 \<le> p" "p \<le> 32" "address nm = 2 ^ 32 - 2 ^ nat (32 - p)"
  shows "\<exists>nw bc. octets nw \<and> octets bc \<and>
    address nw = address ip div 2 ^ nat (32 - p) * 2 ^ nat (32 - p) \<and>
    address bc = address nw + 2 ^ nat (32 - p) - 1 \<and>
    (\<forall>args \<in> {[dotted ip, dotted nm], [dotted ip @ CHR ''/'' # itoa p]}.
       ip_main args = Some (0, dotted nw @ CHR '' '' # dotted bc @ [newline]) \<and>
       ip_main (''-v'' # args) = Some (0,
         ''Network:   '' @ dotted nw @ '' / '' @ itoa p @ newline #
         ''Netmask:   '' @ dotted nm @ newline #
         ''Broadcast: '' @ dotted bc @ [newline]))"
proof -
  obtain a b c d where ip: "ip = [a, b, c, d]" using assms(1)
    by (auto simp: octets_def length_Suc_conv eval_nat_numeral)
  from mask_bytes [OF assms(3,4)] assms(2,5) have nm: "nm = mask_bytes p"
    by (intro address_inject) simp_all
  let ?nw = "network ip nm" and ?bc = "broadcast ip nm"
  note o = assms(1) [unfolded ip]
  note net = network_bytes [OF o, of p]
  have args: "scan_quad (dotted ip) = Some ip" "scan_quad (dotted nm) = Some nm"
    "scan_prefix (dotted ip @ CHR ''/'' # itoa p) = Some (ip, p)"
    by (simp_all add: ip nm mask_bytes_def scan_quad_dotted scan_prefix_dotted)
  have bits: "count_bits nm = Some p" "prefix_mask p = Some nm"
    using count_bits_mask [OF assms(3,4)] by (simp_all add: nm mask_bytes_def prefix_mask_bytes)
  have v: "dotted ip \<noteq> ''-v''" "dotted ip @ s \<noteq> ''-v''" for s
    using dotted_not_v [of a b c d "[]"] dotted_not_v [of a b c d s] by (simp_all add: ip)
  have out: "\<forall>args \<in> {[dotted ip, dotted nm], [dotted ip @ CHR ''/'' # itoa p]}.
      ip_main args = Some (0, report False ip nm p) \<and> ip_main (''-v'' # args) = Some (0, report True ip nm p)"
    by (simp add: ip_main_def args bits v)
  have x: "0 \<le> a" "a < 256" "0 \<le> b" "b < 256" "0 \<le> c" "c < 256" "0 \<le> d" "d < 256"
    using o by (auto simp: octets_def)
  note bounds = floor2_range [OF x(1,2) part_range] floor2_range [OF x(3,4) part_range]
    floor2_range [OF x(5,6) part_range] floor2_range [OF x(7,8) part_range]
  have pos: "(1::int) \<le> 2 ^ k" for k by simp
  have "octets ?nw" using bounds [of _ p] pos unfolding octets_def ip nm net(1) by (simp, smt (verit, best))
  moreover have "octets ?bc" using bounds [of _ p] pos unfolding octets_def ip nm net(2) by (simp, smt (verit, best))
  moreover have nw: "address ?nw = address ip div 2 ^ nat (32 - p) * 2 ^ nat (32 - p)"
    using address_floor2(1) [OF o assms(3,4)] by (simp only: ip nm net(1) floor2_def)
  moreover have "address ?bc = address ?nw + 2 ^ nat (32 - p) - 1"
    using address_floor2(2) [OF o assms(3,4)] by (simp add: ip nm net address_nested algebra_simps)
  ultimately show ?thesis using out unfolding report_def if_True if_False by blast
qed

theorem ipcalc_addresses_witness:
  "\<exists>nw bc. ip_main [''195.170.70.72/25''] = Some (0, dotted nw @ CHR '' '' # dotted bc @ [newline]) \<and>
     address bc = address nw + 127"
proof -
  have o: "octets [195, 170, 70, 72]" "octets [255, 255, 255, 128]" by (simp_all add: octets_def)
  have m: "address [255, 255, 255, 128] = 2 ^ 32 - 2 ^ nat (32 - 25)" by (simp add: address_nested)
  have s: "dotted [195, 170, 70, 72] @ CHR ''/'' # itoa 25 = ''195.170.70.72/25''" by code_simp
  have r: "(0::int) \<le> 25" "(25::int) \<le> 32" by simp_all
  from ipcalc_addresses [OF o r m] obtain nw bc where bc: "address bc = address nw + 2 ^ nat (32 - 25) - 1"
    and "\<forall>args \<in> {[dotted [195, 170, 70, 72], dotted [255, 255, 255, 128]], [''195.170.70.72/25'']}.
      ip_main args = Some (0, dotted nw @ CHR '' '' # dotted bc @ [newline])"
    unfolding s by blast
  then have "ip_main [''195.170.70.72/25''] = Some (0, dotted nw @ CHR '' '' # dotted bc @ [newline])"
    by blast
  moreover from bc have "address bc = address nw + 127" by simp
  ultimately show ?thesis by blast
qed

end
