(* ===== verification/SerPnp.thy ===== *)
theory SerPnp
  imports CLib
begin

text \<open>
  The probe for serial plug and play devices (\<^verbatim>\<open>package/base/serpnp/serpnp.c\<close>): framing of the
  identification on the serial line, parsing of its fields, and the table of mouse drivers. Bytes are words
  of eight bits; \<open>char\<close> is signed, as on the machines the program runs on.
\<close>

unbundle bit_operations_syntax

type_synonym byte = "8 word"

definition byte_of :: "char \<Rightarrow> byte" where
  "byte_of c = of_nat (code c)"

definition bytes :: "string \<Rightarrow> byte list" where
  "bytes s = map byte_of s"

section \<open>The table of drivers\<close>

definition pnpsymtab :: "(string \<times> string) list" where
  "pnpsymtab =
     [(''MSH0001'', ''-ms3''), (''MSH0004'', ''-ms3''), (''KYEEZ00'', ''-ms''), (''KYE0001'', ''-ms''),
      (''KYE0002'', ''-ms''), (''KYE0003'', ''-ms3''), (''LGI800'', ''-ms''), (''LGI800C'', ''-ms3''),
      (''LGI8033'', ''-ms3''), (''LGI8050'', ''-ms3''), (''LGI8051'', ''-ms3''), (''LGI8001'', ''-ms''),
      (''A4W0005'', ''-ms3''), (''PEC9802'', ''-ms3''), (''PNP0F01'', ''-ms''), (''PNP0F04'', ''-msc''),
      (''PNP0F05'', ''-msc''), (''PNP0F08'', ''-mman''), (''PNP0F09'', ''-ms''), (''PNP0F0A'', ''-ms''),
      (''PNP0F0B'', ''-ms''), (''PNP0F0C'', ''-ms''), (''PNP0F0F'', ''-ms''), (''PNP0F17'', ''-mman'')]"

text \<open>\<open>strncmp(a, b, n) == 0\<close> for a C string \<open>a\<close> and \<open>b\<close> in memory.\<close>

fun strncmp_eq :: "nat \<Rightarrow> byte list \<Rightarrow> byte list \<Rightarrow> bool" where
  "strncmp_eq 0 a b = True"
| "strncmp_eq (Suc n) a b =
     (let x = (case a of [] \<Rightarrow> 0 | x # _ \<Rightarrow> x); y = hd b
      in x = y \<and> (x = 0 \<or> strncmp_eq n (tl a) (tl b)))"

definition mouse_driver :: "byte list \<Rightarrow> nat \<Rightarrow> string option" where
  "mouse_driver eisaid n = map_option snd (find (\<lambda>(name, drv). strncmp_eq n (bytes name) eisaid) pnpsymtab)"

section \<open>The identification\<close>

text \<open>A field is a position in the buffer and a length.\<close>

record pnpid =
  revision :: int
  eisaid :: "nat \<times> nat"
  serial :: "(nat \<times> nat) option"
  devclass :: "(nat \<times> nat) option"
  compat :: "(nat \<times> nat) option"
  description :: "(nat \<times> nat) option"

text \<open>
  The check sum of the bytes as they came in, and the bytes after adding the offset. The two bytes of the
  revision are not shifted.
\<close>

definition pnp_offset :: "byte list \<Rightarrow> byte" where
  "pnp_offset buf = 0x28 - buf ! 0"

definition pnp_sum :: "byte list \<Rightarrow> nat \<Rightarrow> int" where
  "pnp_sum buf len = (\<Sum>i \<leftarrow> [0..<len - 3]. sint (buf ! i)) + sint (buf ! (len - 1))"

definition normalize :: "byte list \<Rightarrow> nat \<Rightarrow> byte list" where
  "normalize buf len =
     (let offset = pnp_offset buf; b = map (\<lambda>x. x + offset) (take len buf) @ drop len buf
      in b[1 := b ! 1 - offset, 2 := b ! 2 - offset])"

definition pnp_revision :: "byte list \<Rightarrow> int" where
  "pnp_revision b = push_bit 6 (sint (b ! 1) AND 0x3F) OR (sint (b ! 2) AND 0x3F)"

definition pnp_eisaid :: "byte list \<Rightarrow> nat \<times> nat" where
  "pnp_eisaid b = (3, if b ! 9 = byte_of CHR '')'' then 6 else 7)"

text \<open>The loop that looks for the end of a field.\<close>

function skip_to :: "byte list \<Rightarrow> nat \<Rightarrow> byte \<Rightarrow> nat \<Rightarrow> nat" where
  "skip_to b len c i = (if i < len then if b ! i = c then i else skip_to b len c (i + 1) else i)"
  by pat_completeness auto
termination by (relation "measure (\<lambda>(b, len, c, i). len - i)") auto

declare skip_to.simps [simp del]

definition field_end :: "byte list \<Rightarrow> nat \<Rightarrow> byte \<Rightarrow> nat \<Rightarrow> nat" where
  "field_end b len c j = (let i = skip_to b len c j in if i \<ge> len then i - 3 else i)"

definition backslash :: byte where "backslash = byte_of (CHR 0x5C)"

definition parse_serial :: "byte list \<Rightarrow> nat \<Rightarrow> nat \<times> pnpid \<Rightarrow> nat \<times> pnpid" where
  "parse_serial b len = (\<lambda>(i, d).
     if b ! i = backslash
     then let j = i + 1; e = field_end b len backslash j in (e, if e = j + 8 then d\<lparr>serial := Some (j, 8)\<rparr> else d)
     else (i, d))"

definition parse_class :: "byte list \<Rightarrow> nat \<Rightarrow> nat \<times> pnpid \<Rightarrow> nat \<times> pnpid" where
  "parse_class b len = (\<lambda>(i, d).
     if b ! i = backslash
     then let j = i + 1; e = field_end b len backslash j
          in (e, if e > j + 1 then d\<lparr>devclass := Some (j, e - j)\<rparr> else d)
     else (i, d))"

definition parse_compat :: "byte list \<Rightarrow> nat \<Rightarrow> nat \<times> pnpid \<Rightarrow> nat \<times> pnpid" where
  "parse_compat b len = (\<lambda>(i, d).
     if b ! i = backslash
     then let j = (if b ! (i + 1) = byte_of CHR ''*'' then i + 2 else i + 1); e = field_end b len backslash (i + 1)
          in (e, if e > j + 1 then d\<lparr>compat := Some (j, e - j)\<rparr> else d)
     else (i, d))"

definition parse_description :: "byte list \<Rightarrow> nat \<Rightarrow> nat \<times> pnpid \<Rightarrow> nat \<times> pnpid" where
  "parse_description b len = (\<lambda>(i, d).
     if b ! i = backslash
     then let j = i + 1; e = field_end b len (byte_of CHR '';'') j
          in (e, if e > j + 1 then d\<lparr>description := Some (j, e - j)\<rparr> else d)
     else (i, d))"

definition parse_options :: "byte list \<Rightarrow> nat \<Rightarrow> pnpid \<Rightarrow> pnpid" where
  "parse_options b len d =
     snd (parse_description b len (parse_compat b len (parse_class b len (parse_serial b len (10, d)))))"

definition hex_digit :: "int \<Rightarrow> byte" where
  "hex_digit n = byte_of (''0123456789ABCDEF'' ! nat n)"

text \<open>The check sum is only looked at if there is an optional field; a wrong one is reported, but not an error.\<close>

definition check_sum :: "byte list \<Rightarrow> nat \<Rightarrow> int \<Rightarrow> pnpid \<Rightarrow> bool option" where
  "check_sum b len n d =
     (if serial d \<noteq> None \<or> devclass d \<noteq> None \<or> compat d \<noteq> None \<or> description d \<noteq> None
      then Some (b ! (len - 3) = hex_digit ((n AND 0xFF) div 16) \<and> b ! (len - 2) = hex_digit ((n AND 0xFF) mod 16))
      else None)"

definition pnpparse :: "byte list \<Rightarrow> nat \<Rightarrow> byte list \<times> pnpid \<times> bool option" where
  "pnpparse buf len =
     (let b = normalize buf len;
          d = parse_options b len \<lparr>revision = pnp_revision b, eisaid = pnp_eisaid b, serial = None,
                 devclass = None, compat = None, description = None\<rparr>
      in (b, d, check_sum b len (pnp_sum buf len) d))"

section \<open>The serial line\<close>

text \<open>The bytes that arrive; the list ends where the line is silent for too long.\<close>

fun wait_begin :: "byte list \<Rightarrow> (byte \<times> byte list) option" where
  "wait_begin [] = None"
| "wait_begin (c # input) = (if c = 0x08 \<or> c = 0x28 then Some (c, input) else wait_begin input)"

fun read_id :: "byte \<Rightarrow> byte list \<Rightarrow> byte list \<Rightarrow> byte list option" where
  "read_id stop buf [] = Some buf"
| "read_id stop buf (c # input) =
     (if c = stop then Some (buf @ [c])
      else if length buf + 1 \<ge> 256 then None else read_id stop (buf @ [c]) input)"

datatype device_class = Class "byte list" | Mouse string | Unknown

text \<open>What the program reports: the device, its class, the description, and whether the check sum is right.\<close>

datatype outcome = Exit int | Report "byte list" device_class "byte list option" "bool option"

definition field_text :: "byte list \<Rightarrow> nat \<times> nat \<Rightarrow> byte list" where
  "field_text b f = takeWhile (\<lambda>c. c \<noteq> 0) (take (snd f) (drop (fst f) b))"

definition report :: "byte list \<Rightarrow> pnpid \<Rightarrow> bool option \<Rightarrow> outcome" where
  "report b d sum_ok =
     Report (field_text b (eisaid d))
       (case devclass d of
          Some f \<Rightarrow> Class (field_text b f)
        | None \<Rightarrow> (case mouse_driver (drop (fst (eisaid d)) b) (snd (eisaid d)) of
                    Some drv \<Rightarrow> Mouse drv | None \<Rightarrow> Unknown))
       (case description d of Some f \<Rightarrow> if snd f > 9 then Some (field_text b f) else None | None \<Rightarrow> None)
       sum_ok"

text \<open>\<open>junk\<close> is what the buffer of 256 bytes holds at the start.\<close>

definition sp_main :: "byte list \<Rightarrow> byte list \<Rightarrow> outcome" where
  "sp_main junk input =
     (case wait_begin input of
        None \<Rightarrow> Exit 0
      | Some (c, input') \<Rightarrow>
          (case read_id (c + 1) [c] input' of
             None \<Rightarrow> Exit 1
           | Some buf \<Rightarrow>
               (let len = length buf; (b, d, ok) = pnpparse (buf @ drop len junk) len in report b d ok)))"

section \<open>Where the fields are\<close>

lemma skip_to_le: "skip_to b len c i \<le> max len i"
proof (induction b len c i rule: skip_to.induct)
  case (1 b len c i)
  then show ?case by (subst skip_to.simps) auto
qed

lemma skip_to_ge: "i \<le> skip_to b len c i"
proof (induction b len c i rule: skip_to.induct)
  case (1 b len c i)
  then show ?case by (subst skip_to.simps) auto
qed

lemma field_end_le:
  assumes "j < field_end b len c j"
  shows "field_end b len c j \<le> len"
  using assms skip_to_le [of b len c j] by (auto simp: field_end_def Let_def max_def split: if_splits)

text \<open>The fields of an identification lie in a message of length \<open>len\<close>.\<close>

definition within :: "nat \<Rightarrow> (nat \<times> nat) option \<Rightarrow> bool" where
  "within len f = (case f of None \<Rightarrow> True | Some (s, n) \<Rightarrow> 2 \<le> n \<and> s + n \<le> len)"

definition fields_within :: "nat \<Rightarrow> pnpid \<Rightarrow> bool" where
  "fields_within len d \<longleftrightarrow>
     within len (serial d) \<and> within len (devclass d) \<and> within len (compat d) \<and> within len (description d)"

lemma withinI: "j + 1 < e \<Longrightarrow> k \<le> j \<Longrightarrow> e = field_end b len c k \<Longrightarrow> within len (Some (j, e - j))"
  using field_end_le [of k b len c] by (simp add: within_def)

text \<open>Each step of the parser keeps the fields within the message.\<close>

locale option_parser =
  fixes step :: "byte list \<Rightarrow> nat \<Rightarrow> nat \<times> pnpid \<Rightarrow> nat \<times> pnpid"
  assumes keeps: "fields_within len d \<Longrightarrow> fields_within len (snd (step b len (i, d)))"
begin

lemma keeps_pair: "fields_within len (snd p) \<Longrightarrow> fields_within len (snd (step b len p))"
  by (cases p) (simp add: keeps)

end

interpretation serial: option_parser parse_serial
proof unfold_locales
  fix len d b i assume d: "fields_within len d"
  let ?e = "field_end b len backslash (i + 1)"
  have "?e = i + 9 \<Longrightarrow> within len (Some (i + 1, ?e - (i + 1)))" by (rule withinI [OF _ order.refl refl]) simp
  then have "?e = i + 9 \<Longrightarrow> within len (Some (i + 1, 8))" by simp
  with d show "fields_within len (snd (parse_serial b len (i, d)))"
    by (simp add: parse_serial_def fields_within_def Let_def)
qed

interpretation devclass: option_parser parse_class
  by unfold_locales (auto simp: parse_class_def fields_within_def Let_def intro: withinI)

interpretation compat: option_parser parse_compat
proof unfold_locales
  fix len d b i assume d: "fields_within len d"
  let ?e = "field_end b len backslash (i + 1)"
  have "i + 1 \<le> j \<Longrightarrow> j + 1 < ?e \<Longrightarrow> within len (Some (j, ?e - j))" for j by (rule withinI) auto
  with d show "fields_within len (snd (parse_compat b len (i, d)))"
    by (simp add: parse_compat_def fields_within_def Let_def)
qed

interpretation description: option_parser parse_description
  by unfold_locales (auto simp: parse_description_def fields_within_def Let_def intro: withinI)

text \<open>
  Whatever bytes arrive, every optional field that is recognised has at least two characters and lies
  within the message that was read.
\<close>

theorem pnp_fields_within:
  "fields_within len (fst (snd (pnpparse buf len)))"
proof -
  have "fields_within len (parse_options b len d)"
    if "serial d = None" "devclass d = None" "compat d = None" "description d = None" for b d
    unfolding parse_options_def
    by (intro description.keeps_pair compat.keeps_pair devclass.keeps_pair serial.keeps_pair)
      (simp add: fields_within_def within_def that)
  then show ?thesis by (simp add: pnpparse_def Let_def)
qed

section \<open>Reading an identification back\<close>

lemma skip_to_found:
  "b = pre @ xs @ c # post \<Longrightarrow> c \<notin> set xs \<Longrightarrow> length pre + length xs < len \<Longrightarrow>
     skip_to b len c (length pre) = length pre + length xs"
proof (induction xs arbitrary: pre)
  case Nil
  then show ?case by (subst skip_to.simps) simp
next
  case (Cons x xs)
  have "skip_to b len c (length (pre @ [x])) = length (pre @ [x]) + length xs"
    by (rule Cons.IH) (use Cons.prems in auto)
  moreover have "b ! length pre \<noteq> c" "length pre < len" using Cons.prems by auto
  ultimately show ?case by (subst skip_to.simps) simp
qed

lemma skip_to_missing:
  "b = pre @ xs @ post \<Longrightarrow> c \<notin> set xs \<Longrightarrow> length pre + length xs = len \<Longrightarrow>
     skip_to b len c (length pre) = len"
proof (induction xs arbitrary: pre)
  case Nil
  then show ?case by (subst skip_to.simps) simp
next
  case (Cons x xs)
  have "skip_to b len c (length (pre @ [x])) = len"
    by (rule Cons.IH) (use Cons.prems in auto)
  moreover have "b ! length pre \<noteq> c" "length pre < len" using Cons.prems by auto
  ultimately show ?case by (subst skip_to.simps) simp
qed

lemma field_end_found:
  "b = pre @ xs @ c # post \<Longrightarrow> c \<notin> set xs \<Longrightarrow> length pre + length xs < len \<Longrightarrow>
     field_end b len c (length pre) = length pre + length xs"
  by (simp add: field_end_def skip_to_found del: append_assoc)

text \<open>Each step reads a field that is followed by another one.\<close>

lemma field_between:
  assumes "b = pre @ backslash # xs @ backslash # post" "backslash \<notin> set xs" "length pre + length xs + 1 < len"
  shows "b ! length pre = backslash" "field_end b len backslash (length pre + 1) = length pre + 1 + length xs"
proof -
  show "b ! length pre = backslash" by (simp add: assms(1))
  have "field_end b len backslash (length (pre @ [backslash])) = length (pre @ [backslash]) + length xs"
    by (rule field_end_found) (use assms in auto)
  then show "field_end b len backslash (length pre + 1) = length pre + 1 + length xs" by simp
qed

lemma read_serial:
  assumes "b = pre @ backslash # xs @ backslash # post" "backslash \<notin> set xs" "length pre + length xs + 1 < len"
    and "length xs = 8"
  shows "parse_serial b len (length pre, d) = (length pre + 1 + length xs, d\<lparr>serial := Some (length pre + 1, 8)\<rparr>)"
  using field_between [OF assms(1-3)] assms(4) by (simp add: parse_serial_def Let_def)

lemma read_class:
  assumes "b = pre @ backslash # xs @ backslash # post" "backslash \<notin> set xs" "length pre + length xs + 1 < len"
    and "2 \<le> length xs"
  shows "parse_class b len (length pre, d) =
           (length pre + 1 + length xs, d\<lparr>devclass := Some (length pre + 1, length xs)\<rparr>)"
  using field_between [OF assms(1-3)] assms(4) by (simp add: parse_class_def Let_def)

lemma read_compat:
  assumes "b = pre @ backslash # xs @ backslash # post" "backslash \<notin> set xs" "length pre + length xs + 1 < len"
    and "2 \<le> length xs" "hd xs \<noteq> byte_of CHR ''*''"
  shows "parse_compat b len (length pre, d) =
           (length pre + 1 + length xs, d\<lparr>compat := Some (length pre + 1, length xs)\<rparr>)"
proof -
  have "b ! (length pre + 1) = hd xs" using assms(1,4) by (cases xs) (auto simp: nth_append)
  with field_between [OF assms(1-3)] assms(4,5) show ?thesis by (simp add: parse_compat_def Let_def)
qed

lemma read_description:
  assumes "b = pre @ backslash # xs @ [k1, k2, stop] @ post" "byte_of CHR '';'' \<notin> set (xs @ [k1, k2, stop])"
    and "length pre + length xs + 4 = len" "2 \<le> length xs"
  shows "parse_description b len (length pre, d) =
           (length pre + 1 + length xs, d\<lparr>description := Some (length pre + 1, length xs)\<rparr>)"
proof -
  have "skip_to b len (byte_of CHR '';'') (length (pre @ [backslash])) = len"
    by (rule skip_to_missing [of _ _ "xs @ [k1, k2, stop]" post]) (use assms in auto)
  then have "field_end b len (byte_of CHR '';'') (length pre + 1) = length pre + 1 + length xs"
    using assms(3) by (simp add: field_end_def Let_def)
  moreover have "b ! length pre = backslash" by (simp add: assms(1))
  ultimately show ?thesis using assms(4) by (simp add: parse_description_def Let_def)
qed

lemma field_text_at: "b = pre @ xs @ post \<Longrightarrow> 0 \<notin> set xs \<Longrightarrow> field_text b (length pre, length xs) = xs"
  by (auto simp: field_text_def takeWhile_eq_all_conv)

text \<open>The text of an identification with all optional fields, and how a device sends it.\<close>

definition id_fields :: "byte list \<Rightarrow> byte list \<Rightarrow> byte list \<Rightarrow> byte list \<Rightarrow> byte list \<Rightarrow> byte list \<Rightarrow> byte list" where
  "id_fields E S C D N K =
     E @ backslash # S @ backslash # C @ backslash # D @ backslash # N @ K"

definition send_id :: "byte \<Rightarrow> byte \<Rightarrow> byte \<Rightarrow> byte list \<Rightarrow> byte list" where
  "send_id shift r1 r2 body = (0x28 - shift) # r1 # r2 # map (\<lambda>c. c - shift) (body @ [0x29])"

lemma normalize_sent:
  "normalize (send_id shift r1 r2 body @ junk) (length (send_id shift r1 r2 body)) = 0x28 # r1 # r2 # body @ 0x29 # junk"
  by (simp add: normalize_def pnp_offset_def send_id_def Let_def comp_def)

definition valid_id :: "byte list \<Rightarrow> byte list \<Rightarrow> byte list \<Rightarrow> byte list \<Rightarrow> byte list \<Rightarrow> byte list \<Rightarrow> bool" where
  "valid_id E S C D N K \<longleftrightarrow>
     length E = 7 \<and> length S = 8 \<and> 2 \<le> length C \<and> 2 \<le> length D \<and> 2 \<le> length N \<and> length K = 2 \<and>
     backslash \<notin> set (S @ C @ D) \<and> hd D \<noteq> byte_of CHR ''*'' \<and> byte_of CHR '';'' \<notin> set (N @ K) \<and>
     0 \<notin> set (E @ C @ N) \<and> 0x29 \<notin> set (id_fields E S C D N K)"

lemma parse_sent:
  fixes r1 r2 :: byte and junk :: "byte list"
  assumes "valid_id E S C D N K"
  defines "b \<equiv> 0x28 # r1 # r2 # id_fields E S C D N K @ 0x29 # junk"
    and "len \<equiv> length (id_fields E S C D N K) + 4"
  shows "parse_options b len d = d\<lparr>serial := Some (11, 8), devclass := Some (20, length C),
           compat := Some (21 + length C, length D), description := Some (22 + length C + length D, length N)\<rparr>"
    and "field_text b (3, 7) = E"
    and "field_text b (20, length C) = C"
    and "field_text b (22 + length C + length D, length N) = N"
    and "b ! 9 \<noteq> byte_of CHR '')''"
    and "[b ! (len - 3), b ! (len - 2)] = K"
proof -
  from assms(1) have l: "length E = 7" "length S = 8" "2 \<le> length C" "2 \<le> length D" "2 \<le> length N"
    and sep: "backslash \<notin> set S" "backslash \<notin> set C" "backslash \<notin> set D" "hd D \<noteq> byte_of CHR ''*''"
    and nul: "0 \<notin> set E" "0 \<notin> set C" "0 \<notin> set N" and stop: "0x29 \<notin> set E"
    and semi: "byte_of CHR '';'' \<notin> set N" "byte_of CHR '';'' \<notin> set K"
    by (auto simp: valid_id_def id_fields_def)
  from assms(1) obtain k1 k2 where K: "K = [k1, k2]"
    by (auto simp: valid_id_def length_Suc_conv eval_nat_numeral)
  let ?p1 = "0x28 # r1 # r2 # E"
  let ?p2 = "?p1 @ backslash # S"
  let ?p3 = "?p2 @ backslash # C"
  let ?p4 = "?p3 @ backslash # D"
  have b1: "b = ?p1 @ backslash # S @ backslash # C @ backslash # D @ backslash # N @ [k1, k2, 0x29] @ junk"
    and b2: "b = ?p2 @ backslash # C @ backslash # D @ backslash # N @ [k1, k2, 0x29] @ junk"
    and b3: "b = ?p3 @ backslash # D @ backslash # N @ [k1, k2, 0x29] @ junk"
    and b4: "b = ?p4 @ backslash # N @ [k1, k2, 0x29] @ junk"
    by (simp_all add: b_def id_fields_def K)
  have len: "len = 25 + length C + length D + length N"
    using l by (simp add: len_def id_fields_def K)
  have p: "length ?p1 = 10" "length ?p2 = 19" "length ?p3 = 20 + length C" "length ?p4 = 21 + length C + length D"
    using l by simp_all
  have "byte_of CHR '';'' \<notin> set (N @ [k1, k2, 0x29])" using semi by (simp add: K byte_of_def code_def)
  note desc = read_description [OF b4 this, unfolded p, of len]
  note steps = read_serial [OF b1 sep(1), unfolded p, of len] read_class [OF b2 sep(2), unfolded p, of len]
    read_compat [OF b3 sep(3), unfolded p, of len] desc
  show "parse_options b len d = d\<lparr>serial := Some (11, 8), devclass := Some (20, length C),
           compat := Some (21 + length C, length D), description := Some (22 + length C + length D, length N)\<rparr>"
    using l sep(4) steps by (simp add: parse_options_def len)
  have e: "b = [0x28, r1, r2] @ E @ (backslash # S @ backslash # C @ backslash # D @ backslash # N @ [k1, k2, 0x29] @ junk)"
    by (simp add: b1)
  show "field_text b (3, 7) = E" using field_text_at [OF e nul(1)] l by (simp add: numeral_3_eq_3)
  have "b = (?p2 @ [backslash]) @ C @ (backslash # D @ backslash # N @ [k1, k2, 0x29] @ junk)" by (simp add: b2)
  from field_text_at [OF this nul(2)] l show "field_text b (20, length C) = C" by simp
  have n: "b = (?p4 @ [backslash]) @ N @ ([k1, k2, 0x29] @ junk)" by (simp add: b4)
  from field_text_at [OF this nul(3)] l show "field_text b (22 + length C + length D, length N) = N"
    by (simp add: add.assoc)
  have "b ! 9 = E ! 6" using l by (simp add: b1 nth_append)
  moreover have "E ! 6 \<in> set E" using l by simp
  ultimately show "b ! 9 \<noteq> byte_of CHR '')''" using stop by (auto simp: byte_of_def code_def)
  have "b = (?p4 @ backslash # N) @ [k1, k2, 0x29] @ junk" and "length (?p4 @ backslash # N) = len - 3"
    using l by (simp_all add: b4 len)
  then show "[b ! (len - 3), b ! (len - 2)] = K" using l len by (simp add: K nth_append)
qed

lemma wait_begin_noise:
  "\<forall>c \<in> set noise. c \<noteq> 0x08 \<and> c \<noteq> 0x28 \<Longrightarrow> c = 0x08 \<or> c = 0x28 \<Longrightarrow>
     wait_begin (noise @ c # input) = Some (c, input)"
  by (induction noise) auto

lemma read_id_until:
  "stop \<notin> set xs \<Longrightarrow> length buf + length xs < 256 \<Longrightarrow>
     read_id stop buf (xs @ stop # input) = Some (buf @ xs @ [stop])"
  by (induction xs arbitrary: buf) auto

text \<open>The check sum that a device computes: two hexadecimal digits of the sum of all other bytes.\<close>

definition id_sum :: "byte list \<Rightarrow> byte list" where
  "id_sum raw =
     (let n = (sum_list (map sint (take (length raw - 3) raw)) + sint (last raw)) AND 0xFF
      in [hex_digit (n div 16), hex_digit (n mod 16)])"

lemma pnp_sum_raw:
  assumes "raw \<noteq> []"
  shows "pnp_sum (raw @ junk) (length raw) = sum_list (map sint (take (length raw - 3) raw)) + sint (last raw)"
proof -
  have "map (\<lambda>i. sint ((raw @ junk) ! i)) [0..<length raw - 3] = map sint (take (length raw - 3) raw)"
    by (rule nth_equalityI) (auto simp: nth_append)
  moreover have "(raw @ junk) ! (length raw - 1) = last raw"
    using assms by (simp add: nth_append last_conv_nth)
  ultimately show ?thesis by (simp add: pnp_sum_def)
qed

text \<open>
  C21. A device that sends, after any noise, an identification with all fields in one of the two codings
  (ASCII, or shifted down by 32) is reported with exactly its identifier, its class, and its description if
  that is longer than nine characters; the check sum is accepted exactly if it is that of the bytes sent.
\<close>

theorem serpnp_reads_id:
  assumes "valid_id E S C D N K" "shift = 0 \<or> shift = 0x20" "0x29 - shift \<notin> {r1, r2}"
    and "\<forall>c \<in> set noise. c \<noteq> 0x08 \<and> c \<noteq> 0x28"
    and "length (send_id shift r1 r2 (id_fields E S C D N K)) \<le> 256"
  shows "sp_main junk (noise @ send_id shift r1 r2 (id_fields E S C D N K) @ input) =
    Report E (Class C) (if 9 < length N then Some N else None)
      (Some (K = id_sum (send_id shift r1 r2 (id_fields E S C D N K))))"
proof -
  let ?body = "id_fields E S C D N K"
  let ?raw = "send_id shift r1 r2 ?body"
  let ?xs = "r1 # r2 # map (\<lambda>c. c - shift) ?body"
  let ?stop = "0x29 - shift"
  define len where "len = length ?raw"
  have raw: "?raw = (0x28 - shift) # ?xs @ [?stop]" by (simp add: send_id_def)
  have len: "len = length ?body + 4" by (simp add: len_def send_id_def)
  have "0x29 \<notin> set ?body" using assms(1) by (simp add: valid_id_def)
  then have "?stop \<notin> set ?xs" using assms(3) by auto
  then have framed: "read_id (0x28 - shift + 1) [0x28 - shift] (?xs @ ?stop # input) = Some ?raw"
    using read_id_until [of ?stop ?xs "[0x28 - shift]" input] assms(5) by (simp add: raw len_def)
  have "wait_begin (noise @ ?raw @ input) = Some (0x28 - shift, ?xs @ ?stop # input)"
    using wait_begin_noise [OF assms(4), of "0x28 - shift" "?xs @ ?stop # input"] assms(2) by (auto simp: raw)
  then have main: "sp_main junk (noise @ ?raw @ input) =
      (let (b, d, ok) = pnpparse (?raw @ drop len junk) len in report b d ok)"
    unfolding sp_main_def by (simp only: option.case prod.case framed len_def Let_def)
  define b where "b = 0x28 # r1 # r2 # ?body @ 0x29 # drop len junk"
  have b: "normalize (?raw @ drop len junk) len = b" unfolding len_def b_def by (simp only: normalize_sent append_assoc append_Cons append_Nil)
  note parsed = parse_sent [OF assms(1), of r1 r2 "drop len junk", folded b_def len]
  have "?raw \<noteq> []" by (simp add: raw)
  note sum = pnp_sum_raw [OF this, of "drop len junk", folded len_def]
  have K: "(K = [x, y]) = (b ! (len - 3) = x \<and> b ! (len - 2) = y)" for x y
    by (simp only: parsed(6) [symmetric] list.inject simp_thms)
  have "check_sum b len (pnp_sum (?raw @ drop len junk) len) d = Some (K = id_sum ?raw)" if "serial d \<noteq> None" for d
    using that unfolding check_sum_def id_sum_def K sum len_def [symmetric] Let_def by simp
  then show ?thesis unfolding main pnpparse_def b
    by (simp add: parsed(1-5) report_def pnp_eisaid_def)
qed

theorem serpnp_reads_id_witness:
  "\<exists>ok. sp_main [] (0x4D # send_id 0x20 1 0x24 (id_fields (bytes ''LGI8001'') (bytes ''00000000'')
       (bytes ''MOUSE'') (bytes ''PNP0F08'') (bytes ''Serial mouse'') (bytes ''A0''))) =
     Report (bytes ''LGI8001'') (Class (bytes ''MOUSE'')) (Some (bytes ''Serial mouse'')) (Some ok)"
proof -
  have "valid_id (bytes ''LGI8001'') (bytes ''00000000'') (bytes ''MOUSE'') (bytes ''PNP0F08'')
      (bytes ''Serial mouse'') (bytes ''A0'')"
    by (simp add: valid_id_def bytes_def byte_of_def code_def backslash_def id_fields_def)
  from serpnp_reads_id [OF this, of "0x20" 1 "0x24" "[0x4D]" "[]" "[]"]
  show ?thesis by (auto simp: bytes_def send_id_def id_fields_def)
qed

end
