(* ===== verification/SamTokenize.thy ===== *)
theory SamTokenize
  imports CLib
begin

text \<open>
  The command line tokenizer of the system administration manager (\<^verbatim>\<open>package/base/sam/sam/tokenize.c\<close>): it splits
  a line into the words between blanks, with quotation marks and backslashes.
\<close>

section \<open>The tokenizer\<close>

definition blank :: char where "blank = CHR '' ''"
definition tab :: char where "tab = CHR 0x09"
definition quotemark :: char where "quotemark = CHR 0x22"
definition backslash :: char where "backslash = CHR 0x5C"

text \<open>
  The variables of the loop: where the current token starts (\<open>None\<close> as long as no token started), the last
  character, the two flags, and the table of tokens. A token whose start is not known is read from the byte in
  front of the string: then \<open>strayed\<close> is set, and nothing is known of the token.
\<close>

record tokenizer =
  start :: "nat option"
  last_char :: char
  esc :: bool
  quoted :: bool
  table :: "string list"
  strayed :: bool

text \<open>\<open>strncpy\<close> fills what it does not copy with zeros; \<open>decode\<close> does nothing yet.\<close>

definition strncpy :: "string \<Rightarrow> nat \<Rightarrow> string" where
  "strncpy s n = take n (cstr s) @ replicate (n - length (cstr s)) nul"

definition decode :: "string \<Rightarrow> string" where
  "decode t = t"

definition push_token :: "string \<Rightarrow> nat \<Rightarrow> tokenizer \<Rightarrow> tokenizer" where
  "push_token s p z =
     (case start z of
        None \<Rightarrow> z\<lparr>strayed := True\<rparr>
      | Some i \<Rightarrow> z\<lparr>table := table z @ [decode (strncpy (drop i s) (p - i))]\<rparr>)"

text \<open>One round of the loop.\<close>

definition tok_step :: "string \<Rightarrow> nat \<Rightarrow> tokenizer \<Rightarrow> tokenizer" where
  "tok_step s p z =
     (let c = s ! p; word = (last_char z \<noteq> blank)
      in if esc z then z\<lparr>esc := False, last_char := c\<rparr>
         else if c = backslash then z\<lparr>esc := True, last_char := c\<rparr>
         else if c = quotemark then
           (if quoted z then z\<lparr>quoted := False, last_char := c\<rparr>
            else z\<lparr>quoted := True, start := (if word then start z else Some p), last_char := c\<rparr>)
         else if quoted z then z\<lparr>last_char := c\<rparr>
         else if c = blank \<or> c = tab then (if word then push_token s p z else z)\<lparr>last_char := blank\<rparr>
         else z\<lparr>start := (if word then start z else Some p), last_char := c\<rparr>)"

definition tok_init :: tokenizer where
  "tok_init = \<lparr>start = None, last_char = blank, esc = False, quoted = False, table = [], strayed = False\<rparr>"

definition tok_loop :: "string \<Rightarrow> tokenizer" where
  "tok_loop s = foldl (\<lambda>z p. tok_step s p z) tok_init [0..<length s]"

text \<open>After the loop the last token is pushed, if one ever started. \<open>None\<close>: the string was left.\<close>

definition sam_tokenize :: "string \<Rightarrow> string list option" where
  "sam_tokenize s =
     (let z = tok_loop s; z' = (if start z \<noteq> None then push_token s (length s) z else z)
      in if strayed z' then None else Some (table z'))"

section \<open>Words and gaps\<close>

text \<open>
  A word may contain blanks between quotation marks, and characters behind a backslash, but no backslash at
  its start and no blank behind a backslash outside of quotation marks: these are not recognised.
\<close>

fun closed_word :: "bool \<Rightarrow> bool \<Rightarrow> string \<Rightarrow> bool" where
  "closed_word e q [] \<longleftrightarrow> \<not> e \<and> \<not> q"
| "closed_word e q (c # cs) \<longleftrightarrow>
     (if e then (q \<or> c \<noteq> blank) \<and> closed_word False q cs
      else if c = backslash then closed_word True q cs
      else if c = quotemark then closed_word False (\<not> q) cs
      else (q \<or> c \<noteq> blank \<and> c \<noteq> tab) \<and> closed_word False q cs)"

definition is_word :: "string \<Rightarrow> bool" where
  "is_word w \<longleftrightarrow> w \<noteq> [] \<and> hd w \<noteq> backslash \<and> closed_word False False w \<and> nul \<notin> set w"

definition is_gap :: "string \<Rightarrow> bool" where
  "is_gap g \<longleftrightarrow> set g \<subseteq> {blank, tab}"

text \<open>A line: gaps and words in turn. Between words the gap is not empty.\<close>

definition line_of :: "(string \<times> string) list \<Rightarrow> string \<Rightarrow> string" where
  "line_of ps g = concat (map (\<lambda>(g, w). g @ w) ps) @ g"

definition well_spaced :: "(string \<times> string) list \<Rightarrow> bool" where
  "well_spaced ps \<longleftrightarrow> (\<forall>(g, w) \<in> set ps. is_gap g \<and> is_word w) \<and> (\<forall>(g, w) \<in> set (tl ps). g \<noteq> [])"

lemma special_chars:
  "backslash \<noteq> blank" "backslash \<noteq> tab" "backslash \<noteq> quotemark" "quotemark \<noteq> blank" "quotemark \<noteq> tab" "tab \<noteq> blank"
  by (simp_all add: backslash_def blank_def tab_def quotemark_def)

section \<open>Running over a word and over a gap\<close>

definition tok_run :: "string \<Rightarrow> nat \<Rightarrow> nat \<Rightarrow> tokenizer \<Rightarrow> tokenizer" where
  "tok_run s i n z = foldl (\<lambda>z p. tok_step s p z) z [i..<i + n]"

lemma tok_run_0 [simp]: "tok_run s i 0 z = z"
  by (simp add: tok_run_def)

lemma tok_run_Suc: "tok_run s i (Suc n) z = tok_run s (Suc i) n (tok_step s i z)"
  by (simp add: tok_run_def upt_conv_Cons del: upt_Suc)

lemma tok_run_add: "tok_run s i (m + n) z = tok_run s (i + m) n (tok_run s i m z)"
proof -
  have "[i..<i + (m + n)] = [i..<i + m] @ [i + m..<i + m + n]"
    by (metis add.assoc le_add1 upt_add_eq_append)
  then show ?thesis by (simp add: tok_run_def)
qed

lemma drop_Cons_nth: "drop i s = c # r \<Longrightarrow> s ! i = c \<and> drop (Suc i) s = r"
  by (metis drop_Suc list.sel(3) nth_via_drop tl_drop)

text \<open>Inside of a word only the last character and the flags change.\<close>

lemma run_inside:
  assumes "drop i s = w @ r" "closed_word (esc z) (quoted z) w" "last_char z \<noteq> blank \<or> quoted z"
  shows "\<exists>c. c \<noteq> blank \<and> tok_run s i (length w) z = z\<lparr>last_char := c, esc := False, quoted := False\<rparr>"
  using assms
proof (induction w arbitrary: i z)
  case Nil
  then show ?case by (intro exI [of _ "last_char z"]) simp
next
  case (Cons c w)
  from Cons.prems(1) drop_Cons_nth have s: "s ! i = c" "drop (Suc i) s = w @ r" by fastforce+
  define z' where "z' = tok_step s i z"
  have z': "start z' = start z \<and> table z' = table z \<and> strayed z' = strayed z \<and> tokenizer.more z' = tokenizer.more z"
    "closed_word (esc z') (quoted z') w" "last_char z' \<noteq> blank \<or> quoted z'"
    using Cons.prems(2,3) special_chars by (auto simp: z'_def tok_step_def s(1) Let_def split: if_splits)
  from Cons.IH [OF s(2) z'(2,3)] obtain d where "d \<noteq> blank"
    "tok_run s (Suc i) (length w) z' = z'\<lparr>last_char := d, esc := False, quoted := False\<rparr>" by blast
  with z'(1) show ?case by (intro exI [of _ d]) (simp add: tok_run_Suc z'_def [symmetric])
qed

lemma run_word:
  assumes "drop i s = w @ r" "is_word w" "\<not> esc z" "\<not> quoted z" "last_char z = blank"
  shows "\<exists>c. c \<noteq> blank \<and> tok_run s i (length w) z = z\<lparr>start := Some i, last_char := c\<rparr>"
proof -
  from assms(2) obtain c w' where w: "w = c # w'" by (cases w) (auto simp: is_word_def)
  from assms(1) w drop_Cons_nth have s: "s ! i = c" "drop (Suc i) s = w' @ r" by fastforce+
  have c: "c \<noteq> backslash" "c \<noteq> blank" "c \<noteq> tab" "closed_word False (c = quotemark) w'"
    using assms(2) special_chars by (auto simp: is_word_def w split: if_splits)
  have "tok_step s i z = z\<lparr>start := Some i, last_char := c, quoted := (c = quotemark)\<rparr>"
    using c assms(3-5) by (simp add: tok_step_def s(1) Let_def)
  moreover have "z\<lparr>start := Some i, last_char := d, esc := False, quoted := False\<rparr> = z\<lparr>start := Some i, last_char := d\<rparr>" for d
    using assms(3,4) by (cases z) simp
  ultimately show ?thesis
    using run_inside [OF s(2), of "tok_step s i z"] c assms(3) by (simp add: w tok_run_Suc)
qed

lemma run_gap_blank:
  assumes "drop i s = g @ r" "is_gap g" "\<not> esc z" "\<not> quoted z" "last_char z = blank"
  shows "tok_run s i (length g) z = z"
  using assms
proof (induction g arbitrary: i)
  case Nil
  then show ?case by simp
next
  case (Cons c g)
  from Cons.prems(1) drop_Cons_nth have s: "s ! i = c" "drop (Suc i) s = g @ r" by fastforce+
  have "tok_step s i z = z"
    using Cons.prems(2-5) special_chars by (auto simp: tok_step_def s(1) Let_def is_gap_def)
  with Cons.IH [OF s(2)] Cons.prems(2-5) show ?case by (simp add: tok_run_Suc is_gap_def)
qed

lemma push_token_fields [simp]:
  "esc (push_token s i z) = esc z" "quoted (push_token s i z) = quoted z" "start (push_token s i z) = start z"
  "last_char (push_token s i z) = last_char z"
  by (auto simp: push_token_def split: option.splits)

lemma run_gap:
  assumes "drop i s = g @ r" "is_gap g" "\<not> esc z" "\<not> quoted z" "g \<noteq> []" "last_char z \<noteq> blank"
  shows "tok_run s i (length g) z = (push_token s i z)\<lparr>last_char := blank\<rparr>"
proof -
  from assms(5) obtain c g' where g: "g = c # g'" by (cases g) auto
  from assms(1) g drop_Cons_nth have s: "s ! i = c" "drop (Suc i) s = g' @ r" by fastforce+
  have "tok_step s i z = (push_token s i z)\<lparr>last_char := blank\<rparr>"
    using assms(2-6) special_chars by (auto simp: tok_step_def s(1) Let_def is_gap_def g)
  with run_gap_blank [OF s(2), of "(push_token s i z)\<lparr>last_char := blank\<rparr>"] assms(2-4) show ?thesis
    by (simp add: g tok_run_Suc is_gap_def)
qed

section \<open>Lines\<close>

text \<open>Right behind a word, the words before it are in the table and the word itself is yet to be pushed.\<close>

definition after_words :: "string \<Rightarrow> nat \<Rightarrow> string list \<Rightarrow> tokenizer \<Rightarrow> bool" where
  "after_words s i us z \<longleftrightarrow>
     \<not> esc z \<and> \<not> quoted z \<and> \<not> strayed z \<and>
     (if us = [] then last_char z = blank \<and> start z = None \<and> table z = []
      else last_char z \<noteq> blank \<and> table z = butlast us \<and> nul \<notin> set (last us) \<and> i \<le> length s \<and>
        (\<exists>j. start z = Some j \<and> i = j + length (last us) \<and> drop j s = last us @ drop i s))"

lemma cstr_plain: "nul \<notin> set w \<Longrightarrow> cstr w = w"
  by (simp add: cstr_def takeWhile_eq_all_conv) blast

lemma strncpy_plain: "nul \<notin> set w \<Longrightarrow> strncpy (w @ r) (length w) = w"
proof -
  assume w: "nul \<notin> set w"
  then have "cstr (w @ r) = w @ cstr r" unfolding cstr_def by (subst takeWhile_append2) auto
  then show ?thesis by (simp add: strncpy_def)
qed

lemma push_pending:
  assumes "after_words s i us z" "us \<noteq> []"
  shows "push_token s i z = z\<lparr>table := us\<rparr>"
proof -
  from assms obtain j where j: "start z = Some j" "i = j + length (last us)" "drop j s = last us @ drop i s"
    "nul \<notin> set (last us)" "table z = butlast us" by (auto simp: after_words_def)
  then have "strncpy (drop j s) (i - j) = last us" by (simp add: strncpy_plain)
  with j(1,5) assms(2) show ?thesis by (simp add: push_token_def decode_def)
qed

lemma after_gap:
  assumes "after_words s i us z" "drop i s = g @ r" "is_gap g" "us \<noteq> [] \<Longrightarrow> g \<noteq> []"
  shows "tok_run s i (length g) z = (if us = [] then z else z\<lparr>table := us, last_char := blank\<rparr>)"
proof (cases "us = []")
  case True
  with assms show ?thesis by (simp add: run_gap_blank after_words_def)
next
  case False
  with assms have "last_char z \<noteq> blank" "\<not> esc z" "\<not> quoted z" by (auto simp: after_words_def)
  from run_gap [OF assms(2,3) this(2,3) assms(4) [OF False] this(1)] show ?thesis
    by (simp add: push_pending [OF assms(1) False] False)
qed

lemma next_word:
  assumes "after_words s i us z" "drop i s = g @ w @ r" "is_gap g" "us \<noteq> [] \<Longrightarrow> g \<noteq> []" "is_word w"
  shows "after_words s (i + length g + length w) (us @ [w]) (tok_run s i (length g + length w) z)"
proof -
  let ?z = "if us = [] then z else z\<lparr>table := us, last_char := blank\<rparr>"
  have gap: "tok_run s i (length g) z = ?z" using assms(1-3) by (rule after_gap) (rule assms(4))
  have flags: "\<not> esc ?z" "\<not> quoted ?z" "last_char ?z = blank" "table ?z = us" "\<not> strayed ?z"
    using assms(1) by (auto simp: after_words_def)
  have d: "drop (i + length g) s = w @ r" using assms(2) by (metis add.commute append_eq_conv_conj drop_drop)
  from run_word [OF d assms(5) flags(1,2,3)] obtain c where
    c: "c \<noteq> blank" "tok_run s (i + length g) (length w) ?z = ?z\<lparr>start := Some (i + length g), last_char := c\<rparr>" by blast
  have "tok_run s i (length g + length w) z = ?z\<lparr>start := Some (i + length g), last_char := c\<rparr>"
    unfolding tok_run_add gap by (rule c(2))
  moreover have "r = drop (i + length g + length w) s" using d by (metis add.commute append_eq_conv_conj drop_drop)
  moreover have "i + length g + length w \<le> length s"
  proof -
    have "0 < length w" using assms(5) by (simp add: is_word_def)
    moreover have "length s - (i + length g) = length w + length r" using d length_drop [of "i + length g" s] by simp
    ultimately show ?thesis by linarith
  qed
  ultimately show ?thesis
    using flags c(1) d assms(5) unfolding after_words_def by (simp add: is_word_def split: if_splits)
qed

lemma all_words:
  assumes "after_words s i us z" "drop i s = concat (map (\<lambda>(g, w). g @ w) ps) @ r"
    "\<forall>(g, w) \<in> set ps. is_gap g \<and> is_word w" "\<forall>(g, w) \<in> set (if us = [] then tl ps else ps). g \<noteq> []"
  shows "let n = length (concat (map (\<lambda>(g, w). g @ w) ps))
    in after_words s (i + n) (us @ map snd ps) (tok_run s i n z)"
  using assms
proof (induction ps arbitrary: i us z)
  case Nil
  then show ?case by simp
next
  case (Cons p ps)
  obtain g w where p: "p = (g, w)" by fastforce
  let ?z = "tok_run s i (length g + length w) z"
  have d: "drop i s = g @ w @ (concat (map (\<lambda>(g, w). g @ w) ps) @ r)" using Cons.prems(2) by (simp add: p)
  have w: "is_gap g" "us \<noteq> [] \<Longrightarrow> g \<noteq> []" "is_word w" using Cons.prems(3,4) by (auto simp: p)
  from next_word [OF Cons.prems(1) d w]
  have "after_words s (i + length g + length w) (us @ [w]) ?z" .
  moreover from d have "drop (i + length g + length w) s = concat (map (\<lambda>(g, w). g @ w) ps) @ r"
    by (metis (no_types, lifting) add.commute append.assoc append_eq_conv_conj drop_drop length_append)
  moreover have "\<forall>(g, w) \<in> set (if us @ [w] = [] then tl ps else ps). g \<noteq> []"
    using Cons.prems(4) by (cases "us = []") auto
  ultimately have "let n = length (concat (map (\<lambda>(g, w). g @ w) ps))
    in after_words s (i + length g + length w + n) ((us @ [w]) @ map snd ps) (tok_run s (i + length g + length w) n ?z)"
    using Cons.prems(3) by (intro Cons.IH) (auto simp: p)
  then show ?case by (simp add: p Let_def tok_run_add add.assoc)
qed

text \<open>
  C22. A line of words, with any blanks around and between them, is split into exactly these words, with their
  quotation marks and backslashes; but blanks at the end of the line make the last word appear a
  second time, with the blanks.
\<close>

theorem tokenize_words:
  assumes "well_spaced ps" "is_gap g"
  shows "sam_tokenize (line_of ps g) =
    Some (map snd ps @ (if ps = [] \<or> g = [] then [] else [snd (last ps) @ g]))"
proof -
  define s where "s = line_of ps g"
  define n where "n = length (concat (map (\<lambda>(g, w). g @ w) ps))"
  define z where "z = tok_run s 0 n tok_init"
  have "after_words s 0 [] tok_init" by (simp add: after_words_def tok_init_def)
  from all_words [OF this, of ps g] assms(1) have z: "after_words s n (map snd ps) z"
    by (simp add: s_def line_of_def well_spaced_def z_def n_def Let_def)
  have d: "drop n s = g @ []" by (simp add: s_def line_of_def n_def)
  have len: "length s = n + length g" by (simp add: s_def line_of_def n_def)
  have loop: "tok_loop s = tok_run s n (length g) z"
    using tok_run_add [of s 0 n "length g" tok_init] by (simp add: tok_loop_def tok_run_def len z_def)
  show ?thesis
  proof (cases "ps = []")
    case True
    then have "tok_loop s = z" using loop after_gap [OF z d assms(2)] by simp
    moreover have "start z = None" "table z = []" "\<not> strayed z" using z True by (simp_all add: after_words_def)
    ultimately show ?thesis using True unfolding sam_tokenize_def s_def by simp
  next
    case ps: False
    show ?thesis
    proof (cases "g = []")
      case True
      with z ps have "tok_loop s = z" "start z \<noteq> None" "length s = n" "\<not> strayed z" by (auto simp: loop len after_words_def)
      with push_pending [OF z] ps have "sam_tokenize s = Some (map snd ps)" by (simp add: sam_tokenize_def)
      with True ps show ?thesis by (simp add: s_def)
    next
      case False
      with loop after_gap [OF z d assms(2)] ps have l: "tok_loop s = z\<lparr>table := map snd ps, last_char := blank\<rparr>" by simp
      from z ps obtain j where j: "start z = Some j" "drop j s = snd (last ps) @ g" "n = j + length (snd (last ps))"
        "nul \<notin> set (snd (last ps))" "\<not> strayed z"
        by (auto simp: after_words_def d last_map)
      have "nul \<notin> set (snd (last ps) @ g)" using j(4) assms(2) by (auto simp: is_gap_def nul_def blank_def tab_def)
      from strncpy_plain [OF this, of "[]"] have "strncpy (drop j s) (length s - j) = snd (last ps) @ g"
        by (simp add: j len)
      with l j have "sam_tokenize s = Some (map snd ps @ [snd (last ps) @ g])"
        by (simp add: sam_tokenize_def push_token_def decode_def)
      with ps False show ?thesis by (simp add: s_def)
    qed
  qed
qed


theorem tokenize_words_witness:
  "sam_tokenize (''get  '' @ [quotemark] @ ''a b'' @ [quotemark, blank]) =
     Some [''get'', quotemark # ''a b'' @ [quotemark], quotemark # ''a b'' @ [quotemark, blank]]"
  using tokenize_words [of "[([], ''get''), (''  '', quotemark # ''a b'' @ [quotemark])]" "[blank]"]
  by (simp add: well_spaced_def is_gap_def is_word_def line_of_def blank_def tab_def quotemark_def backslash_def nul_def)

section \<open>Reading in front of the line\<close>

text \<open>As long as no token started, only blanks were seen.\<close>

definition started_inv :: "tokenizer \<Rightarrow> bool" where
  "started_inv z \<longleftrightarrow> \<not> strayed z \<and> (start z = None \<longrightarrow> last_char z = blank \<and> \<not> esc z \<and> \<not> quoted z)"

lemma started_step:
  assumes "started_inv z" "start z = None \<Longrightarrow> s ! p \<noteq> backslash"
  shows "started_inv (tok_step s p z)"
  using assms by (auto simp: started_inv_def tok_step_def push_token_def Let_def split: option.splits)

lemma blanks_step:
  assumes "start z = None" "started_inv z" "start (tok_step s p z) = None" "s ! p \<noteq> backslash"
  shows "s ! p \<in> {blank, tab}"
  using assms by (auto simp: started_inv_def tok_step_def Let_def split: if_splits)

text \<open>
  Every token is read from inside of the line, unless the first character that is neither a blank nor a
  tab is a backslash.
\<close>

theorem tokenize_inside:
  assumes "\<And>g r. s \<noteq> g @ backslash # r \<or> \<not> is_gap g"
  shows "sam_tokenize s \<noteq> None"
proof -
  have "started_inv (foldl (\<lambda>z p. tok_step s p z) tok_init [0..<n]) \<and>
      (start (foldl (\<lambda>z p. tok_step s p z) tok_init [0..<n]) = None \<longrightarrow> is_gap (take n s))" if "n \<le> length s" for n
    using that
  proof (induction n)
    case 0
    then show ?case by (simp add: started_inv_def tok_init_def is_gap_def)
  next
    case (Suc n)
    define z where "z = foldl (\<lambda>z p. tok_step s p z) tok_init [0..<n]"
    from Suc have z: "started_inv z" "start z = None \<Longrightarrow> is_gap (take n s)" and n: "n < length s" by (simp_all add: z_def)
    have no: "s ! n \<noteq> backslash" if "start z = None"
      using assms [of "take n s" "drop (Suc n) s"] z(2) [OF that] id_take_nth_drop [OF n] by auto
    have "start z = None" if "start (tok_step s n z) = None"
      using that by (auto simp: tok_step_def push_token_def Let_def split: if_splits option.splits)
    then have "is_gap (take (Suc n) s)" if "start (tok_step s n z) = None"
      using blanks_step [OF _ z(1) that no] z(2) that n by (auto simp: take_Suc_conv_app_nth is_gap_def)
    with started_step [OF z(1) no] show ?case by (simp add: z_def)
  qed
  from this [of "length s"] have "started_inv (tok_loop s)" by (simp add: tok_loop_def)
  then show ?thesis by (auto simp: sam_tokenize_def push_token_def started_inv_def Let_def split: option.splits)
qed

theorem tokenize_inside_witness: "sam_tokenize ('' x'' @ [backslash] @ ''y'') \<noteq> None"
proof (rule tokenize_inside)
  fix g r
  show "'' x'' @ [backslash] @ ''y'' \<noteq> g @ backslash # r \<or> \<not> is_gap g"
    by (cases g; cases "tl g") (auto simp: is_gap_def blank_def tab_def backslash_def)
qed

text \<open>A backslash in front of the first word does make the program read in front of the line.\<close>

lemma tokenize_strays: "sam_tokenize ([backslash] @ ''b c'') = None"
  by (simp add: sam_tokenize_def tok_loop_def upt_rec tok_step_def push_token_def tok_init_def blank_def tab_def
      quotemark_def backslash_def Let_def)

end
