(* ===== verification/SmallTools.thy ===== *)
theory SmallTools
  imports CLib "HOL-Library.Signed_Division"
begin

text \<open>
  The small tools: \<^verbatim>\<open>misc/archive/cdromchk.c\<close> compares a disc with its image, \<^verbatim>\<open>misc/archive/ccat.c\<close> copies its
  input and shows its progress, \<^verbatim>\<open>misc/archive/tcp-client.c\<close> and \<^verbatim>\<open>misc/archive/xctrld.c\<close> pass text between a
  connection and a terminal or a shell, and \<^verbatim>\<open>package/base/util-linux/freeramdisk.c\<close> flushes devices. Reading and
  writing go by a schedule, so that a call may take fewer bytes than asked for or fail. Messages are
  left out, and so is the progress bar.
\<close>

section \<open>Files that are read and written in pieces\<close>

text \<open>
  What is left of a file and how the next calls of \<open>read\<close> go: a failure, or at most this number of bytes (but
  one at least, if there are any); without a schedule a call gives all it is asked for.
\<close>

record source =
  rest :: string
  reads :: "nat option list"

definition read_fd :: "nat \<Rightarrow> source \<Rightarrow> string option \<times> source" where
  "read_fd n s =
     (case reads s of
        None # r \<Rightarrow> (None, s\<lparr>reads := r\<rparr>)
      | Some m # r \<Rightarrow> (Some (take (min n (max 1 m)) (rest s)), \<lparr>rest = drop (min n (max 1 m)) (rest s), reads = r\<rparr>)
      | [] \<Rightarrow> (Some (take n (rest s)), s\<lparr>rest := drop n (rest s)\<rparr>))"

definition reliable :: "source \<Rightarrow> bool" where
  "reliable s \<longleftrightarrow> None \<notin> set (reads s)"

lemma read_fd_Some:
  assumes "read_fd n s = (Some t, s')"
  shows "rest s = t @ rest s'" "length t \<le> n" "reliable s \<Longrightarrow> reliable s'" "0 < n \<Longrightarrow> t = [] \<longleftrightarrow> rest s = []"
  using assms by (auto simp: read_fd_def reliable_def split: list.splits option.splits)

lemma read_fd_reliable: "reliable s \<Longrightarrow> \<exists>t s'. read_fd n s = (Some t, s')"
  by (auto simp: read_fd_def reliable_def split: list.splits option.splits)

lemma read_fd_shorter: "read_fd n s = (Some (x # t), s') \<Longrightarrow> length (rest s') < length (rest s)"
  using read_fd_Some(1) by fastforce

section \<open>Checking a disc\<close>

text \<open>The inner loop of \<open>cdromchk\<close>: reading as many bytes from the disc as the block of the image has.\<close>

function fill_block :: "nat \<Rightarrow> string \<Rightarrow> source \<Rightarrow> string option \<times> source" where
  "fill_block rc1 buf2 cdrom =
     (if length buf2 < rc1
      then (case read_fd (rc1 - length buf2) cdrom of
              (None, cdrom') \<Rightarrow> (None, cdrom')
            | (Some [], cdrom') \<Rightarrow> (Some buf2, cdrom')
            | (Some (x # t), cdrom') \<Rightarrow> fill_block rc1 (buf2 @ x # t) cdrom')
      else (Some buf2, cdrom))"
  by pat_completeness auto

termination by (relation "measure (\<lambda>(rc1, buf2, cdrom). rc1 - length buf2)") auto

declare fill_block.simps [simp del]

datatype verdict = Agree int | CdError | CdShort nat nat | Differ | FileError | NotOpened

text \<open>The main loop; the counter \<open>c2\<close> is an \<open>int\<close> of 32 bits.\<close>

function chk_loop :: "int \<Rightarrow> source \<Rightarrow> source \<Rightarrow> verdict" where
  "chk_loop c2 img cdrom =
     (case read_fd 4096 img of
        (None, _) \<Rightarrow> FileError
      | (Some [], _) \<Rightarrow> Agree (c2 sdiv 1048576)
      | (Some (x # t), img') \<Rightarrow>
          (case fill_block (length (x # t)) [] cdrom of
             (None, _) \<Rightarrow> CdError
           | (Some buf2, cdrom') \<Rightarrow>
               if length buf2 \<noteq> length (x # t) then CdShort (length buf2) (length (x # t))
               else if x # t \<noteq> buf2 then Differ
               else chk_loop (signed_take_bit 31 (c2 + int (length buf2))) img' cdrom'))"
  by pat_completeness auto

termination by (relation "measure (\<lambda>(c2, img, cdrom). length (rest img))") (auto dest: read_fd_shorter [OF sym])

declare chk_loop.simps [simp del]

text \<open>
  The function \<open>main\<close> with the two arguments: only the descriptor 0 counts as a failure of \<open>open\<close>, which gives
  -1; reads from it fail then.
\<close>

definition opened :: "int \<times> source \<Rightarrow> source" where
  "opened f = (if fst f = -1 then (snd f)\<lparr>reads := [None]\<rparr> else snd f)"

definition chk_main :: "int \<times> source \<Rightarrow> int \<times> source \<Rightarrow> int \<times> verdict" where
  "chk_main cdrom file =
     (let v = (if fst cdrom = 0 \<or> fst file = 0 then NotOpened else chk_loop 0 (opened file) (opened cdrom))
      in (case v of Agree _ \<Rightarrow> 0 | _ \<Rightarrow> 1, v))"

lemma fill_block_Some:
  "fill_block n b s = (Some g, s') \<Longrightarrow> \<exists>u. g = b @ u \<and> rest s = u @ rest s' \<and> (reliable s \<longrightarrow> reliable s') \<and>
     (length g < n \<longrightarrow> rest s' = [])"
proof (induction n b s arbitrary: g s' rule: fill_block.induct)
  case (1 n b s)
  show ?case
  proof (cases "length b < n")
    case True
    with "1.prems" obtain t s1 where t: "read_fd (n - length b) s = (Some t, s1)"
      by (auto simp: fill_block.simps [of n b s] split: prod.splits option.splits)
    note r = read_fd_Some [OF t]
    show ?thesis
    proof (cases t)
      case Nil
      with "1.prems" True t r show ?thesis by (auto simp: fill_block.simps [of n b s])
    next
      case (Cons x u)
      with "1.prems" True t have "fill_block n (b @ x # u) s1 = (Some g, s')" by (simp add: fill_block.simps [of n b s])
      then obtain v where "g = (b @ x # u) @ v" "rest s1 = v @ rest s'" "reliable s1 \<longrightarrow> reliable s'" "length g < n \<longrightarrow> rest s' = []"
        using "1.IH" True t Cons by metis
      with r Cons show ?thesis by auto
    qed
  next
    case False
    with "1.prems" show ?thesis by (simp add: fill_block.simps [of n b s])
  qed
qed

lemma fill_block_bound: "fill_block n b s = (Some g, s') \<Longrightarrow> length b \<le> n \<Longrightarrow> length g \<le> n"
proof (induction n b s arbitrary: g s' rule: fill_block.induct)
  case (1 n b s)
  show ?case
  proof (cases "length b < n")
    case True
    with "1.prems" obtain t s1 where t: "read_fd (n - length b) s = (Some t, s1)"
      by (auto simp: fill_block.simps [of n b s] split: prod.splits option.splits)
    with True read_fd_Some(2) [OF t] "1" show ?thesis
      by (cases t) (auto simp: fill_block.simps [of n b s])
  qed (use "1.prems" in \<open>simp add: fill_block.simps [of n b s]\<close>)
qed

lemma fill_block_reliable: "reliable s \<Longrightarrow> \<exists>g s'. fill_block n b s = (Some g, s')"
proof (induction n b s rule: fill_block.induct)
  case (1 n b s)
  obtain t s1 where t: "read_fd (n - length b) s = (Some t, s1)" using read_fd_reliable [OF "1.prems"] by blast
  with read_fd_Some(3) [OF t "1.prems"] "1.IH" show ?case
    by (cases t) (auto simp: fill_block.simps [of n b s])
qed

lemma chk_loop_agrees:
  "chk_loop c f d = Agree m \<Longrightarrow> take (length (rest f)) (rest d) = rest f \<and>
     (0 \<le> c \<longrightarrow> c + int (length (rest f)) < 2 ^ 31 \<longrightarrow> m = (c + int (length (rest f))) div 1048576)"
proof (induction c f d rule: chk_loop.induct)
  case (1 c f d)
  from "1.prems" obtain t f' where t: "read_fd 4096 f = (Some t, f')"
    by (auto simp: chk_loop.simps [of c f d] split: prod.splits option.splits)
  show ?case
  proof (cases t)
    case Nil
    with "1.prems" t read_fd_Some [OF t] show ?thesis
      by (auto simp: chk_loop.simps [of c f d] signed_divide_int_def sgn_if)
  next
    case (Cons x u)
    define c' where "c' = signed_take_bit 31 (c + int (length t))"
    from "1.prems" t Cons obtain d' where b: "fill_block (length t) [] d = (Some t, d')" "chk_loop c' f' d' = Agree m"
      by (auto simp: chk_loop.simps [of c f d] c'_def split: prod.splits option.splits if_splits)
    have "take (length (rest f')) (rest d') = rest f' \<and>
        (0 \<le> c' \<longrightarrow> c' + int (length (rest f')) < 2 ^ 31 \<longrightarrow> m = (c' + int (length (rest f'))) div 1048576)"
      using "1.IH" t Cons b unfolding c'_def by metis
    moreover have "c' = c + int (length t)" if "0 \<le> c" "c + int (length t) < 2 ^ 31"
      using that unfolding c'_def by (simp add: signed_take_bit_int_eq_self)
    ultimately show ?thesis using read_fd_Some(1) [OF t] fill_block_Some [OF b(1)] by auto
  qed
qed

lemma chk_loop_reliable:
  "reliable f \<Longrightarrow> reliable d \<Longrightarrow> take (length (rest f)) (rest d) = rest f \<Longrightarrow> \<exists>m. chk_loop c f d = Agree m"
proof (induction c f d rule: chk_loop.induct)
  case (1 c f d)
  obtain t f' where t: "read_fd 4096 f = (Some t, f')" using read_fd_reliable [OF "1.prems"(1)] by blast
  note r = read_fd_Some [OF t]
  show ?case
  proof (cases t)
    case Nil
    with t show ?thesis by (simp add: chk_loop.simps [of c f d])
  next
    case (Cons x u)
    obtain g d' where g: "fill_block (length t) [] d = (Some g, d')" using fill_block_reliable [OF "1.prems"(2)] by blast
    have b: "rest d = g @ rest d'" "reliable d'" "length g < length t \<Longrightarrow> rest d' = []" "length g \<le> length t"
      using fill_block_Some [OF g] fill_block_bound [OF g] "1.prems"(2) by auto
    obtain w where w: "rest d = t @ rest f' @ w"
      using "1.prems"(3) r(1) by (metis append.assoc append_take_drop_id)
    have l: "length g = length t"
    proof (rule ccontr)
      assume "length g \<noteq> length t"
      then have "rest d = g" "length g < length t" using b by auto
      with w show False by simp
    qed
    then have gt: "g = t" and "rest d' = rest f' @ w" using b(1) w by auto
    then have d': "take (length (rest f')) (rest d') = rest f'" by simp
    have "\<exists>m. chk_loop (signed_take_bit 31 (c + int (length t))) f' d' = Agree m"
      using "1.IH" t Cons g gt d' r(3) b "1.prems" by metis
    with t Cons g gt show ?thesis by (simp add: chk_loop.simps [of c f d])
  qed
qed


text \<open>
  A disc that is accepted begins with the whole image, however the files are read, and the number of megabytes
  is right for images below 2 GB; if nothing fails to be read, every such disc is accepted.
\<close>

theorem disc_accepted:
  assumes "fst (chk_main cdrom file) = 0"
  shows "take (length (rest (snd file))) (rest (snd cdrom)) = rest (snd file)"
    and "length (rest (snd file)) < 2 ^ 31 \<Longrightarrow> snd (chk_main cdrom file) = Agree (int (length (rest (snd file)) div 1048576))"
proof -
  have same: "rest (opened f) = rest (snd f)" for f by (simp add: opened_def)
  obtain m where m: "chk_loop 0 (opened file) (opened cdrom) = Agree m" "snd (chk_main cdrom file) = Agree m"
    using assms by (cases "chk_loop 0 (opened file) (opened cdrom)") (auto simp: chk_main_def Let_def split: if_splits)
  note a = chk_loop_agrees [OF m(1)]
  then show "take (length (rest (snd file))) (rest (snd cdrom)) = rest (snd file)" by (simp add: same)
  show "snd (chk_main cdrom file) = Agree (int (length (rest (snd file)) div 1048576))" if "length (rest (snd file)) < 2 ^ 31"
    using a m(2) that by (simp add: same zdiv_int)
qed

theorem good_disc_accepted:
  assumes "fst cdrom \<notin> {0, -1}" "fst file \<notin> {0, -1}" "reliable (snd cdrom)" "reliable (snd file)"
    and "take (length (rest (snd file))) (rest (snd cdrom)) = rest (snd file)"
  shows "fst (chk_main cdrom file) = 0"
  using assms chk_loop_reliable [of "snd file" "snd cdrom" 0] by (auto simp: chk_main_def opened_def Let_def)

text \<open>A disc that cannot be opened is not reported as such, and is accepted for an empty image.\<close>

lemma missing_disc_accepted: "snd (chk_main (-1, d) (3, \<lparr>rest = [], reads = []\<rparr>)) = Agree 0"
  by (simp add: chk_main_def opened_def chk_loop.simps read_fd_def)

section \<open>Copying\<close>

text \<open>What was written to a file, and how many bytes the next calls of \<open>write\<close> take.\<close>

record sink =
  taken :: string
  writes :: "nat option list"

definition write_fd :: "string \<Rightarrow> sink \<Rightarrow> int \<times> sink" where
  "write_fd t k =
     (case writes k of
        None # r \<Rightarrow> (-1, k\<lparr>writes := r\<rparr>)
      | Some m # r \<Rightarrow> (int (min m (length t)), \<lparr>taken = taken k @ take m t, writes = r\<rparr>)
      | [] \<Rightarrow> (int (length t), k\<lparr>taken := taken k @ t\<rparr>))"

datatype copied = ReadFailed | WriteFailed | Cut nat nat | Done

text \<open>The loop of \<open>ccat\<close>: what it reports, what was read, and the output. The exit status is always 0.\<close>

function ccat_loop :: "source \<Rightarrow> sink \<Rightarrow> copied \<times> sink" where
  "ccat_loop src out =
     (case read_fd 10240 src of
        (None, _) \<Rightarrow> (ReadFailed, out)
      | (Some [], _) \<Rightarrow> (Done, out)
      | (Some (x # t), src') \<Rightarrow>
          (let (rc2, out') = write_fd (x # t) out
           in if rc2 = int (length (x # t)) then ccat_loop src' out'
              else if rc2 = -1 then (WriteFailed, out')
              else (Cut (nat rc2) (length (x # t)), out')))"
  by pat_completeness auto

termination by (relation "measure (\<lambda>(src, out). length (rest src))") (auto dest: read_fd_shorter [OF sym])

declare ccat_loop.simps [simp del]

definition ccat_main :: "nat \<Rightarrow> source \<Rightarrow> sink \<Rightarrow> int \<times> sink" where
  "ccat_main argc src out = (if argc \<noteq> 1 then (1, out) else (0, snd (ccat_loop src out)))"

lemma ccat_copies:
  "ccat_loop src out = (r, out') \<Longrightarrow>
     (\<exists>n. taken out' = taken out @ take n (rest src)) \<and> (r = Done \<longrightarrow> taken out' = taken out @ rest src)"
proof (induction src out arbitrary: r out' rule: ccat_loop.induct)
  case (1 src out)
  show ?case
  proof (cases "read_fd 10240 src")
    case (Pair t src')
    show ?thesis
    proof (cases t)
      case None
      with Pair "1.prems" show ?thesis by (auto simp: ccat_loop.simps [of src out] intro: exI [of _ 0])
    next
      case (Some b)
      note r = read_fd_Some [OF Pair [unfolded Some]]
      show ?thesis
      proof (cases b)
        case Nil
        with Pair Some "1.prems" r show ?thesis by (auto simp: ccat_loop.simps [of src out] intro: exI [of _ 0])
      next
        case (Cons x u)
        obtain rc2 out1 where w: "write_fd b out = (rc2, out1)" by fastforce
        then have t: "taken out1 = taken out @ take (nat rc2) b" "rc2 = int (length b) \<longrightarrow> taken out1 = taken out @ b"
          by (auto simp: write_fd_def min_def split: list.splits option.splits if_splits)
        show ?thesis
        proof (cases "rc2 = int (length b)")
          case True
          with "1.prems" Pair Some Cons w have "ccat_loop src' out1 = (r, out')" by (simp add: ccat_loop.simps [of src out])
          then obtain n where n: "taken out' = taken out1 @ take n (rest src')" "r = Done \<longrightarrow> taken out' = taken out1 @ rest src'"
            using "1.IH" Pair Some Cons w True by metis
          have "taken out' = taken out @ take (length b + n) (rest src)" using n(1) t(2) True r(1) by simp
          moreover have "r = Done \<longrightarrow> taken out' = taken out @ rest src" using n(2) t(2) True r(1) by simp
          ultimately show ?thesis by blast
        next
          case False
          with "1.prems" Pair Some Cons w have "out' = out1" "r \<noteq> Done"
            by (auto simp: ccat_loop.simps [of src out] split: if_splits)
          moreover have "take (nat rc2) b = take (min (nat rc2) (length b)) (rest src)" using r(1) by (simp add: min_def)
          ultimately show ?thesis using t(1) by metis
        qed
      qed
    qed
  qed
qed


section \<open>Passing text on\<close>

text \<open>What comes from the connection is passed on without carriage returns, one character at a time.\<close>

definition without_cr :: "string \<Rightarrow> string" where
  "without_cr = filter (\<lambda>c. c \<noteq> CHR 0x0D)"

text \<open>
  The loop \<open>for (c=0; c<rc; c+=write(fd,buf,rc));\<close> over the results of its calls of \<open>write\<close>: what is sent
  and the results that are left; none if it is not done after them.
\<close>

fun resend :: "int \<Rightarrow> string \<Rightarrow> nat option list \<Rightarrow> (string \<times> nat option list) option" where
  "resend c buf ws =
     (if c < int (length buf)
      then (case ws of
              [] \<Rightarrow> None
            | None # ws' \<Rightarrow> resend (c - 1) buf ws'
            | Some n # ws' \<Rightarrow> map_option (\<lambda>(t, r). (take n buf @ t, r)) (resend (c + int (min n (length buf))) buf ws'))
      else Some ([], ws))"

declare resend.simps [simp del]

text \<open>A write that takes everything sends the text; after one that does not, it is sent again from its beginning.\<close>

lemma resend_whole: "resend 0 buf (Some (length buf) # ws) = Some (buf, if buf = [] then Some 0 # ws else ws)"
  by (simp add: resend.simps [of 0 buf] resend.simps [of "int (length buf)"])

lemma resend_length:
  "resend c buf ws = Some (t, r) \<Longrightarrow> int (length buf) \<le> c + int (length t)"
proof (induction c buf ws arbitrary: t rule: resend.induct)
  case (1 c buf ws)
  show ?case
  proof (cases "c < int (length buf)")
    case True
    with "1.prems" "1.IH" show ?thesis
      by (auto simp: resend.simps [of c buf ws] split: list.splits option.splits) (fastforce simp: min.commute)+
  qed (use "1.prems" in \<open>simp add: resend.simps [of c buf ws]\<close>)
qed

lemma resend_repeats: "resend 0 ''abc'' [Some 1, Some 2] = Some (''aab'', [])"
  by (simp add: resend.simps)

text \<open>
  A round of \<open>tcp-client\<close> or of a session of \<open>xctrld\<close> after a successful \<open>select\<close>: what the \<open>read\<close> of the connection and
  that of the terminal or the shell give (\<open>Idle\<close>: not ready). The text of the connection goes to the
  terminal or the shell and the other way round.
\<close>

datatype arrival = Idle | Broken_read | Arrived string

record relay =
  local_text :: string
  net_text :: string
  net_writes :: "nat option list"

definition received :: "arrival \<Rightarrow> string" where
  "received a = (case a of Arrived t \<Rightarrow> without_cr t | _ \<Rightarrow> [])"

definition relay_round :: "arrival \<Rightarrow> arrival \<Rightarrow> relay \<Rightarrow> relay option" where
  "relay_round conn loc r =
     (let r = r\<lparr>local_text := local_text r @ received conn\<rparr>
      in case loc of
           Arrived t \<Rightarrow> map_option (\<lambda>(u, ws). r\<lparr>net_text := net_text r @ u, net_writes := ws\<rparr>) (resend 0 t (net_writes r))
         | _ \<Rightarrow> Some r)"

text \<open>The value of \<open>rc\<close> after a round: of the last \<open>read\<close>, or of \<open>select\<close>.\<close>

definition last_rc :: "int \<Rightarrow> arrival \<Rightarrow> arrival \<Rightarrow> int" where
  "last_rc ready conn loc =
     (let count = (\<lambda>old a. case a of Idle \<Rightarrow> old | Broken_read \<Rightarrow> -1 | Arrived t \<Rightarrow> int (length t))
      in count (count ready conn) loc)"

datatype outcome = Over | SelectFailed | Sending | Going

text \<open>The client ends when \<open>rc\<close> is not positive; \<open>select\<close> gives the number of descriptors that are ready.\<close>

fun tc_loop :: "(int \<times> arrival \<times> arrival) list \<Rightarrow> relay \<Rightarrow> outcome \<times> relay" where
  "tc_loop [] r = (Going, r)"
| "tc_loop ((ready, conn, loc) # rs) r =
     (if ready = -1 then (SelectFailed, r)
      else (case relay_round conn loc r of
              None \<Rightarrow> (Sending, r)
            | Some r' \<Rightarrow> if last_rc ready conn loc > 0 then tc_loop rs r' else (Over, r')))"

text \<open>A session of the daemon goes on until the shell has ended, which is asked before each round.\<close>

fun session_loop :: "(bool \<times> int \<times> arrival \<times> arrival) list \<Rightarrow> relay \<Rightarrow> outcome \<times> relay" where
  "session_loop [] r = (Going, r)"
| "session_loop ((ended, ready, conn, loc) # rs) r =
     (if ended then (Over, r)
      else if ready = -1 then (SelectFailed, r)
      else (case relay_round conn loc r of None \<Rightarrow> (Sending, r) | Some r' \<Rightarrow> session_loop rs r'))"

text \<open>If each write takes all of the text, a round passes on all that arrives, in both directions.\<close>

lemma relay_round_whole:
  assumes "net_writes r = (case loc of Arrived t \<Rightarrow> if t = [] then ws else Some (length t) # ws | _ \<Rightarrow> ws)"
  shows "relay_round conn loc r =
    Some \<lparr>local_text = local_text r @ received conn,
      net_text = net_text r @ (case loc of Arrived t \<Rightarrow> t | _ \<Rightarrow> []), net_writes = ws\<rparr>"
  using assms resend_whole by (cases r) (auto simp: relay_round_def Let_def resend.simps [of 0 "[]"] split: arrival.splits)

text \<open>The client does not notice the end of the connection in a round in which something is typed.\<close>

lemma end_not_noticed: "0 < last_rc ready conn (Arrived (c # t))"
  by (simp add: last_rc_def)

text \<open>Neither does a session: with a connection that was closed it goes round until the shell ends.\<close>

lemma session_spins:
  "session_loop (replicate n (False, 1, Arrived [], Idle) @ rs) r = session_loop rs r"
  by (induction n) (simp_all add: relay_round_def received_def without_cr_def)

text \<open>What the user of the client sees is what was received without carriage returns.\<close>

lemma tc_shows:
  "tc_loop rs r = (out, r') \<Longrightarrow> out \<noteq> Sending \<Longrightarrow>
     \<exists>n. local_text r' = local_text r @ concat (map (\<lambda>(ready, conn, loc). received conn) (take n rs))"
proof (induction rs r rule: tc_loop.induct)
  case (2 ready conn loc rs r)
  show ?case
  proof (cases "ready = -1")
    case True
    with 2 show ?thesis by (auto intro: exI [of _ 0])
  next
    case False
    with "2.prems" obtain r1 where r1: "relay_round conn loc r = Some r1" by (cases "relay_round conn loc r") auto
    then have t: "local_text r1 = local_text r @ received conn"
      by (auto simp: relay_round_def Let_def split: arrival.splits)
    show ?thesis
    proof (cases "last_rc ready conn loc > 0")
      case True
      with "2.IH" [OF False r1 True] "2.prems" False r1 obtain n where
        "local_text r' = local_text r1 @ concat (map (\<lambda>(ready, conn, loc). received conn) (take n rs))" by auto
      with t show ?thesis by (intro exI [of _ "Suc n"]) simp
    next
      case stop: False
      with "2.prems" False r1 t show ?thesis by (intro exI [of _ 1]) simp
    qed
  qed
qed (auto intro: exI [of _ 0])

section \<open>Flushing devices\<close>

text \<open>The function \<open>main\<close> of \<open>freeramdisk\<close>, on whether each device can be opened; a status is taken modulo 256.\<close>

definition fr_main :: "bool list \<Rightarrow> nat" where
  "fr_main devices = (if devices = [] then 1 else length (filter (\<lambda>ok. \<not> ok) devices) mod 256)"

lemma fr_status:
  assumes "devices \<noteq> []" "length devices < 256"
  shows "fr_main devices = 0 \<longleftrightarrow> (\<forall>ok \<in> set devices. ok)"
proof -
  have "length (filter (\<lambda>ok. \<not> ok) devices) < 256" using assms(2) length_filter_le le_less_trans by blast
  then show ?thesis using assms(1) by (auto simp: fr_main_def filter_empty_conv)
qed

lemma many_failures_succeed: "fr_main (replicate 256 False) = 0"
  by (simp add: fr_main_def filter_replicate)

end
