(* ===== verification/CmdWrapper.thy ===== *)
theory CmdWrapper
  imports CLib
begin

text \<open>
  The generic command wrapper, \<^verbatim>\<open>misc/tools-source/cmd_wrapper.c\<close>: it rewrites the argument vector
  of a compiler (or another tool) as the environment variables \<open><prefix>_WRAPPER_*\<close> say, and
  executes the next wrapper or the real command. The environment is a map, \<open>newargv\<close> a growing
  array with its capacity, each \<open>return\<close>, \<open>exit\<close> and \<open>execvp\<close> an outcome.
  The compile-time macros \<open>ENVPREFIX\<close> and \<open>MYNAME\<close> are arguments, and so is what the
  program gets from outside (\<open>cw_world\<close>): \<open>fnmatch\<close>, the shell that runs the filter
  command, whether the log file can be opened, and the current directory. Debug output on stderr
  is left out.
\<close>

section \<open>The environment variables\<close>

record cw_world =
  w_fnmatch :: "string \<Rightarrow> string \<Rightarrow> bool"
  w_filter :: "string \<Rightarrow> string \<Rightarrow> string"
  w_fopen :: "string \<Rightarrow> bool"
  w_cwd :: string

definition setenv :: "environ \<Rightarrow> string \<Rightarrow> string \<Rightarrow> bool \<Rightarrow> environ" where
  "setenv env name v overwrite =
     (if overwrite \<or> env name = None then env(name := Some v) else env)"

text \<open>The loop of \<open>cleanenv\<close>: \<open>delim\<close> and the characters written to \<open>tmp2\<close>.\<close>

fun clean_loop :: "char \<Rightarrow> string \<Rightarrow> bool \<Rightarrow> string \<Rightarrow> string" where
  "clean_loop ch [] delim tmp2 = tmp2"
| "clean_loop ch (c # cs) delim tmp2 =
     (if c = ch
      then (if \<not> delim then clean_loop ch cs True (tmp2 @ [ch]) else clean_loop ch cs delim tmp2)
      else clean_loop ch cs False (tmp2 @ [c]))"

definition clean_string :: "char \<Rightarrow> string \<Rightarrow> string" where
  "clean_string ch tmp1 = strip_last ch (clean_loop ch tmp1 True [])"

definition cleanenv :: "string \<Rightarrow> char \<Rightarrow> environ \<Rightarrow> environ" where
  "cleanenv name ch env =
     (let env1 = setenv env name [] False;
          tmp1 = (case env1 name of Some v \<Rightarrow> v | None \<Rightarrow> [])
      in setenv env1 name (clean_string ch tmp1) True)"

lemma clean_loop_tokens:
  "ch \<notin> set acc \<Longrightarrow>
   strip_last ch (clean_loop ch s (acc = []) (concat (map (\<lambda>t. t @ [ch]) ts) @ acc)) =
     join ch (ts @ tokens_acc ch acc s)"
proof (induction ch acc s arbitrary: ts rule: tokens_acc.induct)
  case (1 ch acc)
  show ?case
  proof (cases "acc = []")
    case True
    then show ?thesis by (cases "ts = []") (simp_all add: concat_join)
  next
    case False
    then have "last (concat (map (\<lambda>t. t @ [ch]) ts) @ acc) \<noteq> ch"
      using "1" by (metis last_appendR last_in_set)
    with False show ?thesis by (simp add: strip_last_def concat_join_snoc)
  qed
next
  case (2 ch acc c cs)
  consider "c = ch" "acc = []" | "c = ch" "acc \<noteq> []" | "c \<noteq> ch" by blast
  then show ?case
  proof cases
    case 1
    then show ?thesis using "2.IH"(1) [of ts] by simp
  next
    case 2
    then show ?thesis using "2.IH"(2) [of "ts @ [acc]"] by simp
  next
    case 3
    then show ?thesis using "2.IH"(3) [of ts] "2.prems" by simp
  qed
qed

lemma clean_string_join: "clean_string ch s = join ch (tokens ch s)"
  using clean_loop_tokens [of ch "[]" s "[]"] by (simp add: clean_string_def tokens_def)

lemma tokens_clean_string [simp]: "tokens ch (clean_string ch s) = tokens ch s"
  unfolding clean_string_join by (rule tokens_join) (metis tokens_delim tokens_not_Nil)

lemma clean_string_idem [simp]: "clean_string ch (clean_string ch s) = clean_string ch s"
  by (metis clean_string_join tokens_clean_string)

lemma clean_string_Nil [simp]: "clean_string ch [] = []"
  by (simp add: clean_string_join)

lemma length_clean_loop: "length (clean_loop ch s delim out) \<le> length s + length out"
  by (induction ch s delim out rule: clean_loop.induct) auto

lemma length_clean_string: "length (clean_string ch s) \<le> length s"
  using length_strip_last [of ch "clean_loop ch s True []"] length_clean_loop [of ch s True "[]"]
  by (simp add: clean_string_def)

lemma cleanenv_same:
  "cleanenv name ch env name = Some (clean_string ch (case env name of Some v \<Rightarrow> v | None \<Rightarrow> []))"
  by (simp add: cleanenv_def setenv_def Let_def split: option.split)

lemma cleanenv_other: "n \<noteq> name \<Longrightarrow> cleanenv name ch env n = env n"
  by (simp add: cleanenv_def setenv_def Let_def)

section \<open>Conditional arguments\<close>

fun match_any :: "(string \<Rightarrow> string \<Rightarrow> bool) \<Rightarrow> string \<Rightarrow> string list \<Rightarrow> bool" where
  "match_any fnm arg [] = False"
| "match_any fnm arg (a # argv) = (if fnm arg a then True else match_any fnm arg argv)"

definition eval_cond_arg :: "(string \<Rightarrow> string \<Rightarrow> bool) \<Rightarrow> string list \<Rightarrow> string \<Rightarrow> string" where
  "eval_cond_arg fnm argv arg =
     (case dropWhile (\<lambda>c. c \<noteq> CHR ''?'') arg of
        [] \<Rightarrow> arg
      | _ # c \<Rightarrow>
          (let lhs = takeWhile (\<lambda>c. c \<noteq> CHR '':'') c;
               rhs = drop 1 (dropWhile (\<lambda>c. c \<noteq> CHR '':'') c)
           in if match_any fnm (takeWhile (\<lambda>c. c \<noteq> CHR ''?'') arg) argv then lhs else rhs))"

lemma match_any_iff: "match_any fnm p argv \<longleftrightarrow> (\<exists>a \<in> set argv. fnm p a)"
  by (induction argv) auto

lemma eval_cond_arg_plain: "CHR ''?'' \<notin> set arg \<Longrightarrow> eval_cond_arg fnm argv arg = arg"
proof -
  assume "CHR ''?'' \<notin> set arg"
  then have "dropWhile (\<lambda>c. c \<noteq> CHR ''?'') arg = []" by (auto simp: dropWhile_eq_Nil_conv)
  then show ?thesis unfolding eval_cond_arg_def by (rule ssubst) simp
qed

lemma eval_cond_arg_cond:
  assumes "CHR ''?'' \<notin> set c" "CHR '':'' \<notin> set l"
  shows "eval_cond_arg fnm argv (c @ CHR ''?'' # l @ CHR '':'' # r) =
           (if \<exists>a \<in> set argv. fnm c a then l else r)"
proof -
  have d: "dropWhile (\<lambda>x. x \<noteq> CHR ''?'') (c @ CHR ''?'' # s) = CHR ''?'' # s" for s
    using assms(1) by (subst dropWhile_append2) auto
  have t: "takeWhile (\<lambda>x. x \<noteq> CHR ''?'') (c @ CHR ''?'' # s) = c" for s
    using assms(1) by (subst takeWhile_append2) auto
  have dl: "dropWhile (\<lambda>x. x \<noteq> CHR '':'') (l @ CHR '':'' # r) = CHR '':'' # r"
    using assms(2) by (subst dropWhile_append2) auto
  have tl: "takeWhile (\<lambda>x. x \<noteq> CHR '':'') (l @ CHR '':'' # r) = l"
    using assms(2) by (subst takeWhile_append2) auto
  show ?thesis by (simp add: eval_cond_arg_def d t dl tl match_any_iff)
qed

section \<open>The new argument vector\<close>

record newargv =
  na_items :: "string list"
  na_cap :: nat

definition realloc_if_needed :: "newargv \<Rightarrow> newargv" where
  "realloc_if_needed v =
     (if length (na_items v) + 1 \<ge> na_cap v then v\<lparr>na_cap := na_cap v * 2\<rparr> else v)"

definition push_arg :: "string \<Rightarrow> newargv \<Rightarrow> newargv" where
  "push_arg a v =
     (let v' = realloc_if_needed v in v'\<lparr>na_items := na_items v' @ [a]\<rparr>)"

interpretation na: grow_array na_items na_cap push_arg
  by unfold_locales (auto simp: push_arg_def realloc_if_needed_def Let_def)

definition init_newargv :: "string option \<Rightarrow> string list \<Rightarrow> newargv" where
  "init_newargv other argv =
     \<lparr>na_items = (case other of Some a \<Rightarrow> (if length a > 0 then [a] else []) | None \<Rightarrow> []) @ [hd argv],
      na_cap = 64\<rparr>"

text \<open>Options from \<open>INSERT\<close> and \<open>APPEND\<close>.\<close>

definition push_opt ::
  "(string \<Rightarrow> string \<Rightarrow> bool) \<Rightarrow> string list \<Rightarrow> newargv \<Rightarrow> string \<Rightarrow> newargv" where
  "push_opt fnm argv v delim =
     (let d = eval_cond_arg fnm argv delim in if d \<noteq> [] then push_arg d v else v)"

definition push_opts ::
  "(string \<Rightarrow> string \<Rightarrow> bool) \<Rightarrow> string list \<Rightarrow> string option \<Rightarrow> newargv \<Rightarrow> newargv" where
  "push_opts fnm argv opts v =
     (case opts of None \<Rightarrow> v
      | Some optbuf \<Rightarrow> foldl (push_opt fnm argv) v (tokens CHR '' '' optbuf))"

text \<open>The test of one argument against the patterns of \<open>REMOVE\<close>.\<close>

fun removed :: "(string \<Rightarrow> string \<Rightarrow> bool) \<Rightarrow> string list \<Rightarrow> string list \<Rightarrow> string \<Rightarrow> bool" where
  "removed fnm argv [] a = False"
| "removed fnm argv (t # ts) a =
     (let d = eval_cond_arg fnm argv t
      in if d \<noteq> [] \<and> fnm d a then True else removed fnm argv ts a)"

definition copy_args ::
  "(string \<Rightarrow> string \<Rightarrow> bool) \<Rightarrow> string list \<Rightarrow> string option \<Rightarrow> newargv \<Rightarrow> newargv" where
  "copy_args fnm argv rm v =
     foldl (\<lambda>v a. if (case rm of None \<Rightarrow> False
                      | Some optbuf \<Rightarrow> removed fnm argv (tokens CHR '' '' optbuf) a)
                  then v else push_arg a v) v (tl argv)"

definition wvar :: "string \<Rightarrow> string \<Rightarrow> string" where
  "wvar pfx n = pfx @ ''_WRAPPER_'' @ n"

definition build_newargv ::
  "string \<Rightarrow> cw_world \<Rightarrow> environ \<Rightarrow> string option \<Rightarrow> string list \<Rightarrow> newargv" where
  "build_newargv pfx w env other argv =
     push_opts (w_fnmatch w) argv (env (wvar pfx ''APPEND''))
       (copy_args (w_fnmatch w) argv (env (wvar pfx ''REMOVE''))
         (push_opts (w_fnmatch w) argv (env (wvar pfx ''INSERT''))
           (init_newargv other argv)))"

text \<open>The arguments that \<open>INSERT\<close> or \<open>APPEND\<close> contributes.\<close>

definition opts_of :: "(string \<Rightarrow> string \<Rightarrow> bool) \<Rightarrow> string list \<Rightarrow> string option \<Rightarrow> string list" where
  "opts_of fnm argv opts =
     filter (\<lambda>d. d \<noteq> [])
       (map (eval_cond_arg fnm argv) (case opts of None \<Rightarrow> [] | Some s \<Rightarrow> tokens CHR '' '' s))"

lemma foldl_push_opt:
  "foldl (push_opt fnm argv) v ts =
     foldl (\<lambda>v x. push_arg x v) v (filter (\<lambda>d. d \<noteq> []) (map (eval_cond_arg fnm argv) ts))"
  by (induction ts arbitrary: v) (auto simp: push_opt_def Let_def)

lemma push_opts_eq:
  "push_opts fnm argv opts v = foldl (\<lambda>v x. push_arg x v) v (opts_of fnm argv opts)"
  by (cases opts) (simp_all add: push_opts_def opts_of_def foldl_push_opt)

lemma foldl_push_filter:
  "foldl (\<lambda>v a. if P a then v else push_arg a v) v xs =
     foldl (\<lambda>v x. push_arg x v) v (filter (\<lambda>a. \<not> P a) xs)"
  by (induction xs arbitrary: v) auto

definition keep_arg :: "(string \<Rightarrow> string \<Rightarrow> bool) \<Rightarrow> string list \<Rightarrow> string option \<Rightarrow> string \<Rightarrow> bool" where
  "keep_arg fnm argv rm a =
     (case rm of None \<Rightarrow> True | Some s \<Rightarrow> \<not> removed fnm argv (tokens CHR '' '' s) a)"

lemma copy_args_eq:
  "copy_args fnm argv rm v =
     foldl (\<lambda>v x. push_arg x v) v (filter (keep_arg fnm argv rm) (tl argv))"
  by (cases rm) (simp_all add: copy_args_def keep_arg_def [abs_def] foldl_push_filter)

lemma removed_iff:
  "removed fnm argv ts a \<longleftrightarrow>
     (\<exists>t \<in> set ts. eval_cond_arg fnm argv t \<noteq> [] \<and> fnm (eval_cond_arg fnm argv t) a)"
  by (induction ts) (auto simp: Let_def)

lemmas build_newargv_eq = build_newargv_def push_opts_eq copy_args_eq

lemma items_build_newargv:
  "na_items (build_newargv pfx w env other argv) =
     na_items (init_newargv other argv) @
     opts_of (w_fnmatch w) argv (env (wvar pfx ''INSERT'')) @
     filter (keep_arg (w_fnmatch w) argv (env (wvar pfx ''REMOVE''))) (tl argv) @
     opts_of (w_fnmatch w) argv (env (wvar pfx ''APPEND''))"
  by (simp add: build_newargv_eq na.items_push_all)

lemma room_init_newargv: "length (na_items (init_newargv other argv)) < na_cap (init_newargv other argv)"
  by (simp add: init_newargv_def split: option.split)

lemma room_build_newargv:
  "length (na_items (build_newargv pfx w env other argv)) < na_cap (build_newargv pfx w env other argv)"
  unfolding build_newargv_eq by (intro na.room_push_all room_init_newargv)


section \<open>Chained wrappers\<close>

text \<open>
  The choice of the next wrapper in \<open>OTHERS\<close>, with the record in \<open>OTHERS_DONE\<close> of those
  already run. \<open>None\<close> is the error exit 249; an empty \<open>OTHERS\<close> leaves \<open>other\<close> empty.
\<close>

definition next_other :: "string \<Rightarrow> environ \<Rightarrow> (string option \<times> environ) option" where
  "next_other pfx env =
     (case env (wvar pfx ''OTHERS'') of
        None \<Rightarrow> Some (None, env)
      | Some other \<Rightarrow>
          if other = [] then Some (Some other, env)
          else (case env (wvar pfx ''OTHERS_DONE'') of
              Some other_done \<Rightarrow>
                if strstr other other_done \<noteq> Some 0 then None
                else (let rest = drop (length other_done) other
                      in if rest = [] then Some (None, env)
                         else (let rest' = (if hd rest = CHR '':'' then tl rest else rest)
                               in Some (Some rest',
                                        setenv env (wvar pfx ''OTHERS_DONE'')
                                          (other_done @ '':'' @ rest') True)))
            | None \<Rightarrow>
                (let first = hd (tokens CHR '':'' other)
                 in Some (Some first, setenv env (wvar pfx ''OTHERS_DONE'') first True))))"

text \<open>
  The size of the block that holds the new value of \<open>OTHERS_DONE\<close>, and the number of bytes
  written to it, the final NUL included.
\<close>

definition newother_done_size :: "string \<Rightarrow> nat" where
  "newother_done_size others = length others"

definition newother_done_written :: "string \<Rightarrow> string \<Rightarrow> nat" where
  "newother_done_written other_done rest' = length (other_done @ '':'' @ rest') + 1"

section \<open>The filter command\<close>

text \<open>
  Re-reading the parameter list from the output of the filter: one argument per line; each is a
  C string in the block that was read, so it ends at a NUL byte.
\<close>

function filter_lines :: "string \<Rightarrow> string list" where
  "filter_lines argvmem =
     (if argvmem = [] then []
      else cstr (takeWhile (\<lambda>c. c \<noteq> newline) argvmem) #
           filter_lines (drop 1 (dropWhile (\<lambda>c. c \<noteq> newline) argvmem)))"
  by pat_completeness auto
termination
proof (relation "measure length")
  fix argvmem :: string
  assume ne: "argvmem \<noteq> []"
  have "length (drop 1 (dropWhile (\<lambda>c. c \<noteq> newline) argvmem)) < length argvmem"
  proof (cases "dropWhile (\<lambda>c. c \<noteq> newline) argvmem = []")
    case True
    then show ?thesis using ne by (metis drop_Nil length_greater_0_conv list.size(3))
  next
    case False
    then show ?thesis
      using dropWhile_decreases [of "\<lambda>c. c \<noteq> newline" argvmem]
      by (cases "dropWhile (\<lambda>c. c \<noteq> newline) argvmem") auto
  qed
  then show "(drop 1 (dropWhile (\<lambda>c. c \<noteq> newline) argvmem), argvmem) \<in> measure length"
    by simp
qed simp

declare filter_lines.simps [simp del]

definition filter_input :: "string list \<Rightarrow> string" where
  "filter_input args = concat (map (\<lambda>a. a @ [newline]) args)"

definition run_filter :: "string \<Rightarrow> cw_world \<Rightarrow> environ \<Rightarrow> newargv \<Rightarrow> newargv option" where
  "run_filter pfx w env v =
     (case env (wvar pfx ''FILTER'') of
        None \<Rightarrow> Some v
      | Some f \<Rightarrow>
          if f = [] then Some v
          else (let out = w_filter w f (filter_input (na_items v))
                in if out = [] then None
                   else Some (foldl (\<lambda>v x. push_arg x v) (v\<lparr>na_items := []\<rparr>) (filter_lines out))))"

section \<open>PATH\<close>

fun path_loop :: "string \<Rightarrow> string list \<Rightarrow> string \<Rightarrow> string" where
  "path_loop wrdir [] optbuf = optbuf"
| "path_loop wrdir (delim # ds) optbuf =
     (if delim \<noteq> wrdir
      then path_loop wrdir ds ((if optbuf \<noteq> [] then optbuf @ '':'' else optbuf) @ delim)
      else path_loop wrdir ds optbuf)"

definition new_path :: "string \<Rightarrow> string \<Rightarrow> string" where
  "new_path wrdir path = path_loop wrdir (tokens CHR '':'' path) []"

lemma join_snoc: "xs \<noteq> [] \<Longrightarrow> join d (xs @ [x]) = join d xs @ d # x"
  by (metis concat_join concat_join_snoc append_assoc append_Cons append_Nil)

lemma path_loop_join:
  "[] \<notin> set ds \<Longrightarrow> [] \<notin> set ts \<Longrightarrow>
   path_loop wrdir ds (join CHR '':'' ts) = join CHR '':'' (ts @ filter (\<lambda>d. d \<noteq> wrdir) ds)"
proof (induction ds arbitrary: ts)
  case Nil
  then show ?case by simp
next
  case (Cons d ds)
  show ?case
  proof (cases "d = wrdir")
    case True
    then show ?thesis using Cons by simp
  next
    case False
    have "(if join CHR '':'' ts \<noteq> [] then join CHR '':'' ts @ '':'' else join CHR '':'' ts) @ d =
          join CHR '':'' (ts @ [d])"
      using Cons.prems(2) by (cases "ts = []") (simp_all add: join_eq_Nil join_snoc)
    then show ?thesis using False Cons.IH [of "ts @ [d]"] Cons.prems by simp
  qed
qed

lemma new_path_join:
  "new_path wrdir path = join CHR '':'' (filter (\<lambda>d. d \<noteq> wrdir) (tokens CHR '':'' path))"
  using path_loop_join [of "tokens CHR '':'' path" "[]" wrdir] by (simp add: new_path_def)


section \<open>The main function\<close>

text \<open>
  Outcomes: a return or exit code with the environment and the text appended to the log file, or
  an \<open>execvp\<close> of an argument vector with the code returned if it fails. \<open>CwCrash\<close> is
  the dereference of a NULL \<open>argv[0]\<close>.
\<close>

datatype cw_outcome =
    CwExit nat environ string
  | CwExec "string list" environ string nat
  | CwCrash

definition skip_name :: "string \<Rightarrow> string list \<Rightarrow> string list option" where
  "skip_name myname argv =
     (let argv = basename (hd argv) # tl argv
      in if hd argv = myname
         then (if length argv > 1 then Some (basename (argv ! 1) # drop 2 argv) else None)
         else Some argv)"

definition log_args :: "string list \<Rightarrow> string" where
  "log_args args = concat (map (\<lambda>a. '' '' @ a) args) @ [newline]"

definition log_start :: "string \<Rightarrow> cw_world \<Rightarrow> environ \<Rightarrow> string list \<Rightarrow> string option" where
  "log_start pfx w env argv =
     (case env (wvar pfx ''LOGFILE'') of
        None \<Rightarrow> None
      | Some f \<Rightarrow>
          if f \<noteq> [] \<and> w_fopen w f
          then Some (newline # w_cwd w @ '':'' @ [newline] @ ''-'' @ log_args argv)
          else None)"

definition log_end :: "string option \<Rightarrow> string list \<Rightarrow> string" where
  "log_end log args = (case log of None \<Rightarrow> [] | Some l \<Rightarrow> l @ ''+'' @ log_args args)"

definition log_text :: "string option \<Rightarrow> string" where
  "log_text log = (case log of None \<Rightarrow> [] | Some l \<Rightarrow> l)"

definition bypass :: "string \<Rightarrow> environ \<Rightarrow> environ" where
  "bypass pfx env =
     (case env (wvar pfx ''BYPASS'') of
        None \<Rightarrow> env
      | Some v \<Rightarrow>
          if v \<noteq> [] \<and> atoi v \<noteq> 0
          then foldl (\<lambda>e n. setenv e (wvar pfx n) [] True) env
                 [''OTHERS'', ''INSERT'', ''REMOVE'', ''APPEND'', ''FILTER'']
          else env)"

definition clean_config :: "string \<Rightarrow> environ \<Rightarrow> environ" where
  "clean_config pfx env =
     cleanenv (wvar pfx ''FILTER'') CHR ''|''
       (cleanenv (wvar pfx ''APPEND'') CHR '' ''
         (cleanenv (wvar pfx ''REMOVE'') CHR '' ''
           (cleanenv (wvar pfx ''INSERT'') CHR '' ''
             (cleanenv (wvar pfx ''OTHERS'') CHR '':'' env))))"

definition exec_other :: "environ \<Rightarrow> string option \<Rightarrow> newargv \<Rightarrow> cw_outcome" where
  "exec_other env log v = CwExec (na_items v) env (log_end log (na_items v)) 253"

definition exec_command :: "string \<Rightarrow> environ \<Rightarrow> string option \<Rightarrow> newargv \<Rightarrow> cw_outcome" where
  "exec_command pfx env log v =
     (case (env ''PATH'', env (wvar pfx ''MYPATH'')) of
        (Some path, Some wrdir) \<Rightarrow>
          if path \<noteq> [] \<and> wrdir \<noteq> []
          then (let env1 = setenv env ''PATH'' (new_path wrdir path) True
                in case env1 (wvar pfx ''NOLOOP'') of
                     Some n \<Rightarrow>
                       if n \<noteq> [] \<and> hd n \<noteq> CHR ''0'' then CwExit 251 env1 (log_text log)
                       else CwExec (na_items v) (setenv env1 (wvar pfx ''NOLOOP'') ''1'' True)
                              (log_end log (na_items v)) 254
                   | None \<Rightarrow>
                       CwExec (na_items v) (setenv env1 (wvar pfx ''NOLOOP'') ''1'' True)
                         (log_end log (na_items v)) 254)
          else CwExit 252 env (log_text log)
      | _ \<Rightarrow> CwExit 252 env (log_text log))"

definition cw_rewrite ::
  "string \<Rightarrow> cw_world \<Rightarrow> environ \<Rightarrow> string option \<Rightarrow> string list \<Rightarrow> cw_outcome" where
  "cw_rewrite pfx w env log argv =
     (case next_other pfx env of
        None \<Rightarrow> CwExit 249 env (log_text log)
      | Some (other, env1) \<Rightarrow>
          (case run_filter pfx w env1 (build_newargv pfx w env1 other argv) of
             None \<Rightarrow> CwExit 248 env1 (log_text log)
           | Some v \<Rightarrow>
               if other \<noteq> None \<and> other \<noteq> Some [] then exec_other env1 log v
               else exec_command pfx env1 log v))"

definition cw_main :: "string \<Rightarrow> string \<Rightarrow> cw_world \<Rightarrow> environ \<Rightarrow> string list \<Rightarrow> cw_outcome" where
  "cw_main pfx myname w env argv =
     (if argv = [] then CwCrash
      else (case skip_name myname argv of
              None \<Rightarrow> CwExit 250 env []
            | Some argv1 \<Rightarrow>
                cw_rewrite pfx w (clean_config pfx (bypass pfx env))
                  (log_start pfx w env argv1) argv1))"

section \<open>Lemmas about the run\<close>

lemma wvar_inj [simp]: "wvar pfx a = wvar pfx b \<longleftrightarrow> a = b"
  by (simp add: wvar_def)

lemma wvar_not_PATH [simp]: "wvar pfx n \<noteq> ''PATH''" "''PATH'' \<noteq> wvar pfx n"
proof -
  have "length (wvar pfx n) \<noteq> length ''PATH''" by (simp add: wvar_def)
  then show "wvar pfx n \<noteq> ''PATH''" "''PATH'' \<noteq> wvar pfx n" by metis+
qed

lemma setenv_True [simp]: "setenv env n v True = env(n := Some v)"
  by (simp add: setenv_def)

lemma clean_config_other:
  "n \<notin> {''OTHERS'', ''INSERT'', ''REMOVE'', ''APPEND'', ''FILTER''} \<Longrightarrow>
     clean_config pfx env (wvar pfx n) = env (wvar pfx n)"
  by (simp add: clean_config_def cleanenv_other)

lemma clean_config_same:
  "clean_config pfx env (wvar pfx ''OTHERS'') =
     Some (clean_string CHR '':'' (case env (wvar pfx ''OTHERS'') of Some v \<Rightarrow> v | None \<Rightarrow> []))"
  "n \<in> {''INSERT'', ''REMOVE'', ''APPEND''} \<Longrightarrow>
   clean_config pfx env (wvar pfx n) =
     Some (clean_string CHR '' '' (case env (wvar pfx n) of Some v \<Rightarrow> v | None \<Rightarrow> []))"
  "clean_config pfx env (wvar pfx ''FILTER'') =
     Some (clean_string CHR ''|'' (case env (wvar pfx ''FILTER'') of Some v \<Rightarrow> v | None \<Rightarrow> []))"
  by (auto simp: clean_config_def cleanenv_other cleanenv_same)

lemma clean_config_PATH: "clean_config pfx env ''PATH'' = env ''PATH''"
  by (simp add: clean_config_def cleanenv_other)

lemma bypass_other:
  "n \<notin> {''OTHERS'', ''INSERT'', ''REMOVE'', ''APPEND'', ''FILTER''} \<Longrightarrow>
     bypass pfx env (wvar pfx n) = env (wvar pfx n)"
  "bypass pfx env ''PATH'' = env ''PATH''"
  by (auto simp: bypass_def split: option.split)

lemma next_other_env:
  "next_other pfx env = Some (other, env1) \<Longrightarrow> n \<noteq> wvar pfx ''OTHERS_DONE'' \<Longrightarrow> env1 n = env n"
  by (auto simp: next_other_def Let_def split: option.splits if_splits)

text \<open>
  The environment in which a command is executed has \<open>NOLOOP\<close> set, and with \<open>NOLOOP\<close> set
  no command is executed.
\<close>

lemma exec_command_NOLOOP:
  "exec_command pfx env log v = CwExec args e l c \<Longrightarrow> e (wvar pfx ''NOLOOP'') = Some ''1''"
  by (auto simp: exec_command_def Let_def split: option.splits if_splits)

lemma exec_command_blocked:
  assumes "env (wvar pfx ''NOLOOP'') = Some ''1''"
  shows "exec_command pfx env log v \<noteq> CwExec args e l c"
  using assms by (auto simp: exec_command_def Let_def split: option.splits if_splits)

lemma cw_main_exec:
  assumes "cw_main pfx my w env argv = CwExec args e l 254"
  obtains env1 log v where "exec_command pfx env1 log v = CwExec args e l 254"
    and "env1 (wvar pfx ''NOLOOP'') = env (wvar pfx ''NOLOOP'')"
proof -
  from assms obtain argv1 other env1 v log where
    n: "next_other pfx (clean_config pfx (bypass pfx env)) = Some (other, env1)"
    and e: "exec_command pfx env1 log v = CwExec args e l 254"
    by (auto simp: cw_main_def cw_rewrite_def exec_other_def split: option.splits if_splits)
  have "env1 (wvar pfx ''NOLOOP'') = env (wvar pfx ''NOLOOP'')"
    using next_other_env [OF n] by (simp add: clean_config_other bypass_other)
  with e show ?thesis by (rule that)
qed

lemma room_filter:
  assumes "length (na_items v) < na_cap v" "run_filter pfx w env v = Some v'"
  shows "length (na_items v') < na_cap v'"
  using assms
  by (auto simp: run_filter_def Let_def intro!: na.room_push_all split: option.splits if_splits)


lemma opts_of_clean [simp]:
  "opts_of fnm argv (Some (clean_string CHR '' '' (case o1 of Some v \<Rightarrow> v | None \<Rightarrow> []))) =
     opts_of fnm argv o1"
  by (cases o1) (simp_all add: opts_of_def)

lemma keep_arg_clean [simp]:
  "keep_arg fnm argv (Some (clean_string CHR '' '' (case o1 of Some v \<Rightarrow> v | None \<Rightarrow> []))) =
     keep_arg fnm argv o1"
  by (cases o1) (simp_all add: keep_arg_def [abs_def])

lemma next_other_none:
  "env (wvar pfx ''OTHERS'') \<in> {None, Some []} \<Longrightarrow>
     next_other pfx (clean_config pfx env) = Some (Some [], clean_config pfx env)"
  by (auto simp: next_other_def clean_config_same)

lemma run_filter_none:
  "env (wvar pfx ''FILTER'') \<in> {None, Some []} \<Longrightarrow>
     run_filter pfx w (clean_config pfx env) v = Some v"
  by (auto simp: run_filter_def clean_config_same)

text \<open>The main function when no other wrapper and no filter is configured.\<close>

lemma cw_main_plain:
  assumes "argv \<noteq> []" "skip_name my argv = Some argv1"
    and "bypass pfx env = env1"
    and "env1 (wvar pfx ''OTHERS'') \<in> {None, Some []}" "env1 (wvar pfx ''FILTER'') \<in> {None, Some []}"
  shows "cw_main pfx my w env argv =
           exec_command pfx (clean_config pfx env1) (log_start pfx w env argv1)
             (build_newargv pfx w (clean_config pfx env1) (Some []) argv1)"
  using assms by (simp add: cw_main_def cw_rewrite_def next_other_none run_filter_none)

lemma tokens_join_tail:
  assumes "ts \<noteq> []" "us \<noteq> []"
  shows "join d (ts @ us) = join d ts @ d # join d us"
  using assms(1)
proof (induction ts)
  case Nil
  then show ?case by simp
next
  case (Cons t ts)
  then show ?case using assms(2) by (cases "ts = []") (simp_all add: join_Cons)
qed

section \<open>Properties\<close>

lemma plain_run:
  assumes "argv \<noteq> []" "skip_name my argv = Some argv1"
    and "env (wvar pfx ''BYPASS'') = None"
    and "env (wvar pfx ''OTHERS'') \<in> {None, Some []}" "env (wvar pfx ''FILTER'') \<in> {None, Some []}"
    and "env ''PATH'' = Some path" "path \<noteq> []"
    and "env (wvar pfx ''MYPATH'') = Some wrdir" "wrdir \<noteq> []"
    and "env (wvar pfx ''NOLOOP'') = None"
  shows "\<exists>e l. cw_main pfx my w env argv =
      CwExec
        (hd argv1 #
         opts_of (w_fnmatch w) argv1 (env (wvar pfx ''INSERT'')) @
         filter (keep_arg (w_fnmatch w) argv1 (env (wvar pfx ''REMOVE''))) (tl argv1) @
         opts_of (w_fnmatch w) argv1 (env (wvar pfx ''APPEND''))) e l 254 \<and>
      e ''PATH'' = Some (join CHR '':'' (filter (\<lambda>d. d \<noteq> wrdir) (tokens CHR '':'' path))) \<and>
      e (wvar pfx ''NOLOOP'') = Some ''1''"
proof -
  have b: "bypass pfx env = env" using assms(3) by (simp add: bypass_def)
  have i: "na_items (build_newargv pfx w (clean_config pfx env) (Some []) argv1) =
     hd argv1 # opts_of (w_fnmatch w) argv1 (env (wvar pfx ''INSERT'')) @
     filter (keep_arg (w_fnmatch w) argv1 (env (wvar pfx ''REMOVE''))) (tl argv1) @
     opts_of (w_fnmatch w) argv1 (env (wvar pfx ''APPEND''))"
    by (simp add: items_build_newargv init_newargv_def clean_config_same)
  show ?thesis
    using assms cw_main_plain [OF assms(1,2) b assms(4,5)]
    by (simp add: exec_command_def clean_config_PATH clean_config_other i new_path_join Let_def)
qed

text \<open>
  C18. End to end: with no other wrapper and no filter configured, with a PATH and a wrapper
  directory, and outside a loop, the wrapper executes exactly the tool name, the evaluated
  options of INSERT, the given arguments that no pattern of REMOVE matches, and the evaluated
  options of APPEND, in this order; in the environment it hands over, the wrapper directory is
  gone from PATH and NOLOOP is set.
\<close>

theorem wrapped_command:
  assumes "argv \<noteq> []" "skip_name my argv = Some argv1"
    and "env (wvar pfx ''BYPASS'') = None"
    and "env (wvar pfx ''OTHERS'') \<in> {None, Some []}" "env (wvar pfx ''FILTER'') \<in> {None, Some []}"
    and "env ''PATH'' = Some path" "path \<noteq> []"
    and "env (wvar pfx ''MYPATH'') = Some wrdir" "wrdir \<noteq> []"
    and "env (wvar pfx ''NOLOOP'') = None"
  shows "\<exists>e l. cw_main pfx my w env argv =
      CwExec
        (hd argv1 #
         opts_of (w_fnmatch w) argv1 (env (wvar pfx ''INSERT'')) @
         filter (keep_arg (w_fnmatch w) argv1 (env (wvar pfx ''REMOVE''))) (tl argv1) @
         opts_of (w_fnmatch w) argv1 (env (wvar pfx ''APPEND''))) e l 254 \<and>
      e ''PATH'' = Some (join CHR '':'' (filter (\<lambda>d. d \<noteq> wrdir) (tokens CHR '':'' path))) \<and>
      e (wvar pfx ''NOLOOP'') = Some ''1''"
  using assms by (rule plain_run)

text \<open>A concrete run of the wrapper for \<open>cc\<close>, with literal patterns and a final \<open>*\<close>.\<close>

definition demo_match :: "string \<Rightarrow> string \<Rightarrow> bool" where
  "demo_match p a =
     (if p \<noteq> [] \<and> last p = CHR ''*'' then prefix_of (butlast p) a else p = a)"

definition demo_world :: cw_world where
  "demo_world = \<lparr>w_fnmatch = demo_match, w_filter = (\<lambda>_ inp. inp), w_fopen = (\<lambda>_. False), w_cwd = []\<rparr>"

definition demo_env :: environ where
  "demo_env =
     [''PATH'' \<mapsto> ''/w:/bin'', ''CC_WRAPPER_MYPATH'' \<mapsto> ''/w'',
      ''CC_WRAPPER_INSERT'' \<mapsto> '' -O2 '', ''CC_WRAPPER_REMOVE'' \<mapsto> ''-W* -g'',
      ''CC_WRAPPER_APPEND'' \<mapsto> ''-c?-x:-y'']"

lemma wrapped_command_witness:
  "\<exists>e l. cw_main ''CC'' ''cmd_wrapper'' demo_world demo_env [''/w/gcc'', ''-Wall'', ''-c'', ''a.c''] =
      CwExec [''gcc'', ''-O2'', ''-c'', ''a.c'', ''-x''] e l 254 \<and> e ''PATH'' = Some ''/bin''"
proof -
  have s: "skip_name ''cmd_wrapper'' [''/w/gcc'', ''-Wall'', ''-c'', ''a.c''] =
      Some [''gcc'', ''-Wall'', ''-c'', ''a.c'']"
    by (simp add: skip_name_def basename_def)
  note c = wrapped_command [OF _ s, of demo_env "''CC''" "''/w:/bin''" "''/w''" demo_world]
  show ?thesis
    using c
    by (simp add: demo_env_def demo_world_def demo_match_def wvar_def opts_of_def keep_arg_def
        eval_cond_arg_def tokens_def) metis
qed

text \<open>
  \<open>cleanenv\<close> puts a configuration variable into canonical form: the tokens of its old value
  joined by single delimiters, so none at either end and no two in a row; the tokens are
  unchanged, cleaning again changes nothing, no other variable is touched, and the new value
  is no longer than the old one, so it fits the block allocated for it.
\<close>

theorem cleanenv_canonical:
  "let old = (case env name of Some v \<Rightarrow> v | None \<Rightarrow> []);
       new = join ch (tokens ch old)
   in cleanenv name ch env = env(name := Some new) \<and>
      tokens ch new = tokens ch old \<and>
      cleanenv name ch (cleanenv name ch env) = cleanenv name ch env \<and>
      length new \<le> length old"
proof -
  define old where "old = (case env name of Some v \<Rightarrow> v | None \<Rightarrow> [])"
  have c: "cleanenv name ch e = e(name := Some (clean_string ch (case e name of Some v \<Rightarrow> v | None \<Rightarrow> [])))" for e
    by (rule ext) (auto simp: cleanenv_same cleanenv_other)
  have "length (clean_string ch old) \<le> length old" by (rule length_clean_string)
  then show ?thesis
    unfolding Let_def old_def [symmetric] clean_string_join [symmetric] c
    by simp
qed

text \<open>
  C20. The argument array never overflows: after the options and arguments were collected, and
  again after the filter replaced them, the number of entries is below the capacity of the block,
  so the terminating NULL pointer written at \<open>newargv[c1]\<close> is inside it.
\<close>

theorem newargv_in_bounds:
  "case run_filter pfx w env (build_newargv pfx w env other argv) of
     None \<Rightarrow> True
   | Some v \<Rightarrow> length (na_items v) < na_cap v"
  using room_filter [OF room_build_newargv] by (auto split: option.split)

text \<open>
  C19. The wrapper does not execute the real command twice along a chain of executions: when it
  executes it, the environment it hands over makes every further run of the same wrapper, with
  whatever arguments, end without executing the command again.
\<close>

theorem wrapper_loop_detected:
  assumes "cw_main pfx my w env argv = CwExec args e l 254"
  shows "cw_main pfx my2 w2 e argv2 \<noteq> CwExec args2 e2 l2 254"
proof
  assume "cw_main pfx my2 w2 e argv2 = CwExec args2 e2 l2 254"
  then obtain env2 log2 v2 where x: "exec_command pfx env2 log2 v2 = CwExec args2 e2 l2 254"
    and n: "env2 (wvar pfx ''NOLOOP'') = e (wvar pfx ''NOLOOP'')"
    by (rule cw_main_exec)
  from assms have "e (wvar pfx ''NOLOOP'') = Some ''1''"
    by (rule cw_main_exec) (rule exec_command_NOLOOP)
  with n have "env2 (wvar pfx ''NOLOOP'') = Some ''1''" by simp
  then have "exec_command pfx env2 log2 v2 \<noteq> CwExec args2 e2 l2 254" by (rule exec_command_blocked)
  with x show False by simp
qed

lemma wrapper_loop_detected_witness:
  "\<exists>args e l. cw_main ''CC'' ''cmd_wrapper'' demo_world [''PATH'' \<mapsto> ''/w:/bin'', ''CC_WRAPPER_MYPATH'' \<mapsto> ''/w''] [''cc'']
       = CwExec args e l 254 \<and>
     cw_main ''CC'' ''cmd_wrapper'' demo_world e [''cc''] \<noteq> CwExec [''cc''] e l 254"
proof -
  let ?env = "[''PATH'' \<mapsto> ''/w:/bin'', ''CC_WRAPPER_MYPATH'' \<mapsto> ''/w'']"
  have s: "skip_name ''cmd_wrapper'' [''cc''] = Some [''cc'']"
    by (simp add: skip_name_def basename_def)
  have "bypass ''CC'' ?env = ?env" by (simp add: bypass_def wvar_def)
  from cw_main_plain [OF _ s this, of demo_world]
  have "\<exists>args e l. cw_main ''CC'' ''cmd_wrapper'' demo_world ?env [''cc''] = CwExec args e l 254"
    by (simp add: exec_command_def clean_config_PATH clean_config_other wvar_def [of "''CC''"] clean_config_def
        cleanenv_other)
  then obtain args e l where r: "cw_main ''CC'' ''cmd_wrapper'' demo_world ?env [''cc''] = CwExec args e l 254"
    by blast
  from r wrapper_loop_detected [OF r] show ?thesis by blast
qed

text \<open>
  The chain of wrappers in OTHERS: the first run executes the first wrapper and records it.
  A later run, with the wrappers \<open>ts\<close> done and \<open>us\<close> left, executes the whole rest
  \<open>join '':'' us\<close> as one program name and records all wrappers as done; and the new
  value of OTHERS\_DONE needs exactly one byte more than the block allocated for it. With two
  wrappers the rest is one name and the chain works; with three it is not the name of a wrapper.
\<close>

theorem others_chain:
  assumes "\<forall>t \<in> set (ts @ us). t \<noteq> [] \<and> CHR '':'' \<notin> set t" "ts \<noteq> []" "us \<noteq> []"
    and o: "env (wvar pfx ''OTHERS'') = Some (join CHR '':'' (ts @ us))"
  shows "(env (wvar pfx ''OTHERS_DONE'') = None \<longrightarrow>
           next_other pfx env = Some (Some (hd ts), env(wvar pfx ''OTHERS_DONE'' := Some (hd ts)))) \<and>
         (env (wvar pfx ''OTHERS_DONE'') = Some (join CHR '':'' ts) \<longrightarrow>
           next_other pfx env = Some (Some (join CHR '':'' us),
             env(wvar pfx ''OTHERS_DONE'' := Some (join CHR '':'' (ts @ us)))) \<and>
           newother_done_written (join CHR '':'' ts) (join CHR '':'' us) =
             newother_done_size (join CHR '':'' (ts @ us)) + 1)"
proof -
  have j: "join CHR '':'' (ts @ us) = join CHR '':'' ts @ CHR '':'' # join CHR '':'' us"
    by (rule tokens_join_tail) fact+
  have h: "hd (tokens CHR '':'' (join CHR '':'' (ts @ us))) = hd ts"
    using assms(1,2) by (simp add: tokens_join)
  show ?thesis
    using o h j
    by (simp add: next_other_def strstr_0 newother_done_size_def newother_done_written_def Let_def)
qed

lemma others_chain_witness:
  "next_other ''CC'' [''CC_WRAPPER_OTHERS'' \<mapsto> ''a:b:c''] =
     Some (Some ''a'', [''CC_WRAPPER_OTHERS'' \<mapsto> ''a:b:c'', ''CC_WRAPPER_OTHERS_DONE'' \<mapsto> ''a'']) \<and>
   next_other ''CC'' [''CC_WRAPPER_OTHERS'' \<mapsto> ''a:b:c'', ''CC_WRAPPER_OTHERS_DONE'' \<mapsto> ''a''] =
     Some (Some ''b:c'', [''CC_WRAPPER_OTHERS'' \<mapsto> ''a:b:c'', ''CC_WRAPPER_OTHERS_DONE'' \<mapsto> ''a:b:c''])"
proof -
  note c = others_chain [of "[''a'']" "[''b'', ''c'']" _ "''CC''"]
  have 1: "next_other ''CC'' [''CC_WRAPPER_OTHERS'' \<mapsto> ''a:b:c''] =
     Some (Some ''a'', [''CC_WRAPPER_OTHERS'' \<mapsto> ''a:b:c'', ''CC_WRAPPER_OTHERS_DONE'' \<mapsto> ''a''])"
    using c [of "[''CC_WRAPPER_OTHERS'' \<mapsto> ''a:b:c'']"] by (simp add: wvar_def)
  have 2: "next_other ''CC'' [''CC_WRAPPER_OTHERS'' \<mapsto> ''a:b:c'', ''CC_WRAPPER_OTHERS_DONE'' \<mapsto> ''a''] =
     Some (Some ''b:c'', [''CC_WRAPPER_OTHERS'' \<mapsto> ''a:b:c'', ''CC_WRAPPER_OTHERS_DONE'' \<mapsto> ''a:b:c''])"
    using c [of "[''CC_WRAPPER_OTHERS'' \<mapsto> ''a:b:c'', ''CC_WRAPPER_OTHERS_DONE'' \<mapsto> ''a'']"]
    by (simp add: wvar_def)
  from 1 2 show ?thesis by blast
qed

text \<open>
  Bypassing: with BYPASS set to a non-zero number, whatever the other variables hold, the
  command is executed with its arguments unchanged.
\<close>

theorem bypass_identity:
  assumes "argv \<noteq> []" "skip_name my argv = Some argv1"
    and b: "env (wvar pfx ''BYPASS'') = Some v" "v \<noteq> []" "atoi v \<noteq> 0"
    and "env ''PATH'' = Some path" "path \<noteq> []"
    and "env (wvar pfx ''MYPATH'') = Some wrdir" "wrdir \<noteq> []"
    and "env (wvar pfx ''NOLOOP'') = None"
  shows "\<exists>e l. cw_main pfx my w env argv = CwExec (hd argv1 # tl argv1) e l 254"
proof -
  define env1 where "env1 = bypass pfx env"
  have cleared: "env1 (wvar pfx n) = Some []"
    if "n \<in> {''OTHERS'', ''INSERT'', ''REMOVE'', ''APPEND'', ''FILTER''}" for n
    using b that by (auto simp: env1_def bypass_def)
  have i: "na_items (build_newargv pfx w (clean_config pfx env1) (Some []) argv1) = hd argv1 # tl argv1"
    by (simp add: items_build_newargv init_newargv_def clean_config_same cleared opts_of_def
        keep_arg_def [abs_def])
  have o: "env1 (wvar pfx ''OTHERS'') \<in> {None, Some []}" "env1 (wvar pfx ''FILTER'') \<in> {None, Some []}"
    by (simp_all add: cleared)
  have "env1 ''PATH'' = env ''PATH''" "env1 (wvar pfx ''MYPATH'') = env (wvar pfx ''MYPATH'')"
    "env1 (wvar pfx ''NOLOOP'') = env (wvar pfx ''NOLOOP'')"
    by (simp_all add: env1_def bypass_other)
  then show ?thesis
    using assms cw_main_plain [OF assms(1,2) env1_def [symmetric] o]
    by (simp add: exec_command_def clean_config_PATH clean_config_other i Let_def)
qed

lemma bypass_identity_witness:
  "\<exists>e l. cw_main ''CC'' ''cmd_wrapper'' demo_world (demo_env(''CC_WRAPPER_BYPASS'' \<mapsto> ''1'')) [''gcc'', ''-Wall''] =
      CwExec [''gcc'', ''-Wall''] e l 254"
proof -
  have s: "skip_name ''cmd_wrapper'' [''gcc'', ''-Wall''] = Some [''gcc'', ''-Wall'']"
    by (simp add: skip_name_def basename_def)
  have a: "atoi ''1'' = 1" by (simp add: cstr_simps)
  show ?thesis
    using bypass_identity [OF _ s, of "demo_env(''CC_WRAPPER_BYPASS'' \<mapsto> ''1'')" "''CC''" "''1''" "''/w:/bin''" "''/w''" demo_world] a
    by (simp add: demo_env_def wvar_def)
qed

end
