(* ===== verification/ExecWrapper.thy ===== *)
theory ExecWrapper
  imports CLib
begin

text \<open>
  The exec functions of the flist wrapper library (\<^verbatim>\<open>misc/tools-source/fl_wrapper_execl.c\<close>):
  \<open>execl\<close>, \<open>execle\<close> and \<open>execlp\<close> collect their arguments in an array on the stack that grows, and
  \<open>execvp\<close> searches the directories of \<open>PATH\<close>. The system call \<open>execve\<close> is a parameter: it does not return
  (\<open>None\<close>) or fails with an error number.
\<close>

section \<open>Collecting the arguments\<close>

text \<open>
  The array: what was stored in it (\<open>None\<close> is the terminating null pointer), the size the code believes it
  has, the size of the block it really lies in, its address, and whether every store was inside the block.
  The stack grows down; \<open>alloca\<close> takes the bytes asked for and some for alignment.
\<close>

record arglist =
  al_items :: "string option list"
  argv_max :: nat
  al_room :: nat
  argv_at :: int
  stack :: int
  allocs :: nat
  in_bounds :: bool

definition alloca :: "(nat \<Rightarrow> nat) \<Rightarrow> nat \<Rightarrow> arglist \<Rightarrow> int" where
  "alloca pad n s = stack s - int (8 * n + pad (allocs s))"

text \<open>
  Doubling the array. The two tests for a block next to the old one compare addresses with a distance in
  elements, not in bytes.
\<close>

definition grow :: "(nat \<Rightarrow> nat) \<Rightarrow> arglist \<Rightarrow> arglist" where
  "grow pad s =
     (let i = length (al_items s); m = 2 * argv_max s; nptr = alloca pad m s;
          s' = s\<lparr>stack := nptr, allocs := allocs s + 1\<rparr>
      in if nptr + int m = argv_at s then s'\<lparr>argv_at := nptr, al_room := m, argv_max := m + i\<rparr>
         else if argv_at s + int i = nptr then s'\<lparr>argv_max := m + i\<rparr>
         else s'\<lparr>argv_at := nptr, al_room := m, argv_max := m\<rparr>)"

definition store :: "(nat \<Rightarrow> nat) \<Rightarrow> string option \<Rightarrow> arglist \<Rightarrow> arglist" where
  "store pad x s =
     (let s1 = (if length (al_items s) = argv_max s then grow pad s else s)
      in s1\<lparr>al_items := al_items s1 @ [x], in_bounds := (in_bounds s1 \<and> length (al_items s1) < al_room s1)\<rparr>)"

definition no_args :: "(nat \<Rightarrow> nat) \<Rightarrow> int \<Rightarrow> arglist" where
  "no_args pad sp =
     (let a = sp - int (8 * 1024 + pad 0)
      in \<lparr>al_items = [], argv_max = 1024, al_room = 1024, argv_at = a, stack = a, allocs = 1, in_bounds = True\<rparr>)"

text \<open>The loop stores the arguments of the call up to the null pointer.\<close>

definition collect_args :: "(nat \<Rightarrow> nat) \<Rightarrow> int \<Rightarrow> string list \<Rightarrow> arglist" where
  "collect_args pad sp args = foldl (\<lambda>s x. store pad x s) (no_args pad sp) (map Some args @ [None])"

text \<open>What a called function sees of the array.\<close>

definition argv_of :: "arglist \<Rightarrow> string list" where
  "argv_of s = map the (takeWhile (\<lambda>x. x \<noteq> None) (al_items s))"

section \<open>Executing\<close>

type_synonym execve = "string \<Rightarrow> string list \<Rightarrow> environ \<Rightarrow> nat option"

datatype exec_result = Executed string "string list" | Failed nat

definition ENOENT :: nat where "ENOENT = 2"
definition ENOEXEC :: nat where "ENOEXEC = 8"
definition EACCES :: nat where "EACCES = 13"
definition ENOTDIR :: nat where "ENOTDIR = 20"
definition ESTALE :: nat where "ESTALE = 116"

definition exec_call :: "execve \<Rightarrow> environ \<Rightarrow> string \<Rightarrow> string list \<Rightarrow> exec_result" where
  "exec_call k env path argv = (case k path argv env of None \<Rightarrow> Executed path argv | Some e \<Rightarrow> Failed e)"

definition execl :: "(nat \<Rightarrow> nat) \<Rightarrow> int \<Rightarrow> execve \<Rightarrow> environ \<Rightarrow> string \<Rightarrow> string list \<Rightarrow> exec_result" where
  "execl pad sp k env path args = exec_call k env path (argv_of (collect_args pad sp args))"

text \<open>\<open>execle\<close> takes the environment from its last argument.\<close>

definition execle :: "(nat \<Rightarrow> nat) \<Rightarrow> int \<Rightarrow> execve \<Rightarrow> string \<Rightarrow> string list \<Rightarrow> environ \<Rightarrow> exec_result" where
  "execle pad sp k path args envp = exec_call k envp path (argv_of (collect_args pad sp args))"

text \<open>A file that is executable but no program is given to the shell, its name in place of the first argument.\<close>

definition script_execute :: "execve \<Rightarrow> environ \<Rightarrow> string \<Rightarrow> string list \<Rightarrow> exec_result" where
  "script_execute k env path argv = exec_call k env ''/bin/sh'' (''/bin/sh'' # path # tl argv)"

definition try_exec :: "execve \<Rightarrow> environ \<Rightarrow> string \<Rightarrow> string list \<Rightarrow> exec_result" where
  "try_exec k env path argv =
     (case exec_call k env path argv of
        Failed e \<Rightarrow> if e = ENOEXEC then script_execute k env path argv else Failed e
      | r \<Rightarrow> r)"

text \<open>The loop over \<open>PATH\<close>: \<open>p\<close> is what is left of it, \<open>got_eacces\<close> whether an attempt was denied.\<close>

function path_search :: "execve \<Rightarrow> environ \<Rightarrow> string \<Rightarrow> string list \<Rightarrow> bool \<Rightarrow> string \<Rightarrow> exec_result" where
  "path_search k env file argv got_eacces p =
     (let dir = takeWhile (\<lambda>c. c \<noteq> CHR '':'') p; rest = drop (length dir) p;
          startp = (if dir = [] then file else dir @ CHR ''/'' # file)
      in case try_exec k env startp argv of
           Executed f a \<Rightarrow> Executed f a
         | Failed e \<Rightarrow>
             if e \<notin> {EACCES, ENOENT, ESTALE, ENOTDIR} then Failed e
             else let eacces = (got_eacces \<or> e = EACCES)
                  in case rest of
                       [] \<Rightarrow> Failed (if eacces then EACCES else e)
                     | _ # p' \<Rightarrow> path_search k env file argv eacces p')"
  by pat_completeness auto
termination
proof (relation "measure (\<lambda>(k, env, file, argv, g, p). length p)", goal_cases)
  case 1
  show ?case by simp
next
  case (2 k env f argv got_eacces p dir rest startp e eacces c p')
  then have "length (c # p') \<le> length p" by (metis diff_le_self length_drop)
  then show ?case by simp
qed

declare path_search.simps [simp del]

text \<open>\<open>confstr\<close> is the default search path of the system.\<close>

definition execvp :: "execve \<Rightarrow> string \<Rightarrow> environ \<Rightarrow> string \<Rightarrow> string list \<Rightarrow> exec_result" where
  "execvp k confstr env file argv =
     (if file = [] then Failed ENOENT
      else if CHR ''/'' \<in> set file then try_exec k env file argv
      else path_search k env file argv False (case env ''PATH'' of None \<Rightarrow> CHR '':'' # confstr | Some p \<Rightarrow> p))"

definition execlp :: "(nat \<Rightarrow> nat) \<Rightarrow> int \<Rightarrow> execve \<Rightarrow> string \<Rightarrow> environ \<Rightarrow> string \<Rightarrow> string list \<Rightarrow> exec_result" where
  "execlp pad sp k confstr env file args = execvp k confstr env file (argv_of (collect_args pad sp args))"

section \<open>The array is large enough\<close>

definition arg_inv :: "arglist \<Rightarrow> bool" where
  "arg_inv s \<longleftrightarrow> al_room s = argv_max s \<and> 0 < argv_max s \<and> stack s \<le> argv_at s \<and>
     length (al_items s) \<le> argv_max s \<and> in_bounds s"

text \<open>Two blocks of the stack do not overlap, so neither test for adjacent blocks succeeds.\<close>

lemma grow_inv:
  assumes "arg_inv s"
  shows "arg_inv (grow pad s) \<and> length (al_items (grow pad s)) < al_room (grow pad s) \<or> length (al_items s) \<noteq> argv_max s"
proof (cases "length (al_items s) = argv_max s")
  case True
  let ?m = "2 * argv_max s" and ?n = "alloca pad (2 * argv_max s) s"
  have "?n + 8 * int ?m \<le> stack s" by (simp add: alloca_def)
  then have "?n + int ?m \<noteq> argv_at s" "argv_at s + int (length (al_items s)) \<noteq> ?n"
    using assms by (auto simp: arg_inv_def)
  with assms show ?thesis by (simp add: grow_def Let_def arg_inv_def)
qed simp

lemma grow_items [simp]: "al_items (grow pad s) = al_items s"
  by (simp add: grow_def Let_def)

lemma store_items: "al_items (store pad x s) = al_items s @ [x]"
  by (simp add: store_def Let_def)

lemma store_inv: "arg_inv s \<Longrightarrow> arg_inv (store pad x s)"
  using grow_inv [of s pad] by (auto simp: store_def Let_def arg_inv_def)

text \<open>The room that a client may rely on: none unless the invariant holds.\<close>

definition usable :: "arglist \<Rightarrow> nat" where
  "usable s = (if arg_inv s then argv_max s + 1 else 0)"

interpretation arglist: grow_array al_items usable "store pad"
proof unfold_locales
  fix x s
  show "al_items (store pad x s) = al_items s @ [x]" by (rule store_items)
  assume "length (al_items s) < usable s"
  then have "arg_inv s" by (auto simp: usable_def split: if_splits)
  then have "arg_inv (store pad x s)" by (rule store_inv)
  then show "length (al_items (store pad x s)) < usable (store pad x s)"
    by (simp add: usable_def arg_inv_def)
qed

lemma no_args: "length (al_items (no_args pad sp)) < usable (no_args pad sp)" "al_items (no_args pad sp) = []"
  by (simp_all add: no_args_def usable_def arg_inv_def Let_def)

lemma collect_items: "al_items (collect_args pad sp args) = map Some args @ [None]"
  unfolding collect_args_def arglist.items_push_all by (simp add: no_args)

lemma collect_inv: "arg_inv (collect_args pad sp args)"
proof -
  have "length (al_items (collect_args pad sp args)) < usable (collect_args pad sp args)"
    unfolding collect_args_def by (rule arglist.room_push_all [OF no_args(1)])
  then show ?thesis by (simp add: usable_def split: if_splits)
qed

lemma argv_of_collect: "argv_of (collect_args pad sp args) = args"
proof -
  have "takeWhile (\<lambda>x. x \<noteq> None) (map Some args @ [None]) = map Some args"
    by (subst takeWhile_append2) auto
  then show ?thesis by (simp add: argv_of_def collect_items comp_def)
qed

text \<open>
  C31. However many arguments a call has and however the blocks of the stack are aligned, every store into the
  growing array is inside its block, and \<open>execve\<close> is called with exactly the arguments up to the null pointer.
\<close>

theorem execl_arguments:
  "in_bounds (collect_args pad sp args) \<and>
   execl pad sp k env path args = exec_call k env path args \<and>
   execle pad sp k path args envp = exec_call k envp path args \<and>
   execlp pad sp k confstr env file args = execvp k confstr env file args"
  using collect_inv [of pad sp args]
  by (simp add: arg_inv_def execl_def execle_def execlp_def argv_of_collect)

section \<open>The search\<close>

text \<open>
  The specification: the file in each directory in turn, an empty one standing for the current directory. The
  first attempt that succeeds or fails with an error other than \<open>not found\<close> or \<open>denied\<close> decides.
\<close>

definition candidate :: "string \<Rightarrow> string \<Rightarrow> string" where
  "candidate file dir = (if dir = [] then file else dir @ CHR ''/'' # file)"

definition go_on :: "exec_result \<Rightarrow> bool" where
  "go_on r \<longleftrightarrow> r \<in> Failed ` {EACCES, ENOENT, ESTALE, ENOTDIR}"

definition decide :: "bool \<Rightarrow> exec_result list \<Rightarrow> exec_result" where
  "decide denied rs =
     (case dropWhile go_on rs of
        r # _ \<Rightarrow> r
      | [] \<Rightarrow> if denied \<or> Failed EACCES \<in> set rs then Failed EACCES else last rs)"

definition search_result :: "exec_result list \<Rightarrow> exec_result" where
  "search_result rs = decide False rs"

lemma decide_go_on: "go_on (Failed e) \<Longrightarrow> rs \<noteq> [] \<Longrightarrow> decide g (Failed e # rs) = decide (g \<or> e = EACCES) rs"
  by (cases "dropWhile go_on rs") (auto simp: decide_def simp del: dropWhile_eq_Nil_conv)

lemma decide_stop: "\<not> go_on r \<Longrightarrow> decide g (r # rs) = r"
  by (simp add: decide_def)

lemma decide_single: "decide False [r] = r"
  by (cases r) (auto simp: decide_def go_on_def)

lemma dir_split:
  assumes "CHR '':'' \<notin> set d"
  shows "takeWhile (\<lambda>c. c \<noteq> CHR '':'') d = d" "takeWhile (\<lambda>c. c \<noteq> CHR '':'') (d @ CHR '':'' # p) = d"
proof -
  show d: "takeWhile (\<lambda>c. c \<noteq> CHR '':'') d = d" using assms by (auto simp: takeWhile_eq_all_conv)
  have "takeWhile (\<lambda>c. c \<noteq> CHR '':'') (d @ CHR '':'' # p) = d @ takeWhile (\<lambda>c. c \<noteq> CHR '':'') (CHR '':'' # p)"
    using assms by (intro takeWhile_append2) auto
  then show "takeWhile (\<lambda>c. c \<noteq> CHR '':'') (d @ CHR '':'' # p) = d" by simp
qed

lemma path_search_result:
  "dirs \<noteq> [] \<Longrightarrow> \<forall>d \<in> set dirs. CHR '':'' \<notin> set d \<Longrightarrow>
     path_search k env name argv g (join CHR '':'' dirs) =
       decide g (map (\<lambda>d. try_exec k env (candidate name d) argv) dirs)"
proof (induction dirs arbitrary: g rule: list_nonempty_induct)
  case (single d)
  let ?r = "try_exec k env (candidate name d) argv"
  from single have d: "CHR '':'' \<notin> set d" by simp
  show ?case
    by (cases ?r) (auto simp: path_search.simps [of _ _ _ _ _ d] dir_split [OF d] candidate_def go_on_def decide_def Let_def)
next
  case (cons d dirs)
  let ?r = "try_exec k env (candidate name d) argv"
  let ?p = "join CHR '':'' dirs"
  from cons.prems have d: "CHR '':'' \<notin> set d" by simp
  have step: "path_search k env name argv g (d @ CHR '':'' # ?p) =
      (case ?r of Executed f a \<Rightarrow> Executed f a
       | Failed e \<Rightarrow> if e \<notin> {EACCES, ENOENT, ESTALE, ENOTDIR} then Failed e
                     else path_search k env name argv (g \<or> e = EACCES) ?p)"
    by (subst path_search.simps) (simp add: dir_split(2) [OF d] candidate_def Let_def cong: if_cong split: exec_result.split)
  show ?case
  proof (cases "go_on ?r")
    case True
    then obtain e where e: "?r = Failed e" "e \<in> {EACCES, ENOENT, ESTALE, ENOTDIR}" by (auto simp: go_on_def)
    have "path_search k env name argv g (d @ CHR '':'' # ?p) = path_search k env name argv (g \<or> e = EACCES) ?p"
      using e(2) by (simp add: step e(1))
    with cons.IH [of "g \<or> e = EACCES"] cons.prems cons.hyps True show ?thesis
      unfolding e(1) by (simp add: join_Cons e(1) decide_go_on)
  next
    case False
    then have "path_search k env name argv g (d @ CHR '':'' # ?p) = ?r"
      by (auto simp: step go_on_def split: exec_result.split)
    with False cons.hyps show ?thesis by (simp add: join_Cons decide_stop)
  qed
qed

text \<open>
  C17. A file name without a slash is looked for in the directories of \<open>PATH\<close> in their order: the result is
  the first success or serious error, else \<open>EACCES\<close> if some attempt was denied, else the last error.
\<close>

theorem execlp_searches_path:
  assumes "file \<noteq> []" "CHR ''/'' \<notin> set file" "env ''PATH'' = Some (join CHR '':'' dirs)"
    and "dirs \<noteq> []" "\<forall>d \<in> set dirs. CHR '':'' \<notin> set d"
  shows "execlp pad sp k confstr env file args =
    search_result (map (\<lambda>d. try_exec k env (candidate file d) args) dirs)"
  using assms path_search_result [OF assms(4,5)]
  by (simp add: execlp_def argv_of_collect execvp_def search_result_def)

text \<open>A kernel with one program that may not be run and one that is a script.\<close>

definition demo_kernel :: execve where
  "demo_kernel path argv env =
     (if path = ''/bin/ls'' then Some EACCES else if path = ''./ls'' then Some ENOEXEC
      else if path = ''/bin/sh'' then None else Some ENOENT)"

theorem execlp_searches_path_witness:
  "execlp (\<lambda>_. 8) 100000 demo_kernel [] (\<lambda>v. if v = ''PATH'' then Some ''/bin:.:/sbin'' else None) ''ls'' [''ls'', ''-l''] =
     Executed ''/bin/sh'' [''/bin/sh'', ''./ls'', ''-l'']"
proof -
  have "''/bin:.:/sbin'' = join CHR '':'' [''/bin'', ''.'', ''/sbin'']" by simp
  then have "execlp (\<lambda>_. 8) 100000 demo_kernel [] (\<lambda>v. if v = ''PATH'' then Some ''/bin:.:/sbin'' else None) ''ls'' [''ls'', ''-l''] =
      search_result (map (\<lambda>d. try_exec demo_kernel (\<lambda>v. if v = ''PATH'' then Some ''/bin:.:/sbin'' else None)
        (candidate ''ls'' d) [''ls'', ''-l'']) [''/bin'', ''.'', ''/sbin''])"
    by (intro execlp_searches_path) auto
  then show ?thesis
    by (simp add: search_result_def decide_def try_exec_def exec_call_def script_execute_def demo_kernel_def
        candidate_def go_on_def ENOENT_def EACCES_def ENOEXEC_def ESTALE_def ENOTDIR_def)
qed

end
