(* ===== verification/Rc.thy ===== *)
theory Rc
  imports CLib
begin

text \<open>
  The starter for init scripts (\<^verbatim>\<open>package/base/sysvinit/rc.c\<close>): it gives the process a clean environment,
  clean limits and signals, and runs the script in a login shell, with its output going through \<open>btee\<close>.
  The system calls are a list of requests to a kernel that may answer as it likes.
\<close>

section \<open>System calls\<close>

datatype fd = Fd nat | Pipe_in | Pipe_out

datatype resource = CPU | FSIZE | DATA | STACK | CORE | RSS | NOFILE | AS | NPROC | MEMLOCK | LOCKS

text \<open>In \<open>Setrlimit\<close>, \<open>None\<close> is no limit.\<close>

datatype syscall =
    Pipe | Fork | Dup2 fd nat | Close fd | Umask nat | Setpgid nat nat | Setpriority int | Chdir string
  | Setrlimit resource "nat option" | Signal nat | Setgroups "nat list" | Setresuid nat nat nat
  | Setresgid nat nat nat | Sched_other int | Execute string "string list" "string list option"
  | Write fd string | Run_shell string

text \<open>The answer to a call after the calls made before; \<open>None\<close> is a call that does not return.\<close>

type_synonym kernel = "syscall list \<Rightarrow> syscall \<Rightarrow> int option"

text \<open>How the process ends: with a status, replaced by another program, or with memory overwritten.\<close>

datatype ending = Exit int | Replaced | Overflow

section \<open>The set-up\<close>

definition limits :: "(resource \<times> nat option) list" where
  "limits =
     [(CPU, None), (FSIZE, None), (DATA, None), (STACK, None), (CORE, None), (RSS, None), (NOFILE, Some 1024),
      (AS, None), (NPROC, Some 2048), (MEMLOCK, None), (LOCKS, None)]"

text \<open>The signals that are reset: those below the real-time signals, except SIGKILL and SIGSTOP.\<close>

definition signals :: "nat list" where
  "signals = filter (\<lambda>i. i \<noteq> 9 \<and> i \<noteq> 19) [1..<32]"

definition first_part :: "syscall list" where
  "first_part = [Umask 0x12, Setpgid 0 0, Setpriority 0, Chdir ''/''] @ map (\<lambda>(r, l). Setrlimit r l) limits"

definition unchecked_part :: "syscall list" where
  "unchecked_part = map Signal signals @ map (\<lambda>i. Close (Fd i)) [3..<1025]"

definition last_part :: "syscall list" where
  "last_part = [Setgroups [0], Setresuid 0 0 0, Setresgid 0 0 0, Sched_other 0]"

text \<open>\<open>handle\_error\<close>: calls that are made until one fails; what was called, and whether all succeeded.\<close>

fun checked :: "kernel \<Rightarrow> syscall list \<Rightarrow> syscall list \<Rightarrow> syscall list \<times> bool" where
  "checked K done [] = (done, True)"
| "checked K done (c # cs) = (if K done c = Some (-1) then (done @ [c], False) else checked K (done @ [c]) cs)"

text \<open>The result of the set-up calls after \<open>done\<close>.\<close>

definition set_up :: "kernel \<Rightarrow> syscall list \<Rightarrow> syscall list \<times> bool" where
  "set_up K done =
     (let (d1, ok) = checked K done first_part
      in if ok then checked K (d1 @ unchecked_part) last_part else (d1, False))"

section \<open>Environment and command\<close>

text \<open>A variable is copied from the old environment, cut after 50 characters.\<close>

definition copied :: "environ \<Rightarrow> string \<Rightarrow> string \<Rightarrow> string" where
  "copied env name dflt = name @ ''='' @ (case env name of Some v \<Rightarrow> take 50 v | None \<Rightarrow> dflt)"

definition clean_env :: "environ \<Rightarrow> string list" where
  "clean_env env =
     [''PATH=/sbin:/bin:/usr/sbin:/usr/bin'', copied env ''PREVLEVEL'' ''N'', copied env ''RUNLEVEL'' ''N'',
      copied env ''TERM'' ''linux'']"

text \<open>
  \<open>i += snprintf(command + i, 1024 - i, ...)\<close>: the count \<open>i\<close> goes on when the text does not fit, and
  then the size, which is unsigned, wraps around and the text is written behind the buffer.
\<close>

definition COMMAND_SIZE :: nat where "COMMAND_SIZE = 1024"

record command =
  text_of :: string
  count :: nat
  overwritten :: bool

definition append_text :: "command \<Rightarrow> string \<Rightarrow> command" where
  "append_text c s =
     (if COMMAND_SIZE < count c then c\<lparr>count := count c + length s, overwritten := True\<rparr>
      else c\<lparr>text_of := text_of c @ take (COMMAND_SIZE - count c - 1) s, count := count c + length s\<rparr>)"

definition script_path :: "string \<Rightarrow> string" where
  "script_path service = (if CHR ''/'' \<in> set service then [] else ''/etc/rc.d/init.d/'') @ service"

definition final_text :: "bool \<Rightarrow> string" where
  "final_text btee = '' </dev/null 2>&1'' @ (if btee then ''; /bin/echo -ne '' @ [CHR 0x27, CHR 0x04, CHR 0x27] else [])"

definition build_command :: "bool \<Rightarrow> string list \<Rightarrow> command" where
  "build_command btee argv =
     append_text
       (foldl (\<lambda>c a. append_text c (CHR '' '' # a))
          (append_text \<lparr>text_of = [], count = 0, overwritten = False\<rparr> (script_path (hd argv))) (tl argv))
       (final_text btee)"

section \<open>The function main\<close>

text \<open>The output goes to a second process that runs \<open>btee\<close>.\<close>

definition start_btee :: "kernel \<Rightarrow> syscall list \<times> ending option" where
  "start_btee K =
     (if K [] Pipe \<noteq> Some 0 then ([Pipe], Some (Exit 1))
      else if K [Pipe] Fork = Some 0
      then let d = [Pipe, Fork, Dup2 Pipe_in 0, Close Pipe_in, Close Pipe_out];
               e = Execute ''/sbin/btee'' [''btee'', ''a'', ''/var/log/init.msg''] None
           in (d @ [e], Some (if K d e = None then Replaced else Exit 1))
      else ([Pipe, Fork, Dup2 Pipe_out 1, Close Pipe_in, Close Pipe_out], None))"

definition run_script :: "kernel \<Rightarrow> environ \<Rightarrow> bool \<Rightarrow> string list \<Rightarrow> syscall list \<Rightarrow> syscall list \<times> ending" where
  "run_script K env btee argv done =
     (let (d, ok) = set_up K done; c = build_command btee argv;
          e = Execute ''/bin/bash'' [''-bash'', ''-l'', ''-c'', text_of c] (Some (clean_env env))
      in if \<not> ok then (d, Exit 1)
         else if overwritten c then (d, Overflow)
         else if K d e = None then (d @ [e], Replaced)
         else (d @ [e] @ (if btee then [Write (Fd 1) [CHR 0x04]] else []), Exit 1))"

definition rc_main :: "kernel \<Rightarrow> environ \<Rightarrow> string list \<Rightarrow> syscall list \<times> ending" where
  "rc_main K env args =
     (let nobtee = (args \<noteq> [] \<and> hd args = ''--nobtee''); argv = (if nobtee then tl args else args)
      in if argv = [] then ([Run_shell ''ls /etc/rc.d/init.d >&2''], Exit 1)
         else if length argv < 2 then ([], Exit 1)
         else let btee = (\<not> nobtee \<and> argv ! 1 \<noteq> ''help'')
              in if btee
                 then (case start_btee K of
                         (d, Some r) \<Rightarrow> (d, r)
                       | (d, None) \<Rightarrow> run_script K env btee argv d)
                 else run_script K env btee argv [])"

section \<open>The command\<close>

text \<open>All the text that the command is put together from, and all of it but the last piece.\<close>

definition service_text :: "string list \<Rightarrow> string" where
  "service_text argv = script_path (hd argv) @ concat (map (\<lambda>a. CHR '' '' # a) (tl argv))"

text \<open>What the buffer holds after any pieces: the start of the text, as long as no piece began behind its end.\<close>

definition buffer_ok :: "command \<Rightarrow> string \<Rightarrow> bool" where
  "buffer_ok c t \<longleftrightarrow> count c = length t \<and> text_of c = take (COMMAND_SIZE - 1) t"

lemma append_text_ok:
  assumes "buffer_ok c t" "length t \<le> COMMAND_SIZE"
  shows "buffer_ok (append_text c s) (t @ s)" "overwritten (append_text c s) = overwritten c"
  using assms by (auto simp: append_text_def buffer_ok_def)

lemma append_text_count: "count (append_text c s) = count c + length s"
  by (simp add: append_text_def)

lemma append_text_beyond: "COMMAND_SIZE < count c \<Longrightarrow> overwritten (append_text c s)"
  by (simp add: append_text_def)

lemma append_text_keeps: "overwritten c \<Longrightarrow> overwritten (append_text c s)"
  by (simp add: append_text_def)

text \<open>A command is built up in pieces like any growing text.\<close>

lemma append_all_ok:
  assumes "buffer_ok c t" "length t + length (concat ss) \<le> COMMAND_SIZE"
  shows "buffer_ok (foldl append_text c ss) (t @ concat ss) \<and> overwritten (foldl append_text c ss) = overwritten c"
  using assms
proof (induction ss arbitrary: c t)
  case Nil
  then show ?case by simp
next
  case (Cons s ss)
  have le: "length t \<le> COMMAND_SIZE" using Cons.prems(2) by simp
  from Cons.IH [of "append_text c s" "t @ s"] append_text_ok [OF Cons.prems(1) le, of s] Cons.prems(2)
  show ?case by simp
qed

lemma append_all_count: "count (foldl append_text c ss) = count c + length (concat ss)"
  by (induction ss arbitrary: c) (simp_all add: append_text_count)

lemma foldl_append_map: "foldl (\<lambda>c a. append_text c (f a)) c xs = foldl append_text c (map f xs)"
  by (induction xs arbitrary: c) simp_all

lemma build_command_pieces:
  "build_command btee argv =
     append_text (foldl append_text \<lparr>text_of = [], count = 0, overwritten = False\<rparr>
       (script_path (hd argv) # map (\<lambda>a. CHR '' '' # a) (tl argv))) (final_text btee)"
  by (simp add: build_command_def foldl_append_map [of "\<lambda>a. CHR '' '' # a"])

lemma empty_command: "buffer_ok \<lparr>text_of = [], count = 0, overwritten = False\<rparr> []"
  by (simp add: buffer_ok_def)

lemma build_command:
  shows "count (build_command btee argv) = length (service_text argv) + length (final_text btee)"
    and "overwritten (build_command btee argv) \<longleftrightarrow> COMMAND_SIZE < length (service_text argv)"
    and "length (service_text argv) \<le> COMMAND_SIZE \<Longrightarrow>
           text_of (build_command btee argv) = take (COMMAND_SIZE - 1) (service_text argv @ final_text btee)"
proof -
  define ss where "ss = script_path (hd argv) # map (\<lambda>a. CHR '' '' # a) (tl argv)"
  define c where "c = foldl append_text \<lparr>text_of = [], count = 0, overwritten = False\<rparr> ss"
  have t: "concat ss = service_text argv" by (simp add: service_text_def ss_def)
  have b: "build_command btee argv = append_text c (final_text btee)"
    unfolding c_def ss_def by (rule build_command_pieces)
  have n: "count c = length (service_text argv)"
    unfolding c_def append_all_count t by simp
  then show "count (build_command btee argv) = length (service_text argv) + length (final_text btee)"
    by (simp add: b append_text_count)
  have ok: "buffer_ok c (service_text argv)" "\<not> overwritten c" if "length (service_text argv) \<le> COMMAND_SIZE"
    using append_all_ok [OF empty_command, of ss] that by (simp_all add: t c_def)
  show "overwritten (build_command btee argv) \<longleftrightarrow> COMMAND_SIZE < length (service_text argv)"
  proof (cases "length (service_text argv) \<le> COMMAND_SIZE")
    case True
    with ok append_text_ok(2) [OF ok(1) [OF True] True] show ?thesis by (simp add: b)
  next
    case False
    then show ?thesis by (simp add: b append_text_beyond n)
  qed
  assume le: "length (service_text argv) \<le> COMMAND_SIZE"
  from append_text_ok(1) [OF ok(1) [OF le] le, of "final_text btee"]
  show "text_of (build_command btee argv) = take (COMMAND_SIZE - 1) (service_text argv @ final_text btee)"
    by (simp add: b buffer_ok_def)
qed

section \<open>What is run\<close>

lemma checked_ok:
  "checked K done cs = (d, True) \<Longrightarrow> d = done @ cs \<and> (\<forall>i < length cs. K (done @ take i cs) (cs ! i) \<noteq> Some (-1))"
proof (induction K "done" cs rule: checked.induct)
  case (1 K d)
  then show ?case by simp
next
  case (2 K dn c cs)
  from "2.prems" have ok: "K dn c \<noteq> Some (-1)" by (auto split: if_splits)
  with 2 have IH: "d = (dn @ [c]) @ cs" "\<forall>i < length cs. K ((dn @ [c]) @ take i cs) (cs ! i) \<noteq> Some (-1)" by simp_all
  have "K (dn @ take i (c # cs)) ((c # cs) ! i) \<noteq> Some (-1)" if "i < length (c # cs)" for i
    using that ok IH(2) by (cases i) auto
  with IH(1) show ?case by simp
qed

lemma checked_complete:
  "\<forall>i < length cs. K (done @ take i cs) (cs ! i) \<noteq> Some (-1) \<Longrightarrow> checked K done cs = (done @ cs, True)"
proof (induction K "done" cs rule: checked.induct)
  case (1 K d)
  then show ?case by simp
next
  case (2 K dn c cs)
  have "K dn c \<noteq> Some (-1)" using "2.prems" by force
  moreover have "\<forall>i < length cs. K ((dn @ [c]) @ take i cs) (cs ! i) \<noteq> Some (-1)"
    using "2.prems" by (auto dest: spec [of _ "Suc _"])
  ultimately show ?case using "2.IH" by simp
qed

lemma checked_no_exec: "c \<in> set (fst (checked K done cs)) \<Longrightarrow> c \<in> set done \<or> c \<in> set cs"
  by (induction K "done" cs rule: checked.induct) (auto split: if_splits)

text \<open>All that is done before the script runs.\<close>

definition whole_set_up :: "syscall list" where
  "whole_set_up = first_part @ unchecked_part @ last_part"

lemma set_up_ok: "set_up K done = (d, True) \<Longrightarrow> d = done @ whole_set_up"
  by (auto simp: set_up_def whole_set_up_def Let_def split: prod.splits if_splits dest!: checked_ok)

lemma not_shell: "Execute p a e \<notin> set first_part" "Execute p a e \<notin> set unchecked_part" "Execute p a e \<notin> set last_part"
  by (auto simp: first_part_def unchecked_part_def last_part_def)

lemma set_up_no_exec: "Execute p a e \<in> set (fst (set_up K done)) \<Longrightarrow> Execute p a e \<in> set done"
  by (auto simp: set_up_def Let_def case_prod_beta not_shell split: if_splits dest!: checked_no_exec)

text \<open>The calls before the set-up, with \<open>btee\<close> and without.\<close>

definition before_set_up :: "bool \<Rightarrow> syscall list" where
  "before_set_up btee = (if btee then [Pipe, Fork, Dup2 Pipe_out 1, Close Pipe_in, Close Pipe_out] else [])"

definition uses_btee :: "string list \<Rightarrow> bool" where
  "uses_btee args \<longleftrightarrow> hd args \<noteq> ''--nobtee'' \<and> args ! 1 \<noteq> ''help''"

definition service_args :: "string list \<Rightarrow> string list" where
  "service_args args = (if hd args = ''--nobtee'' then tl args else args)"

text \<open>Calls whose failure ends the program.\<close>

definition all_answered :: "kernel \<Rightarrow> syscall list \<Rightarrow> bool" where
  "all_answered K done \<longleftrightarrow>
     (\<forall>i < length first_part. K (done @ take i first_part) (first_part ! i) \<noteq> Some (-1)) \<and>
     (\<forall>i < length last_part. K (done @ first_part @ unchecked_part @ take i last_part) (last_part ! i) \<noteq> Some (-1))"

lemma set_up_True:
  "set_up K done = (d, True) \<longleftrightarrow> d = done @ whole_set_up \<and> all_answered K done"
proof
  assume *: "set_up K done = (d, True)"
  obtain d1 ok where c: "checked K done first_part = (d1, ok)" by fastforce
  with * have ok: "ok" "checked K (d1 @ unchecked_part) last_part = (d, True)" by (auto simp: set_up_def split: if_splits)
  from checked_ok [of K "done" first_part d1] c ok(1) have 1: "d1 = done @ first_part"
    "\<forall>i < length first_part. K (done @ take i first_part) (first_part ! i) \<noteq> Some (-1)" by simp_all
  from checked_ok [OF ok(2)] 1 show "d = done @ whole_set_up \<and> all_answered K done"
    by (simp add: all_answered_def whole_set_up_def)
next
  assume *: "d = done @ whole_set_up \<and> all_answered K done"
  then have "checked K done first_part = (done @ first_part, True)"
    by (intro checked_complete) (simp add: all_answered_def)
  moreover have "checked K ((done @ first_part) @ unchecked_part) last_part = (((done @ first_part) @ unchecked_part) @ last_part, True)"
    using * by (intro checked_complete) (simp add: all_answered_def)
  ultimately show "set_up K done = (d, True)" using * by (simp add: set_up_def whole_set_up_def)
qed

lemma start_btee_parent: "start_btee K = (d, None) \<Longrightarrow> d = before_set_up True"
  by (auto simp: start_btee_def before_set_up_def Let_def split: if_splits)

lemma start_btee_child: "start_btee K = (d, Some r) \<Longrightarrow> Execute ''/bin/bash'' a e \<notin> set d"
  by (auto simp: start_btee_def Let_def split: if_splits)

lemma run_script_shell:
  assumes "Execute ''/bin/bash'' a e \<in> set (fst (run_script K env btee argv done))" "Execute ''/bin/bash'' a e \<notin> set done"
  shows "all_answered K done \<and> length (service_text argv) \<le> COMMAND_SIZE \<and> e = Some (clean_env env) \<and>
    a = [''-bash'', ''-l'', ''-c'', take (COMMAND_SIZE - 1) (service_text argv @ final_text btee)] \<and>
    (\<exists>rest. fst (run_script K env btee argv done) = done @ whole_set_up @ Execute ''/bin/bash'' a e # rest)"
proof -
  obtain d ok where s: "set_up K done = (d, ok)" by fastforce
  let ?c = "build_command btee argv"
  have no: "Execute ''/bin/bash'' a e \<notin> set d" using set_up_no_exec [of "''/bin/bash''" a e K "done"] assms(2) by (auto simp: s)
  with assms(1) have ok: "ok" "\<not> overwritten ?c" by (auto simp: run_script_def s Let_def split: if_splits)
  then have le: "length (service_text argv) \<le> COMMAND_SIZE" by (simp add: build_command(2) not_less)
  have d: "d = done @ whole_set_up" "all_answered K done" using s ok(1) set_up_True [of K "done" d] by auto
  have "a = [''-bash'', ''-l'', ''-c'', text_of ?c]" "e = Some (clean_env env)"
    using assms(1) no by (auto simp: run_script_def s Let_def ok split: if_splits)
  with d le show ?thesis by (auto simp: run_script_def s Let_def ok build_command(3))
qed

lemma main_uses_btee:
  assumes "args \<noteq> []" "2 \<le> length (service_args args)" "uses_btee args"
  shows "rc_main K env args =
    (case start_btee K of (d, Some r) \<Rightarrow> (d, r) | (d, None) \<Rightarrow> run_script K env True (service_args args) d)"
proof -
  have s: "service_args args = args" "hd args \<noteq> ''--nobtee''" "args ! 1 \<noteq> ''help''"
    using assms(3) by (auto simp: uses_btee_def service_args_def)
  show ?thesis using assms(1,2) s(2,3) unfolding s(1) by (simp add: rc_main_def Let_def)
qed

text \<open>The process that starts the shell is the one that did not become \<open>btee\<close>.\<close>

lemma shell_process:
  assumes "Execute ''/bin/bash'' a e \<in> set (fst (rc_main K env args))" "args \<noteq> []" "2 \<le> length (service_args args)" "uses_btee args"
  shows "rc_main K env args = run_script K env True (service_args args) (before_set_up True)"
    "Execute ''/bin/bash'' a e \<notin> set (before_set_up True)"
proof -
  obtain d r where s: "start_btee K = (d, r)" by fastforce
  note main = main_uses_btee [OF assms(2-4), of K env]
  have "r = None" using assms(1) start_btee_child [of K d _ a e] by (cases r) (auto simp: main s)
  then show "rc_main K env args = run_script K env True (service_args args) (before_set_up True)"
    using start_btee_parent s by (simp add: main)
qed (simp add: before_set_up_def)

lemma shell_command:
  assumes "Execute ''/bin/bash'' a e \<in> set (fst (rc_main K env args))" "args \<noteq> []" "2 \<le> length (service_args args)" "uses_btee args"
  shows "a = [''-bash'', ''-l'', ''-c'', take (COMMAND_SIZE - 1) (service_text (service_args args) @ final_text True)]"
  using run_script_shell [OF assms(1) [unfolded shell_process(1) [OF assms]] shell_process(2) [OF assms]] by simp

text \<open>If the shell cannot be executed, the program itself sends the EOT to \<open>btee\<close>.\<close>

lemma shell_or_eot:
  assumes "Execute ''/bin/bash'' a e \<in> set (fst (rc_main K env args))" "args \<noteq> []" "2 \<le> length (service_args args)" "uses_btee args"
  shows "rc_main K env args = (fst (rc_main K env args), Replaced) \<and> last (fst (rc_main K env args)) = Execute ''/bin/bash'' a e \<or>
    rc_main K env args = (fst (rc_main K env args), Exit 1) \<and> last (fst (rc_main K env args)) = Write (Fd 1) [CHR 0x04]"
proof -
  note run = shell_process [OF assms]
  obtain d1 ok where u: "set_up K (before_set_up True) = (d1, ok)" by fastforce
  have "Execute ''/bin/bash'' a e \<notin> set d1"
    using set_up_no_exec [of "''/bin/bash''" a e K "before_set_up True"] run(2) by (auto simp: u)
  then show ?thesis using assms(1) by (auto simp: run(1) run_script_def u Let_def split: if_splits)
qed

text \<open>
  C15. A script is never started in a half prepared process: if the shell is executed, then before it, and after
  at most the calls that connect the output to \<open>btee\<close>, every call of the set-up was made in its order and none
  of those that are checked had failed; the shell gets the clean environment and the command for the service,
  cut to the size of the buffer.
\<close>

theorem rc_set_up_first:
  assumes "Execute ''/bin/bash'' a e \<in> set (fst (rc_main K env args))"
  shows "let btee = uses_btee args; done = before_set_up btee in
    all_answered K done \<and> e = Some (clean_env env) \<and>
    a = [''-bash'', ''-l'', ''-c'', take (COMMAND_SIZE - 1) (service_text (service_args args) @ final_text btee)] \<and>
    (\<exists>rest. fst (rc_main K env args) = done @ whole_set_up @ Execute ''/bin/bash'' a e # rest)"
proof -
  define argv where "argv = service_args args"
  have args: "args \<noteq> []" using assms by (auto simp: rc_main_def)
  then have argv: "argv = (if args \<noteq> [] \<and> hd args = ''--nobtee'' then tl args else args)" by (simp add: argv_def service_args_def)
  have len: "\<not> length argv < 2" using assms unfolding rc_main_def Let_def argv [symmetric] by (auto split: if_splits)
  then have ne: "argv \<noteq> []" by auto
  have btee: "(\<not> (args \<noteq> [] \<and> hd args = ''--nobtee'') \<and> argv ! 1 \<noteq> ''help'') = uses_btee args"
    using args by (auto simp: uses_btee_def argv)
  have main: "rc_main K env args =
      (if uses_btee args then (case start_btee K of (d, Some r) \<Rightarrow> (d, r) | (d, None) \<Rightarrow> run_script K env True argv d)
       else run_script K env False argv [])"
    unfolding rc_main_def Let_def argv [symmetric] btee using len ne by simp
  show ?thesis
  proof (cases "uses_btee args")
    case False
    then have run: "rc_main K env args = run_script K env False argv (before_set_up False)" by (simp add: main before_set_up_def)
    have "Execute ''/bin/bash'' a e \<notin> set (before_set_up False)" by (simp add: before_set_up_def)
    from run_script_shell [OF assms [unfolded run] this] show ?thesis
      unfolding run Let_def argv_def [symmetric] using False by simp blast
  next
    case True
    obtain d r where s: "start_btee K = (d, r)" by fastforce
    have "r = None" using assms start_btee_child [of K d _ a e] by (cases r) (auto simp: main True s)
    then have run: "rc_main K env args = run_script K env True argv (before_set_up True)"
      using start_btee_parent s by (simp add: main True)
    have "Execute ''/bin/bash'' a e \<notin> set (before_set_up True)" by (simp add: before_set_up_def)
    from run_script_shell [OF assms [unfolded run] this] show ?thesis
      unfolding run Let_def argv_def [symmetric] using True by simp blast
  qed
qed

text \<open>A kernel that grants every request.\<close>

definition willing :: "kernel \<Rightarrow> bool" where
  "willing K \<longleftrightarrow>
     (\<forall>h. \<exists>p > 0. K h Fork = Some p) \<and> (\<forall>h p a e. K h (Execute p a e) = None) \<and>
     (\<forall>h c. c \<noteq> Fork \<and> (\<forall>p a e. c \<noteq> Execute p a e) \<longrightarrow> K h c = Some 0)"

lemma willing_set_up:
  assumes "willing K"
  shows "all_answered K done"
proof -
  have c: "K h c = Some 0" if "c \<noteq> Fork" "\<And>p a e. c \<noteq> Execute p a e" for h c
    using assms that by (simp add: willing_def)
  have "c \<noteq> Fork \<and> (\<forall>p a e. c \<noteq> Execute p a e)" if "c \<in> set first_part \<union> set last_part" for c
    using that by (auto simp: first_part_def last_part_def)
  then show ?thesis unfolding all_answered_def using c
    by (metis (no_types, lifting) UnI1 UnI2 nth_mem option.inject zero_neq_neg_one)
qed

lemma willing_run:
  assumes "willing K" "2 \<le> length (service_args args)" "args \<noteq> []"
  shows "rc_main K env args =
    (let btee = uses_btee args; text = service_text (service_args args); done = before_set_up btee @ whole_set_up
     in if length text \<le> 1024
        then (done @ [Execute ''/bin/bash'' [''-bash'', ''-l'', ''-c'', take 1023 (text @ final_text btee)] (Some (clean_env env))], Replaced)
        else (done, Overflow))"
proof -
  define argv where "argv = service_args args"
  have argv: "argv = (if args \<noteq> [] \<and> hd args = ''--nobtee'' then tl args else args)"
    using assms(3) by (simp add: argv_def service_args_def)
  have len: "\<not> length argv < 2" "argv \<noteq> []" using assms(2) by (auto simp: argv_def)
  have btee: "(\<not> (args \<noteq> [] \<and> hd args = ''--nobtee'') \<and> argv ! 1 \<noteq> ''help'') = uses_btee args"
    using assms(3) by (auto simp: uses_btee_def argv)
  have exec: "K h (Execute p a e) = None" for h p a e using assms(1) by (simp add: willing_def)
  have "K [] Pipe = Some 0" "\<exists>p > 0. K [Pipe] Fork = Some p" using assms(1) by (simp_all add: willing_def)
  then have start: "start_btee K = (before_set_up True, None)"
    by (auto simp: start_btee_def before_set_up_def)
  have up: "set_up K d = (d @ whole_set_up, True)" for d
    using set_up_True [of K d] willing_set_up [OF assms(1)] by simp
  have run: "run_script K env b argv d =
      (if length (service_text argv) \<le> 1024
       then (d @ whole_set_up @ [Execute ''/bin/bash'' [''-bash'', ''-l'', ''-c'', take 1023 (service_text argv @ final_text b)] (Some (clean_env env))], Replaced)
       else (d @ whole_set_up, Overflow))" for b d
    using build_command(2,3) [where btee = b and argv = argv]
    by (simp add: run_script_def up exec Let_def COMMAND_SIZE_def)
  have main: "rc_main K env args =
      (if uses_btee args then run_script K env True argv (before_set_up True) else run_script K env False argv (before_set_up False))"
    unfolding rc_main_def Let_def argv [symmetric] btee using len start by (simp add: before_set_up_def)
  show ?thesis
    unfolding main run argv_def [symmetric] Let_def by simp
qed

text \<open>
  C32. With a kernel that grants every request, the shell is started exactly if the text of the service with its arguments
  and path has at most 1024 characters; its command is this text with the redirection and, where \<open>btee\<close> is used, the
  printing of the EOT, of which only the first 1023 characters are left, so that the end of a longer command is lost.
  If the text of the service has more than 1024 characters, the program writes behind its buffer.
\<close>

theorem rc_runs_service:
  assumes "willing K" "2 \<le> length (service_args args)" "args \<noteq> []"
  shows "rc_main K env args =
    (let btee = uses_btee args; text = service_text (service_args args); done = before_set_up btee @ whole_set_up
     in if length text \<le> 1024
        then (done @ [Execute ''/bin/bash'' [''-bash'', ''-l'', ''-c'', take 1023 (text @ final_text btee)] (Some (clean_env env))], Replaced)
        else (done, Overflow))"
  using assms by (rule willing_run)

definition demo_kernel :: kernel where
  "demo_kernel h c = (case c of Fork \<Rightarrow> Some 7 | Execute p a e \<Rightarrow> None | _ \<Rightarrow> Some 0)"

lemma demo_willing: "willing demo_kernel"
  by (auto simp: willing_def demo_kernel_def split: syscall.splits)

theorem rc_runs_service_witness:
  "snd (rc_main demo_kernel (\<lambda>_. None) [''network'', ''start'']) = Replaced \<and>
   (\<exists>h. fst (rc_main demo_kernel (\<lambda>_. None) [''network'', ''start'']) =
     h @ [Execute ''/bin/bash'' [''-bash'', ''-l'', ''-c'', ''/etc/rc.d/init.d/network start'' @ final_text True]
       (Some [''PATH=/sbin:/bin:/usr/sbin:/usr/bin'', ''PREVLEVEL=N'', ''RUNLEVEL=N'', ''TERM=linux''])])"
  using rc_runs_service [OF demo_willing, of "[''network'', ''start'']" "\<lambda>_. None"]
  by (simp add: service_args_def uses_btee_def service_text_def script_path_def Let_def final_text_def clean_env_def copied_def)

theorem rc_set_up_first_witness:
  "\<exists>a rest. fst (rc_main demo_kernel (\<lambda>_. None) [''--nobtee'', ''network'', ''stop'']) =
     whole_set_up @ Execute ''/bin/bash'' a (Some (clean_env (\<lambda>_. None))) # rest"
proof -
  have b: "\<not> uses_btee [''--nobtee'', ''network'', ''stop'']" by (simp add: uses_btee_def)
  have "\<exists>a. Execute ''/bin/bash'' a (Some (clean_env (\<lambda>_. None))) \<in>
      set (fst (rc_main demo_kernel (\<lambda>_. None) [''--nobtee'', ''network'', ''stop'']))"
    using willing_run [OF demo_willing, of "[''--nobtee'', ''network'', ''stop'']" "\<lambda>_. None"] b
    by (simp add: service_args_def service_text_def script_path_def Let_def) blast
  then obtain a where "Execute ''/bin/bash'' a (Some (clean_env (\<lambda>_. None))) \<in>
      set (fst (rc_main demo_kernel (\<lambda>_. None) [''--nobtee'', ''network'', ''stop'']))" ..
  from rc_set_up_first [OF this] show ?thesis by (auto simp: b before_set_up_def Let_def)
qed

end
