(* ===== verification/Btee.thy ===== *)
theory Btee
  imports CLib
begin

text \<open>
  The log reader of the boot scripts (\<^verbatim>\<open>package/base/sysfiles/btee.c\<close>): it copies its input to the
  output and to a log file, keeps the text in a buffer as long as the file cannot be opened, removes lines
  that are overwritten on the terminal (a carriage return alone), and ends three seconds after an EOT.
\<close>

section \<open>The program\<close>

definition BUFFER_SIZE :: nat where "BUFFER_SIZE = 8 * 1024 - 1"

definition EOT :: char where "EOT = CHR 0x04"
definition cr :: char where "cr = CHR 0x0D"

text \<open>
  The variables of the loop and what is around it: the input still to come, what was written to the
  standard output and to the file, and whether the alarm is set. \<open>overrun\<close> tells that the program wrote
  beyond its buffer.
\<close>

record btee =
  buffer :: string
  pos :: nat
  killme :: int
  remove_zeros :: bool
  truncating :: bool
  inp :: string
  stdout :: string
  logfile :: string
  alarm_set :: bool
  overrun :: bool

text \<open>
  What happens: the read is reached and waits, because nothing has arrived and the input is not closed; the alarm goes
  off; or the read delivers up to \<open>n\<close> bytes, and then the file cannot be opened (\<open>None\<close>) or the write stores up to \<open>w\<close>
  bytes. A read that delivers nothing is the end of the input. What precedes the read is done once for a round, however
  often it is waited for (\<open>start\_round\_twice\<close>).
\<close>

datatype event = Alarm | Blocked | Input nat "nat option"

definition memcpy_at :: "nat \<Rightarrow> string \<Rightarrow> string \<Rightarrow> string" where
  "memcpy_at i s b = take i b @ s @ drop (i + length s) b"

text \<open>Erasing a line backwards from the position \<open>y\<close>.\<close>

fun wipe :: "nat \<Rightarrow> string \<Rightarrow> string" where
  "wipe 0 b = (if b ! 0 = newline then b else b[0 := nul])"
| "wipe (Suc y) b = (if b ! Suc y = newline then b else wipe y (b[Suc y := nul]))"

definition see_eot :: "nat \<Rightarrow> btee \<Rightarrow> btee" where
  "see_eot i s =
     (if buffer s ! i = EOT
      then s\<lparr>buffer := (buffer s)[i := nul], killme := (if killme s = 0 then 1 else killme s), remove_zeros := True\<rparr>
      else s)"

definition see_cr :: "nat \<Rightarrow> btee \<Rightarrow> btee" where
  "see_cr i s =
     (if buffer s ! i = cr \<and> buffer s ! (i + 1) \<noteq> newline
      then s\<lparr>buffer := wipe i (buffer s), remove_zeros := True\<rparr> else s)"

fun scan_input :: "nat \<Rightarrow> nat \<Rightarrow> btee \<Rightarrow> btee" where
  "scan_input i 0 s = s"
| "scan_input i (Suc n) s = scan_input (i + 1) n (see_cr i (see_eot i s))"

definition squeeze :: "btee \<Rightarrow> btee" where
  "squeeze s =
     (if remove_zeros s
      then let t = filter (\<lambda>c. c \<noteq> nul) (take (pos s) (buffer s))
           in s\<lparr>buffer := t @ drop (length t) (buffer s), pos := length t, remove_zeros := False\<rparr>
      else s)"

definition save :: "nat option \<Rightarrow> btee \<Rightarrow> btee" where
  "save w s =
     (case w of None \<Rightarrow> s
      | Some n \<Rightarrow> s\<lparr>logfile := (if truncating s then [] else logfile s) @ take n (take (pos s) (buffer s)),
                    pos := 0, truncating := False\<rparr>)"

definition start_round :: "btee \<Rightarrow> btee" where
  "start_round s =
     (let s1 = (if killme s = 1 then s\<lparr>killme := -1, alarm_set := True\<rparr> else s)
      in if pos s1 \<ge> BUFFER_SIZE then s1\<lparr>pos := 0\<rparr> else s1)"

definition receive :: "string \<Rightarrow> btee \<Rightarrow> btee" where
  "receive data s =
     (let b = memcpy_at (pos s) data (buffer s); e = pos s + length data + 1
      in s\<lparr>buffer := b[e := nul], overrun := (overrun s \<or> length b \<le> e),
           stdout := stdout s @ filter (\<lambda>c. c \<noteq> EOT) data, inp := drop (length data) (inp s)\<rparr>)"

definition process_input :: "nat \<Rightarrow> btee \<Rightarrow> btee" where
  "process_input rc s = (let s1 = scan_input (pos s) rc s in squeeze (s1\<lparr>pos := pos s1 + rc\<rparr>))"

definition bt_step :: "event \<Rightarrow> btee \<Rightarrow> btee + int" where
  "bt_step e s =
     (case e of
        Alarm \<Rightarrow> if alarm_set s then Inr 1 else Inl s
      | Blocked \<Rightarrow> Inl (start_round s)
      | Input n w \<Rightarrow>
          (let s1 = start_round s; data = take (min n (BUFFER_SIZE - pos s1)) (inp s1)
           in if data = [] then Inr 0
              else Inl (save w (process_input (length data) (receive data s1)))))"

text \<open>The start: \<open>argv[1]\<close> begins with \<open>a\<close> to append to the log file, with \<open>t\<close> to start a new one.\<close>

definition bt_main :: "string list \<Rightarrow> string \<Rightarrow> string \<Rightarrow> event list \<Rightarrow> btee + int" where
  "bt_main argv old input events =
     (if length argv \<noteq> 3 \<or> argv ! 1 = [] \<or> hd (argv ! 1) \<notin> {CHR ''a'', CHR ''t''} then Inr 1
      else run_loop bt_step
        \<lparr>buffer = replicate (BUFFER_SIZE + 1) nul, pos = 0, killme = 0, remove_zeros = False,
         truncating = (hd (argv ! 1) \<noteq> CHR ''a''), inp = input, stdout = [], logfile = old,
         alarm_set = False, overrun = False\<rparr> events)"

section \<open>Bounds\<close>

text \<open>What stays the same, and the bounds that the operations keep.\<close>

definition bt_inv :: "btee \<Rightarrow> bool" where
  "bt_inv s \<longleftrightarrow> length (buffer s) = BUFFER_SIZE + 1 \<and> pos s \<le> BUFFER_SIZE \<and> \<not> remove_zeros s"

lemma length_wipe [simp]: "length (wipe y b) = length b"
  by (induction y b rule: wipe.induct) auto

lemma see_simps [simp]:
  "length (buffer (see_cr i s)) = length (buffer s)" "length (buffer (see_eot i s)) = length (buffer s)"
  "pos (see_cr i s) = pos s" "pos (see_eot i s) = pos s"
  by (simp_all add: see_cr_def see_eot_def)

lemma scan_input_simps [simp]:
  "length (buffer (scan_input i n s)) = length (buffer s)" "pos (scan_input i n s) = pos s"
  by (induction i n s rule: scan_input.induct) auto

lemma squeeze_inv:
  assumes "length (buffer s) = BUFFER_SIZE + 1" "pos s \<le> BUFFER_SIZE"
  shows "bt_inv (squeeze s)"
proof -
  have "length (filter (\<lambda>c. c \<noteq> nul) (take (pos s) (buffer s))) \<le> pos s"
    by (rule order_trans [OF length_filter_le]) simp
  with assms show ?thesis by (simp add: squeeze_def bt_inv_def Let_def)
qed

lemma start_round_inv: "bt_inv s \<Longrightarrow> bt_inv (start_round s) \<and> pos (start_round s) < BUFFER_SIZE"
  by (auto simp: start_round_def bt_inv_def Let_def BUFFER_SIZE_def)

lemma start_round_twice: "start_round (start_round s) = start_round s"
  by (simp add: start_round_def Let_def BUFFER_SIZE_def)

lemma receive_fields [simp]:
  "pos (receive d s) = pos s" "remove_zeros (receive d s) = remove_zeros s" "killme (receive d s) = killme s"
  "logfile (receive d s) = logfile s" "truncating (receive d s) = truncating s" "alarm_set (receive d s) = alarm_set s"
  by (simp_all add: receive_def Let_def)

lemma length_receive: "pos s + length d \<le> length (buffer s) \<Longrightarrow> length (buffer (receive d s)) = length (buffer s)"
  by (simp add: receive_def memcpy_at_def Let_def)

lemma save_inv: "bt_inv s \<Longrightarrow> bt_inv (save w s)"
  by (auto simp: save_def bt_inv_def split: option.splits)

lemma bt_step_inv:
  assumes "bt_inv s" "bt_step e s = Inl s'"
  shows "bt_inv s'"
proof (cases e)
  case Alarm
  with assms show ?thesis by (simp add: bt_step_def split: if_splits)
next
  case Blocked
  with assms show ?thesis using start_round_inv [of s] by (simp add: bt_step_def)
next
  case (Input n w)
  let ?s = "start_round s" and ?d = "take (min n (BUFFER_SIZE - pos (start_round s))) (inp (start_round s))"
  from start_round_inv [OF assms(1)] have r: "bt_inv ?s" "pos ?s < BUFFER_SIZE" by auto
  then have le: "pos ?s + length ?d \<le> BUFFER_SIZE" by simp
  have "bt_inv (process_input (length ?d) (receive ?d ?s))"
    unfolding process_input_def Let_def
    by (rule squeeze_inv) (use r le length_receive [of ?s ?d] in \<open>simp_all add: bt_inv_def\<close>)
  with assms(2) Input show ?thesis by (auto simp: bt_step_def Let_def intro: save_inv split: if_splits)
qed

section \<open>What becomes of the text\<close>

text \<open>The text of the last line is erased when it is overwritten.\<close>

definition erase_line :: "string \<Rightarrow> string" where
  "erase_line s = rev (dropWhile (\<lambda>c. c \<noteq> newline) (rev s))"

text \<open>One character with the one after it, and a piece of input with the character behind it.\<close>

definition put_char :: "char \<Rightarrow> char \<Rightarrow> string \<Rightarrow> string" where
  "put_char c next s = (if c = EOT then s else if c = cr \<and> next \<noteq> newline then erase_line s else s @ [c])"

fun put_text :: "char \<Rightarrow> string \<Rightarrow> string \<Rightarrow> string" where
  "put_text next s [] = s"
| "put_text next s (c # cs) = put_text next (put_char c (if cs = [] then next else hd cs) s) cs"

lemma control_chars: "newline \<noteq> nul" "EOT \<noteq> nul" "cr \<noteq> nul" "cr \<noteq> newline" "cr \<noteq> EOT"
  by (simp_all add: newline_def nul_def EOT_def cr_def)

lemma erase_line_snoc: "c \<noteq> newline \<Longrightarrow> erase_line (s @ [c]) = erase_line s"
  by (simp add: erase_line_def)

lemma erase_line_newline: "erase_line (s @ [newline]) = s @ [newline]"
  by (simp add: erase_line_def)

definition text_of :: "string \<Rightarrow> string" where
  "text_of s = filter (\<lambda>c. c \<noteq> nul) s"

lemma text_of_simps [simp]:
  "text_of [] = []" "text_of (s @ t) = text_of s @ text_of t" "nul \<notin> set (text_of s)"
  "text_of [c] = (if c = nul then [] else [c])"
  by (simp_all add: text_of_def)

lemma text_of_id: "nul \<notin> set s \<Longrightarrow> text_of s = s"
  by (simp add: text_of_def filter_id_conv) metis

lemma wipe_rest: "y < length b \<Longrightarrow> drop (Suc y) (wipe y b) = drop (Suc y) b"
proof (induction y b rule: wipe.induct)
  case (1 b)
  then show ?case by simp
next
  case (2 y b)
  show ?case
  proof (cases "b ! Suc y = newline")
    case False
    with 2 have "drop (Suc y) (wipe y (b[Suc y := nul])) = drop (Suc y) (b[Suc y := nul])" by simp
    then have "drop 1 (drop (Suc y) (wipe y (b[Suc y := nul]))) = drop 1 (drop (Suc y) (b[Suc y := nul]))" by simp
    with False show ?thesis by simp
  qed simp
qed

lemma wipe_text: "y < length b \<Longrightarrow> text_of (take (Suc y) (wipe y b)) = erase_line (text_of (take (Suc y) b))"
proof (induction y b rule: wipe.induct)
  case (1 b)
  then show ?case by (cases b) (auto simp: erase_line_def control_chars)
next
  case (2 y b)
  note last = take_Suc_conv_app_nth [OF "2.prems"]
  show ?case
  proof (cases "b ! Suc y = newline")
    case True
    then show ?thesis by (simp add: last control_chars erase_line_newline)
  next
    case False
    let ?b = "b[Suc y := nul]"
    have y: "y < length ?b" using "2.prems" by simp
    have "drop (Suc y) (wipe y ?b) = nul # drop (Suc (Suc y)) b"
      using "2.prems" wipe_rest [OF y] by (simp add: Cons_nth_drop_Suc [symmetric])
    then have "wipe y ?b ! Suc y = nul" using "2.prems" by (metis hd_drop_conv_nth length_list_update length_wipe list.sel(1))
    then have "text_of (take (Suc (Suc y)) (wipe y ?b)) = text_of (take (Suc y) (wipe y ?b))"
      using "2.prems" take_Suc_conv_app_nth [of "Suc y" "wipe y ?b"] by simp
    also have "\<dots> = erase_line (text_of (take (Suc y) ?b))" using "2.IH" [OF False y] .
    also have "\<dots> = erase_line (text_of (take (Suc (Suc y)) b))"
      using False by (simp add: last erase_line_snoc)
    finally show ?thesis using False by simp
  qed
qed

text \<open>One round of the scan, and the whole scan.\<close>

lemma see_char:
  assumes "Suc i < length (buffer s)" "buffer s ! i \<noteq> nul"
  shows "text_of (take (Suc i) (buffer (see_cr i (see_eot i s)))) =
           put_char (buffer s ! i) (buffer s ! Suc i) (text_of (take i (buffer s)))"
    and "drop (Suc i) (buffer (see_cr i (see_eot i s))) = drop (Suc i) (buffer s)"
    and "\<not> remove_zeros (see_cr i (see_eot i s)) \<Longrightarrow>
           \<not> remove_zeros s \<and> take (Suc i) (buffer (see_cr i (see_eot i s))) = take i (buffer s) @ [buffer s ! i]"
proof -
  let ?b = "buffer s"
  have i: "i < length ?b" using assms(1) by simp
  note last = take_Suc_conv_app_nth [OF i]
  consider "?b ! i = EOT" | "?b ! i = cr" "?b ! Suc i \<noteq> newline" | "?b ! i \<noteq> EOT" "\<not> (?b ! i = cr \<and> ?b ! Suc i \<noteq> newline)"
    by blast
  then have "text_of (take (Suc i) (buffer (see_cr i (see_eot i s)))) =
           put_char (?b ! i) (?b ! Suc i) (text_of (take i ?b)) \<and>
    drop (Suc i) (buffer (see_cr i (see_eot i s))) = drop (Suc i) ?b \<and>
    (\<not> remove_zeros (see_cr i (see_eot i s)) \<longrightarrow>
           \<not> remove_zeros s \<and> take (Suc i) (buffer (see_cr i (see_eot i s))) = take i ?b @ [?b ! i])"
  proof cases
    case 1
    have "take (Suc i) (?b[i := nul]) = take i ?b @ [nul]" using i by (simp add: take_Suc_conv_app_nth)
    with 1 i show ?thesis by (simp add: see_eot_def see_cr_def put_char_def control_chars(3) [symmetric])
  next
    case 2
    then have "?b ! i \<noteq> newline" using control_chars by simp
    with 2 i show ?thesis
      by (simp add: see_eot_def see_cr_def put_char_def control_chars wipe_text wipe_rest last erase_line_snoc)
  next
    case 3
    with assms(2) show ?thesis by (auto simp: see_eot_def see_cr_def put_char_def last)
  qed
  then show "text_of (take (Suc i) (buffer (see_cr i (see_eot i s)))) =
           put_char (?b ! i) (?b ! Suc i) (text_of (take i ?b))"
    and "drop (Suc i) (buffer (see_cr i (see_eot i s))) = drop (Suc i) ?b"
    and "\<not> remove_zeros (see_cr i (see_eot i s)) \<Longrightarrow>
           \<not> remove_zeros s \<and> take (Suc i) (buffer (see_cr i (see_eot i s))) = take i ?b @ [?b ! i]"
    by blast+
qed

lemma scan_text:
  assumes "i + n < length (buffer s)" "nul \<notin> set (take n (drop i (buffer s)))"
    and "\<not> remove_zeros s \<longrightarrow> nul \<notin> set (take i (buffer s))"
  shows "text_of (take (i + n) (buffer (scan_input i n s))) =
           put_text (buffer s ! (i + n)) (text_of (take i (buffer s))) (take n (drop i (buffer s))) \<and>
         (\<not> remove_zeros (scan_input i n s) \<longrightarrow> nul \<notin> set (take (i + n) (buffer (scan_input i n s))))"
  using assms
proof (induction i n s rule: scan_input.induct)
  case (1 i s)
  then show ?case by simp
next
  case (2 i n s)
  let ?b = "buffer s" and ?s = "see_cr i (see_eot i s)"
  have i: "Suc i < length ?b" "i < length ?b" using "2.prems"(1) by simp_all
  have cs: "take (Suc n) (drop i ?b) = ?b ! i # take n (drop (Suc i) ?b)"
    using i by (simp add: Cons_nth_drop_Suc [symmetric])
  with "2.prems"(2) have c: "?b ! i \<noteq> nul" by auto
  note one = see_char [OF i(1) c]
  have next_char: "(if take n (drop (Suc i) ?b) = [] then ?b ! (i + Suc n) else hd (take n (drop (Suc i) ?b))) = ?b ! Suc i"
    using i "2.prems"(1) by (cases n) (simp_all add: hd_drop_conv_nth)
  have "buffer ?s ! (i + Suc n) = drop (Suc i) (buffer ?s) ! n" using "2.prems"(1) by simp
  also have "\<dots> = ?b ! (i + Suc n)" using "2.prems"(1) by (simp add: one(2))
  finally have behind: "buffer ?s ! (i + Suc n) = ?b ! (i + Suc n)" .
  have "text_of (take (Suc i + n) (buffer (scan_input (Suc i) n ?s))) =
           put_text (buffer ?s ! (Suc i + n)) (text_of (take (Suc i) (buffer ?s))) (take n (drop (Suc i) (buffer ?s))) \<and>
         (\<not> remove_zeros (scan_input (Suc i) n ?s) \<longrightarrow> nul \<notin> set (take (Suc i + n) (buffer (scan_input (Suc i) n ?s))))"
  proof (rule "2.IH" [unfolded Suc_eq_plus1 [symmetric]])
    show "Suc i + n < length (buffer ?s)" using "2.prems"(1) by simp
    show "nul \<notin> set (take n (drop (Suc i) (buffer ?s)))" using "2.prems"(2) by (simp add: one(2) cs)
    show "\<not> remove_zeros ?s \<longrightarrow> nul \<notin> set (take (Suc i) (buffer ?s))"
      using one(3) "2.prems"(3) c by auto
  qed
  then show ?case unfolding scan_input.simps(2) Suc_eq_plus1 [symmetric] cs put_text.simps next_char
    by (simp only: add_Suc_shift one(1,2) behind) blast
qed

text \<open>The specification: what is waiting to be written, and the file.\<close>

record progress =
  waiting :: string
  saved :: string
  new_file :: bool
  to_come :: string
  shown :: string

text \<open>
  A round of the specification. Text that fills the buffer is thrown away first. The character that the
  last one of the piece is compared with may be any.
\<close>

definition write_out :: "nat option \<Rightarrow> progress \<Rightarrow> progress" where
  "write_out w a =
     (case w of None \<Rightarrow> a
      | Some n \<Rightarrow> a\<lparr>saved := (if new_file a then [] else saved a) @ take n (waiting a), waiting := [], new_file := False\<rparr>)"

inductive round :: "event \<Rightarrow> progress \<Rightarrow> progress \<Rightarrow> bool" where
  no_alarm: "round Alarm a a"
| blocked: "round Blocked a (a\<lparr>waiting := (if length (waiting a) < BUFFER_SIZE then waiting a else [])\<rparr>)"
| input: "kept = (if length (waiting a) < BUFFER_SIZE then waiting a else []) \<Longrightarrow>
    piece = take (min n (BUFFER_SIZE - length kept)) (to_come a) \<Longrightarrow>
    round (Input n w) a (write_out w (a\<lparr>waiting := put_text next kept piece,
      to_come := drop (length piece) (to_come a), shown := shown a @ filter (\<lambda>c. c \<noteq> EOT) piece\<rparr>))"

inductive_cases round_AlarmE [elim!]: "round Alarm a b"

inductive_cases round_BlockedE [elim!]: "round Blocked a b"

lemma round_InputE:
  assumes "round (Input n w) a b"
  obtains kept piece nx where "kept = (if length (waiting a) < BUFFER_SIZE then waiting a else [])"
    and "piece = take (min n (BUFFER_SIZE - length kept)) (to_come a)"
    and "b = write_out w (a\<lparr>waiting := put_text nx kept piece,
      to_come := drop (length piece) (to_come a), shown := shown a @ filter (\<lambda>c. c \<noteq> EOT) piece\<rparr>)"
  using assms
proof cases
  case (input kept piece nx)
  then show ?thesis by (intro that [OF input(2,3,1)])
qed

definition bt_abs :: "btee \<Rightarrow> progress" where
  "bt_abs s = \<lparr>waiting = take (pos s) (buffer s), saved = logfile s, new_file = truncating s,
     to_come = inp s, shown = stdout s\<rparr>"

definition bt_rel :: "btee \<Rightarrow> progress \<Rightarrow> bool" where
  "bt_rel s a \<longleftrightarrow> bt_inv s \<and> nul \<notin> set (take (pos s) (buffer s)) \<and> nul \<notin> set (inp s) \<and> a = bt_abs s"

lemma receive_buffer:
  assumes "bt_inv s" "pos s + length d \<le> BUFFER_SIZE"
  shows "take (pos s) (buffer (receive d s)) = take (pos s) (buffer s)"
    and "take (length d) (drop (pos s) (buffer (receive d s))) = d"
proof -
  have p: "length (take (pos s) (buffer s)) = pos s" using assms by (simp add: bt_inv_def)
  let ?b = "memcpy_at (pos s) d (buffer s)"
  have "take (pos s + length d) (buffer (receive d s)) = take (pos s) (buffer s) @ d"
    using p by (simp add: receive_def Let_def memcpy_at_def)
  then have t: "take (pos s) (take (pos s + length d) (buffer (receive d s))) = take (pos s) (buffer s)"
    "drop (pos s) (take (pos s + length d) (buffer (receive d s))) = d"
    using p by simp_all
  from t(1) show "take (pos s) (buffer (receive d s)) = take (pos s) (buffer s)" by simp
  from t(2) show "take (length d) (drop (pos s) (buffer (receive d s))) = d" by (simp add: drop_take)
qed

lemma scan_fields [simp]:
  "inp (scan_input i n s) = inp s" "stdout (scan_input i n s) = stdout s" "logfile (scan_input i n s) = logfile s"
  "truncating (scan_input i n s) = truncating s" "alarm_set (scan_input i n s) = alarm_set s"
  "overrun (scan_input i n s) = overrun s"
  by (induction i n s rule: scan_input.induct) (auto simp: see_cr_def see_eot_def)

text \<open>The work on a piece of input appends its text to what is waiting.\<close>

lemma process_text:
  assumes "bt_inv s" "nul \<notin> set (take (pos s) (buffer s))" "nul \<notin> set d" "pos s + length d \<le> BUFFER_SIZE"
  defines "s' \<equiv> process_input (length d) (receive d s)"
  shows "\<exists>next. take (pos s') (buffer s') = put_text next (take (pos s) (buffer s)) d"
    and "nul \<notin> set (take (pos s') (buffer s'))"
    and "logfile s' = logfile s" "truncating s' = truncating s" "inp s' = drop (length d) (inp s)"
      "stdout s' = stdout s @ filter (\<lambda>c. c \<noteq> EOT) d"
proof -
  let ?r = "receive d s" and ?e = "pos s + length d"
  let ?s = "scan_input (pos s) (length d) ?r"
  have len: "length (buffer ?r) = BUFFER_SIZE + 1"
    using assms(1,4) length_receive [of s d] by (simp add: bt_inv_def)
  note rb = receive_buffer [OF assms(1,4)]
  have scan: "text_of (take ?e (buffer ?s)) = put_text (buffer ?r ! ?e) (take (pos s) (buffer s)) d"
    "\<not> remove_zeros ?s \<longrightarrow> nul \<notin> set (take ?e (buffer ?s))"
    using scan_text [of "pos s" "length d" ?r] len assms(2-4) by (simp_all add: rb text_of_id)
  have le: "?e \<le> length (buffer ?s)" using len assms(4) by simp
  have written: "take (pos s') (buffer s') = text_of (take ?e (buffer ?s))"
  proof (cases "remove_zeros ?s")
    case True
    then show ?thesis by (simp add: s'_def process_input_def squeeze_def Let_def text_of_def)
  next
    case False
    with scan(2) show ?thesis by (simp add: s'_def process_input_def squeeze_def Let_def text_of_id)
  qed
  show "\<exists>next. take (pos s') (buffer s') = put_text next (take (pos s) (buffer s)) d"
    unfolding written scan(1) by blast
  show "nul \<notin> set (take (pos s') (buffer s'))" unfolding written by simp
  show "logfile s' = logfile s" "truncating s' = truncating s" "inp s' = drop (length d) (inp s)"
      "stdout s' = stdout s @ filter (\<lambda>c. c \<noteq> EOT) d"
    by (simp_all add: s'_def process_input_def squeeze_def Let_def receive_def)
qed

lemma start_round_fields:
  "inp (start_round s) = inp s" "stdout (start_round s) = stdout s" "logfile (start_round s) = logfile s"
  "truncating (start_round s) = truncating s" "buffer (start_round s) = buffer s"
  "pos (start_round s) = (if pos s < BUFFER_SIZE then pos s else 0)"
  by (simp_all add: start_round_def Let_def)

lemma bt_step_sim:
  assumes "bt_rel s a" "bt_step e s = Inl s'"
  shows "\<exists>b. round e a b \<and> bt_rel s' b"
proof (cases e)
  case Alarm
  with assms show ?thesis by (auto simp: bt_step_def intro: no_alarm split: if_splits)
next
  case Blocked
  then have s': "s' = start_round s" using assms(2) by (simp add: bt_step_def)
  have a: "a = bt_abs s" "bt_inv s" "nul \<notin> set (take (pos s) (buffer s))" "nul \<notin> set (inp s)" using assms(1) by (auto simp: bt_rel_def)
  then have "bt_abs s' = a\<lparr>waiting := (if length (waiting a) < BUFFER_SIZE then waiting a else [])\<rparr>"
    by (simp add: s' bt_abs_def start_round_fields bt_inv_def)
  moreover have "bt_rel s' (bt_abs s')"
    using a start_round_inv [OF a(2)] by (auto simp: bt_rel_def s' start_round_fields)
  ultimately show ?thesis using Blocked blocked by (metis (no_types))
next
  case (Input n w)
  let ?s = "start_round s"
  define d where "d = take (min n (BUFFER_SIZE - pos ?s)) (inp ?s)"
  define p where "p = process_input (length d) (receive d ?s)"
  have inv: "bt_inv s" "nul \<notin> set (take (pos s) (buffer s))" "nul \<notin> set (inp s)" "a = bt_abs s"
    using assms(1) by (auto simp: bt_rel_def)
  have s': "s' = save w p" using assms(2) Input by (auto simp: bt_step_def Let_def d_def p_def split: if_splits)
  from start_round_inv [OF inv(1)] have r: "bt_inv ?s" "pos ?s < BUFFER_SIZE" by auto
  have clean: "nul \<notin> set (take (pos ?s) (buffer ?s))" using inv(2) by (simp add: start_round_fields)
  have nuld: "nul \<notin> set d" using inv(3) by (auto simp: d_def start_round_fields dest: in_set_takeD)
  have le: "pos ?s + length d \<le> BUFFER_SIZE" using r(2) by (simp add: d_def)
  note p = process_text [OF r(1) clean nuld le, folded p_def]
  from p(1) obtain nx where nx: "take (pos p) (buffer p) = put_text nx (take (pos ?s) (buffer ?s)) d" by blast
  have len: "length (waiting a) = pos s" using inv(1,4) by (simp add: bt_abs_def bt_inv_def)
  have kept: "take (pos ?s) (buffer ?s) = (if length (waiting a) < BUFFER_SIZE then waiting a else [])"
    using len by (simp add: start_round_fields inv(4) bt_abs_def)
  have piece: "d = take (min n (BUFFER_SIZE - length (take (pos ?s) (buffer ?s)))) (to_come a)"
    using r(1) by (simp add: d_def start_round_fields inv(4) bt_abs_def bt_inv_def)
  let ?b = "write_out w (a\<lparr>waiting := put_text nx (take (pos ?s) (buffer ?s)) d,
      to_come := drop (length d) (to_come a), shown := shown a @ filter (\<lambda>c. c \<noteq> EOT) d\<rparr>)"
  have "round e a ?b" unfolding Input by (rule input [OF kept piece])
  moreover have "bt_abs s' = ?b"
    using nx p(3-6) by (cases w) (simp_all add: s' save_def write_out_def bt_abs_def inv(4) start_round_fields)
  moreover have "nul \<notin> set (take (pos s') (buffer s'))"
    using p(2) by (cases w) (simp_all add: s' save_def)
  moreover have "inp s' = drop (length d) (inp s)" using p(5) by (cases w) (simp_all add: s' save_def start_round_fields)
  then have "nul \<notin> set (inp s')" using inv(3) by (auto dest: in_set_dropD)
  ultimately show ?thesis using bt_step_inv [OF inv(1) assms(2)] by (auto simp: bt_rel_def)
qed

interpretation bt: loop_simulation bt_step bt_rel round "\<lambda>r. r \<in> {0, 1}"
proof unfold_locales
  fix e s a s' assume "bt_rel s a" "bt_step e s = Inl s'"
  then show "\<exists>b. round e a b \<and> bt_rel s' b" by (rule bt_step_sim)
next
  fix e s a r assume "bt_step e s = Inr r"
  then show "r \<in> {0, 1}" by (auto simp: bt_step_def Let_def split: event.splits if_splits)
qed

definition bt_start :: "char \<Rightarrow> string \<Rightarrow> string \<Rightarrow> progress" where
  "bt_start c old input = \<lparr>waiting = [], saved = old, new_file = (c \<noteq> CHR ''a''), to_come = input, shown = []\<rparr>"

lemma bt_main_run:
  assumes "bt_main argv old input events = Inl s"
  shows "\<exists>s0. run_loop bt_step s0 events = Inl s \<and> bt_inv s0 \<and> pos s0 = 0 \<and> \<not> overrun s0 \<and>
    bt_abs s0 = bt_start (hd (argv ! 1)) old input"
  using assms by (auto simp: bt_main_def bt_inv_def bt_abs_def bt_start_def split: if_splits)

lemma bt_main_trace:
  assumes "bt_main argv old input events = Inl s" "nul \<notin> set input"
  shows "trace round (bt_start (hd (argv ! 1)) old input) events (bt_abs s)"
proof -
  from bt_main_run [OF assms(1)] obtain s0 where s0: "run_loop bt_step s0 events = Inl s" "bt_inv s0" "pos s0 = 0"
    "bt_abs s0 = bt_start (hd (argv ! 1)) old input" by blast
  then have "inp s0 = input" by (simp add: bt_abs_def bt_start_def)
  with s0 assms(2) have "bt_rel s0 (bt_abs s0)" by (simp add: bt_rel_def)
  from bt.run_sim [OF this s0(1)] s0(4) show ?thesis by (auto simp: bt_rel_def)
qed

text \<open>
  C16. The buffer implements the specification: while it runs on an input without NUL bytes, what is in the
  file, what is in the buffer and what was copied to the output are those of a run of the specification, in
  which a carriage return erases the text of its line unless a newline follows, and EOT is removed.
\<close>

theorem btee_refines:
  assumes "bt_main argv old input events = Inl s" "nul \<notin> set input"
  shows "\<exists>a. trace round (bt_start (hd (argv ! 1)) old input) events a \<and>
    saved a = logfile s \<and> waiting a = take (pos s) (buffer s) \<and> shown a = stdout s \<and> to_come a = inp s"
  using bt_main_trace [OF assms] by (intro exI [of _ "bt_abs s"] conjI) (simp_all add: bt_abs_def)

section \<open>Nothing is lost\<close>

lemma put_text_plain: "cr \<notin> set cs \<Longrightarrow> put_text nx s cs = s @ filter (\<lambda>c. c \<noteq> EOT) cs"
  by (induction nx s cs rule: put_text.induct) (auto simp: put_char_def)

definition all_text :: "progress \<Rightarrow> string" where
  "all_text a = (if new_file a then [] else saved a) @ waiting a"

text \<open>The file takes all that is written, and either can always be opened or all the input fits into the buffer.\<close>

definition full_write :: "event \<Rightarrow> bool" where
  "full_write e = (case e of Input n (Some w) \<Rightarrow> BUFFER_SIZE \<le> w | _ \<Rightarrow> True)"

definition opened :: "event \<Rightarrow> bool" where
  "opened e = (case e of Input n None \<Rightarrow> False | _ \<Rightarrow> True)"

definition room :: "event list \<Rightarrow> progress \<Rightarrow> bool" where
  "room es a \<longleftrightarrow> length (waiting a) + length (to_come a) < BUFFER_SIZE \<or> (waiting a = [] \<and> list_all opened es)"

lemma round_keeps:
  assumes "round e a b" "cr \<notin> set (to_come a)" "full_write e" "room (e # es) a"
  shows "\<exists>d. to_come a = d @ to_come b \<and> shown b = shown a @ filter (\<lambda>c. c \<noteq> EOT) d \<and>
           all_text b = all_text a @ filter (\<lambda>c. c \<noteq> EOT) d \<and> room es b"
proof (cases e)
  case Alarm
  with assms(1) have "b = a" by blast
  moreover have "room es a" using assms(4) by (auto simp: room_def)
  ultimately show ?thesis by (intro exI [of _ "[]"]) simp
next
  case Blocked
  have "length (waiting a) < BUFFER_SIZE" using assms(4) unfolding room_def BUFFER_SIZE_def by fastforce
  with assms(1) Blocked have "b = a" by auto
  moreover have "room es a" using assms(4) by (auto simp: room_def)
  ultimately show ?thesis by (intro exI [of _ "[]"]) simp
next
  case (Input n w)
  from assms(1) [unfolded Input] obtain kept piece nx where
    kept: "kept = (if length (waiting a) < BUFFER_SIZE then waiting a else [])" and
    piece: "piece = take (min n (BUFFER_SIZE - length kept)) (to_come a)" and
    b: "b = write_out w (a\<lparr>waiting := put_text nx kept piece,
      to_come := drop (length piece) (to_come a), shown := shown a @ filter (\<lambda>c. c \<noteq> EOT) piece\<rparr>)"
    by (rule round_InputE)
  have "length (waiting a) < BUFFER_SIZE" using assms(4) unfolding room_def BUFFER_SIZE_def by fastforce
  then have k: "kept = waiting a" by (simp add: kept)
  with k have "length kept \<le> BUFFER_SIZE" using \<open>length (waiting a) < _\<close> by simp
  then have size: "length kept + length piece \<le> BUFFER_SIZE" by (simp add: piece)
  have nocr: "cr \<notin> set piece" using assms(2) by (auto simp: piece dest: in_set_takeD)
  let ?t = "filter (\<lambda>c. c \<noteq> EOT) piece"
  have put: "put_text nx kept piece = waiting a @ ?t" by (simp add: put_text_plain [OF nocr] k)
  have "length ?t \<le> length piece" by (rule length_filter_le)
  with size have len: "length (waiting a @ ?t) \<le> BUFFER_SIZE" unfolding length_append k by linarith
  have "take (length piece) (to_come a) = piece" by (simp add: piece min_def)
  then have "to_come a = piece @ drop (length piece) (to_come a)" by (metis append_take_drop_id)
  moreover have "to_come b = drop (length piece) (to_come a)" by (cases w) (simp_all add: b write_out_def)
  ultimately have rest: "to_come a = piece @ to_come b" by simp
  moreover have "shown b = shown a @ ?t" by (cases w) (simp_all add: b write_out_def)
  moreover have "all_text b = all_text a @ ?t"
    using assms(3) len by (cases w) (simp_all add: b write_out_def all_text_def put Input full_write_def)
  moreover have "length (waiting b) \<le> length (waiting a) + length piece"
    using length_filter_le [of "\<lambda>c. c \<noteq> EOT" piece] by (cases w) (simp_all add: b write_out_def put)
  moreover have "room es b"
    using assms(4) unfolding room_def
  proof (elim disjE conjE)
    assume "length (waiting a) + length (to_come a) < BUFFER_SIZE"
    moreover have "length (to_come a) = length piece + length (to_come b)" by (simp add: rest)
    ultimately have "length (waiting b) + length (to_come b) < BUFFER_SIZE"
      using \<open>length (waiting b) \<le> _\<close> by linarith
    then show "length (waiting b) + length (to_come b) < BUFFER_SIZE \<or> waiting b = [] \<and> list_all opened es" ..
  next
    assume o: "list_all opened (e # es)"
    then obtain k where "w = Some k" by (cases w) (auto simp: Input opened_def)
    then have "waiting b = []" by (simp add: b write_out_def)
    with o show "length (waiting b) + length (to_come b) < BUFFER_SIZE \<or> waiting b = [] \<and> list_all opened es" by simp
  qed
  ultimately show ?thesis by blast
qed

lemma trace_keeps:
  assumes "trace round a es b" "cr \<notin> set (to_come a)" "list_all full_write es" "room es a"
  shows "\<exists>d. to_come a = d @ to_come b \<and> shown b = shown a @ filter (\<lambda>c. c \<noteq> EOT) d \<and>
           all_text b = all_text a @ filter (\<lambda>c. c \<noteq> EOT) d"
  using assms
proof (induction es arbitrary: a)
  case Nil
  then show ?case by simp
next
  case (Cons e es)
  from Cons.prems(1) obtain a1 where a1: "round e a a1" "trace round a1 es b" by auto
  from Cons.prems have "full_write e" "list_all full_write es" by simp_all
  from round_keeps [OF a1(1) Cons.prems(2) this(1) Cons.prems(4)] obtain d where
    d: "to_come a = d @ to_come a1" "shown a1 = shown a @ filter (\<lambda>c. c \<noteq> EOT) d"
      "all_text a1 = all_text a @ filter (\<lambda>c. c \<noteq> EOT) d" "room es a1" by blast
  moreover from d(1) Cons.prems(2) have "cr \<notin> set (to_come a1)" by simp
  ultimately obtain d' where
    "to_come a1 = d' @ to_come b" "shown b = shown a1 @ filter (\<lambda>c. c \<noteq> EOT) d'"
      "all_text b = all_text a1 @ filter (\<lambda>c. c \<noteq> EOT) d'"
    using Cons.IH [OF a1(2)] \<open>list_all full_write es\<close> by blast
  with d show ?case by (intro exI [of _ "d @ d'"]) simp
qed

text \<open>
  C29. No text is lost or written twice: if the log file can always be opened, or else the input is
  shorter than the buffer, then after any number of rounds the file followed by the buffer is the old
  file, if it is appended to, followed by the input read so far without EOT. The same text was
  copied to the output. The input has no carriage return, which may erase text (C16 says what it erases), and no NUL byte,
  and a write to the file takes all it is given.
\<close>

theorem btee_keeps_text:
  assumes "bt_main argv old input events = Inl s" "cr \<notin> set input" "nul \<notin> set input"
    and "list_all full_write events" "length input < BUFFER_SIZE \<or> list_all opened events"
  shows "\<exists>d. input = d @ inp s \<and> stdout s = filter (\<lambda>c. c \<noteq> EOT) d \<and>
    (if truncating s then [] else logfile s) @ take (pos s) (buffer s) =
      (if hd (argv ! 1) = CHR ''a'' then old else []) @ filter (\<lambda>c. c \<noteq> EOT) d"
proof -
  have start: "cr \<notin> set (to_come (bt_start (hd (argv ! 1)) old input))" "room events (bt_start (hd (argv ! 1)) old input)"
    using assms(2,5) by (auto simp: bt_start_def room_def)
  from trace_keeps [OF bt_main_trace [OF assms(1,3)] start(1) assms(4) start(2)]
  show ?thesis by (auto simp: bt_abs_def bt_start_def all_text_def)
qed

text \<open>The first round.\<close>

lemma first_round:
  assumes "length argv = 3" "argv ! 1 \<noteq> []" "hd (argv ! 1) \<in> {CHR ''a'', CHR ''t''}" "input \<noteq> []" "0 < n"
  obtains s where "bt_main argv old input [Input n w] = Inl s" "truncating s \<longrightarrow> hd (argv ! 1) \<noteq> CHR ''a''"
    and "overrun s = (BUFFER_SIZE \<le> length (take n input))"
proof -
  define s0 where "s0 = \<lparr>buffer = replicate (BUFFER_SIZE + 1) nul, pos = 0, killme = 0, remove_zeros = False,
         truncating = (hd (argv ! 1) \<noteq> CHR ''a''), inp = input, stdout = [], logfile = old,
         alarm_set = False, overrun = False\<rparr>"
  define d where "d = take (min n BUFFER_SIZE) input"
  have r: "start_round s0 = s0" by (simp add: start_round_def s0_def BUFFER_SIZE_def)
  have "0 < min n BUFFER_SIZE" using assms(5) by (simp add: BUFFER_SIZE_def)
  then have d: "d \<noteq> []" using assms(4) by (simp add: d_def)
  let ?s = "save w (process_input (length d) (receive d s0))"
  have "pos s0 = 0" "inp s0 = input" by (simp_all add: s0_def)
  then have "bt_step (Input n w) s0 = Inl ?s" using d unfolding bt_step_def r Let_def event.case
    by (simp only: diff_zero d_def [symmetric] if_False)
  moreover have "bt_main argv old input [Input n w] = run_loop bt_step s0 [Input n w]"
    using assms(1-3) unfolding bt_main_def s0_def [symmetric] by auto
  ultimately have "bt_main argv old input [Input n w] = Inl ?s" by simp
  moreover have "truncating ?s \<longrightarrow> truncating s0"
    by (cases w) (simp_all add: save_def process_input_def squeeze_def Let_def)
  then have "truncating ?s \<longrightarrow> hd (argv ! 1) \<noteq> CHR ''a''" by (simp add: s0_def)
  moreover have "overrun ?s = (BUFFER_SIZE \<le> length d)"
    by (cases w) (auto simp: save_def process_input_def squeeze_def Let_def receive_def memcpy_at_def s0_def)
  then have "overrun ?s = (BUFFER_SIZE \<le> length (take n input))" by (simp add: d_def)
  ultimately show ?thesis by (rule that)
qed

lemma filter_eot_all: "filter (\<lambda>c. c \<noteq> EOT) (d :: string) = d" if "EOT \<notin> set d"
  using that by (auto simp: filter_id_conv)

theorem btee_keeps_text_witness:
  "\<exists>s. bt_main [''btee'', ''a'', ''log''] ''old '' ''text'' [Input 100 None] = Inl s \<and>
     (\<exists>d. ''text'' = d @ inp s \<and> logfile s @ take (pos s) (buffer s) = ''old '' @ d)"
proof -
  obtain s where s: "bt_main [''btee'', ''a'', ''log''] ''old '' ''text'' [Input 100 None] = Inl s" "\<not> truncating s"
    by (rule first_round [of "[''btee'', ''a'', ''log'']" "''text''" 100 "''old ''" None]) auto
  have "\<exists>d. ''text'' = d @ inp s \<and> stdout s = filter (\<lambda>c. c \<noteq> EOT) d \<and>
      (if truncating s then [] else logfile s) @ take (pos s) (buffer s) =
        (if hd ([''btee'', ''a'', ''log''] ! 1) = CHR ''a'' then ''old '' else []) @ filter (\<lambda>c. c \<noteq> EOT) d"
    by (rule btee_keeps_text [OF s(1)]) (simp_all add: cr_def nul_def full_write_def BUFFER_SIZE_def)
  then obtain d where d: "''text'' = d @ inp s" "logfile s @ take (pos s) (buffer s) = ''old '' @ filter (\<lambda>c. c \<noteq> EOT) d"
    using s(2) by auto
  have "EOT \<notin> set ''text''" by (simp add: EOT_def)
  then have "EOT \<notin> set d" using d(1) by (metis Un_iff set_append)
  with d s(1) show ?thesis by (auto simp: filter_eot_all)
qed

theorem btee_refines_witness:
  "\<exists>s a. bt_main [''btee'', ''t'', ''log''] [] [CHR ''a'', cr, CHR ''b''] [Input 100 None] = Inl s \<and>
     round (Input 100 None) (bt_start CHR ''t'' [] [CHR ''a'', cr, CHR ''b'']) a \<and> waiting a = take (pos s) (buffer s)"
proof -
  obtain s where s: "bt_main [''btee'', ''t'', ''log''] [] [CHR ''a'', cr, CHR ''b''] [Input 100 None] = Inl s"
    by (rule first_round [of "[''btee'', ''t'', ''log'']" "[CHR ''a'', cr, CHR ''b'']" 100 "[]" None]) auto
  have "nul \<notin> set [CHR ''a'', cr, CHR ''b'']" by (simp add: nul_def cr_def)
  from btee_refines [OF s this] s show ?thesis by auto
qed

section \<open>The write beyond the buffer\<close>

lemma overrun_step:
  assumes "bt_inv s" "bt_step e s = Inl s'" "overrun s'"
  shows "overrun s \<or> BUFFER_SIZE \<le> pos s + length (inp s)"
proof (cases e)
  case Alarm
  with assms show ?thesis by (auto simp: bt_step_def split: if_splits)
next
  case Blocked
  with assms show ?thesis by (auto simp: bt_step_def start_round_def Let_def split: if_splits)
next
  case (Input n w)
  let ?s = "start_round s"
  define d where "d = take (min n (BUFFER_SIZE - pos ?s)) (inp ?s)"
  have s': "s' = save w (process_input (length d) (receive d ?s))"
    using assms(2) Input by (auto simp: bt_step_def Let_def d_def split: if_splits)
  have "overrun s' = overrun (receive d ?s)"
    by (cases w) (auto simp: s' save_def process_input_def squeeze_def Let_def)
  moreover have "length d \<le> BUFFER_SIZE - pos ?s" by (simp add: d_def)
  with start_round_inv [OF assms(1)] have "pos ?s + length d \<le> BUFFER_SIZE" by linarith
  then have "length (memcpy_at (pos ?s) d (buffer ?s)) = BUFFER_SIZE + 1"
    using start_round_inv [OF assms(1)] by (simp add: memcpy_at_def bt_inv_def)
  moreover have "overrun ?s = overrun s" by (simp add: start_round_def Let_def)
  ultimately have "overrun s \<or> BUFFER_SIZE + 1 \<le> pos ?s + length d + 1"
    using assms(3) by (simp add: receive_def Let_def)
  moreover have "length d \<le> length (inp s)" by (simp add: d_def start_round_fields)
  moreover have "pos ?s \<le> pos s" by (simp add: start_round_fields)
  ultimately show ?thesis by linarith
qed

text \<open>As long as the input is shorter than the buffer, position and rest of the input leave room.\<close>

definition short_inv :: "btee \<Rightarrow> bool" where
  "short_inv s \<longleftrightarrow> bt_inv s \<and> pos s + length (inp s) < BUFFER_SIZE \<and> \<not> overrun s"

lemma length_text_of: "length (text_of s) \<le> length s"
  by (simp add: text_of_def)

lemma short_step:
  assumes "short_inv s" "bt_step e s = Inl s'"
  shows "short_inv s'"
proof -
  from assms(1) have inv: "bt_inv s" "pos s + length (inp s) < BUFFER_SIZE" "\<not> overrun s" by (auto simp: short_inv_def)
  have "pos s' + length (inp s') \<le> pos s + length (inp s)"
  proof (cases e)
    case Alarm
    with assms show ?thesis by (auto simp: bt_step_def split: if_splits)
  next
    case Blocked
    with assms show ?thesis by (auto simp: bt_step_def start_round_fields)
  next
    case (Input n w)
    let ?s = "start_round s"
    define d where "d = take (min n (BUFFER_SIZE - pos ?s)) (inp ?s)"
    define p where "p = process_input (length d) (receive d ?s)"
    have s': "s' = save w p" using assms(2) Input by (auto simp: bt_step_def Let_def d_def p_def split: if_splits)
    have "length d \<le> length (inp s)" by (simp add: d_def start_round_fields)
    moreover have "pos p \<le> pos s + length d"
      using length_filter_le [of "\<lambda>c. c \<noteq> nul" "take (pos ?s + length d) (buffer (scan_input (pos ?s) (length d) (receive d ?s)))"]
      by (auto simp: p_def process_input_def squeeze_def Let_def start_round_fields intro: order_trans)
    moreover have "inp p = drop (length d) (inp s)"
      by (simp add: p_def process_input_def squeeze_def Let_def receive_def start_round_fields)
    ultimately show ?thesis by (cases w) (simp_all add: s' save_def)
  qed
  with overrun_step [OF inv(1) assms(2)] bt_step_inv [OF inv(1) assms(2)] inv(2,3) show ?thesis
    by (auto simp: short_inv_def)
qed

interpretation short: event_loop bt_step short_inv "\<lambda>_. True"
  by unfold_locales (auto intro: short_step)

text \<open>
  C30. The program can be made to write beyond its buffer exactly if the input is at least as long as the
  buffer: a read that fills it is followed by a zero written two bytes behind its last one.
\<close>

theorem btee_overrun:
  assumes "length argv = 3" "argv ! 1 \<noteq> []" "hd (argv ! 1) \<in> {CHR ''a'', CHR ''t''}"
  shows "(\<exists>events s. bt_main argv old input events = Inl s \<and> overrun s) \<longleftrightarrow> BUFFER_SIZE \<le> length input"
proof
  assume "\<exists>events s. bt_main argv old input events = Inl s \<and> overrun s"
  then obtain events s s0 where s: "overrun s" "run_loop bt_step s0 events = Inl s" "bt_inv s0" "pos s0 = 0" "\<not> overrun s0"
    "bt_abs s0 = bt_start (hd (argv ! 1)) old input" using bt_main_run by blast
  then have "inp s0 = input" by (simp add: bt_abs_def bt_start_def)
  with s short.run_inv [of s0 events s] show "BUFFER_SIZE \<le> length input"
    by (cases "length input < BUFFER_SIZE") (auto simp: short_inv_def)
next
  assume long: "BUFFER_SIZE \<le> length input"
  then have "input \<noteq> []" by (auto simp: BUFFER_SIZE_def)
  from first_round [OF assms this, of BUFFER_SIZE old None] obtain s where
    "bt_main argv old input [Input BUFFER_SIZE None] = Inl s" "overrun s = (BUFFER_SIZE \<le> length (take BUFFER_SIZE input))"
    by (auto simp: BUFFER_SIZE_def)
  with long show "\<exists>events s. bt_main argv old input events = Inl s \<and> overrun s" by auto
qed

theorem btee_overrun_witness:
  "\<not> (\<exists>events s. bt_main [''btee'', ''a'', ''log''] [] ''short'' events = Inl s \<and> overrun s)"
  using btee_overrun [of "[''btee'', ''a'', ''log'']" "[]" "''short''"] by (simp add: BUFFER_SIZE_def)

section \<open>The end\<close>

lemma see_rest: "i < length (buffer s) \<Longrightarrow> drop (Suc i) (buffer (see_cr i (see_eot i s))) = drop (Suc i) (buffer s)"
  by (simp add: see_cr_def see_eot_def wipe_rest)

lemma see_killme:
  "i < length (buffer s) \<Longrightarrow>
     killme (see_cr i (see_eot i s)) = (if buffer s ! i = EOT \<and> killme s = 0 then 1 else killme s)"
  by (auto simp: see_cr_def see_eot_def control_chars control_chars [symmetric])

lemma scan_killme:
  "i + n \<le> length (buffer s) \<Longrightarrow> killme (scan_input i n s) =
     (if EOT \<in> set (take n (drop i (buffer s))) \<and> killme s = 0 then 1 else killme s)"
proof (induction i n s rule: scan_input.induct)
  case (1 i s)
  then show ?case by simp
next
  case (2 i n s)
  then have i: "i < length (buffer s)" by simp
  then have "take (Suc n) (drop i (buffer s)) = buffer s ! i # take n (drop (Suc i) (buffer s))"
    by (simp add: Cons_nth_drop_Suc [symmetric])
  with 2 i show ?case by (simp add: see_killme see_rest)
qed

text \<open>The alarm is set in the round after an EOT was read.\<close>

definition alarm_inv :: "string \<Rightarrow> btee \<Rightarrow> bool" where
  "alarm_inv input s \<longleftrightarrow> bt_inv s \<and> killme s \<in> {-1, 0, 1} \<and> (alarm_set s \<longleftrightarrow> killme s = -1) \<and>
     (\<exists>d. input = d @ inp s \<and> (killme s = 0 \<longleftrightarrow> EOT \<notin> set d))"

lemma alarm_step:
  assumes "alarm_inv input s" "bt_step (Input n w) s = Inl s'"
  shows "alarm_inv input s'" and "killme s \<noteq> 0 \<Longrightarrow> alarm_set s'"
proof -
  let ?s = "start_round s"
  define d where "d = take (min n (BUFFER_SIZE - pos ?s)) (inp ?s)"
  define p where "p = process_input (length d) (receive d ?s)"
  have inv: "bt_inv s" and k: "killme s \<in> {-1, 0, 1}" "alarm_set s \<longleftrightarrow> killme s = -1"
    using assms(1) by (auto simp: alarm_inv_def)
  from assms(1) obtain c where c: "input = c @ inp s" "killme s = 0 \<longleftrightarrow> EOT \<notin> set c" by (auto simp: alarm_inv_def)
  have s': "s' = save w p" using assms(2) by (auto simp: bt_step_def Let_def d_def p_def split: if_splits)
  from start_round_inv [OF inv] have r: "bt_inv ?s" "pos ?s < BUFFER_SIZE" by auto
  have "length d \<le> BUFFER_SIZE - pos ?s" by (simp add: d_def)
  with r(2) have le: "pos ?s + length d \<le> BUFFER_SIZE" by linarith
  have start: "killme ?s = (if killme s = 1 then -1 else killme s)" "alarm_set ?s \<longleftrightarrow> alarm_set s \<or> killme s = 1"
    by (auto simp: start_round_def Let_def)
  have len: "length (buffer (receive d ?s)) = BUFFER_SIZE + 1"
    using r(1) le length_receive [of ?s d] by (simp add: bt_inv_def)
  have "killme s' = killme (scan_input (pos ?s) (length d) (receive d ?s))"
    by (cases w) (simp_all add: s' save_def p_def process_input_def squeeze_def Let_def)
  also have "\<dots> = (if EOT \<in> set d \<and> killme ?s = 0 then 1 else killme ?s)"
    using scan_killme [of "pos ?s" "length d" "receive d ?s"] len le by (simp add: receive_buffer(2) [OF r(1) le])
  finally have kill: "killme s' = (if EOT \<in> set d \<and> killme ?s = 0 then 1 else killme ?s)" .
  have alarm: "alarm_set s' = alarm_set ?s"
    by (cases w) (simp_all add: s' save_def p_def process_input_def squeeze_def Let_def)
  have "inp s' = drop (length d) (inp s)"
    by (cases w) (simp_all add: s' save_def p_def process_input_def squeeze_def Let_def receive_def start_round_fields)
  moreover have "take (length d) (inp s) = d" by (simp add: d_def start_round_fields min_def)
  ultimately have "inp s = d @ inp s'" by (metis append_take_drop_id)
  then have "input = (c @ d) @ inp s'" using c(1) by simp
  moreover have "killme s' = 0 \<longleftrightarrow> EOT \<notin> set (c @ d)" using kill start(1) c(2) k(1) by auto
  ultimately show "alarm_inv input s'"
    using bt_step_inv [OF inv assms(2)] kill start alarm k unfolding alarm_inv_def by auto
  show "killme s \<noteq> 0 \<Longrightarrow> alarm_set s'" using alarm start(2) k by auto
qed

lemma blocked_step:
  assumes "alarm_inv input s"
  shows "alarm_inv input (start_round s)" "killme s \<noteq> 0 \<Longrightarrow> alarm_set (start_round s)" "inp (start_round s) = inp s"
    "killme s = 0 \<Longrightarrow> \<not> alarm_set (start_round s)"
proof -
  have "bt_inv (start_round s)" using assms start_round_inv [of s] by (simp add: alarm_inv_def)
  then show "alarm_inv input (start_round s)" "killme s \<noteq> 0 \<Longrightarrow> alarm_set (start_round s)" "inp (start_round s) = inp s"
    "killme s = 0 \<Longrightarrow> \<not> alarm_set (start_round s)"
    using assms by (auto simp: alarm_inv_def start_round_def Let_def)
qed

lemma alarm_step_any: "alarm_inv input s \<Longrightarrow> bt_step e s = Inl s' \<Longrightarrow> alarm_inv input s'"
  by (cases e) (auto simp: bt_step_def [of Alarm] bt_step_def [of Blocked] split: if_splits intro: alarm_step blocked_step)

interpretation alarm: event_loop bt_step "alarm_inv input" "\<lambda>_. True" for input
  by unfold_locales (auto intro: alarm_step_any)

lemma eot_ends:
  assumes "bt_main argv old input events = Inl s" "input = d @ inp s"
  shows "if EOT \<in> set d then bt_main argv old input (events @ [Blocked, Alarm]) = Inr 1
         else \<exists>s'. bt_main argv old input (events @ [Blocked, Alarm]) = Inl s' \<and> inp s' = inp s"
proof -
  from bt_main_run [OF assms(1)] obtain s0 where s0: "run_loop bt_step s0 events = Inl s" "bt_inv s0" by blast
  have main: "bt_main argv old input evs = run_loop bt_step
        \<lparr>buffer = replicate (BUFFER_SIZE + 1) nul, pos = 0, killme = 0, remove_zeros = False,
         truncating = (hd (argv ! 1) \<noteq> CHR ''a''), inp = input, stdout = [], logfile = old,
         alarm_set = False, overrun = False\<rparr> evs" (is "_ = run_loop _ ?s0 _") for evs
    using assms(1) unfolding bt_main_def by (auto split: if_splits)
  have "alarm_inv input ?s0" by (simp add: alarm_inv_def bt_inv_def)
  from alarm.run_inv [OF this] assms(1) have inv: "alarm_inv input s" by (simp add: main)
  then have k: "killme s = 0 \<longleftrightarrow> EOT \<notin> set d" using assms(2) by (auto simp: alarm_inv_def)
  have run: "run_loop bt_step ?s0 (events @ evs) = run_loop bt_step s evs" for evs
    using assms(1) by (simp add: main run_loop_append)
  show ?thesis
  proof (cases "EOT \<in> set d")
    case True
    with blocked_step(2) [OF inv] k have "run_loop bt_step s [Blocked, Alarm] = Inr 1" by (simp add: bt_step_def)
    with True show ?thesis by (simp only: main run simp_thms if_True)
  next
    case False
    with blocked_step(3,4) [OF inv] k have "run_loop bt_step s [Blocked, Alarm] = Inl (start_round s)" "inp (start_round s) = inp s"
      by (simp_all add: bt_step_def)
    with False show ?thesis unfolding main run by simp
  qed
qed

text \<open>
  The reader ends after an EOT, and the alarm never stops it before: once an EOT was read, whatever else was read and
  whether or not the file can be written, the first alarm that goes off while the program waits for input ends it; as
  long as none was read, no alarm can end it.
\<close>

theorem btee_ends:
  assumes "bt_main argv old input events = Inl s" "input = d @ inp s"
  shows "if EOT \<in> set d then bt_main argv old input (events @ [Blocked, Alarm]) = Inr 1
         else \<exists>s'. bt_main argv old input (events @ [Blocked, Alarm]) = Inl s' \<and> inp s' = inp s"
  using assms by (rule eot_ends)

theorem btee_ends_witness:
  "bt_main [''btee'', ''a'', ''log''] [] [CHR ''x'', EOT] ([Input 100 None] @ [Blocked, Alarm]) = Inr 1"
proof -
  obtain s where s: "bt_main [''btee'', ''a'', ''log''] [] [CHR ''x'', EOT] [Input 100 None] = Inl s" "inp s = []"
  proof (rule first_round [of "[''btee'', ''a'', ''log'']" "[CHR ''x'', EOT]" 100 "[]" None])
    fix s assume "bt_main [''btee'', ''a'', ''log''] [] [CHR ''x'', EOT] [Input 100 None] = Inl s"
    moreover from this have "inp s = []"
      by (auto simp: bt_main_def bt_step_def start_round_def Let_def BUFFER_SIZE_def save_def process_input_def squeeze_def receive_def
          simp del: scan_input.simps split: if_splits)
    ultimately show thesis by (rule that)
  qed simp_all
  from btee_ends [OF s(1), of "[CHR ''x'', EOT]"] s(2) show ?thesis by simp
qed

end
