(* ===== verification/Spec2Isabelle.thy ===== *)
theory Spec2Isabelle
  imports Prelude CLib FlStparse FlWrparse BashProfiler
    Dialog DialogRows DialogColors DialogMenu DialogList DialogInput DialogText ConfDialog
    Md5 ModeMuncher LuaApi LuaMatch LuaStrlib LuaLex LuaDump LuaPosix LuaBash LuaZlib IfEnslave IpCalc SerPnp SamTokenize SmallTools
    CmdWrapper ExecWrapper Rc Btee
begin

text \<open>
  The C programs of the T2 system development environment.

  T2 builds whole Linux systems from package descriptions. Its logic is mostly shell scripts; the C programs
  are the tools those scripts rely on and small programs of the systems that are built. They are separate
  processes that meet in the environment, in files and on the terminal:

  \<^item> While a package is built, every compiler call goes through the command wrapper
    (\<^verbatim>\<open>misc/tools-source/cmd_wrapper.c\<close>), and the files a build writes are logged, either by a preloaded library,
    whose exec functions are in \<^verbatim>\<open>fl_wrapper_execl.c\<close> and whose log \<^verbatim>\<open>fl_wrparse.c\<close> reads, or by \<^verbatim>\<open>strace\<close>, whose log
    \<^verbatim>\<open>fl_stparse.c\<close> reads. \<^verbatim>\<open>getfiles.c\<close> and \<^verbatim>\<open>getdu.c\<close> read the resulting lists; \<^verbatim>\<open>bash_profiler.c\<close> times the scripts.
  \<^item> The configuration is asked for by the dialog program (\<^verbatim>\<open>misc/confdialog\<close>), from scripts that may be written in Lua
    with the bash builtin and the libraries of \<^verbatim>\<open>misc/luabash\<close> and the zlib binding \<^verbatim>\<open>misc/lua/lzlib\<close>.
  \<^item> Built systems contain \<^verbatim>\<open>rc\<close>, which starts init scripts and sends their output through \<^verbatim>\<open>btee\<close>, the tokenizer of
    the administration manager \<^verbatim>\<open>sam\<close>, \<^verbatim>\<open>ifenslave\<close>, \<^verbatim>\<open>ipnm2nwbc\<close> and \<^verbatim>\<open>serpnp\<close> (under \<^verbatim>\<open>package\<close>).

  How the theories correspond to the code. Every theory models one program or one part of it: a C struct or the
  variables of a loop are a record, a function of the code is a definition with its name, a loop is a recursive
  function, and an error exit is a branch of its result. What is outside of a program (the kernel, a file system, the
  keys typed, the bytes that arrive, the time) is a parameter or a list of events.

  \<^item> \<open>Prelude\<close>: lists, and the interfaces that several programs implement, as locales: growing arrays (\<open>grow_array\<close>, for the
    wrapper and the exec functions), event loops with an invariant (\<open>event_loop\<close>), with an abstract specification
    (\<open>loop_refinement\<close>, \<open>loop_simulation\<close>), and accumulators fed in pieces (\<open>streaming\<close>).
  \<^item> \<open>CLib\<close>: the functions of the C library on strings (\<open>strtok\<close>, \<open>strstr\<close>, \<open>sscanf\<close>, \<open>fgets\<close>, \<open>atoi\<close>, \<open>basename\<close>).
  \<^item> \<open>CmdWrapper\<close>: \<^verbatim>\<open>cmd_wrapper.c\<close>. Environment, configuration variables, the argument vector, chaining of wrappers; which
    command is executed, with which arguments and environment, that the vector never overflows, and that a wrapper does
    not call itself for ever.
  \<^item> \<open>FlStparse\<close>: \<^verbatim>\<open>fl_stparse.c\<close>. The table of processes (locale \<open>proc_table\<close>), the recognition of lines, and that the
    parser refines a map from processes to working directories.
  \<^item> \<open>ExecWrapper\<close>: \<^verbatim>\<open>fl_wrapper_execl.c\<close>. The argument array on the stack and the search through \<open>PATH\<close>.
  \<^item> \<open>FlWrparse\<close>: \<^verbatim>\<open>fl_wrparse.c\<close>, \<^verbatim>\<open>getfiles.c\<close>, \<^verbatim>\<open>getdu.c\<close>. Real names below a root, and what is listed.
  \<^item> \<open>BashProfiler\<close>: \<^verbatim>\<open>bash_profiler.c\<close>. The list of stop watches is a table, and what it measures.
  \<^item> \<open>Dialog\<close>, \<open>DialogRows\<close>, \<open>DialogColors\<close>, \<open>DialogMenu\<close>, \<open>DialogList\<close>, \<open>DialogInput\<close>, \<open>DialogText\<close>, \<open>ConfDialog\<close>: \<^verbatim>\<open>util.c\<close>,
    \<^verbatim>\<open>colors.h\<close>, \<^verbatim>\<open>menubox.c\<close>, \<^verbatim>\<open>checklist.c\<close>, \<^verbatim>\<open>inputbox.c\<close>, \<^verbatim>\<open>textbox.c\<close>, \<^verbatim>\<open>yesno.c\<close>, \<^verbatim>\<open>msgbox.c\<close> and \<^verbatim>\<open>confdialog.c\<close>. Drawing is
    a list of curses calls; a grid of cells without margins satisfies the laws of curses that are used (locale \<open>curses\<close>); \<open>DialogRows\<close> has the
    window with its margins and shows that both agree as long as the code writes inside of it. \<open>item_rows\<close> is what the
    scrolling boxes share. For each box: that its loop refines a specification of where the user is, what
    the screen shows, and what the dialog returns.
  \<^item> \<open>Md5\<close>: \<^verbatim>\<open>md5.c\<close> and \<^verbatim>\<open>md5lib.c\<close>, against the algorithm of RFC 1321, on machines of either byte order.
  \<^item> \<open>ModeMuncher\<close>: \<^verbatim>\<open>modemuncher.c\<close> of the posix library. Printing and reading modes, and changes as sets of bits (the two
    letter loops are instances of the locale \<open>letter_loop\<close>).
  \<^item> \<open>IfEnslave\<close>: \<^verbatim>\<open>ifenslave.c\<close>. Requests to a kernel that is an arbitrary function of the requests so far; attaching
    an interface is a transaction with roll-back (the loops over slaves are instances of \<open>status_loop\<close>).
  \<^item> \<open>IpCalc\<close>: \<^verbatim>\<open>ipnm2nwbc.c\<close>. Network and broadcast addresses in 32-bit arithmetic, and when the program ends.
  \<^item> \<open>Btee\<close>: \<^verbatim>\<open>btee.c\<close>. The buffer refines a specification of the text that waits to be written; nothing is lost; when
    the program writes beyond the buffer; and that it ends after an EOT, at the first alarm while it waits for input.
  \<^item> \<open>Rc\<close>: \<^verbatim>\<open>rc.c\<close>. The set-up of the process as system calls in order, of which the checked ones must succeed before the
    script runs, and the command that is put together in a fixed buffer.
  \<^item> \<open>LuaApi\<close>: the values of Lua and the checks of arguments, for the modules written for it (\<^verbatim>\<open>lauxlib.c\<close>, \<^verbatim>\<open>lapi.c\<close>).
  \<^item> \<open>LuaMatch\<close>, \<open>LuaStrlib\<close>: \<^verbatim>\<open>lstrlib.c\<close> of the embedded Lua. The pattern matcher, which backtracks with captures that it
    updates in place, finds the first way of a specification and stays inside of its strings; the functions of the
    library, with what find, match and gsub give.
  \<^item> \<open>LuaLex\<close>: \<^verbatim>\<open>llex.c\<close>. Tokens that are written are read back, strings in the form that \<^verbatim>\<open>string.format\<close> gives them.
  \<^item> \<open>LuaDump\<close>: \<^verbatim>\<open>ldump.c\<close> and \<^verbatim>\<open>lundump.c\<close>. Functions written as bytes are loaded as they were; what is refused.
  \<^item> \<open>LuaPosix\<close>: \<^verbatim>\<open>lposix.c\<close>. The functions of the posix library over a system of parameters: selectors (locale \<open>selection\<close>, with an
    interpretation for each of the six tables of names), modes given from \<open>stat\<close> to \<open>chmod\<close>, the mask, the environment,
    and the form of the results.
  \<^item> \<open>LuaBash\<close>: \<^verbatim>\<open>luabash.c\<close>. The builtin over sessions of calls, the layout of the commands Lua code builds for the shell
    that runs, and functions of the shell that call back into Lua.
  \<^item> \<open>LuaZlib\<close>: \<^verbatim>\<open>lzlib.c\<close>. Results of the operations, the growing buffer and the lines a loop over a file gets.
  \<^item> \<open>SamTokenize\<close>: \<^verbatim>\<open>tokenize.c\<close>. The words of a line, and when the tokenizer reads in front of it.
  \<^item> \<open>SmallTools\<close>: \<^verbatim>\<open>cdromchk.c\<close>, \<^verbatim>\<open>ccat.c\<close>, \<^verbatim>\<open>tcp-client.c\<close>, \<^verbatim>\<open>xctrld.c\<close> and \<^verbatim>\<open>freeramdisk.c\<close> over reads and writes that
    may take a part or fail: what is accepted, copied and passed on.
  \<^item> \<open>SerPnp\<close>: \<^verbatim>\<open>serpnp.c\<close>. Identifications that a device sends are read back, and the fields lie in the message (the
    parsers of the optional fields are instances of the locale \<open>option_parser\<close>).
  \<^item> This theory: what spans two programs, the command wrapper with the exec functions that run what it hands over,
    \<^verbatim>\<open>fl_stparse\<close> with \<^verbatim>\<open>fl_wrparse\<close>, which reads its log, and \<^verbatim>\<open>rc\<close> with the \<^verbatim>\<open>btee\<close> it starts.

  Bounds and fuel. No definition of the code needs fuel (the loop \<open>for_lines\<close> of a Lua program over a file, which may
  go on for ever, counts its rounds) but \<open>load\_function\<close> in \<open>LuaDump\<close>, whose depth is bounded by the length of the chunk
  (\<open>depth\_suffices\<close>). Loops over input end because it gets shorter, and have their
  \<open>termination\<close> proofs; the loops of \<open>IpCalc\<close> and \<open>LuaZlib\<close> that need not end are functions into \<open>option\<close>, and the theorems there
  say when they return. Interactive loops are run over any finite list of keys or events. Machine
  integers have their width where the code relies on it or breaks on it (\<open>Md5\<close>, \<open>ModeMuncher\<close>, \<open>SerPnp\<close>, sizes in \<open>FlWrparse\<close> and \<open>LuaZlib\<close>);
  elsewhere they are unbounded. The sizes of fixed buffers (8191 bytes in \<open>Btee\<close>, 256 in \<open>SerPnp\<close>, 4096 for names, 512
  processes in \<open>FlStparse\<close>) are those of the code.

  What is not modelled, and why: the Lua interpreter under \<^verbatim>\<open>misc/luabash/lua\<close> is the third-party distribution, of which
  the parts named above are modelled, and not the parser, the code generator, the virtual machine and the collector;
  the rest of \<^verbatim>\<open>misc/archive\<close> has no logic to state a property of; the C++ tools under \<^verbatim>\<open>src\<close>, the scripts and the package
  descriptions are not C. Messages to the user are left out unless a property is about them, and so is the
  registration of C functions with Lua. The libraries behind the bindings (zlib, the internals of bash, the Lua
  interpreter) are parameters.
\<close>

section \<open>The command wrapper and the exec functions\<close>

text \<open>
  C1. A command called through the wrapper runs outside of the wrapper directory: the argument vector and the
  environment that \<open>cw\_main\<close> hands to \<open>execvp\<close> make it try the program name in the directories
  of the old \<open>PATH\<close> without the wrapper directory, in their order; no name that is tried is the one that the wrapper
  itself has in its directory. If no other directory is left, the name is taken in the working directory.
  This is the plain use of the wrapper, in which the variables \<open>BYPASS\<close> and \<open>NOLOOP\<close> of its family are not set, and \<open>OTHERS\<close>
  (which would run another wrapper, with \<open>PATH\<close> as it was) and \<open>FILTER\<close> (which may replace the command) are not set or
  empty. Directories are compared as they are spelt in \<open>PATH\<close> and in \<open>MYPATH\<close>, as the code does: another
  spelling of the wrapper directory, or a link to it, is kept in the list and tried.
\<close>

theorem wrapper_runs_tool:
  assumes "argv \<noteq> []" "skip_name my argv = Some (tool # args)" "tool \<noteq> []" "CHR ''/'' \<notin> set tool"
    and "env (wvar pfx ''BYPASS'') = None"
    and "env (wvar pfx ''OTHERS'') \<in> {None, Some []}" "env (wvar pfx ''FILTER'') \<in> {None, Some []}"
    and "env ''PATH'' = Some path" "path \<noteq> []"
    and "env (wvar pfx ''MYPATH'') = Some wrdir" "wrdir \<noteq> []"
    and "env (wvar pfx ''NOLOOP'') = None"
  shows "\<exists>e l xs. cw_main pfx my w env argv = CwExec (tool # xs) e l 254 \<and>
    (let dirs = filter (\<lambda>d. d \<noteq> wrdir) (tokens CHR '':'' path)
     in execvp k confstr e tool (tool # xs) =
          (if dirs = [] then try_exec k e tool (tool # xs)
           else search_result (map (\<lambda>d. try_exec k e (candidate tool d) (tool # xs)) dirs)) \<and>
        (\<forall>d \<in> set dirs. candidate tool d \<noteq> candidate tool wrdir))"
proof -
  define dirs where "dirs = filter (\<lambda>d. d \<noteq> wrdir) (tokens CHR '':'' path)"
  from plain_run [OF assms(1,2,5-12), of w] obtain e l xs where
    run: "cw_main pfx my w env argv = CwExec (tool # xs) e l 254" "e ''PATH'' = Some (join CHR '':'' dirs)"
    by (auto simp: dirs_def)
  have d: "\<forall>d \<in> set dirs. CHR '':'' \<notin> set d" "[] \<notin> set dirs" by (auto simp: dirs_def tokens_delim)
  have "execvp k confstr e tool (tool # xs) = path_search k e tool (tool # xs) False (join CHR '':'' dirs)"
    using assms(3,4) by (simp add: execvp_def run(2))
  also have "\<dots> = (if dirs = [] then try_exec k e tool (tool # xs)
      else search_result (map (\<lambda>d. try_exec k e (candidate tool d) (tool # xs)) dirs))"
  proof (cases "dirs = []")
    case True
    have "path_search k e tool (tool # xs) False [] = decide False [try_exec k e tool (tool # xs)]"
      using path_search_result [of "[[]]" k e tool "tool # xs" False] by (simp add: candidate_def)
    then show ?thesis using True by (simp add: decide_single)
  qed (use path_search_result d(1) in \<open>simp add: search_result_def\<close>)
  finally have "execvp k confstr e tool (tool # xs) = \<dots>" .
  moreover have "\<forall>d \<in> set dirs. candidate tool d \<noteq> candidate tool wrdir"
    using d(2) assms(11) by (auto simp: candidate_def dirs_def)
  ultimately show ?thesis using run(1) unfolding Let_def dirs_def [symmetric] by blast
qed

theorem wrapper_runs_tool_witness:
  "\<exists>e l xs. cw_main ''CC'' ''cmd_wrapper'' demo_world demo_env [''/w/gcc'', ''-Wall'', ''-c'', ''a.c''] = CwExec (''gcc'' # xs) e l 254 \<and>
     execvp (\<lambda>p a e. if p = ''/bin/gcc'' then None else Some ENOENT) [] e ''gcc'' (''gcc'' # xs) = Executed ''/bin/gcc'' (''gcc'' # xs)"
proof -
  let ?k = "\<lambda>p a e. if p = ''/bin/gcc'' then None else Some ENOENT"
  have s: "skip_name ''cmd_wrapper'' [''/w/gcc'', ''-Wall'', ''-c'', ''a.c''] = Some (''gcc'' # [''-Wall'', ''-c'', ''a.c''])"
    by (simp add: skip_name_def basename_def)
  have f: "filter (\<lambda>d. d \<noteq> ''/w'') (tokens CHR '':'' ''/w:/bin'') = [''/bin'']" by (simp add: tokens_def)
  from wrapper_runs_tool [OF _ s, of demo_env "''CC''" "''/w:/bin''" "''/w''" demo_world ?k "[]"]
  obtain e l xs where r: "cw_main ''CC'' ''cmd_wrapper'' demo_world demo_env [''/w/gcc'', ''-Wall'', ''-c'', ''a.c''] = CwExec (''gcc'' # xs) e l 254"
    "execvp ?k [] e ''gcc'' (''gcc'' # xs) = search_result [try_exec ?k e ''/bin/gcc'' (''gcc'' # xs)]"
    by (auto simp: f candidate_def Let_def demo_env_def wvar_def)
  have "search_result [try_exec ?k e ''/bin/gcc'' (''gcc'' # xs)] = Executed ''/bin/gcc'' (''gcc'' # xs)"
    by (simp add: search_result_def decide_single try_exec_def exec_call_def)
  with r show ?thesis by metis
qed

section \<open>The trace of a build and its file list\<close>

text \<open>The lines of the log in the form of which \<open>fl\_wrparse\<close> takes the names.\<close>

lemma itoa_plain: "x \<in> set (itoa q) \<Longrightarrow> c_isdigit x \<or> x = CHR ''-''"
  by (auto simp: itoa_def split: if_splits dest: nat_digits_digits [THEN bspec])

lemma logged_line_names:
  assumes "dir \<noteq> []" "CHR ''/'' \<notin> set base" "newline \<notin> set (dir @ base)" "nul \<notin> set (dir @ base)" "stripinfo c"
  shows "names_entry c ((itoa q @ '': '' @ dir @ CHR ''/'' # base) @ [newline]) (itoa q @ '':'', dir, base)"
proof -
  have sep: "x \<notin> set (itoa q @ '':'')" if "\<not> c_isdigit x" "x \<noteq> CHR ''-''" "x \<noteq> CHR '':''" for x
    using that itoa_plain [of x q] by auto
  from name_behind [OF sep sep _ _ _ _ assms(5), of "CHR '' ''" "dir @ CHR ''/'' # base"] assms sep [of nul] show ?thesis
    by (simp add: names_entry_def entry_name_def nul_def newline_def c_isdigit_def code_def)
qed

text \<open>
  C6. The file list of a traced build: on every trace the parser can follow, \<open>fl\_wrparse\<close>, called the way the
  build script does on the log that \<open>fl\_stparse\<close> writes, prints exactly the files the specification of the
  trace says were written, that exist and lie below the root, in the order of the calls and with names relative
  to the root.
\<close>

theorem strace_file_list:
  assumes "fgets_all 1024 trc = line # lines" "sscanf line ''%d'' = [CInt p]" "p \<noteq> 0"
    and "newproc p d empty_procs = Some ps" "trace_ok k (line # lines) \<lparr>procs = ps, wlog = [], rlog = []\<rparr>"
    and "spec_loop k (map classify (line # lines)) \<lparr>dirs = [p \<mapsto> d], written = [], read_only = []\<rparr> = Some t"
    and "written t = map (\<lambda>(q, dir, base). (q, dir @ CHR ''/'' # base)) es"
    and "list_all (\<lambda>(q, dir, base). dir \<noteq> [] \<and> CHR ''/'' \<notin> set base \<and> newline \<notin> set (dir @ base) \<and>
        nul \<notin> set (dir @ base) \<and> length (itoa q @ dir @ base) + 4 < FILENAME_MAX) es"
    and "rdir \<noteq> []" "absolute fs rdir rt" "absolute fs rt rt" "absolute fs (rt @ ''/'') rt" "rt \<noteq> ''/''"
  shows "\<exists>s. st_main k d trc = Some s \<and>
    wr_main fs here [(CHR ''D'', []), (CHR ''s'', []), (CHR ''r'', rdir @ ''/'')] (log_lines (wlog s)) =
      (Some 0, concat (map (\<lambda>n. n @ [newline]) (concat (map (\<lambda>(q, dir, base). listed fs rt ([], dir, base)) es))))"
proof -
  let ?c = "\<lparr>nodircheck = True, stripinfo = True, package = None, rootdir = Some (rt @ ''/'')\<rparr>"
  let ?les = "map (\<lambda>(q, dir, base). (itoa q @ '': '' @ dir @ CHR ''/'' # base, itoa q @ '':'', dir, base)) es"
  obtain s where s: "st_main k d trc = Some s" "abs_st s = t"
    using st_main_refines [OF assms(1-5)] assms(6) by auto
  then have "log_lines (wlog s) = concat (map (\<lambda>(l, e). l @ [newline]) ?les)"
    using assms(7) by (auto simp: abs_st_def log_lines_def comp_def case_prod_unfold)
  moreover have "list_all (\<lambda>(l, e). names_entry ?c (l @ [newline]) e \<and> newline \<notin> set l \<and> Suc (length l) < FILENAME_MAX) ?les"
  proof -
    have "newline \<notin> set (itoa q)" for q using itoa_plain [of newline q] by (auto simp: newline_def c_isdigit_def code_def)
    then show ?thesis using assms(8) logged_line_names [of _ _ ?c] by (auto simp: list_all_iff newline_def)
  qed
  moreover have "listed fs rt (itoa q @ '':'', e) = listed fs rt ([], e)" for q e
    by (cases e) (simp add: listed_def real_name_def entry_name_def)
  ultimately show ?thesis using wr_main_named [OF assms(9-13) refl, of ?les here] s(1)
    by (simp add: comp_def case_prod_unfold)
qed

theorem strace_file_list_witness:
  "\<exists>s. st_main (\<lambda>d p. p) ''/src'' ''7 open(\"/build/usr/bin\", O_WRONLY) '' = Some s \<and>
     wr_main demo_fs ''/root'' [(CHR ''D'', []), (CHR ''s'', []), (CHR ''r'', ''build/'')] (log_lines (wlog s)) =
       (Some 0, ''usr/bin'' @ [newline])"
proof -
  let ?l = "''7 open(\"/build/usr/bin\", O_WRONLY) ''" and ?ps = "\<lparr>pid = 7, cwd = Some ''/src''\<rparr> # replicate 511 \<lparr>pid = 0, cwd = None\<rparr>"
  have i: "itoa 7 = ''7''" by code_simp
  have l: "fgets_all 1024 ?l = [?l]"
    by (simp add: fgets_all.simps [of 1024 ?l] fgets_all.simps [of 1024 "[]"] fgets_def line_end_def newline_def)
  have p: "sscanf ?l ''%d'' = [CInt 7]" by (simp add: cstr_simps)
  have c: "classify ?l = Open 7 ''/build/usr/bin'' False False"
    using classify_open [of "''/build/usr/bin''" "''O_WRONLY)''" 7] by (simp add: i c_isspace_def)
  have t: "trace_ok (\<lambda>d p. p) [?l] \<lparr>procs = ?ps, wlog = [], rlog = []\<rparr>"
    by (simp add: c split: option.split)
  from strace_file_list [OF l p _ newproc_empty t,
      of "\<lparr>dirs = [7 \<mapsto> ''/src''], written = [(7, ''/build/usr/bin'')], read_only = []\<rparr>" "[(7, ''/build/usr'', ''bin'')]"
        "''build''" demo_fs "''/build''" "''/root''"]
  show ?thesis
    by (simp add: c spec_path_def demo_fs_def absolute_def listed_def real_name_def FlWrparse.go_to_def entry_name_def i
        newline_def nul_def FILENAME_MAX_def Let_def)
qed

section \<open>The script starter and the log reader\<close>



end
